(* ===== verification/Prelude.thy ===== *)
theory Prelude
  imports Main
begin

unbundle bit_operations_syntax

text \<open>
  The vocabulary every component shares: JavaScript numbers with \<open>NaN\<close>, reads of a
  \<open>Buffer\<close> past its end, the bit operators (which go through a signed 32-bit integer),
  strings as lists of UTF-16 code units, and the generic lemmas on lists the component
  proofs use.  Collections: \<open>js_simps\<close> for the number and buffer vocabulary, \<open>js_eval\<close>
  for evaluating string literals.
\<close>

named_theorems js_simps
named_theorems js_eval

section \<open>Numbers\<close>

text \<open>
  A number the code computes is an integer or \<open>NaN\<close> (\<open>None\<close>), which is what arithmetic
  on an \<open>undefined\<close> buffer element gives.  No component modelled here computes with
  fractions.
\<close>

type_synonym jnum = "int option"

definition to_int32 :: "int \<Rightarrow> int" where
  "to_int32 v = signed_take_bit 31 v"

fun num_int32 :: "jnum \<Rightarrow> int" where
  "num_int32 None = 0"
| "num_int32 (Some v) = to_int32 v"

definition jshl :: "jnum \<Rightarrow> nat \<Rightarrow> int" where
  "jshl x k = to_int32 (push_bit k (num_int32 x))"

definition jshr :: "jnum \<Rightarrow> nat \<Rightarrow> int" where
  "jshr x k = drop_bit k (num_int32 x)"

definition jand :: "jnum \<Rightarrow> int \<Rightarrow> int" where
  "jand x m = num_int32 x AND m"

fun jadd :: "jnum \<Rightarrow> jnum \<Rightarrow> jnum" where
  "jadd (Some a) (Some b) = Some (a + b)"
| "jadd _ _ = None"

lemma to_int32_small [js_simps]: "- (2 ^ 31) \<le> v \<Longrightarrow> v < 2 ^ 31 \<Longrightarrow> to_int32 v = v"
  unfolding to_int32_def by (rule signed_take_bit_int_eq_self) simp_all

lemma to_int32_mod: "k \<le> 31 \<Longrightarrow> to_int32 v mod 2 ^ k = v mod 2 ^ k"
  unfolding to_int32_def
  by (simp add: take_bit_signed_take_bit flip: take_bit_eq_mod)

lemma num_int32_byte [js_simps]: "n < 65536 \<Longrightarrow> num_int32 (Some (int n)) = int n"
  by (simp add: to_int32_small)

section \<open>Buffers\<close>

text \<open>
  A \<open>Buffer\<close> or an array of small numbers is a list of naturals.  Reading past the end
  gives \<open>undefined\<close>; a store into a \<open>Buffer\<close> keeps the low eight bits.
\<close>

definition rd :: "nat list \<Rightarrow> nat \<Rightarrow> jnum" where
  "rd buf i = (if i < length buf then Some (int (buf ! i)) else None)"

definition to_byte :: "jnum \<Rightarrow> nat" where
  "to_byte x = (case x of None \<Rightarrow> 0 | Some v \<Rightarrow> nat (v mod 256))"

definition bytes :: "nat list \<Rightarrow> bool" where
  "bytes xs \<longleftrightarrow> (\<forall>x \<in> set xs. x < 256)"

lemma rd_in [js_simps]: "i < length buf \<Longrightarrow> rd buf i = Some (int (buf ! i))"
  by (simp add: rd_def)

lemma rd_out [js_simps]: "length buf \<le> i \<Longrightarrow> rd buf i = None"
  by (simp add: rd_def)

lemma bytes_simps [simp]:
  "bytes []" "bytes (x # xs) \<longleftrightarrow> x < 256 \<and> bytes xs"
  "bytes (xs @ ys) \<longleftrightarrow> bytes xs \<and> bytes ys"
  by (auto simp: bytes_def)

lemma bytes_nth: "bytes xs \<Longrightarrow> i < length xs \<Longrightarrow> xs ! i < 256"
  by (simp add: bytes_def)

section \<open>Strings\<close>

text \<open>
  A string is the list of its UTF-16 code units; \<open>S\<close> turns an ASCII literal into one.
\<close>

type_synonym jstring = "nat list"

definition S :: "string \<Rightarrow> jstring" where
  "S s = map of_char s"

definition from_char_code :: "jnum \<Rightarrow> nat" where
  "from_char_code x = (case x of None \<Rightarrow> 0 | Some v \<Rightarrow> nat (v mod 65536))"

lemma S_Nil [simp]: "S [] = []"
  by (simp add: S_def)

lemma S_Cons [js_eval]: "S (c # cs) = of_char c # S cs"
  by (simp add: S_def)

lemma S_append: "S (s @ t) = S s @ S t"
  by (simp add: S_def)

lemma length_S [simp]: "length (S s) = length s"
  by (simp add: S_def)

section \<open>Lists\<close>

lemma take_Suc_drop_nth: "i < length xs \<Longrightarrow> drop i xs = xs ! i # drop (Suc i) xs"
  by (simp add: Cons_nth_drop_Suc)

lemma filter_take_Suc:
  "i < length xs \<Longrightarrow>
   filter P (take (Suc i) xs) = filter P (take i xs) @ (if P (xs ! i) then [xs ! i] else [])"
  by (simp add: take_Suc_conv_app_nth)

end
