(* ===== verification/Sysex.thy ===== *)
theory Sysex
  imports Prelude
begin

text \<open>
  \<open>src/mpxg2-dev/sysex.js\<close>: the reassembly of system-exclusive messages from the chunks
  the MIDI input delivers, and the buffer concatenation it uses.  The module-level
  variables are the fields of \<open>sysex_state\<close>; the callback's argument is the second
  component of a step's result; a step that would not return is \<open>None\<close>.  The abstract
  specification \<open>spec_feed\<close> reads the pending byte stream only; \<open>sysex_refines\<close> is the
  simulation between the two.
\<close>

section \<open>Concatenation of buffers\<close>

datatype buf_arg = Is_Buffer "nat list" | Is_Array "nat list"

fun as_buffer :: "buf_arg \<Rightarrow> nat list" where
  "as_buffer (Is_Buffer b) = b"
| "as_buffer (Is_Array a) = map (\<lambda>x. x mod 256) a"

definition buf_copy :: "nat list \<Rightarrow> nat list \<Rightarrow> nat \<Rightarrow> nat list" where
  "buf_copy src dst index = take index dst @ src @ drop (index + length src) dst"

fun copy_all :: "nat list list \<Rightarrow> nat list \<Rightarrow> nat \<Rightarrow> nat list" where
  "copy_all [] buffer index = buffer"
| "copy_all (b # bs) buffer index = copy_all bs (buf_copy b buffer index) (index + length b)"

definition concat_bufs :: "buf_arg list \<Rightarrow> nat list" where
  "concat_bufs args =
     (let bufs = map as_buffer args;
          len = foldl (\<lambda>n b. n + length b) 0 bufs
      in copy_all bufs (replicate len 0) 0)"

lemma foldl_length: "foldl (\<lambda>n b. n + length b) k bs = k + length (concat bs)"
  by (induction bs arbitrary: k) auto

lemma copy_all_concat:
  "length rest = length (concat bs) \<Longrightarrow>
   copy_all bs (done @ rest) (length done) = done @ concat bs"
proof (induction bs arbitrary: "done" rest)
  case (Cons b bs)
  have "copy_all bs ((done @ b) @ drop (length b) rest) (length (done @ b)) =
        (done @ b) @ concat bs"
    by (rule Cons.IH) (use Cons.prems in simp)
  then show ?case by (simp add: buf_copy_def)
qed simp

lemma concat_bufs_eq [simp]: "concat_bufs args = concat (map as_buffer args)"
  using copy_all_concat [of "replicate (length (concat (map as_buffer args))) 0"
      "map as_buffer args" "[]"]
  by (simp add: concat_bufs_def foldl_length Let_def)

section \<open>The parser\<close>

record sysex_state =
  sysex_buf :: "nat list option"
  sysex_start :: int
  sysex_len :: nat
  sysex_offset :: nat

definition sysex_init :: sysex_state where
  "sysex_init = \<lparr>sysex_buf = None, sysex_start = - 1, sysex_len = 0, sysex_offset = 0\<rparr>"

fun find_start :: "nat list \<Rightarrow> nat \<Rightarrow> int" where
  "find_start [] i = - 1"
| "find_start (b # bs) i = (if b = 240 then int i else find_start bs (Suc i))"

function scan_end :: "nat list \<Rightarrow> nat \<Rightarrow> nat \<Rightarrow> nat \<times> nat \<times> nat option" where
  "scan_end buf off len =
     (if off < length buf then
        (if buf ! off < 128 then scan_end buf (Suc off) (Suc len)
         else if buf ! off = 247 then (off, len, Some off)
         else scan_end buf (Suc off) len)
      else (off, len, None))"
  by pat_completeness auto
termination by (relation "measure (\<lambda>(buf, off, len). length buf - off)") auto

declare scan_end.simps [simp del]

text \<open>
  The copy loop runs until \<open>want\<close> data bytes are copied; past the end of the buffer the
  loop of the source would not return, which is \<open>None\<close>.
\<close>

function copy_data :: "nat list \<Rightarrow> nat \<Rightarrow> nat \<Rightarrow> (nat list \<times> nat) option" where
  "copy_data buf i want =
     (if want = 0 then Some ([], i)
      else if length buf \<le> i then None
      else if buf ! i < 128 then
        map_option (\<lambda>(ds, j). (buf ! i # ds, j)) (copy_data buf (Suc i) (want - 1))
      else copy_data buf (Suc i) want)"
  by pat_completeness auto
termination by (relation "measure (\<lambda>(buf, i, want). length buf - i)") auto

declare copy_data.simps [simp del]

definition sysex_append :: "sysex_state \<Rightarrow> nat list \<Rightarrow> sysex_state" where
  "sysex_append s chunk =
     (case sysex_buf s of
        Some b \<Rightarrow> s\<lparr>sysex_buf := Some (concat_bufs [Is_Buffer b, Is_Buffer chunk])\<rparr>
      | None \<Rightarrow> \<lparr>sysex_buf = Some chunk, sysex_start = - 1, sysex_len = 0, sysex_offset = 0\<rparr>)"

definition sysex_emit :: "sysex_state \<Rightarrow> nat list \<Rightarrow> (sysex_state \<times> nat list option) option" where
  "sysex_emit s buf =
     (case copy_data buf (nat (sysex_start s)) (sysex_len s - 2) of
        None \<Rightarrow> None
      | Some (ds, i) \<Rightarrow>
          Some (s\<lparr>sysex_buf := (if i + 1 = length buf then None else Some (drop i buf)),
                  sysex_start := - 1, sysex_offset := 0\<rparr>,
                Some (240 # ds @ [247])))"

definition sysex_scan :: "sysex_state \<Rightarrow> nat list \<Rightarrow> (sysex_state \<times> nat list option) option" where
  "sysex_scan s2 buf =
     (let s3 = (if sysex_offset s2 = 0
                then s2\<lparr>sysex_offset := nat (sysex_start s2), sysex_len := 2\<rparr> else s2);
          (off, len, fin) = scan_end buf (sysex_offset s3) (sysex_len s3);
          s4 = s3\<lparr>sysex_offset := off, sysex_len := len\<rparr>
      in (case fin of
            None \<Rightarrow> Some (s4, None)
          | Some e \<Rightarrow> if e = 0 then Some (s4, None) else sysex_emit s4 buf))"

definition sysex_parse :: "sysex_state \<Rightarrow> nat list \<Rightarrow> (sysex_state \<times> nat list option) option" where
  "sysex_parse s0 chunk =
     (let s1 = sysex_append s0 chunk;
          buf = the (sysex_buf s1);
          s2 = (if sysex_start s1 < 0 then s1\<lparr>sysex_start := find_start buf 0\<rparr> else s1)
      in if 0 \<le> sysex_start s2 then sysex_scan s2 buf
         else Some (s2\<lparr>sysex_buf := None\<rparr>, None))"

fun sysex_run :: "sysex_state \<Rightarrow> nat list list \<Rightarrow> (sysex_state \<times> nat list list) option" where
  "sysex_run s [] = Some (s, [])"
| "sysex_run s (c # cs) =
     (case sysex_parse s c of
        None \<Rightarrow> None
      | Some (s', out) \<Rightarrow>
          (case sysex_run s' cs of
             None \<Rightarrow> None
           | Some (s'', outs) \<Rightarrow> Some (s'', (case out of None \<Rightarrow> outs | Some m \<Rightarrow> m # outs))))"

section \<open>Specification over the pending stream\<close>

abbreviation is_data :: "nat \<Rightarrow> bool" where
  "is_data b \<equiv> b < 128"

fun upto_last :: "('a \<Rightarrow> bool) \<Rightarrow> 'a list \<Rightarrow> 'a list" where
  "upto_last P [] = []"
| "upto_last P (x # xs) =
     (if filter P xs = [] then (if P x then [x] else []) else x # upto_last P xs)"

definition spec_feed :: "nat list \<Rightarrow> nat list \<times> nat list option" where
  "spec_feed xs =
     (let r = dropWhile (\<lambda>b. b \<noteq> 240) xs;
          seg = takeWhile (\<lambda>b. b \<noteq> 247) r;
          rest = drop (length (upto_last is_data seg)) r
      in if length seg = length r then (r, None)
         else (if length rest = 1 then [] else rest, Some (240 # filter is_data seg @ [247])))"

definition pending :: "sysex_state \<Rightarrow> nat list" where
  "pending s =
     (case sysex_buf s of None \<Rightarrow> []
      | Some b \<Rightarrow> if sysex_start s < 0 then b else drop (nat (sysex_start s)) b)"

definition sysex_inv :: "sysex_state \<Rightarrow> bool" where
  "sysex_inv s \<longleftrightarrow>
     (case sysex_buf s of None \<Rightarrow> True
      | Some b \<Rightarrow>
          (if sysex_start s < 0 then sysex_start s = - 1 \<and> sysex_offset s = 0
           else nat (sysex_start s) < length b \<and> b ! nat (sysex_start s) = 240
                \<and> 247 \<notin> set (drop (nat (sysex_start s)) b)
                \<and> sysex_offset s = length b
                \<and> sysex_len s = 2 + length (filter is_data (drop (nat (sysex_start s)) b))))"

lemma upto_last_no: "filter P xs = [] \<Longrightarrow> upto_last P xs = []"
  by (cases xs) auto

lemma upto_last_all: "\<forall>x \<in> set xs. P x \<Longrightarrow> upto_last P xs = xs"
  by (induction xs) (auto simp: filter_empty_conv)

lemma upto_last_nil_iff: "upto_last P xs = [] \<longleftrightarrow> filter P xs = []"
  by (induction xs) auto

lemma length_upto_last: "length (upto_last P xs) \<le> length xs"
  by (induction xs) auto

lemma find_start_eq:
  "find_start b i =
     (let n = length (takeWhile (\<lambda>x. x \<noteq> 240) b) in if n < length b then int (i + n) else - 1)"
  by (induction b arbitrary: i) (auto simp: Let_def)

lemma scan_end_eq:
  assumes "off \<le> length buf"
  shows "scan_end buf off len =
     (let seg = takeWhile (\<lambda>b. b \<noteq> 247) (drop off buf)
      in (off + length seg, len + length (filter is_data seg),
          if off + length seg < length buf then Some (off + length seg) else None))"
  using assms
proof (induction buf off len rule: scan_end.induct)
  case (1 buf off len)
  show ?case
  proof (cases "off < length buf")
    case True
    then have d: "drop off buf = buf ! off # drop (Suc off) buf"
      by (rule take_Suc_drop_nth)
    show ?thesis
      using 1 True by (subst scan_end.simps) (auto simp: d Let_def)
  next
    case False
    then show ?thesis by (subst scan_end.simps) simp
  qed
qed

lemma copy_data_eq:
  "drop i buf = seg @ rest \<Longrightarrow> i \<le> length buf \<Longrightarrow>
   copy_data buf i (length (filter is_data seg)) =
     Some (filter is_data seg, i + length (upto_last is_data seg))"
proof (induction seg arbitrary: i)
  case Nil
  show ?case by (subst copy_data.simps) simp
next
  case (Cons x seg)
  have i: "i < length buf" using Cons.prems by (metis append_Cons drop_all linorder_not_le list.distinct(1))
  have x: "buf ! i = x" and d: "drop (Suc i) buf = seg @ rest"
    using Cons.prems(1) i by (simp_all add: take_Suc_drop_nth)
  note IH = Cons.IH [OF d]
  show ?case
  proof (cases "filter is_data (x # seg) = []")
    case True
    then show ?thesis by (subst copy_data.simps) (simp add: upto_last_no split: if_splits)
  next
    case False
    have z: "copy_data buf (Suc i) 0 = Some ([], Suc i)" by (subst copy_data.simps) simp
    show ?thesis
      using False i x IH z by (subst copy_data.simps) (auto simp: upto_last_no)
  qed
qed

lemma takeWhile_drop_split:
  "\<forall>x \<in> set (take k r). P x \<Longrightarrow> takeWhile P r = take k r @ takeWhile P (drop k r)"
  by (metis append_take_drop_id takeWhile_append2)

lemma scan_end_resume:
  assumes r: "r = drop st buf" and st: "st \<le> length buf" and k: "k \<le> length r"
    and no: "247 \<notin> set (take k r)"
    and len: "len = 2 + length (filter is_data (take k r))"
  shows "scan_end buf (st + k) len =
     (let seg = takeWhile (\<lambda>b. b \<noteq> 247) r
      in (st + length seg, 2 + length (filter is_data seg),
          if length seg < length r then Some (st + length seg) else None))"
proof -
  have seg: "takeWhile (\<lambda>b. b \<noteq> 247) r = take k r @ takeWhile (\<lambda>b. b \<noteq> 247) (drop k r)"
    using no by (intro takeWhile_drop_split) auto
  have off: "st + k \<le> length buf" and d: "drop (st + k) buf = drop k r"
    and lr: "length r = length buf - st"
    using k r st by (simp_all add: add.commute)
  have lk: "length (take k r) = k" using k by simp
  show ?thesis
    using off lr lk st unfolding scan_end_eq [OF off] d seg len Let_def
    by (auto simp: less_diff_conv add.commute add.left_commute)
qed

lemma sysex_scan_refines:
  assumes buf: "sysex_buf s = Some buf" and start: "0 \<le> sysex_start s"
    and st: "nat (sysex_start s) < length buf" "buf ! nat (sysex_start s) = 240"
    and off: "sysex_offset s = 0 \<or>
      (\<exists>k. sysex_offset s = nat (sysex_start s) + k \<and> k \<le> length (drop (nat (sysex_start s)) buf)
         \<and> 247 \<notin> set (take k (drop (nat (sysex_start s)) buf))
         \<and> sysex_len s = 2 + length (filter is_data (take k (drop (nat (sysex_start s)) buf))))"
    and r: "r = drop (nat (sysex_start s)) buf"
  shows "\<exists>s'. sysex_scan s buf = Some (s', snd (spec_feed r)) \<and> sysex_inv s' \<and>
              pending s' = fst (spec_feed r)"
proof -
  let ?st = "nat (sysex_start s)"
  define seg where "seg = takeWhile (\<lambda>b. b \<noteq> 247) r"
  have hd: "r = 240 # drop (Suc ?st) buf" using r st by (simp add: take_Suc_drop_nth)
  then have dw: "dropWhile (\<lambda>b. b \<noteq> 240) r = r" by simp
  have segne: "0 < length seg" unfolding seg_def by (subst hd) simp
  have seg247: "247 \<notin> set seg" unfolding seg_def by (metis set_takeWhileD)
  have split: "r = seg @ drop (length seg) r"
    unfolding seg_def by (metis append_take_drop_id takeWhile_eq_take)
  have lr: "length r = length buf - ?st" using r by simp
  define s3 where "s3 = (if sysex_offset s = 0
                then s\<lparr>sysex_offset := ?st, sysex_len := 2\<rparr> else s)"
  have fields: "sysex_start s3 = sysex_start s" "sysex_buf s3 = Some buf"
    using buf by (simp_all add: s3_def)
  have scan: "scan_end buf (sysex_offset s3) (sysex_len s3) =
     (?st + length seg, 2 + length (filter is_data seg),
          if length seg < length r then Some (?st + length seg) else None)"
  proof (cases "sysex_offset s = 0")
    case True
    then show ?thesis
      using scan_end_resume [OF r, of 0 2] st by (simp add: s3_def seg_def Let_def)
  next
    case False
    then obtain k where k: "sysex_offset s = ?st + k" "k \<le> length r" "247 \<notin> set (take k r)"
      "sysex_len s = 2 + length (filter is_data (take k r))"
      using off unfolding r [symmetric] by (elim disjE exE conjE) simp_all
    have "s3 = s" using False by (simp add: s3_def)
    then show ?thesis
      using scan_end_resume [OF r less_imp_le [OF st(1)] k(2,3,4)] k(1)
      by (simp only: seg_def Let_def)
  qed
  show ?thesis
  proof (cases "length seg < length r")
    case False
    then have full: "seg = r" using split by simp
    then have feed: "spec_feed r = (r, None)"
      using dw by (simp add: spec_feed_def Let_def flip: seg_def)
    show ?thesis
      using scan start st fields lr seg247 r full unfolding feed
      by (simp add: sysex_scan_def Let_def pending_def sysex_inv_def flip: s3_def)
  next
    case True
    have copy: "copy_data buf ?st (length (filter is_data seg)) =
        Some (filter is_data seg, ?st + length (upto_last is_data seg))"
      using split st r by (intro copy_data_eq) auto
    have feed: "spec_feed r =
        (if length (drop (length (upto_last is_data seg)) r) = 1 then []
         else drop (length (upto_last is_data seg)) r, Some (240 # filter is_data seg @ [247]))"
      using dw True by (simp add: spec_feed_def Let_def flip: seg_def)
    show ?thesis
      using scan start st fields lr r segne True copy unfolding feed
      by (auto simp: sysex_scan_def Let_def pending_def sysex_inv_def sysex_emit_def add.commute
          simp flip: s3_def)
  qed
qed

lemma spec_feed_skip: "240 \<notin> set p \<Longrightarrow> spec_feed (p @ xs) = spec_feed xs"
  unfolding spec_feed_def by (subst dropWhile_append2) auto

lemma dropWhile_find_start:
  assumes "find_start b 0 = i" "0 \<le> i"
  shows "nat i < length b" "b ! nat i = 240" "dropWhile (\<lambda>x. x \<noteq> 240) b = drop (nat i) b"
proof -
  let ?n = "length (takeWhile (\<lambda>x. x \<noteq> 240) b)"
  have n: "?n < length b" "nat i = ?n"
    using assms by (auto simp: find_start_eq Let_def split: if_splits)
  then show "nat i < length b" "dropWhile (\<lambda>x. x \<noteq> 240) b = drop (nat i) b"
    by (simp_all add: dropWhile_eq_drop)
  show "b ! nat i = 240" using n nth_length_takeWhile [of "\<lambda>x. x \<noteq> 240" b] by simp
qed

lemma spec_feed_drop: "spec_feed (dropWhile (\<lambda>x. x \<noteq> 240) xs) = spec_feed xs"
  by (simp add: spec_feed_def)

lemma sysex_parse_refines:
  assumes inv: "sysex_inv s"
  shows "\<exists>s'. sysex_parse s chunk = Some (s', snd (spec_feed (pending s @ chunk))) \<and>
              sysex_inv s' \<and> pending s' = fst (spec_feed (pending s @ chunk))"
proof -
  define s1 where "s1 = sysex_append s chunk"
  define buf where "buf = the (sysex_buf s1)"
  have s1: "sysex_buf s1 = Some buf" by (auto simp: s1_def buf_def sysex_append_def split: option.splits)
  show ?thesis
  proof (cases "sysex_start s1 < 0")
    case True
    have buf: "buf = pending s @ chunk" and off: "sysex_offset s1 = 0"
      using inv True
      by (auto simp: s1_def buf_def sysex_append_def pending_def sysex_inv_def
          split: option.splits if_splits)
    let ?s2 = "s1\<lparr>sysex_start := find_start buf 0\<rparr>"
    show ?thesis
    proof (cases "0 \<le> find_start buf 0")
      case start: True
      note f = dropWhile_find_start [OF refl this]
      have parse: "sysex_parse s chunk = sysex_scan ?s2 buf"
        using s1 start True by (simp add: sysex_parse_def Let_def flip: s1_def)
      have feed: "spec_feed (drop (nat (find_start buf 0)) buf) = spec_feed buf"
        by (metis f(3) spec_feed_drop)
      show ?thesis
        unfolding parse buf [symmetric] feed [symmetric]
        by (rule sysex_scan_refines) (use s1 start f off in simp_all)
    next
      case False
      then have dw: "dropWhile (\<lambda>x. x \<noteq> 240) buf = []"
        by (auto simp: find_start_eq Let_def not_less dropWhile_eq_drop split: if_splits)
      have feed: "spec_feed buf = ([], None)"
        unfolding spec_feed_def dw by simp
      show ?thesis
        using False True s1 unfolding buf [symmetric] feed
        by (simp add: sysex_parse_def Let_def sysex_inv_def pending_def flip: s1_def)
    qed
  next
    case False
    then obtain b where b: "sysex_buf s = Some b" and st: "\<not> sysex_start s < 0"
      by (auto simp: s1_def sysex_append_def split: option.splits)
    then have buf: "buf = b @ chunk" and s1': "s1 = s\<lparr>sysex_buf := Some buf\<rparr>"
      by (simp_all add: s1_def buf_def sysex_append_def)
    let ?st = "nat (sysex_start s)"
    have i: "?st < length b" "b ! ?st = 240" "247 \<notin> set (drop ?st b)" "sysex_offset s = length b"
      "sysex_len s = 2 + length (filter is_data (drop ?st b))"
      using inv b st by (auto simp: sysex_inv_def)
    have p: "pending s @ chunk = drop ?st buf" using b st i buf by (simp add: pending_def)
    have off: "\<exists>k. sysex_offset s = ?st + k \<and> k \<le> length (drop ?st buf) \<and>
       247 \<notin> set (take k (drop ?st buf)) \<and>
       sysex_len s = 2 + length (filter is_data (take k (drop ?st buf)))"
      using i buf by (intro exI [of _ "length b - ?st"]) simp
    have parse: "sysex_parse s chunk = sysex_scan s1 buf"
      using s1 False by (simp add: sysex_parse_def Let_def flip: s1_def)
    show ?thesis
      unfolding parse p
      by (rule sysex_scan_refines)
         (use s1 s1' False st i buf off in \<open>simp_all add: nth_append\<close>)
  qed
qed

lemma sysex_init_inv [simp]: "sysex_inv sysex_init" "pending sysex_init = []"
  by (simp_all add: sysex_inv_def pending_def sysex_init_def)

section \<open>The parser as a chunked reader\<close>

text \<open>
  The interface a client of a chunked reader relies on: each step consumes a chunk and
  behaves as the specification \<open>feed\<close> on the bytes still pending.  Facts about whole runs
  are proved from the contract alone.
\<close>

locale chunked_reader =
  fixes step :: "'s \<Rightarrow> nat list \<Rightarrow> ('s \<times> nat list option) option"
    and inv :: "'s \<Rightarrow> bool"
    and pend :: "'s \<Rightarrow> nat list"
    and feed :: "nat list \<Rightarrow> nat list \<times> nat list option"
    and run :: "'s \<Rightarrow> nat list list \<Rightarrow> ('s \<times> nat list list) option"
  assumes step_feed: "inv s \<Longrightarrow> \<exists>s'. step s c = Some (s', snd (feed (pend s @ c))) \<and>
                        inv s' \<and> pend s' = fst (feed (pend s @ c))"
    and run_Nil: "run s [] = Some (s, [])"
    and run_Cons: "run s (c # cs) =
          (case step s c of
             None \<Rightarrow> None
           | Some (s', out) \<Rightarrow>
               (case run s' cs of
                  None \<Rightarrow> None
                | Some (s'', outs) \<Rightarrow>
                    Some (s'', (case out of None \<Rightarrow> outs | Some m \<Rightarrow> m # outs))))"
begin

definition reads :: "'s \<Rightarrow> nat list list \<Rightarrow> nat list \<Rightarrow> nat list list \<Rightarrow> bool" where
  "reads s cs p outs \<longleftrightarrow> (\<exists>s'. run s cs = Some (s', outs) \<and> inv s' \<and> pend s' = p)"

lemma reads_Nil: "inv s \<Longrightarrow> reads s [] (pend s) []"
  by (simp add: reads_def run_Nil)

lemma reads_Cons:
  assumes "inv s" and "feed (pend s @ c) = (q, out)"
    and "\<And>s'. inv s' \<Longrightarrow> pend s' = q \<Longrightarrow> reads s' cs p outs"
  shows "reads s (c # cs) p (case out of None \<Rightarrow> outs | Some m \<Rightarrow> m # outs)"
proof -
  obtain s' where s': "step s c = Some (s', out)" "inv s'" "pend s' = q"
    using step_feed [OF assms(1), of c] assms(2) by auto
  with assms(3) obtain s'' where "run s' cs = Some (s'', outs)" "inv s''" "pend s'' = p"
    by (auto simp: reads_def)
  with s' show ?thesis by (auto simp: reads_def run_Cons split: option.splits)
qed

lemma run_total:
  assumes "\<And>xs m. snd (feed xs) = Some m \<Longrightarrow> ok m" and "inv s"
  shows "\<exists>s' outs. run s cs = Some (s', outs) \<and> inv s' \<and> (\<forall>m \<in> set outs. ok m)"
  using \<open>inv s\<close>
proof (induction cs arbitrary: s)
  case Nil
  then show ?case by (simp add: run_Nil)
next
  case (Cons c cs)
  obtain s' where s': "step s c = Some (s', snd (feed (pend s @ c)))" "inv s'"
    using step_feed [OF Cons.prems] by blast
  obtain s'' outs where "run s' cs = Some (s'', outs)" "inv s''" "\<forall>m \<in> set outs. ok m"
    using Cons.IH [OF s'(2)] by blast
  with s' assms(1) show ?case by (auto simp: run_Cons split: option.splits)
qed

end

interpretation sysex: chunked_reader sysex_parse sysex_inv pending spec_feed sysex_run
  by unfold_locales (simp_all add: sysex_parse_refines)

section \<open>Frames\<close>

definition frame :: "nat list \<Rightarrow> nat list" where
  "frame body = 240 # body @ [247]"

text \<open>
  The body of a message as it travels: data bytes with real-time bytes interleaved, at
  least one data byte, the last byte a data byte, no end marker inside.
\<close>

definition good_body :: "nat list \<Rightarrow> bool" where
  "good_body body \<longleftrightarrow> body \<noteq> [] \<and> is_data (last body) \<and> 247 \<notin> set body"

definition well_formed :: "nat list \<Rightarrow> bool" where
  "well_formed m \<longleftrightarrow> (\<exists>ds. m = frame ds \<and> (\<forall>d \<in> set ds. is_data d))"

lemma upto_last_last: "xs \<noteq> [] \<Longrightarrow> P (last xs) \<Longrightarrow> upto_last P xs = xs"
proof (induction xs)
  case (Cons x xs)
  show ?case
  proof (cases "xs = []")
    case False
    then have "last xs \<in> set (filter P xs)" using Cons.prems by simp
    then have "filter P xs \<noteq> []" by (metis empty_iff empty_set)
    with Cons False show ?thesis by simp
  qed (use Cons in simp)
qed simp

lemma spec_feed_frame:
  assumes "good_body body"
  shows "spec_feed (frame body @ rest) =
           (if rest = [] then [] else 247 # rest, Some (frame (filter is_data body)))"
proof -
  have "takeWhile (\<lambda>b. b \<noteq> 247) (240 # body @ 247 # rest) = 240 # body"
    using assms takeWhile_append2 [of body "\<lambda>b. b \<noteq> 247" "247 # rest"]
    by (fastforce simp: good_body_def)
  moreover have "upto_last is_data (240 # body) = 240 # body"
    using assms by (intro upto_last_last) (auto simp: good_body_def)
  ultimately show ?thesis by (simp add: spec_feed_def frame_def Let_def)
qed

lemma spec_feed_prefix: "247 \<notin> set xs \<Longrightarrow> spec_feed (240 # xs) = (240 # xs, None)"
proof -
  assume "247 \<notin> set xs"
  then have tw: "takeWhile (\<lambda>b. b \<noteq> 247) xs = xs" by (subst takeWhile_eq_all_conv) auto
  show ?thesis unfolding spec_feed_def by (simp add: tw)
qed

lemma spec_feed_Nil [simp]: "spec_feed [] = ([], None)"
  by (simp add: spec_feed_def)

lemma spec_feed_well_formed: "snd (spec_feed xs) = Some m \<Longrightarrow> well_formed m"
  by (auto simp: spec_feed_def Let_def well_formed_def frame_def split: if_splits)

lemma spec_feed_empty: "spec_feed (240 # 247 # xs) = (240 # 247 # xs, Some (frame []))"
  by (simp add: spec_feed_def frame_def)

lemma reads_empty_chunks:
  "sysex_inv s \<Longrightarrow> pending s = [] \<Longrightarrow> concat cs = [] \<Longrightarrow> sysex.reads s cs [] []"
proof (induction cs arbitrary: s)
  case Nil
  then show ?case using sysex.reads_Nil [of s] by simp
next
  case (Cons c cs)
  then show ?case using sysex.reads_Cons [of s c "[]" None cs "[]" "[]"] by simp
qed

lemma frame_prefix:
  assumes "p @ c = frame body @ [] \<or> (\<exists>ds. frame body = p @ c @ ds \<and> ds \<noteq> [])"
    and "good_body body" and "p @ c \<noteq> []" and "p @ c \<noteq> frame body"
  shows "\<exists>xs. p @ c = 240 # xs \<and> 247 \<notin> set xs"
proof -
  obtain ds where ds: "frame body = (p @ c) @ ds" "ds \<noteq> []" using assms by auto
  then have "240 # body = butlast ((p @ c) @ ds)" by (simp add: frame_def flip: ds)
     (metis append_Cons butlast_snoc frame_def ds(1))
  then have eq: "240 # body = (p @ c) @ butlast ds" using ds(2) by (simp add: butlast_append)
  then obtain xs where "p @ c = 240 # xs" "body = xs @ butlast ds"
    using assms(3) by (cases "p @ c") auto
  then show ?thesis using assms(2) by (auto simp: good_body_def)
qed

lemma reads_fragments:
  assumes "good_body body"
  shows "sysex_inv s \<Longrightarrow> pending s @ concat cs = frame body \<Longrightarrow> pending s \<noteq> frame body \<Longrightarrow>
         sysex.reads s cs [] [frame (filter is_data body)]"
proof (induction cs arbitrary: s)
  case Nil
  then show ?case by simp
next
  case (Cons c cs)
  let ?p = "pending s @ c"
  consider "?p = frame body" | "?p = []" | "?p \<noteq> frame body" "?p \<noteq> []" by blast
  then show ?case
  proof cases
    case 1
    then have "concat cs = []" using Cons.prems(2) by (metis append.assoc append_self_conv concat.simps(2))
    then show ?thesis
      using sysex.reads_Cons [of s c "[]" "Some (frame (filter is_data body))" cs "[]" "[]"]
        Cons.prems(1) 1 spec_feed_frame [OF assms, of "[]"] reads_empty_chunks by simp
  next
    case 2
    then show ?thesis
      using sysex.reads_Cons [of s c "[]" None cs "[]" "[frame (filter is_data body)]"]
        Cons by (auto simp: frame_def)
  next
    case 3
    have "\<exists>ds. frame body = pending s @ c @ ds \<and> ds \<noteq> []"
      using Cons.prems(2) 3(1) by (intro exI [of _ "concat cs"]) (metis append.assoc append_self_conv concat.simps(2))
    then obtain xs where "?p = 240 # xs" "247 \<notin> set xs"
      using frame_prefix [of "pending s" c body] assms 3 by blast
    then have "spec_feed ?p = (?p, None)" by (simp add: spec_feed_prefix)
    then show ?thesis
      using sysex.reads_Cons [of s c ?p None cs "[]" "[frame (filter is_data body)]"]
        Cons 3 by simp
  qed
qed

lemma reads_wedged:
  "sysex_inv s \<Longrightarrow> pending s = 240 # 247 # xs \<Longrightarrow>
   sysex.reads s cs (240 # 247 # xs @ concat cs) (replicate (length cs) (frame []))"
proof (induction cs arbitrary: s xs)
  case Nil
  then show ?case using sysex.reads_Nil [of s] by simp
next
  case (Cons c cs)
  then show ?case
    using sysex.reads_Cons [of s c "240 # 247 # xs @ c" "Some (frame [])" cs
        "240 # 247 # xs @ concat (c # cs)" "replicate (length cs) (frame [])"]
      Cons.IH [of _ "xs @ c"] spec_feed_empty by simp
qed

lemma sysex_readsD:
  "sysex.reads s cs p outs \<Longrightarrow> \<exists>s'. sysex_run s cs = Some (s', outs) \<and> pending s' = p"
  by (auto simp: sysex.reads_def)

section \<open>Properties\<close>

text \<open>
  C2: A step of the parser refines the specification on the pending byte stream: from any
  state that satisfies the invariant it returns (the copy loop never runs away), it delivers
  exactly what the specification delivers on the pending bytes followed by the chunk, and it
  keeps the invariant and the pending bytes.
\<close>

theorem sysex_refines:
  assumes "sysex_inv s"
  shows "\<exists>s'. sysex_parse s chunk = Some (s', snd (spec_feed (pending s @ chunk))) \<and>
              sysex_inv s' \<and> pending s' = fst (spec_feed (pending s @ chunk))"
  using assms by (rule sysex.step_feed)

theorem sysex_refines_witness:
  "\<exists>s'. sysex_parse \<lparr>sysex_buf = Some [240, 6, 15], sysex_start = 0, sysex_len = 4, sysex_offset = 3\<rparr> [9, 247]
          = Some (s', Some [240, 6, 15, 9, 247]) \<and> sysex_inv s' \<and> pending s' = []"
proof -
  let ?s = "\<lparr>sysex_buf = Some [240, 6, 15], sysex_start = 0, sysex_len = 4, sysex_offset = 3\<rparr>"
  have inv: "sysex_inv ?s" by (simp add: sysex_inv_def)
  have "spec_feed (pending ?s @ [9, 247]) = ([], Some [240, 6, 15, 9, 247])"
    by (simp add: pending_def spec_feed_def)
  then show ?thesis using sysex_refines [OF inv, of "[9, 247]"] by simp
qed

text \<open>
  However a message is cut into chunks, the parser delivers it exactly once, with the
  real-time bytes removed, and is left with nothing pending.
\<close>

theorem sysex_fragmentation:
  assumes "good_body body" and "concat chunks = frame body"
  shows "\<exists>s'. sysex_run sysex_init chunks = Some (s', [frame (filter is_data body)]) \<and>
              pending s' = []"
  using reads_fragments [OF assms(1), of sysex_init chunks] assms(2)
  by (intro sysex_readsD) (simp add: frame_def)

theorem sysex_fragmentation_witness:
  "\<exists>s'. sysex_run sysex_init [[240], [], [6, 254, 15], [1, 247]] = Some (s', [[240, 6, 15, 1, 247]]) \<and>
        pending s' = []"
  using sysex_fragmentation [of "[6, 254, 15, 1]" "[[240], [], [6, 254, 15], [1, 247]]"]
  by (simp add: good_body_def frame_def)

text \<open>
  C24: On every sequence of chunks, whatever bytes they hold, the parser returns, and each
  message it delivers is a start marker, data bytes only, and an end marker.
\<close>

theorem sysex_total_well_formed:
  "\<exists>s' outs. sysex_run sysex_init chunks = Some (s', outs) \<and> sysex_inv s' \<and> list_all well_formed outs"
  using sysex.run_total [of well_formed, OF spec_feed_well_formed sysex_init_inv(1)]
  by (simp add: list_all_iff)

text \<open>
  Two messages in one chunk: only the first is delivered when the chunk arrives, the
  second stays pending and is delivered when the next chunk arrives, whatever that chunk is.
\<close>

theorem sysex_second_message_waits:
  assumes a: "good_body a" and b: "good_body b"
  shows "(\<exists>s'. sysex_run sysex_init [frame a @ frame b] = Some (s', [frame (filter is_data a)]) \<and>
              pending s' = 247 # frame b) \<and>
         (\<exists>s'. sysex_run sysex_init [frame a @ frame b, c] =
              Some (s', [frame (filter is_data a), frame (filter is_data b)]))"
proof (intro conjI)
  have first: "spec_feed (frame a @ frame b) = (247 # frame b, Some (frame (filter is_data a)))"
    using spec_feed_frame [OF a, of "frame b"] by (simp add: frame_def)
  have second: "spec_feed (247 # frame b @ c) = spec_feed (frame b @ c)"
    using spec_feed_skip [of "[247]" "frame b @ c"] by simp
  have "sysex.reads sysex_init [frame a @ frame b] (247 # frame b) [frame (filter is_data a)]"
    using sysex.reads_Cons [of sysex_init "frame a @ frame b" "247 # frame b"
        "Some (frame (filter is_data a))" "[]" "247 # frame b" "[]"] first sysex.reads_Nil by fastforce
  then show "\<exists>s'. sysex_run sysex_init [frame a @ frame b] = Some (s', [frame (filter is_data a)]) \<and>
              pending s' = 247 # frame b" by (rule sysex_readsD)
  obtain q where q: "spec_feed (frame b @ c) = (q, Some (frame (filter is_data b)))"
    using spec_feed_frame [OF b, of c] by simp
  have "\<And>s. sysex_inv s \<Longrightarrow> pending s = 247 # frame b \<Longrightarrow>
          sysex.reads s [c] q [frame (filter is_data b)]"
    using sysex.reads_Cons [of _ c q "Some (frame (filter is_data b))" "[]" q "[]"]
      second q sysex.reads_Nil by fastforce
  then have "sysex.reads sysex_init [frame a @ frame b, c] q
      [frame (filter is_data a), frame (filter is_data b)]"
    using sysex.reads_Cons [of sysex_init "frame a @ frame b" "247 # frame b"
        "Some (frame (filter is_data a))" "[c]" q "[frame (filter is_data b)]"] first by simp
  then show "\<exists>s'. sysex_run sysex_init [frame a @ frame b, c] =
              Some (s', [frame (filter is_data a), frame (filter is_data b)])"
    by (auto simp: sysex.reads_def)
qed

theorem sysex_second_message_waits_witness:
  "(\<exists>s'. sysex_run sysex_init [[240, 1, 247, 240, 2, 3, 247]] = Some (s', [[240, 1, 247]]) \<and>
         pending s' = [247, 240, 2, 3, 247]) \<and>
   (\<exists>s'. sysex_run sysex_init [[240, 1, 247, 240, 2, 3, 247], []] =
         Some (s', [[240, 1, 247], [240, 2, 3, 247]]))"
  using sysex_second_message_waits [of "[1]" "[2, 3]" "[]"]
  by (simp add: good_body_def frame_def)

text \<open>
  An empty message wedges the parser.  After a chunk \<open>F0 F7\<close> the copy loop leaves its
  index on the start marker, so the two bytes stay in the buffer: every further chunk, even
  one with a complete message, delivers the empty message again and is only appended to the
  pending bytes.
\<close>

theorem sysex_empty_message_wedges:
  "\<exists>s'. sysex_run sysex_init ([240, 247] # chunks) =
          Some (s', replicate (Suc (length chunks)) [240, 247]) \<and>
        pending s' = [240, 247] @ concat chunks"
proof -
  have "sysex.reads sysex_init ([240, 247] # chunks) (240 # 247 # concat chunks)
          (frame [] # replicate (length chunks) (frame []))"
    using sysex.reads_Cons [of sysex_init "[240, 247]" "[240, 247]" "Some (frame [])" chunks
        "240 # 247 # concat chunks" "replicate (length chunks) (frame [])"]
      spec_feed_empty [of "[]"] reads_wedged [of _ "[]" chunks] by simp
  then show ?thesis using sysex_readsD by (fastforce simp: frame_def)
qed

end
