(* ===== verification/Nibbles.thy ===== *)
theory Nibbles
  imports Prelude
begin

text \<open>
  The number encoding of the MPX G2 protocol (\<open>src/mpxg2-dev/lexicon.js\<close>): every byte
  travels as two nibbles and every 16-bit number as four, least significant first.
  \<open>nibblize\<close> and \<open>nibblize16\<close> write them, the reads \<open>buf[i]+(buf[i+1]<<4)+...\<close> that
  every parser repeats are \<open>rd2\<close> and \<open>rd4\<close>.  The locale \<open>nibble_codec\<close> is the contract
  the message parsers rest on; it is interpreted for both widths.
\<close>

definition nibble :: "jnum \<Rightarrow> nat \<Rightarrow> nat" where
  "nibble x k = nat (jand (Some (jshr x k)) 15)"

definition nibblize16 :: "jnum \<Rightarrow> nat list" where
  "nibblize16 data = [nibble data 0, nibble data 4, nibble data 8, nibble data 12]"

fun nibblize :: "jnum list \<Rightarrow> nat list" where
  "nibblize [] = []"
| "nibblize (d # ds) = nibble d 0 # nibble d 4 # nibblize ds"

definition nibblize_num :: "jnum \<Rightarrow> nat list" where
  "nibblize_num d = nibblize [d]"

definition rd2 :: "nat list \<Rightarrow> nat \<Rightarrow> jnum" where
  "rd2 buf i = jadd (rd buf i) (Some (jshl (rd buf (i + 1)) 4))"

definition rd4 :: "nat list \<Rightarrow> nat \<Rightarrow> jnum" where
  "rd4 buf i =
     jadd (jadd (jadd (rd buf i) (Some (jshl (rd buf (i + 1)) 4)))
                (Some (jshl (rd buf (i + 2)) 8)))
          (Some (jshl (rd buf (i + 3)) 12))"

section \<open>The nibbles of a number\<close>

lemma to_int32_idem: "to_int32 (to_int32 v) = to_int32 v"
  by (simp add: to_int32_def)

lemma to_int32_drop: "to_int32 (drop_bit k (to_int32 v)) = drop_bit k (to_int32 v)"
  unfolding to_int32_def
  by (rule bit_eqI) (auto simp: bit_signed_take_bit_iff bit_drop_bit_eq min_def)

lemma and_15: "(x :: int) AND 15 = x mod 16"
proof -
  have "(15 :: int) = mask 4" by (simp add: mask_eq_exp_minus_1)
  then have "x AND 15 = take_bit 4 x" by (simp only: take_bit_eq_mask)
  then show ?thesis by (simp add: take_bit_eq_mod)
qed

lemma nibble_Some: "k \<le> 27 \<Longrightarrow> nibble (Some v) k = nat (v div 2 ^ k mod 16)"
proof -
  assume k: "k \<le> 27"
  have "take_bit 4 (drop_bit k (to_int32 v)) = take_bit 4 (drop_bit k v)"
    unfolding to_int32_def using k
    by (intro bit_eqI) (auto simp: bit_take_bit_iff bit_drop_bit_eq bit_signed_take_bit_iff min_def)
  then have "drop_bit k (to_int32 v) mod 16 = v div 2 ^ k mod 16"
    by (simp add: take_bit_eq_mod drop_bit_eq_div)
  then show ?thesis
    by (simp add: nibble_def jand_def jshr_def to_int32_drop and_15)
qed

lemma nibble_None [simp]: "nibble None k = 0"
  by (simp add: nibble_def jand_def jshr_def to_int32_def)

lemma nibble_less: "nibble x k < 16"
  by (simp add: nibble_def jand_def and_15 nat_less_iff)

lemma nibblize_num_Some: "nibblize_num (Some v) = [nat (v mod 16), nat (v div 16 mod 16)]"
  by (simp add: nibblize_num_def nibble_Some)

lemma nibblize16_Some:
  "nibblize16 (Some v) =
     [nat (v mod 16), nat (v div 16 mod 16), nat (v div 256 mod 16), nat (v div 4096 mod 16)]"
  by (simp add: nibblize16_def nibble_Some)

lemma nibblize_concat: "nibblize ds = concat (map nibblize_num ds)"
  by (induction ds) (simp_all add: nibblize_num_def)

lemma length_nibblize [simp]: "length (nibblize ds) = 2 * length ds"
  by (induction ds) simp_all

lemma length_nibblize16 [simp]: "length (nibblize16 d) = 4"
  by (simp add: nibblize16_def)

lemma length_nibblize_num [simp]: "length (nibblize_num d) = 2"
  by (simp add: nibblize_num_def)

lemma nibblize16_less: "\<forall>x \<in> set (nibblize16 d). x < 16"
  by (simp add: nibblize16_def nibble_less)

lemma nibblize_less: "\<forall>x \<in> set (nibblize ds). x < 16"
  by (induction ds) (simp_all add: nibble_less)

section \<open>Reading back\<close>

lemma jshl_small:
  "n < 65536 \<Longrightarrow> jshl (Some (int n)) 4 = int n * 16"
  "n < 65536 \<Longrightarrow> jshl (Some (int n)) 8 = int n * 256"
  "n < 65536 \<Longrightarrow> jshl (Some (int n)) 12 = int n * 4096"
  by (simp_all add: jshl_def push_bit_eq_mult to_int32_small)

lemma nth_mid: "(pre @ xs @ post) ! (length pre + i) = (xs @ post) ! i"
  by (simp add: nth_append)

lemma rd_mid: "rd (pre @ xs) (length pre + i) = rd xs i"
  by (simp add: rd_def nth_append)

lemma rd_append: "i < length xs \<Longrightarrow> rd (xs @ ys) i = rd xs i"
  by (simp add: rd_def nth_append)

lemma rd2_mid: "rd2 (pre @ xs) (length pre + i) = rd2 xs i"
  by (simp only: rd2_def rd_mid add.assoc)

lemma rd4_mid: "rd4 (pre @ xs) (length pre + i) = rd4 xs i"
  by (simp only: rd4_def rd_mid add.assoc)

lemma rd2_pair:
  assumes "a < 65536" "b < 65536"
  shows "rd2 (a # b # rest) 0 = Some (int a + 16 * int b)"
  using assms by (simp add: rd2_def rd_def jshl_small)

lemma rd4_quad:
  assumes "a < 65536" "b < 65536" "c < 65536" "d < 65536"
  shows "rd4 (a # b # c # d # rest) 0 =
         Some (int a + 16 * int b + 256 * int c + 4096 * int d)"
  using assms by (simp add: rd4_def rd_def jshl_small)

lemma nat_mod16_less: "nat ((v :: int) mod 16) < 65536"
  using pos_mod_bound [of 16 v] by linarith

lemma nibbles_sum8: "(v :: int) mod 16 + 16 * (v div 16 mod 16) = v mod 256"
  using zmod_zmult2_eq [of 16 v 16] by simp

lemma nibbles_sum16:
  "(v :: int) mod 16 + 16 * (v div 16 mod 16) + 256 * (v div 256 mod 16) + 4096 * (v div 4096 mod 16)
     = v mod 65536"
proof -
  have hi: "v div 256 mod 256 = v div 256 mod 16 + 16 * (v div 4096 mod 16)"
    using nibbles_sum8 [of "v div 256"] zdiv_zmult2_eq [of 16 v 256] by simp
  have "v mod 65536 = v mod 256 + 256 * (v div 256 mod 256)"
    using zmod_zmult2_eq [of 256 v 256] by simp
  also have "\<dots> = (v mod 16 + 16 * (v div 16 mod 16)) +
      256 * (v div 256 mod 16 + 16 * (v div 4096 mod 16))"
    by (simp only: hi nibbles_sum8)
  also have "\<dots> = v mod 16 + 16 * (v div 16 mod 16) + 256 * (v div 256 mod 16) +
      4096 * (v div 4096 mod 16)"
    by (simp only: distrib_left mult.assoc [symmetric] numeral_times_numeral num.simps arith_simps add.assoc)
  finally show ?thesis by (rule sym)
qed

section \<open>The contract of a codec\<close>

text \<open>
  A codec writes a value on a fixed number of nibbles and reads the value back, reduced to
  its width, at whatever offset the nibbles stand.  What follows from the contract is that
  a run of encoded values is read back element by element.
\<close>

locale nibble_codec =
  fixes enc :: "int \<Rightarrow> nat list"
    and dec :: "nat list \<Rightarrow> nat \<Rightarrow> jnum"
    and width :: nat
    and modulus :: int
  assumes length_enc [simp]: "length (enc v) = width"
    and enc_nibbles: "x \<in> set (enc v) \<Longrightarrow> x < 16"
    and dec_enc: "dec (pre @ enc v @ post) (length pre) = Some (v mod modulus)"
begin

lemma length_concat_enc: "length (concat (map enc vs)) = width * length vs"
  by (induction vs) (simp_all add: algebra_simps)

lemma concat_enc_nibbles: "x \<in> set (concat (map enc vs)) \<Longrightarrow> x < 16"
  by (auto dest: enc_nibbles)

lemma dec_nth:
  assumes "k < length vs"
  shows "dec (pre @ concat (map enc vs) @ post) (length pre + width * k) = Some (vs ! k mod modulus)"
proof -
  have "concat (map enc vs) =
      concat (map enc (take k vs)) @ enc (vs ! k) @ concat (map enc (drop (Suc k) vs))"
    using assms by (metis concat.simps(2) concat_append id_take_nth_drop list.simps(9) map_append)
  then show ?thesis
    using dec_enc [of "pre @ concat (map enc (take k vs))" "vs ! k"
        "concat (map enc (drop (Suc k) vs)) @ post"] assms
    by (simp add: length_concat_enc del: concat_append)
qed

lemma dec_nth_exact:
  assumes "k < length vs" and "0 \<le> vs ! k" and "vs ! k < modulus"
  shows "dec (pre @ concat (map enc vs) @ post) (length pre + width * k) = Some (vs ! k)"
  using dec_nth [OF assms(1)] assms(2,3) by simp

lemma dec_map:
  "map (\<lambda>k. dec (pre @ concat (map enc vs) @ post) (length pre + width * k)) [0..<length vs] =
   map (\<lambda>v. Some (v mod modulus)) vs"
  by (rule nth_equalityI) (simp_all add: dec_nth)

end

interpretation byte_codec: nibble_codec "\<lambda>v. nibblize_num (Some v)" rd2 2 256
proof
  fix pre post :: "nat list" and v :: int
  show "rd2 (pre @ nibblize_num (Some v) @ post) (length pre) = Some (v mod 256)"
    using rd2_mid [of pre "nibblize_num (Some v) @ post" 0]
    by (simp add: nibblize_num_Some rd2_pair nat_mod16_less nibbles_sum8)
qed (use nibblize_less [of "[_]"] in \<open>auto simp: nibblize_num_def\<close>)

interpretation word_codec: nibble_codec "\<lambda>v. nibblize16 (Some v)" rd4 4 65536
proof
  fix pre post :: "nat list" and v :: int
  show "rd4 (pre @ nibblize16 (Some v) @ post) (length pre) = Some (v mod 65536)"
    using rd4_mid [of pre "nibblize16 (Some v) @ post" 0]
    by (simp add: nibblize16_Some rd4_quad nat_mod16_less nibbles_sum16)
qed (use nibblize16_less in auto)

end
