(* ===== verification/JsString.thy ===== *)
theory JsString
  imports Prelude
begin

text \<open>
  The string operations of the JavaScript library the program uses, on lists of code
  units: case mapping and trimming (ASCII and the common white space), splitting, joining,
  \<open>toString(radix)\<close>, \<open>parseInt\<close> and \<open>indexOf\<close>, with the round trips the components need.
  Also the errors of the program: a thrown value is a value of \<open>js_error\<close>.
\<close>

datatype js_error =
    TypeError
  | ReferenceError
  | Throw jstring
  | Exit

type_synonym 'a res = "js_error + 'a"

section \<open>Characters\<close>

definition lower1 :: "nat \<Rightarrow> nat" where
  "lower1 c = (if 65 \<le> c \<and> c \<le> 90 then c + 32 else c)"

definition upper1 :: "nat \<Rightarrow> nat" where
  "upper1 c = (if 97 \<le> c \<and> c \<le> 122 then c - 32 else c)"

definition toLowerCase :: "jstring \<Rightarrow> jstring" where
  "toLowerCase = map lower1"

definition toUpperCase :: "jstring \<Rightarrow> jstring" where
  "toUpperCase = map upper1"

definition is_ws :: "nat \<Rightarrow> bool" where
  "is_ws c \<longleftrightarrow> c = 32 \<or> (9 \<le> c \<and> c \<le> 13) \<or> c = 160 \<or> c = 65279 \<or> c = 8232 \<or> c = 8233"

definition trim :: "jstring \<Rightarrow> jstring" where
  "trim s = rev (dropWhile is_ws (rev (dropWhile is_ws s)))"

definition no_spaces :: "jstring \<Rightarrow> jstring" where
  "no_spaces s = filter (\<lambda>c. c \<noteq> 32) s"

text \<open>
  A literal with quotation marks: a backquote stands for a single and a bar for a double
  quotation mark, which the literals of the program contain and these two characters not.
\<close>

definition quote_char :: "char \<Rightarrow> nat" where
  "quote_char c = (if c = CHR ''`'' then 39 else if c = CHR ''|'' then 34 else of_char c)"

definition Q :: "string \<Rightarrow> jstring" where
  "Q s = map quote_char s"

lemma Q_Nil [simp]: "Q [] = []"
  by (simp add: Q_def)

lemma Q_Cons [js_eval]: "Q (c # cs) = quote_char c # Q cs"
  by (simp add: Q_def)

section \<open>Splitting and joining\<close>

fun split_on :: "nat \<Rightarrow> jstring \<Rightarrow> jstring list" where
  "split_on d [] = [[]]"
| "split_on d (c # s) =
     (if c = d then [] # split_on d s
      else (case split_on d s of [] \<Rightarrow> [[c]] | p # ps \<Rightarrow> (c # p) # ps))"

fun join :: "jstring \<Rightarrow> jstring list \<Rightarrow> jstring" where
  "join sep [] = []"
| "join sep [p] = p"
| "join sep (p # ps) = p @ sep @ join sep ps"

lemma split_on_ne [simp]: "split_on d s \<noteq> []"
  by (cases s) (auto split: list.splits)

lemma split_on_single: "d \<notin> set s \<Longrightarrow> split_on d s = [s]"
  by (induction s) auto

lemma split_on_append: "d \<notin> set p \<Longrightarrow> split_on d (p @ d # s) = p # split_on d s"
  by (induction p) auto

lemma split_on_join:
  "ps \<noteq> [] \<Longrightarrow> \<forall>p \<in> set ps. d \<notin> set p \<Longrightarrow> split_on d (join [d] ps) = ps"
proof (induction ps)
  case (Cons p ps)
  then show ?case
    by (cases ps) (simp_all add: split_on_single split_on_append)
qed simp

lemma join_Cons_head: "join sep ((c # p) # ps) = c # join sep (p # ps)"
  by (cases ps) simp_all

lemma join_split_on: "join [d] (split_on d s) = s"
proof (induction s)
  case (Cons c s)
  then show ?case
    by (cases "split_on d s") (auto split: list.splits simp: neq_Nil_conv join_Cons_head)
qed simp

lemma split_on_no_sep: "p \<in> set (split_on d s) \<Longrightarrow> d \<notin> set p"
  by (induction s arbitrary: p) (auto split: if_splits list.splits)

lemma no_spaces_join: "d \<noteq> 32 \<Longrightarrow> no_spaces (join [d] ps) = join [d] (map no_spaces ps)"
  by (induction "[d]" ps rule: join.induct) (simp_all add: no_spaces_def)

lemma no_spaces_idem [simp]: "no_spaces (no_spaces s) = no_spaces s"
  by (simp add: no_spaces_def)

lemma no_spaces_lower: "no_spaces (toLowerCase s) = toLowerCase (no_spaces s)"
  by (induction s) (auto simp: no_spaces_def toLowerCase_def lower1_def)

section \<open>Numbers to strings\<close>

definition digit_char :: "nat \<Rightarrow> nat" where
  "digit_char d = (if d < 10 then 48 + d else 87 + d)"

fun digits_of :: "nat \<Rightarrow> nat \<Rightarrow> jstring" where
  "digits_of r n =
     (if n < r \<or> r < 2 then [digit_char n] else digits_of r (n div r) @ [digit_char (n mod r)])"

declare digits_of.simps [simp del]

definition int_to_string :: "nat \<Rightarrow> int \<Rightarrow> jstring" where
  "int_to_string r v = (if v < 0 then 45 # digits_of r (nat (- v)) else digits_of r (nat v))"

definition num_to_string :: "nat \<Rightarrow> jnum \<Rightarrow> jstring" where
  "num_to_string r x = (case x of None \<Rightarrow> S ''NaN'' | Some v \<Rightarrow> int_to_string r v)"

section \<open>parseInt\<close>

definition digit_value :: "nat \<Rightarrow> nat option" where
  "digit_value c =
     (if 48 \<le> c \<and> c \<le> 57 then Some (c - 48)
      else if 97 \<le> c \<and> c \<le> 122 then Some (c - 87)
      else if 65 \<le> c \<and> c \<le> 90 then Some (c - 55) else None)"

definition is_digit :: "nat \<Rightarrow> nat \<Rightarrow> bool" where
  "is_digit r c \<longleftrightarrow> (case digit_value c of None \<Rightarrow> False | Some d \<Rightarrow> d < r)"

definition digits_value :: "nat \<Rightarrow> jstring \<Rightarrow> nat" where
  "digits_value r ds = foldl (\<lambda>n c. n * r + the (digit_value c)) 0 ds"

definition strip_0x :: "jstring \<Rightarrow> jstring" where
  "strip_0x s = (if length s \<ge> 2 \<and> s ! 0 = 48 \<and> (s ! 1 = 120 \<or> s ! 1 = 88) then drop 2 s else s)"

text \<open>
  \<open>parse_int (Some r)\<close> is \<open>parseInt(s,r)\<close>; \<open>parse_int None\<close> is \<open>parseInt(s)\<close>, which
  takes a leading \<open>0x\<close> for a hexadecimal number and is decimal otherwise.
\<close>

definition parse_int :: "nat option \<Rightarrow> jstring \<Rightarrow> jnum" where
  "parse_int radix s0 =
     (let s1 = dropWhile is_ws s0;
          neg = (s1 \<noteq> [] \<and> hd s1 = 45);
          s2 = (if s1 \<noteq> [] \<and> (hd s1 = 45 \<or> hd s1 = 43) then tl s1 else s1);
          s3 = (if radix = None \<or> radix = Some 16 then strip_0x s2 else s2);
          r = (case radix of Some r \<Rightarrow> r | None \<Rightarrow> if s3 = s2 then 10 else 16);
          ds = takeWhile (is_digit r) s3
      in if ds = [] then None
         else Some (if neg then - int (digits_value r ds) else int (digits_value r ds)))"

section \<open>Reading printed numbers back\<close>

lemma digit_value_char: "d < 36 \<Longrightarrow> digit_value (digit_char d) = Some d"
  by (auto simp: digit_value_def digit_char_def)

lemma digits_of_digits: "2 \<le> r \<Longrightarrow> r \<le> 36 \<Longrightarrow> c \<in> set (digits_of r n) \<Longrightarrow> is_digit r c"
proof (induction r n rule: digits_of.induct)
  case (1 r n)
  have m: "n mod r < r" using 1 by simp
  then have v: "digit_value (digit_char (n mod r)) = Some (n mod r)"
    using 1 by (intro digit_value_char) linarith
  show ?case
    using 1 m v by (subst (asm) digits_of.simps)
      (auto simp: is_digit_def digit_value_char split: if_splits)
qed

lemma digits_of_ne [simp]: "digits_of r n \<noteq> []"
  by (subst digits_of.simps) simp

lemma digits_value_snoc: "digits_value r (ds @ [c]) = digits_value r ds * r + the (digit_value c)"
  by (simp add: digits_value_def)

lemma digits_value_digits_of: "2 \<le> r \<Longrightarrow> r \<le> 36 \<Longrightarrow> digits_value r (digits_of r n) = n"
proof (induction r n rule: digits_of.induct)
  case (1 r n)
  show ?case
  proof (cases "n < r")
    case True
    then show ?thesis
      using 1 by (subst digits_of.simps) (simp add: digits_value_def digit_value_char)
  next
    case False
    have "n mod r < r" using 1 by simp
    then have "n mod r < 36" using 1 by linarith
    then show ?thesis
      using 1 False by (subst digits_of.simps) (simp add: digits_value_snoc digit_value_char)
  qed
qed

lemma is_digit_not_sign: "is_digit r c \<Longrightarrow> c \<noteq> 45 \<and> c \<noteq> 43 \<and> \<not> is_ws c"
  by (auto simp: is_digit_def digit_value_def is_ws_def split: if_splits option.splits)

lemma is_digit_10: "is_digit 10 c \<longleftrightarrow> 48 \<le> c \<and> c \<le> 57"
  by (auto simp: is_digit_def digit_value_def)

lemma parse_int_digits:
  assumes ds: "ds \<noteq> []" "\<forall>c \<in> set ds. is_digit r c"
    and rest: "rest = [] \<or> \<not> is_digit r (hd rest)"
    and x: "r = 16 \<longrightarrow> strip_0x (ds @ rest) = ds @ rest"
  shows "parse_int (Some r) (ds @ rest) = Some (int (digits_value r ds))"
proof -
  obtain d ds' where d: "ds = d # ds'" using ds by (cases ds) auto
  then have "is_digit r d" using ds by simp
  note n = is_digit_not_sign [OF this]
  have tw: "takeWhile (is_digit r) (ds @ rest) = ds"
    using ds rest by (cases rest) (auto simp: takeWhile_append takeWhile_eq_all_conv [THEN iffD2])
  show ?thesis
    using n d tw x by (auto simp: parse_int_def Let_def)
qed

end
