(* ===== verification/ControlTree.thy ===== *)
theory ControlTree
  imports JsString
begin

text \<open>
  The device's control tree and object descriptions as \<open>src/mpxg2-dev/lexicon.js\<close> keeps
  them in \<open>self.config\<close>, and the functions that address it: by level numbers, by names,
  by the hexadecimal address \<open>L\<close> of the web pages, and by program number.  Integer keys of
  an object are enumerated in ascending order, so a node's children are kept sorted.
\<close>

section \<open>The configuration\<close>

record odesc =
  od_objectType :: jnum
  od_name :: jstring
  od_dataSize :: jnum
  od_controlFlags :: jnum
  od_patchable :: int
  od_automation :: int
  od_isControlLevel :: int
  od_isBottomControlLevel :: int
  od_usesTemp :: int
  od_wrapping :: int
  od_softRowAssignable :: int
  od_optionType :: jnum
  od_numberOfUnitsOrLimits :: jnum
  od_minValue :: "jnum list"
  od_maxValue :: "jnum list"
  od_displayUnits :: "jnum list"

datatype ctree =
  Node (ct_type: "jnum option") (ct_label: "jstring option")
    (ct_offset: "nat list option") (ct_ok: bool) (ct_kids: "(jnum \<times> ctree) list")

definition empty_node :: ctree where
  "empty_node = Node None None None False []"

record config =
  objectDescription :: "jnum \<Rightarrow> odesc option"
  controlTree :: ctree

definition od_of :: "config \<Rightarrow> ctree \<Rightarrow> odesc option" where
  "od_of cfg node = Option.bind (ct_type node) (objectDescription cfg)"

fun key_less :: "jnum \<Rightarrow> jnum \<Rightarrow> bool" where
  "key_less (Some a) (Some b) = (a < b)"
| "key_less (Some a) None = True"
| "key_less None _ = False"

fun set_kid :: "jnum \<Rightarrow> ctree \<Rightarrow> (jnum \<times> ctree) list \<Rightarrow> (jnum \<times> ctree) list" where
  "set_kid k t [] = [(k, t)]"
| "set_kid k t ((k', t') # kids) =
     (if k = k' then (k, t) # kids
      else if key_less k k' then (k, t) # (k', t') # kids
      else (k', t') # set_kid k t kids)"

definition child :: "ctree \<Rightarrow> jnum \<Rightarrow> ctree option" where
  "child t k = map_of (ct_kids t) k"

lemma map_of_set_kid [simp]: "map_of (set_kid k t kids) j = (if j = k then Some t else map_of kids j)"
  by (induction k t kids rule: set_kid.induct) auto

section \<open>Addressing by level numbers\<close>

text \<open>
  Both functions loop \<open>numLevels\<close> times over \<open>levels\<close>; an element past the end of the
  array is \<open>undefined\<close>, the key \<open>None\<close>.
\<close>

definition jhead :: "jnum list \<Rightarrow> jnum" where
  "jhead ls = (case ls of [] \<Rightarrow> None | l # _ \<Rightarrow> l)"

fun get_level :: "ctree \<Rightarrow> nat \<Rightarrow> jnum list \<Rightarrow> ctree option" where
  "get_level t 0 ls = Some t"
| "get_level t (Suc n) ls =
     (case child t (jhead ls) of None \<Rightarrow> None | Some c \<Rightarrow> get_level c n (tl ls))"

definition getLevel :: "config \<Rightarrow> nat \<Rightarrow> jnum list \<Rightarrow> ctree option" where
  "getLevel cfg numLevels levels = get_level (controlTree cfg) numLevels levels"

fun level_names :: "config \<Rightarrow> ctree \<Rightarrow> nat \<Rightarrow> jnum list \<Rightarrow> jstring list option res" where
  "level_names cfg t 0 ls = Inr (Some [])"
| "level_names cfg t (Suc n) ls =
     (case child t (jhead ls) of
        None \<Rightarrow> Inr None
      | Some c \<Rightarrow>
          (case od_of cfg c of
             None \<Rightarrow> Inl TypeError
           | Some od \<Rightarrow>
               (case level_names cfg c n (tl ls) of
                  Inl e \<Rightarrow> Inl e
                | Inr None \<Rightarrow> Inr None
                | Inr (Some ps) \<Rightarrow> Inr (Some (od_name od # ps)))))"

definition getLevelName :: "config \<Rightarrow> nat \<Rightarrow> jnum list \<Rightarrow> jstring option res" where
  "getLevelName cfg numLevels levels =
     map_sum id (map_option (\<lambda>ps. no_spaces (join [46] ps)))
       (level_names cfg (controlTree cfg) numLevels levels)"

section \<open>Addressing by name\<close>

definition kid_name :: "jstring \<Rightarrow> jstring" where
  "kid_name name = no_spaces (toLowerCase name)"

fun find_kid :: "config \<Rightarrow> jstring \<Rightarrow> (jnum \<times> ctree) list \<Rightarrow> jnum option res" where
  "find_kid cfg term [] = Inr None"
| "find_kid cfg term ((k, c) # kids) =
     (case od_of cfg c of
        None \<Rightarrow> Inl TypeError
      | Some od \<Rightarrow>
          if kid_name (od_name od) = term then Inr (Some k) else find_kid cfg term kids)"

text \<open>
  \<open>search\<close> returns the key it finds, and otherwise its argument \<open>levels\<close>: \<open>Inl\<close> and
  \<open>Inr\<close> of the inner sum.  The array of a node's \<open>offset\<close>, when it has one, is an object
  without a description, and comes after the integer keys.
\<close>

definition search :: "config \<Rightarrow> jstring \<Rightarrow> jnum list \<Rightarrow> (jnum + jnum list) res" where
  "search cfg term0 levels =
     (let term = no_spaces (toLowerCase term0);
          curLevel = (if levels \<noteq> [] then getLevel cfg (length levels) levels
                      else Some (controlTree cfg))
      in case curLevel of
           None \<Rightarrow> Inr (Inr levels)
         | Some c \<Rightarrow>
             (case find_kid cfg term (ct_kids c) of
                Inl e \<Rightarrow> Inl e
              | Inr (Some k) \<Rightarrow> Inr (Inl k)
              | Inr None \<Rightarrow> if ct_offset c \<noteq> None then Inl TypeError else Inr (Inr levels)))"

text \<open>
  \<open>parseInt\<close> of a key is the key; of an array it is \<open>parseInt\<close> of the elements joined with
  commas, the first element.  An array is truthy, so the branch that reports a missing key
  is never taken.
\<close>

fun match_number :: "jnum + jnum list \<Rightarrow> jnum" where
  "match_number (Inl k) = k"
| "match_number (Inr ls) = jhead ls"

fun levels_by_name :: "config \<Rightarrow> jstring list \<Rightarrow> jnum list \<Rightarrow> jnum list res" where
  "levels_by_name cfg [] levels = Inr levels"
| "levels_by_name cfg (p # ps) levels =
     (case search cfg p levels of
        Inl e \<Rightarrow> Inl e
      | Inr m \<Rightarrow> levels_by_name cfg ps (levels @ [match_number m]))"

definition getLevelsByName :: "config \<Rightarrow> jstring \<Rightarrow> jnum list res" where
  "getLevelsByName cfg path = levels_by_name cfg (split_on 46 path) []"

section \<open>Hexadecimal addresses\<close>

fun toL :: "nat \<Rightarrow> jnum list \<Rightarrow> jstring res" where
  "toL 0 ls = Inr []"
| "toL (Suc n) [] = Inl TypeError"
| "toL (Suc n) (l # ls) =
     (let hex = toUpperCase (num_to_string 16 l)
      in map_sum id (\<lambda>L. (if length hex = 1 then 48 # hex else hex) @ L) (toL n ls))"

definition x_bytes :: "jstring \<Rightarrow> jnum list" where
  "x_bytes s = map (parse_int (Some 16)) (split_on 32 s)"

fun hex_pairs :: "jstring \<Rightarrow> jnum list" where
  "hex_pairs [] = []"
| "hex_pairs [c] = [parse_int (Some 16) [c]]"
| "hex_pairs (c # d # s) = parse_int (Some 16) [c, d] # hex_pairs s"

definition levels_parse :: "config \<Rightarrow> jstring \<Rightarrow> jnum list res" where
  "levels_parse cfg L =
     (if take 1 L \<noteq> [48] then getLevelsByName cfg L else Inr (hex_pairs L))"

section \<open>Program addresses\<close>

definition getProgramAddr :: "jnum \<Rightarrow> jnum list" where
  "getProgramAddr programNumber =
     (case programNumber of
        None \<Rightarrow> [Some 1, Some 10, Some 2, Some 0x64]
      | Some n \<Rightarrow>
          if n < 1 \<or> n > 300 then [Some 1, Some 10, Some 2, Some 0x64]
          else if n \<le> 100 then [Some 1, Some 10, Some 0, Some (n - 1)]
          else if n \<le> 200 then [Some 1, Some 10, Some 1, Some (n - 100 - 1)]
          else [Some 1, Some 10, Some 2, Some (n - 200 - 1)])"

text \<open>The result \<open>None\<close> is \<open>undefined\<close>; the address of the active program has none.\<close>

definition jnth :: "jnum list \<Rightarrow> nat \<Rightarrow> jnum" where
  "jnth ls i = (if i < length ls then ls ! i else None)"

definition parseProgramAddr :: "jnum \<Rightarrow> jnum list \<Rightarrow> jnum option" where
  "parseProgramAddr numLevels levels =
     (if numLevels = Some 4 \<and> jnth levels 0 = Some 1 \<and> jnth levels 1 = Some 10 then
        (if jnth levels 2 = Some 0 then Some (jadd (jnth levels 3) (Some 1))
         else if jnth levels 2 = Some 1 then
           Some (jadd (jadd (Some 100) (jnth levels 3)) (Some 1))
         else if jnth levels 2 = Some 2 then
           (case jnth levels 3 of
              None \<Rightarrow> None
            | Some v \<Rightarrow> if v < 0x64 then Some (Some (200 + v + 1)) else None)
         else None)
      else None)"

definition getProgramName :: "nat list \<Rightarrow> jstring" where
  "getProgramName dump =
     trim (if rd dump 0x11e \<noteq> Some 0
           then map (\<lambda>i. from_char_code (rd dump i)) [0x11e..<0x12a] else [])"

section \<open>Names lead back to levels\<close>

text \<open>
  What a node satisfies for its path to lead back to it: at every step it is the first of
  its siblings with its name (compared as \<open>search\<close> compares names), the siblings before it
  have descriptions, and its name contains no dot.
\<close>

definition od_named :: "config \<Rightarrow> ctree \<Rightarrow> jstring" where
  "od_named cfg c = (case od_of cfg c of None \<Rightarrow> [] | Some od \<Rightarrow> od_name od)"

fun resolvable :: "config \<Rightarrow> ctree \<Rightarrow> jnum list \<Rightarrow> bool" where
  "resolvable cfg t [] = True"
| "resolvable cfg t (l # ls) =
     (case child t l of None \<Rightarrow> False
      | Some c \<Rightarrow>
          od_of cfg c \<noteq> None \<and> 46 \<notin> set (od_named cfg c)
          \<and> list_all (\<lambda>(k, d). od_of cfg d \<noteq> None \<and>
                 kid_name (od_named cfg d) \<noteq> kid_name (od_named cfg c))
              (takeWhile (\<lambda>(k, d). k \<noteq> l) (ct_kids t))
          \<and> resolvable cfg c ls)"

lemma find_kid_hit:
  "map_of kids l = Some c \<Longrightarrow> od_of cfg c \<noteq> None \<Longrightarrow>
   list_all (\<lambda>(k, d). od_of cfg d \<noteq> None \<and>
                 kid_name (od_named cfg d) \<noteq> kid_name (od_named cfg c))
     (takeWhile (\<lambda>(k, d). k \<noteq> l) kids) \<Longrightarrow>
   find_kid cfg (kid_name (od_named cfg c)) kids = Inr (Some l)"
  by (induction kids) (auto simp: od_named_def split: if_splits)

lemma get_level_snoc:
  "length ls = n \<Longrightarrow> get_level t (Suc n) (ls @ [l]) =
     (case get_level t n ls of None \<Rightarrow> None | Some c \<Rightarrow> child c l)"
  by (induction ls arbitrary: t n) (auto simp: jhead_def split: option.splits)

lemma search_hit:
  assumes "getLevel cfg (length pre) pre = Some t" and "resolvable cfg t (l # ls)"
    and "child t l = Some c"
  shows "search cfg (no_spaces (od_named cfg c)) pre = Inr (Inl l)"
proof -
  have "no_spaces (toLowerCase (no_spaces (od_named cfg c))) = kid_name (od_named cfg c)"
    by (simp add: kid_name_def no_spaces_lower)
  moreover have "find_kid cfg (kid_name (od_named cfg c)) (ct_kids t) = Inr (Some l)"
    using assms(2,3) by (intro find_kid_hit) (auto simp: child_def)
  moreover have "(if pre \<noteq> [] then getLevel cfg (length pre) pre else Some (controlTree cfg)) = Some t"
    using assms(1) by (auto simp: getLevel_def)
  ultimately show ?thesis by (simp add: search_def Let_def)
qed

lemma levels_by_name_resolves:
  "getLevel cfg (length pre) pre = Some t \<Longrightarrow> resolvable cfg t ls \<Longrightarrow>
   \<exists>ps. level_names cfg t (length ls) ls = Inr (Some ps) \<and> length ps = length ls \<and>
        (\<forall>p \<in> set ps. 46 \<notin> set p) \<and>
        levels_by_name cfg (map no_spaces ps) pre = Inr (pre @ ls)"
proof (induction ls arbitrary: t pre)
  case (Cons l ls)
  then obtain c od where c: "child t l = Some c" "46 \<notin> set (od_named cfg c)"
    "resolvable cfg c ls" and od: "od_of cfg c = Some od" by (auto split: option.splits)
  have "getLevel cfg (length (pre @ [l])) (pre @ [l]) = Some c"
    using Cons.prems(1) c(1) get_level_snoc [of pre "length pre"]
    by (simp add: getLevel_def)
  from Cons.IH [OF this c(3)] obtain ps where
    "level_names cfg c (length ls) ls = Inr (Some ps)" "length ps = length ls"
    "\<forall>p \<in> set ps. 46 \<notin> set p"
    "levels_by_name cfg (map no_spaces ps) (pre @ [l]) = Inr (pre @ l # ls)" by auto
  then show ?case
    using search_hit [OF Cons.prems c(1)] c od by (simp add: jhead_def od_named_def)
qed simp

lemma no_dot_no_spaces: "46 \<notin> set p \<Longrightarrow> 46 \<notin> set (no_spaces p)"
  by (simp add: no_spaces_def)

lemma getLevelsByName_getLevelName:
  assumes "resolvable cfg (controlTree cfg) ls" and "ls \<noteq> []"
  shows "\<exists>p. getLevelName cfg (length ls) ls = Inr (Some p) \<and> getLevelsByName cfg p = Inr ls"
proof -
  have "getLevel cfg (length []) [] = Some (controlTree cfg)" by (simp add: getLevel_def)
  from levels_by_name_resolves [OF this assms(1)] obtain ps where
    ps: "level_names cfg (controlTree cfg) (length ls) ls = Inr (Some ps)"
    "length ps = length ls" "\<forall>p \<in> set ps. 46 \<notin> set p"
    "levels_by_name cfg (map no_spaces ps) [] = Inr ls" by auto
  have "split_on 46 (join [46] (map no_spaces ps)) = map no_spaces ps"
    using ps assms(2) by (intro split_on_join) (auto simp: no_dot_no_spaces)
  then show ?thesis
    using ps by (simp add: getLevelName_def getLevelsByName_def no_spaces_join)
qed

lemma levels_by_name_length:
  "levels_by_name cfg ps pre = Inr ls \<Longrightarrow> length ls = length pre + length ps"
  by (induction ps arbitrary: pre) (auto split: sum.splits)

lemma levels_by_name_prefix:
  "levels_by_name cfg ps pre = Inr ls \<Longrightarrow> take (length pre) ls = pre"
proof (induction ps arbitrary: pre)
  case (Cons p ps)
  then obtain m where "levels_by_name cfg ps (pre @ [m]) = Inr ls" by (auto split: sum.splits)
  from Cons.IH [OF this] have "take (length pre) (take (Suc (length pre)) ls) = pre" by simp
  then show ?case by (simp add: min_def)
qed simp

section \<open>Hexadecimal addresses lead back to levels\<close>

definition byte_level :: "jnum \<Rightarrow> bool" where
  "byte_level l \<longleftrightarrow> (case l of None \<Rightarrow> False | Some v \<Rightarrow> 0 \<le> v \<and> v < 256)"

definition hex2 :: "nat \<Rightarrow> jstring" where
  "hex2 n = [upper1 (digit_char (n div 16)), upper1 (digit_char (n mod 16))]"

lemma upper1_digit: "d < 16 \<Longrightarrow> is_digit 16 (upper1 (digit_char d)) \<and>
    digit_value (upper1 (digit_char d)) = Some d"
  by (auto simp: upper1_def digit_char_def is_digit_def digit_value_def)

lemma hex_byte:
  assumes "n < 256"
  shows "(let hex = toUpperCase (int_to_string 16 (int n))
          in (if length hex = 1 then 48 # hex else hex)) = hex2 n"
proof (cases "n < 16")
  case True
  then have "digits_of 16 n = [digit_char n]" by (subst digits_of.simps) simp
  then show ?thesis using True
    by (simp add: int_to_string_def toUpperCase_def hex2_def) (simp add: digit_char_def upper1_def)
next
  case False
  have "digits_of 16 n = digits_of 16 (n div 16) @ [digit_char (n mod 16)]"
    using False by (subst digits_of.simps) simp
  also have "digits_of 16 (n div 16) = [digit_char (n div 16)]"
    using assms by (subst digits_of.simps) simp
  finally show ?thesis by (simp add: int_to_string_def toUpperCase_def hex2_def)
qed

lemma toL_hex2:
  "\<forall>l \<in> set ls. byte_level l \<Longrightarrow>
   toL (length ls) ls = Inr (concat (map (\<lambda>l. hex2 (nat (the l))) ls))"
proof (induction ls)
  case (Cons l ls)
  then obtain v where v: "l = Some v" "0 \<le> v" "v < 256" by (auto simp: byte_level_def split: option.splits)
  then show ?case
    using Cons hex_byte [of "nat v"] by (simp add: num_to_string_def Let_def)
qed simp

lemma parse_hex2: "n < 256 \<Longrightarrow> parse_int (Some 16) (hex2 n) = Some (int n)"
proof -
  assume n: "n < 256"
  have d: "n div 16 < 16" "n mod 16 < 16" using n by auto
  have "strip_0x (hex2 n) = hex2 n"
    using d by (auto simp: strip_0x_def hex2_def upper1_def digit_char_def)
  then have "parse_int (Some 16) (hex2 n @ []) = Some (int (digits_value 16 (hex2 n)))"
    using d by (intro parse_int_digits) (auto simp: hex2_def upper1_digit)
  then show ?thesis
    using d by (simp add: digits_value_def hex2_def upper1_digit)
qed

lemma hex_pairs_hex2:
  "\<forall>n \<in> set ns. n < 256 \<Longrightarrow> hex_pairs (concat (map hex2 ns)) = map (\<lambda>n. Some (int n)) ns"
proof (induction ns)
  case (Cons n ns)
  then have "hex_pairs (hex2 n @ concat (map hex2 ns)) =
      parse_int (Some 16) (hex2 n) # hex_pairs (concat (map hex2 ns))"
    by (simp add: hex2_def)
  then show ?case using Cons by (simp add: parse_hex2)
qed simp

section \<open>A fragment of the shipped configuration\<close>

text \<open>
  \<open>src/main/060F-0110.json\<close> cut down to the path of \<open>System.SystemModes.AddresMode\<close>, the
  parameter \<open>shortAddresses_set\<close> writes, and its neighbours: the input of the witnesses.
\<close>

definition plain_od :: "int \<Rightarrow> jstring \<Rightarrow> int \<Rightarrow> int \<Rightarrow> int \<Rightarrow> odesc" where
  "plain_od ty name flags mx unit =
     \<lparr>od_objectType = Some ty, od_name = name, od_dataSize = Some 1, od_controlFlags = Some flags,
      od_patchable = flags AND 1, od_automation = flags AND 2, od_isControlLevel = flags AND 4,
      od_isBottomControlLevel = flags AND 8, od_usesTemp = flags AND 16,
      od_wrapping = flags AND 32, od_softRowAssignable = flags AND 64,
      od_optionType = Some 0xFFFF, od_numberOfUnitsOrLimits = Some 1,
      od_minValue = [Some 0], od_maxValue = [Some mx], od_displayUnits = [Some unit]\<rparr>"

definition sample_ods :: "(jnum \<times> odesc) list" where
  "sample_ods =
     [(Some 544, plain_od 544 (S ''MPX G2'') 4 1 1), (Some 540, plain_od 540 (S ''Program'') 4 24 1),
      (Some 541, plain_od 541 (S ''System'') 4 18 1), (Some 321, plain_od 321 (S ''Automation'') 0 1 4),
      (Some 585, plain_od 585 (S ''SystemModes'') 4 6 1),
      (Some 456, plain_od 456 (S ''TeminalDis'') 0 1 4),
      (Some 457, plain_od 457 (S ''AddresMode'') 0 1 4)]"

definition leaf :: "int \<Rightarrow> ctree" where
  "leaf ty = Node (Some (Some ty)) None None False []"

definition sample_tree :: ctree where
  "sample_tree =
     Node (Some (Some 544)) None None False
       [(Some 0, leaf 540),
        (Some 1, Node (Some (Some 541)) None None False
           [(Some 18, Node (Some (Some 585)) None None False
               [(Some 3, leaf 456), (Some 5, leaf 457)])])]"

definition sample_config :: config where
  "sample_config = \<lparr>objectDescription = map_of sample_ods, controlTree = sample_tree\<rparr>"

lemmas sample_simps =
  sample_config_def sample_tree_def sample_ods_def leaf_def plain_od_def

section \<open>Properties\<close>

text \<open>
  C6: The dotted name of a node leads back to its level numbers: for every node that is, at
  each step of its path, the first sibling of its name, \<open>getLevelName\<close> gives a path on
  which \<open>getLevelsByName\<close> returns exactly the levels.
\<close>

theorem names_roundtrip:
  assumes "resolvable cfg (controlTree cfg) ls" and "ls \<noteq> []"
  shows "\<exists>p. getLevelName cfg (length ls) ls = Inr (Some p) \<and> getLevelsByName cfg p = Inr ls"
  using assms by (rule getLevelsByName_getLevelName)

theorem names_roundtrip_witness:
  "\<exists>p. getLevelName sample_config 3 [Some 1, Some 18, Some 5] = Inr (Some p) \<and>
       getLevelsByName sample_config p = Inr [Some 1, Some 18, Some 5]"
proof -
  have "resolvable sample_config (controlTree sample_config) [Some 1, Some 18, Some 5]"
    by (simp add: sample_simps child_def od_of_def od_named_def js_eval kid_name_def
        no_spaces_def toLowerCase_def lower1_def)
  from names_roundtrip [OF this] show ?thesis by (simp add: numeral_3_eq_3)
qed

text \<open>
  A name that is not in the tree is never reported.  \<open>search\<close> returns its (truthy)
  argument instead of a key, so the component that was not found is replaced by the first
  level found before it: below the top-level name at level \<open>k\<close>, every unknown name resolves
  to the levels \<open>k, k\<close>, and \<open>set\<close> or \<open>get\<close> address that parameter.
\<close>

theorem unknown_name_aliases:
  assumes "search cfg p [] = Inr (Inl k)" and "search cfg q [k] = Inr (Inr [k])"
    and "46 \<notin> set p" and "46 \<notin> set q"
  shows "getLevelsByName cfg (p @ 46 # q) = Inr [k, k]"
  using assms
  by (simp add: getLevelsByName_def split_on_append split_on_single jhead_def)

theorem unknown_name_aliases_witness:
  "getLevelsByName sample_config (S ''System.NoSuch'') = Inr [Some 1, Some 1]"
proof -
  have p: "S ''System.NoSuch'' = S ''System'' @ 46 # S ''NoSuch''" by (simp add: js_eval)
  have a: "search sample_config (S ''System'') [] = Inr (Inl (Some 1))"
    by (simp add: search_def sample_simps od_of_def js_eval kid_name_def no_spaces_def
        toLowerCase_def lower1_def)
  have b: "search sample_config (S ''NoSuch'') [Some 1] = Inr (Inr [Some 1])"
    by (simp add: search_def getLevel_def child_def jhead_def sample_simps od_of_def js_eval
        kid_name_def no_spaces_def toLowerCase_def lower1_def)
  show ?thesis
    unfolding p by (rule unknown_name_aliases [OF a b]) (simp_all add: js_eval)
qed

lemma levels_parse_toL:
  assumes "\<forall>l \<in> set ls. byte_level l" and "ls \<noteq> []" and "the (hd ls) < 16"
    and "toL (length ls) ls = Inr L"
  shows "levels_parse cfg L = Inr ls"
proof -
  let ?ns = "map (\<lambda>l. nat (the l)) ls"
  let ?L = "concat (map hex2 ?ns)"
  have L: "L = ?L" using toL_hex2 [OF assms(1)] assms(4) by (simp add: comp_def)
  have "hd ls \<in> set ls" using assms(2) by simp
  then have "nat (the (hd ls)) < 16" using assms(1,3) by (auto simp: byte_level_def)
  then have "take 1 ?L = [48]"
    using assms(2) by (cases ls) (simp_all add: hex2_def digit_char_def upper1_def)
  moreover have "hex_pairs ?L = map (\<lambda>n. Some (int n)) ?ns"
    using assms(1) by (intro hex_pairs_hex2) (fastforce simp: byte_level_def split: option.splits)
  moreover have "map (\<lambda>n. Some (int n)) ?ns = ls"
    using assms(1) by (auto simp: byte_level_def intro!: map_idI split: option.splits)
  ultimately show "levels_parse cfg L = Inr ls" by (simp add: levels_parse_def L)
qed

text \<open>
  The hexadecimal address of the web pages leads back to the level numbers: for levels
  that fit a byte, the first below 16 (so that the address starts with a zero and is not
  taken for a name), \<open>levels_parse\<close> inverts \<open>toL\<close>.
\<close>

theorem address_roundtrip:
  assumes "\<forall>l \<in> set ls. byte_level l" and "ls \<noteq> []" and "the (hd ls) < 16"
  shows "\<exists>L. toL (length ls) ls = Inr L \<and> levels_parse cfg L = Inr ls"
  using toL_hex2 [OF assms(1)] levels_parse_toL [OF assms] by blast

theorem address_roundtrip_witness:
  "\<exists>L. toL 3 [Some 1, Some 18, Some 255] = Inr L \<and>
       levels_parse sample_config L = Inr [Some 1, Some 18, Some 255]"
proof -
  have "\<forall>l \<in> set [Some 1, Some 18, Some 255]. byte_level l" by (simp add: byte_level_def)
  from address_roundtrip [OF this] show ?thesis by (simp add: numeral_3_eq_3 del: toL.simps)
qed

text \<open>
  The dump address of a program leads back to its number for the programs 1 to 300, and
  every other number (and a value that is not a number) addresses the active program, whose
  address has no number.
\<close>

theorem program_address_roundtrip:
  "parseProgramAddr (Some 4) (getProgramAddr x) =
     (case x of None \<Rightarrow> None
      | Some n \<Rightarrow> if 1 \<le> n \<and> n \<le> 300 then Some (Some n) else None)"
  by (auto simp: parseProgramAddr_def getProgramAddr_def jnth_def split: option.splits)

end
