(* ===== verification/Messages.thy ===== *)
theory Messages
  imports Nibbles ControlTree
begin

text \<open>
  The parsers of the messages the device sends (\<open>src/mpxg2-dev/lexicon.js\<close>): system
  configuration, data, object type, object description, object label, terminal text and
  handshake.  Every parser reads a frame from index 5 with \<open>rd2\<close> and \<open>rd4\<close>; a read past
  the end is \<open>undefined\<close> and makes the number \<open>NaN\<close>.  The parsers that store what they
  learn take the configuration and return it updated; the value handed to the callback is
  returned beside it.
\<close>

section \<open>Text fields\<close>

text \<open>
  The loop \<open>for (j=i; j<i+numbytes && j<buf.length; j+=2)\<close>; the result is the text and the
  index the loop stops at.
\<close>

function read_text :: "nat list \<Rightarrow> nat \<Rightarrow> int \<Rightarrow> jstring \<times> nat" where
  "read_text buf j stop =
     (if int j < stop \<and> j < length buf
      then (let (s, k) = read_text buf (j + 2) stop in (from_char_code (rd2 buf j) # s, k))
      else ([], j))"
  by pat_completeness auto
termination by (relation "measure (\<lambda>(buf, j, stop). length buf - j)") auto

declare read_text.simps [simp del]

section \<open>System configuration\<close>

record sysconf =
  sc_majorVersion :: jnum
  sc_minorVersion :: jnum
  sc_timeString :: jstring
  sc_dateString :: jstring
  sc_numberOfObjectTypes :: jnum
  sc_reserved :: jnum
  sc_numberOfControlLevels :: jnum

definition systemConfiguration_parse :: "nat list \<Rightarrow> sysconf" where
  "systemConfiguration_parse buf =
     (let (time, i1) = read_text buf 9 (9 + 16);
          (date, i2) = read_text buf i1 (int i1 + 22)
      in \<lparr>sc_majorVersion = rd2 buf 5, sc_minorVersion = rd2 buf 7,
          sc_timeString = time, sc_dateString = date,
          sc_numberOfObjectTypes = rd4 buf i2, sc_reserved = rd4 buf (i2 + 4),
          sc_numberOfControlLevels = rd4 buf (i2 + 8)\<rparr>)"

section \<open>Data messages\<close>

record dmsg =
  dm_raw :: "nat list"
  dm_data :: "nat list"
  dm_numLevels :: jnum
  dm_levels :: "jnum list"
  dm_path :: "jstring option"

text \<open>How often a loop \<open>for (j=0; j<n; ++j)\<close> runs.\<close>

definition count_of :: "jnum \<Rightarrow> nat" where
  "count_of n = (case n of None \<Rightarrow> 0 | Some v \<Rightarrow> nat v)"

definition read_data :: "nat list \<Rightarrow> nat list \<times> nat" where
  "read_data buf =
     (let n = count_of (rd4 buf 5)
      in (map (\<lambda>j. to_byte (rd2 buf (9 + 2 * j))) [0..<n], 9 + 2 * n))"

definition read_levels :: "bool \<Rightarrow> nat list \<Rightarrow> nat \<Rightarrow> jnum \<times> jnum list" where
  "read_levels shortAddresses_mode buf i =
     (if shortAddresses_mode then
        (let n = rd2 buf i in (n, map (\<lambda>j. rd2 buf (i + 2 + 2 * j)) [0..<count_of n]))
      else
        (let n = rd4 buf i in (n, map (\<lambda>j. rd4 buf (i + 4 + 4 * j)) [0..<count_of n])))"

text \<open>
  The part of a pending request a parser looks at.  \<open>!=\<close> between numbers: \<open>NaN\<close> and
  \<open>undefined\<close> differ from every level of a message.
\<close>

record request_key =
  rk_path :: "jstring option"
  rk_numLevels :: jnum
  rk_levels :: "jnum list"
  rk_callback :: bool

definition jeq :: "jnum \<Rightarrow> jnum \<Rightarrow> bool" where
  "jeq a b \<longleftrightarrow> a \<noteq> None \<and> a = b"

datatype dm_outcome =
    Deliver dmsg
  | Pass
  | Process dmsg

definition dataMessage_parse ::
  "config \<Rightarrow> bool \<Rightarrow> nat list \<Rightarrow> request_key option \<Rightarrow> dm_outcome res" where
  "dataMessage_parse cfg shortAddresses_mode buf msg =
     (let (data, i) = read_data buf;
          (numLevels, levels) = read_levels shortAddresses_mode buf i;
          dm = \<lparr>dm_raw = buf, dm_data = data, dm_numLevels = numLevels, dm_levels = levels,
                dm_path = None\<rparr>
      in case msg of
           Some m \<Rightarrow>
             if jeq (rk_numLevels m) numLevels \<and>
                (\<forall>l < count_of (rk_numLevels m). jeq (jnth (rk_levels m) l) (jnth levels l))
             then if rk_callback m then Inr (Deliver (dm\<lparr>dm_path := rk_path m\<rparr>))
                  else Inr (Process (dm\<lparr>dm_path := rk_path m\<rparr>))
             else Inr Pass
         | None \<Rightarrow>
             map_sum id (\<lambda>p. Process (dm\<lparr>dm_path := p\<rparr>))
               (getLevelName cfg (count_of numLevels) levels))"

section \<open>Object types\<close>

text \<open>
  The descent that creates the missing nodes and changes the last one.
\<close>

definition set_kids :: "(jnum \<times> ctree) list \<Rightarrow> ctree \<Rightarrow> ctree" where
  "set_kids kids t = Node (ct_type t) (ct_label t) (ct_offset t) (ct_ok t) kids"

fun upd_level :: "(ctree \<Rightarrow> ctree) \<Rightarrow> ctree \<Rightarrow> nat \<Rightarrow> jnum list \<Rightarrow> ctree" where
  "upd_level f t 0 ls = f t"
| "upd_level f t (Suc n) ls =
     (let c = (case child t (jhead ls) of None \<Rightarrow> empty_node | Some c \<Rightarrow> c)
      in set_kids (set_kid (jhead ls) (upd_level f c n (tl ls)) (ct_kids t)) t)"

definition falsy :: "jnum option \<Rightarrow> bool" where
  "falsy x \<longleftrightarrow> x = None \<or> x = Some None \<or> x = Some (Some 0)"

definition set_type :: "jnum \<Rightarrow> ctree \<Rightarrow> ctree" where
  "set_type ty t =
     (if falsy (ct_type t) then Node (Some ty) (ct_label t) (ct_offset t) (ct_ok t) (ct_kids t)
      else t)"

definition objectTypeId_parse ::
  "config \<Rightarrow> nat \<Rightarrow> jnum list \<Rightarrow> nat list \<Rightarrow> config \<times> jnum" where
  "objectTypeId_parse cfg numLevels levels buf =
     (let ty = rd4 buf 5
      in (cfg\<lparr>controlTree := upd_level (set_type ty) (controlTree cfg) numLevels levels\<rparr>, ty))"

section \<open>Object descriptions\<close>

definition sign16 :: "jnum \<Rightarrow> jnum" where
  "sign16 v = (if jand v 0x8000 \<noteq> 0 then map_option (\<lambda>x. - (65536 - x)) v else v)"

text \<open>
  One round of the loop over the limits.  The second sign extension stores into
  \<open>minValue\<close>, whatever the minimum was.
\<close>

definition read_limit :: "nat list \<Rightarrow> nat \<Rightarrow> jnum \<times> jnum \<times> jnum" where
  "read_limit buf i =
     (let min0 = rd4 buf i;
          min1 = sign16 min0;
          max0 = rd4 buf (i + 4);
          min2 = (if jand max0 0x8000 \<noteq> 0 then map_option (\<lambda>x. - (65536 - x)) max0 else min1)
      in (min2, max0, rd4 buf (i + 8)))"

definition objectDescription_parse :: "config \<Rightarrow> nat list \<Rightarrow> config \<times> odesc" where
  "objectDescription_parse cfg buf =
     (let objectType = rd4 buf 5;
          numbytes = jshl (rd2 buf 9) 1;
          (name, i) = read_text buf 11 (11 + numbytes);
          flags = rd2 buf (i + 4);
          n = rd2 buf (i + 10);
          limits = map (\<lambda>j. read_limit buf (i + 12 + 12 * j)) [0..<count_of n];
          od = \<lparr>od_objectType = objectType, od_name = name, od_dataSize = rd4 buf i,
                od_controlFlags = flags,
                od_patchable = jand flags 1, od_automation = jand flags 2,
                od_isControlLevel = jand flags 4, od_isBottomControlLevel = jand flags 8,
                od_usesTemp = jand flags 0x10, od_wrapping = jand flags 0x20,
                od_softRowAssignable = jand flags 0x40,
                od_optionType = rd4 buf (i + 6), od_numberOfUnitsOrLimits = n,
                od_minValue = map fst limits, od_maxValue = map (fst \<circ> snd) limits,
                od_displayUnits = map (snd \<circ> snd) limits\<rparr>
      in (cfg\<lparr>objectDescription := (objectDescription cfg)(objectType \<mapsto> od)\<rparr>, od))"

section \<open>Object labels\<close>

text \<open>
  \<open>numbytes\<close> comes from one nibble, and the index is not moved past the count, so the text
  starts with the count byte.
\<close>

definition set_label :: "jstring \<Rightarrow> ctree \<Rightarrow> ctree" where
  "set_label l t = Node (ct_type t) (Some l) (ct_offset t) (ct_ok t) (ct_kids t)"

definition objectLabel_parse :: "config \<Rightarrow> bool \<Rightarrow> nat list \<Rightarrow> config \<times> jstring" where
  "objectLabel_parse cfg shortAddresses_mode buf =
     (let numbytes = jshl (rd buf 5) 1;
          (label, i) = read_text buf 5 (5 + numbytes);
          (numLevels, levels) = read_levels shortAddresses_mode buf i
      in (cfg\<lparr>controlTree :=
                 upd_level (set_label label) (controlTree cfg) (count_of numLevels) levels\<rparr>,
          label))"

section \<open>Terminal text and handshake\<close>

definition midiTerminalMessage_parse :: "nat list \<Rightarrow> jstring" where
  "midiTerminalMessage_parse buf =
     S ''midi terminal message: '' @ fst (read_text buf 7 (7 + jshl (rd2 buf 5) 1))"

definition handshake_parse :: "nat list \<Rightarrow> jnum" where
  "handshake_parse buf = rd2 buf 5"

section \<open>Reading what an encoder wrote\<close>

lemma word_at:
  "buf = pre @ nibblize16 (Some v) @ post \<Longrightarrow> i = length pre \<Longrightarrow> rd4 buf i = Some (v mod 65536)"
  by (simp add: word_codec.dec_enc)

lemma byte_at:
  "buf = pre @ nibblize_num (Some v) @ post \<Longrightarrow> i = length pre \<Longrightarrow> rd2 buf i = Some (v mod 256)"
  by (simp add: byte_codec.dec_enc)

definition enc_bytes :: "nat list \<Rightarrow> nat list" where
  "enc_bytes ds = concat (map (\<lambda>d. nibblize_num (Some (int d))) ds)"

definition enc_words :: "int list \<Rightarrow> nat list" where
  "enc_words vs = concat (map (\<lambda>v. nibblize16 (Some v)) vs)"

lemma enc_bytes_ints: "enc_bytes ds = concat (map (\<lambda>v. nibblize_num (Some v)) (map int ds))"
  by (simp add: enc_bytes_def comp_def)

lemma length_enc_bytes [simp]: "length (enc_bytes ds) = 2 * length ds"
  unfolding enc_bytes_ints by (simp only: byte_codec.length_concat_enc length_map)

lemma length_enc_words [simp]: "length (enc_words vs) = 4 * length vs"
  unfolding enc_words_def by (rule word_codec.length_concat_enc)

lemma enc_bytes_simps [simp]:
  "enc_bytes [] = []" "enc_bytes (d # ds) = nibblize_num (Some (int d)) @ enc_bytes ds"
  by (simp_all add: enc_bytes_def)

lemma enc_bytes_nibbles: "x \<in> set (enc_bytes ds) \<Longrightarrow> x < 16"
  unfolding enc_bytes_ints by (rule byte_codec.concat_enc_nibbles)

lemma enc_words_nibbles: "x \<in> set (enc_words vs) \<Longrightarrow> x < 16"
  unfolding enc_words_def by (rule word_codec.concat_enc_nibbles)

lemma read_text_enc:
  "\<forall>c \<in> set name. c < 256 \<Longrightarrow> i = length pre \<Longrightarrow> stop = int (i + 2 * length name) \<Longrightarrow>
   read_text (pre @ enc_bytes name @ post) i stop = (name, i + 2 * length name)"
proof (induction name arbitrary: pre i stop)
  case Nil
  then show ?case by (subst read_text.simps) simp
next
  case (Cons c name)
  have e: "pre @ enc_bytes (c # name) @ post =
      (pre @ nibblize_num (Some (int c))) @ enc_bytes name @ post" by simp
  have r: "rd2 (pre @ enc_bytes (c # name) @ post) i = Some (int c)"
    using Cons.prems by (subst byte_at [of _ pre "int c" "enc_bytes name @ post"]) simp_all
  have ih: "read_text (pre @ enc_bytes (c # name) @ post) (i + 2) stop =
      (name, i + 2 + 2 * length name)"
    unfolding e using Cons.prems by (intro Cons.IH) simp_all
  have g: "int i < stop \<and> i < length (pre @ enc_bytes (c # name) @ post)"
    using Cons.prems by simp
  show ?case
    using Cons.prems(1)
    by (subst read_text.simps) (simp only: g r ih if_True Let_def prod.case from_char_code_def, simp)
qed

lemma map_upt_nth: "(\<And>j. j < length xs \<Longrightarrow> f j = xs ! j) \<Longrightarrow> map f [0..<length xs] = xs"
  by (rule nth_equalityI) simp_all

lemma read_data_enc:
  assumes "bytes ds" and "length ds < 65536" and "length hd5 = 5"
  shows "read_data (hd5 @ nibblize16 (Some (int (length ds))) @ enc_bytes ds @ post) =
         (ds, 9 + 2 * length ds)"
proof -
  let ?buf = "hd5 @ nibblize16 (Some (int (length ds))) @ enc_bytes ds @ post"
  let ?pre = "hd5 @ nibblize16 (Some (int (length ds)))"
  have "rd4 ?buf 5 = Some (int (length ds))"
    using assms by (subst word_at [of _ hd5 "int (length ds)" "enc_bytes ds @ post"]) simp_all
  moreover have "to_byte (rd2 ?buf (9 + 2 * j)) = ds ! j" if "j < length ds" for j
  proof -
    have "ds ! j < 256" using assms(1) that by (rule bytes_nth)
    moreover have "rd2 (?pre @ enc_bytes ds @ post) (length ?pre + 2 * j) = Some (int (ds ! j))"
      unfolding enc_bytes_ints using that \<open>ds ! j < 256\<close>
      by (subst byte_codec.dec_nth_exact) simp_all
    ultimately show ?thesis using assms(3) by (simp add: to_byte_def)
  qed
  ultimately show ?thesis
    by (simp only: read_data_def count_of_def option.case nat_int Let_def map_upt_nth)
qed

definition word_levels :: "jnum list \<Rightarrow> bool" where
  "word_levels ls \<longleftrightarrow> (\<forall>l \<in> set ls. \<exists>v. l = Some v \<and> 0 \<le> v \<and> v < 65536) \<and> length ls < 65536"

lemma word_levels_nth:
  "word_levels ls \<Longrightarrow> j < length ls \<Longrightarrow> \<exists>v. ls ! j = Some v \<and> 0 \<le> v \<and> v < 65536"
  unfolding word_levels_def by (meson nth_mem)

lemma word_levels_length: "word_levels ls \<Longrightarrow> length ls < 65536"
  by (simp add: word_levels_def)

definition nums :: "jnum list \<Rightarrow> int list" where
  "nums ls = map the ls"

lemma length_nums [simp]: "length (nums ls) = length ls"
  by (simp add: nums_def)

lemma read_levels_enc:
  assumes "word_levels ls" and "i = length pre"
  shows "read_levels False
           (pre @ nibblize16 (Some (int (length ls))) @ enc_words (nums ls) @ post) i =
         (Some (int (length ls)), ls)"
proof -
  let ?buf = "pre @ nibblize16 (Some (int (length ls))) @ enc_words (nums ls) @ post"
  let ?pre = "pre @ nibblize16 (Some (int (length ls)))"
  have "rd4 ?buf i = Some (int (length ls))"
    using assms(2) word_levels_length [OF assms(1)]
    by (subst word_at [of _ pre "int (length ls)"]) simp_all
  moreover have "rd4 ?buf (i + 4 + 4 * j) = ls ! j" if j: "j < length ls" for j
  proof -
    obtain v where v: "ls ! j = Some v" "0 \<le> v" "v < 65536"
      using word_levels_nth [OF assms(1) j] by blast
    then have n: "nums ls ! j = v" using j by (simp add: nums_def)
    have "rd4 (?pre @ enc_words (nums ls) @ post) (length ?pre + 4 * j) = Some (nums ls ! j)"
      unfolding enc_words_def using j n v by (subst word_codec.dec_nth_exact) simp_all
    then show ?thesis using assms(2) n v by simp
  qed
  ultimately show ?thesis
    by (simp only: read_levels_def count_of_def option.case nat_int Let_def map_upt_nth if_False)
qed

lemma levels_jeq:
  "word_levels ls \<Longrightarrow> l < length ls \<Longrightarrow> jeq (jnth ls l) (jnth ls l)"
  using word_levels_nth [of ls l] by (auto simp: jeq_def jnth_def)

section \<open>Learning the types of the tree\<close>

text \<open>
  The store behind \<open>objectTypeId_parse\<close>: the type of a path is looked up in the tree, and
  a report is stored unless the path already has a (truthy) type; no other path changes.
  From this contract follows what a whole series of reports leaves in the tree: the first
  report of a path wins.
\<close>

locale type_store =
  fixes look :: "'t \<Rightarrow> 'p \<Rightarrow> jnum option"
    and put :: "'t \<Rightarrow> 'p \<Rightarrow> jnum \<Rightarrow> 't"
  assumes look_put: "look (put t p ty) q = (if q = p \<and> falsy (look t p) then Some ty else look t q)"
begin

definition reports :: "'t \<Rightarrow> ('p \<times> jnum) list \<Rightarrow> 't" where
  "reports t rs = foldl (\<lambda>t (p, ty). put t p ty) t rs"

lemma reports_simps [simp]:
  "reports t [] = t" "reports t ((p, ty) # rs) = reports (put t p ty) rs"
  by (simp_all add: reports_def)

lemma reports_known: "\<not> falsy (look t q) \<Longrightarrow> look (reports t rs) q = look t q"
proof (induction rs arbitrary: t)
  case (Cons r rs)
  obtain p ty where "r = (p, ty)" by (cases r)
  moreover have "look (put t p ty) q = look t q" using Cons.prems by (auto simp: look_put)
  ultimately show ?case using Cons by simp
qed simp

lemma reports_other: "q \<notin> fst ` set rs \<Longrightarrow> look (reports t rs) q = look t q"
  by (induction rs arbitrary: t) (auto simp: look_put)

lemma reports_first:
  assumes "falsy (look t q)" and "q \<notin> fst ` set rs1" and "\<not> falsy (Some ty)"
  shows "look (reports t (rs1 @ (q, ty) # rs2)) q = Some ty"
proof -
  have s: "reports t (rs1 @ (q, ty) # rs2) = reports (put (reports t rs1) q ty) rs2"
    by (simp add: reports_def)
  have "look (put (reports t rs1) q ty) q = Some ty"
    using assms(1,2) by (simp add: look_put reports_other)
  then show ?thesis unfolding s using assms(3) by (simp add: reports_known)
qed

end

definition type_at :: "ctree \<Rightarrow> jnum list \<Rightarrow> jnum option" where
  "type_at t path = Option.bind (get_level t (length path) path) ct_type"

definition learn_type :: "ctree \<Rightarrow> jnum list \<Rightarrow> jnum \<Rightarrow> ctree" where
  "learn_type t path ty = upd_level (set_type ty) t (length path) path"

lemma child_set_kids: "child (set_kids (set_kid k c (ct_kids t)) t) j =
    (if j = k then Some c else child t j)"
  by (simp add: child_def set_kids_def)

lemma ct_type_set_kids [simp]: "ct_type (set_kids kids t) = ct_type t"
  by (simp add: set_kids_def)

lemma ct_type_upd_Cons [simp]: "ct_type (upd_level f t (Suc n) ls) = ct_type t"
  by (simp add: Let_def)

lemma type_at_empty: "type_at empty_node path = None"
  by (cases path) (simp_all add: type_at_def empty_node_def child_def)

lemma type_at_Nil [simp]: "type_at t [] = ct_type t"
  by (simp add: type_at_def)

lemma type_at_Cons:
  "type_at t (l # ls) = (case child t l of None \<Rightarrow> None | Some c \<Rightarrow> type_at c ls)"
  by (simp add: type_at_def jhead_def split: option.splits)

lemma learn_type_Cons:
  "learn_type t (l # ls) ty =
   set_kids (set_kid l (learn_type (case child t l of None \<Rightarrow> empty_node | Some c \<Rightarrow> c) ls ty)
      (ct_kids t)) t"
  by (simp add: learn_type_def jhead_def)

lemma type_at_child:
  "(case child t l of None \<Rightarrow> None | Some c \<Rightarrow> type_at c ls) =
   type_at (case child t l of None \<Rightarrow> empty_node | Some c \<Rightarrow> c) ls"
  by (simp add: type_at_empty split: option.splits)

lemma type_at_learn:
  "type_at (learn_type t p ty) q = (if q = p \<and> falsy (type_at t p) then Some ty else type_at t q)"
proof (induction p arbitrary: t q)
  case Nil
  show ?case
    by (cases q) (simp_all add: learn_type_def set_type_def type_at_Cons child_def)
next
  case (Cons l p)
  show ?case
  proof (cases q)
    case Nil
    then show ?thesis by (simp add: learn_type_Cons)
  next
    case (Cons l' q')
    then show ?thesis
      by (simp add: learn_type_Cons type_at_Cons child_set_kids Cons.IH type_at_child)
  qed
qed

interpretation tree_types: type_store type_at learn_type
  by unfold_locales (rule type_at_learn)

lemma get_level_take: "n \<le> length ls \<Longrightarrow> get_level t n ls = get_level t n (take n ls)"
proof (induction n arbitrary: t ls)
  case (Suc n)
  then obtain l ls' where ls: "ls = l # ls'" by (cases ls) auto
  show ?case
  proof (cases "child t l")
    case (Some c)
    then show ?thesis using Suc.IH [of ls' c] Suc.prems ls by (simp add: jhead_def)
  qed (simp add: ls jhead_def)
qed simp

lemma objectTypeId_learns:
  "objectTypeId_parse cfg (length path) path buf =
   (cfg\<lparr>controlTree := learn_type (controlTree cfg) path (rd4 buf 5)\<rparr>, rd4 buf 5)"
  by (simp add: objectTypeId_parse_def learn_type_def Let_def)

section \<open>Object descriptions read back\<close>

text \<open>
  The frame of an object description, as the parser expects it from the device; negative
  minima travel in two's complement.
\<close>

definition enc_limit :: "int \<times> int \<times> int \<Rightarrow> nat list" where
  "enc_limit l = (case l of (mn, mx, u) \<Rightarrow>
     nibblize16 (Some mn) @ nibblize16 (Some mx) @ nibblize16 (Some u))"

definition od_frame ::
  "nat list \<Rightarrow> int \<Rightarrow> jstring \<Rightarrow> int \<Rightarrow> int \<Rightarrow> int \<Rightarrow> (int \<times> int \<times> int) list \<Rightarrow> nat list" where
  "od_frame hd5 ty name sz flags opt limits =
     hd5 @ nibblize16 (Some ty) @ nibblize_num (Some (int (length name))) @ enc_bytes name @
     nibblize16 (Some sz) @ nibblize_num (Some flags) @ nibblize16 (Some opt) @
     nibblize_num (Some (int (length limits))) @ concat (map enc_limit limits) @ [0xF7]"

definition in_word :: "int \<Rightarrow> bool" where
  "in_word v \<longleftrightarrow> 0 \<le> v \<and> v < 65536"

definition limit_ok :: "int \<times> int \<times> int \<Rightarrow> bool" where
  "limit_ok l \<longleftrightarrow> (case l of (mn, mx, u) \<Rightarrow>
     - 32768 \<le> mn \<and> mn < 32768 \<and> in_word mx \<and> in_word u)"

definition read_limit_spec :: "int \<times> int \<times> int \<Rightarrow> jnum \<times> jnum \<times> jnum" where
  "read_limit_spec l = (case l of (mn, mx, u) \<Rightarrow>
     (Some (if mx < 32768 then mn else mx - 65536), Some mx, Some u))"

lemma length_enc_limit [simp]: "length (enc_limit l) = 12"
  by (cases l) (simp add: enc_limit_def)

lemma length_enc_limits [simp]: "length (concat (map enc_limit ls)) = 12 * length ls"
  by (induction ls) simp_all

lemma and_0x8000:
  assumes "0 \<le> v" and "v < (65536 :: int)"
  shows "(v AND 0x8000 = 0) = (v < 32768)"
proof -
  have m: "(0x8000 :: int) = 2 ^ 15" by simp
  have e: "(v AND 0x8000 = 0) = even (v div 32768)"
    unfolding m and_exp_eq_0_iff_not_bit by (simp add: bit_iff_odd)
  have "v div 32768 = (if v < 32768 then 0 else 1)"
    using assms by (simp add: div_pos_pos_trivial) linarith
  then show ?thesis unfolding e by simp
qed

lemma sign16_word: "in_word v \<Longrightarrow> sign16 (Some v) = Some (if v < 32768 then v else v - 65536)"
  by (simp add: sign16_def jand_def in_word_def to_int32_small and_0x8000)

lemma sign16_mod: "- 32768 \<le> v \<Longrightarrow> v < 32768 \<Longrightarrow> sign16 (Some (v mod 65536)) = Some v"
proof -
  assume v: "- 32768 \<le> v" "v < 32768"
  have "v mod 65536 = (if 0 \<le> v then v else v + 65536)"
  proof (cases "0 \<le> v")
    case False
    have "v mod 65536 = (v + 65536) mod 65536" by simp
    also have "\<dots> = v + 65536" using v False by (intro mod_pos_pos_trivial) auto
    finally show ?thesis using False by simp
  qed (use v in simp)
  then show ?thesis using v by (simp add: sign16_word in_word_def)
qed

lemma read_limit_at:
  assumes "buf = pre @ enc_limit l @ post" and "i = length pre" and "limit_ok l"
  shows "read_limit buf i = read_limit_spec l"
proof -
  obtain mn mx u where l: "l = (mn, mx, u)" by (cases l)
  have ok: "- 32768 \<le> mn" "mn < 32768" "in_word mx" "in_word u"
    using assms(3) by (simp_all add: limit_ok_def l)
  have buf: "buf = pre @ nibblize16 (Some mn) @ nibblize16 (Some mx) @ nibblize16 (Some u) @ post"
    using assms(1) by (simp add: l enc_limit_def)
  have mn: "rd4 buf i = Some (mn mod 65536)" by (rule word_at [OF buf assms(2)])
  have mx: "rd4 buf (i + 4) = Some mx"
    using ok(3) assms(2) by (subst word_at [of buf "pre @ nibblize16 (Some mn)" mx
          "nibblize16 (Some u) @ post"]) (simp_all add: buf in_word_def)
  have u: "rd4 buf (i + 8) = Some u"
    using ok(4) assms(2) by (subst word_at [of buf "pre @ nibblize16 (Some mn) @ nibblize16 (Some mx)"
          u post]) (simp_all add: buf in_word_def)
  show ?thesis
    using sign16_mod [OF ok(1,2)] sign16_word [OF ok(3)] ok(3)
    by (simp add: read_limit_def read_limit_spec_def l mn mx u sign16_def jand_def in_word_def
        to_int32_small and_0x8000 Let_def)
qed

lemma read_limits_at:
  assumes "buf = pre @ concat (map enc_limit ls) @ post" and "list_all limit_ok ls"
  shows "map (\<lambda>j. read_limit buf (length pre + 12 * j)) [0..<length ls] = map read_limit_spec ls"
proof (rule nth_equalityI)
  fix j assume "j < length (map (\<lambda>j. read_limit buf (length pre + 12 * j)) [0..<length ls])"
  then have j: "j < length ls" by simp
  have e: "concat (map enc_limit ls) =
      concat (map enc_limit (take j ls)) @ enc_limit (ls ! j) @ concat (map enc_limit (drop (Suc j) ls))"
    using j by (metis concat.simps(2) concat_append id_take_nth_drop list.simps(9) map_append)
  have "read_limit buf (length pre + 12 * j) = read_limit_spec (ls ! j)"
    using j assms(2)
    by (intro read_limit_at [of _ "pre @ concat (map enc_limit (take j ls))" _
          "concat (map enc_limit (drop (Suc j) ls)) @ post"])
      (simp_all add: assms(1) e list_all_length del: concat_append)
  then show "map (\<lambda>j. read_limit buf (length pre + 12 * j)) [0..<length ls] ! j =
      map read_limit_spec ls ! j" using j by simp
qed simp

definition learned_od ::
  "int \<Rightarrow> jstring \<Rightarrow> int \<Rightarrow> int \<Rightarrow> int \<Rightarrow> (int \<times> int \<times> int) list \<Rightarrow> odesc" where
  "learned_od ty name sz flags opt limits =
     \<lparr>od_objectType = Some ty, od_name = name, od_dataSize = Some sz,
      od_controlFlags = Some flags, od_patchable = flags AND 1, od_automation = flags AND 2,
      od_isControlLevel = flags AND 4, od_isBottomControlLevel = flags AND 8,
      od_usesTemp = flags AND 16, od_wrapping = flags AND 32,
      od_softRowAssignable = flags AND 64, od_optionType = Some opt,
      od_numberOfUnitsOrLimits = Some (int (length limits)),
      od_minValue = map (fst \<circ> read_limit_spec) limits,
      od_maxValue = map (\<lambda>l. Some (fst (snd l))) limits,
      od_displayUnits = map (\<lambda>l. Some (snd (snd l))) limits\<rparr>"

definition od_args_ok ::
  "nat list \<Rightarrow> int \<Rightarrow> jstring \<Rightarrow> int \<Rightarrow> int \<Rightarrow> int \<Rightarrow> (int \<times> int \<times> int) list \<Rightarrow> bool" where
  "od_args_ok hd5 ty name sz flags opt limits \<longleftrightarrow>
     length hd5 = 5 \<and> in_word ty \<and> bytes name \<and> length name < 256 \<and> in_word sz \<and>
     0 \<le> flags \<and> flags < 256 \<and> in_word opt \<and> length limits < 256 \<and> list_all limit_ok limits"

lemma objectDescription_parse_frame:
  assumes "od_args_ok hd5 ty name sz flags opt limits"
  shows "objectDescription_parse cfg (od_frame hd5 ty name sz flags opt limits) =
     (cfg\<lparr>objectDescription := (objectDescription cfg)
            (Some ty \<mapsto> learned_od ty name sz flags opt limits)\<rparr>,
      learned_od ty name sz flags opt limits)"
proof -
  note ok = assms [unfolded od_args_ok_def]
  let ?n = "length name" and ?k = "length limits"
  let ?P1 = "hd5 @ nibblize16 (Some ty)"
  let ?P2 = "?P1 @ nibblize_num (Some (int ?n))"
  let ?P3 = "?P2 @ enc_bytes name"
  let ?P4 = "?P3 @ nibblize16 (Some sz)"
  let ?P5 = "?P4 @ nibblize_num (Some flags)"
  let ?P6 = "?P5 @ nibblize16 (Some opt)"
  let ?P7 = "?P6 @ nibblize_num (Some (int ?k))"
  define buf where "buf = od_frame hd5 ty name sz flags opt limits"
  define i where "i = 11 + 2 * ?n"
  have len: "length ?P1 = 9" "length ?P2 = 11" "length ?P3 = i" "length ?P4 = i + 4"
    "length ?P5 = i + 6" "length ?P6 = i + 10" "length ?P7 = i + 12"
    using ok by (simp_all add: i_def)
  note w = word_at [of buf] and b = byte_at [of buf]
  have ty: "rd4 buf 5 = Some ty"
    by (subst w [of hd5 ty]) (use ok in \<open>simp_all add: buf_def od_frame_def in_word_def\<close>)
  have nb: "rd2 buf 9 = Some (int ?n)"
    by (subst b [of ?P1 "int ?n"]) (use ok in \<open>simp_all add: buf_def od_frame_def len\<close>)
  have "jshl (rd2 buf 9) 1 = 2 * int ?n"
    using ok by (simp add: nb jshl_def push_bit_eq_mult to_int32_small)
  then have nm: "read_text buf 11 (11 + jshl (rd2 buf 9) 1) = (name, i)"
    using read_text_enc [of name 11 ?P2 "11 + 2 * int ?n"] ok
    by (simp add: buf_def od_frame_def i_def bytes_def)
  have sz: "rd4 buf i = Some sz"
    by (subst w [of ?P3 sz]) (use ok len(3) in \<open>simp_all add: buf_def od_frame_def in_word_def\<close>)
  have fl: "rd2 buf (i + 4) = Some flags"
    by (subst b [of ?P4 flags]) (use ok len(4) in \<open>simp_all add: buf_def od_frame_def\<close>)
  have opt: "rd4 buf (i + 6) = Some opt"
    by (subst w [of ?P5 opt]) (use ok len(5) in \<open>simp_all add: buf_def od_frame_def in_word_def\<close>)
  have n: "rd2 buf (i + 10) = Some (int ?k)"
    by (subst b [of ?P6 "int ?k"]) (use ok len(6) in \<open>simp_all add: buf_def od_frame_def\<close>)
  have "buf = ?P7 @ concat (map enc_limit limits) @ [0xF7]" by (simp add: buf_def od_frame_def)
  from read_limits_at [OF this] have lim:
    "map (\<lambda>j. read_limit buf (i + 12 + 12 * j)) [0..<?k] = map read_limit_spec limits"
    using ok by (simp only: len)
  have a: "jand (Some flags) m = flags AND m" for m
    using ok by (simp add: jand_def to_int32_small)
  show ?thesis
    unfolding buf_def [symmetric]
    by (simp only: objectDescription_parse_def Let_def ty nm prod.case sz fl opt n count_of_def
        option.case nat_int lim a learned_od_def)
      (simp add: read_limit_spec_def comp_def case_prod_beta)
qed

lemma map_min_good:
  "list_all (\<lambda>l. fst (snd l) < 32768) limits \<Longrightarrow>
   map (fst \<circ> read_limit_spec) limits = map (\<lambda>l. Some (fst l)) limits"
  by (induction limits) (auto simp: read_limit_spec_def)

section \<open>Properties\<close>

definition run_reports :: "config \<Rightarrow> (jnum list \<times> nat list) list \<Rightarrow> config" where
  "run_reports cfg rs =
     foldl (\<lambda>cfg (path, buf). fst (objectTypeId_parse cfg (length path) path buf)) cfg rs"

lemma run_reports_tree:
  "controlTree (run_reports cfg rs) =
   tree_types.reports (controlTree cfg) (map (\<lambda>(path, buf). (path, rd4 buf 5)) rs)"
  unfolding run_reports_def tree_types.reports_def
  by (induction rs arbitrary: cfg) (auto simp: objectTypeId_learns)

text \<open>
  An object description is read back whole: for every description the device can send
  whose maxima are below 32768, \<open>objectDescription_parse\<close> stores under its type exactly the
  name, size, flags, option type and limits that were sent, negative minima included.
\<close>

theorem objectDescription_roundtrip:
  assumes "od_args_ok hd5 ty name sz flags opt limits"
    and "list_all (\<lambda>l. fst (snd l) < 32768) limits"
  shows "objectDescription_parse cfg (od_frame hd5 ty name sz flags opt limits) =
     (cfg\<lparr>objectDescription := (objectDescription cfg)(Some ty \<mapsto>
         (learned_od ty name sz flags opt limits)\<lparr>od_minValue := map (\<lambda>l. Some (fst l)) limits\<rparr>)\<rparr>,
      (learned_od ty name sz flags opt limits)\<lparr>od_minValue := map (\<lambda>l. Some (fst l)) limits\<rparr>)"
  unfolding objectDescription_parse_frame [OF assms(1)]
  by (simp add: learned_od_def map_min_good [OF assms(2)])

theorem objectDescription_roundtrip_witness:
  "od_minValue (snd (objectDescription_parse sample_config
     (od_frame [0xF0, 6, 15, 0, 4] 7 [76, 101, 118] 1 0x21 0xFFFF [(- 10, 20, 9)]))) = [Some (- 10)]"
  by (subst objectDescription_roundtrip)
    (simp_all add: od_args_ok_def in_word_def limit_ok_def learned_od_def)

text \<open>
  The sign extension of a maximum is stored in the minimum: a limit whose maximum has bit
  15 set (65535, as the shipped configuration has) loses its minimum, which becomes the
  signed maximum, and keeps the unsigned maximum.
\<close>

theorem objectDescription_max_overwrites_min:
  assumes "od_args_ok hd5 ty name sz flags opt [(mn, mx, u)]" and "32768 \<le> mx"
  shows "od_minValue (snd (objectDescription_parse cfg
           (od_frame hd5 ty name sz flags opt [(mn, mx, u)]))) = [Some (mx - 65536)] \<and>
         od_maxValue (snd (objectDescription_parse cfg
           (od_frame hd5 ty name sz flags opt [(mn, mx, u)]))) = [Some mx]"
  unfolding objectDescription_parse_frame [OF assms(1)]
  using assms(2) by (simp add: learned_od_def read_limit_spec_def)

theorem objectDescription_max_overwrites_min_witness:
  "od_minValue (snd (objectDescription_parse sample_config
     (od_frame [0xF0, 6, 15, 0, 4] 7 [76, 101, 118] 2 0 0xFFFF [(0, 65535, 0)]))) = [Some (- 1)]"
  using objectDescription_max_overwrites_min
    [of "[0xF0, 6, 15, 0, 4]" 7 "[76, 101, 118]" 2 0 "0xFFFF" 0 65535 0 sample_config]
  by (simp add: od_args_ok_def in_word_def limit_ok_def)



text \<open>
  An object label is read from the wrong place: the parser takes the count from one nibble
  and does not move past it, so the label of up to 15 characters it stores begins with the
  count as a character and lacks its last character.
\<close>

theorem objectLabel_shifted:
  assumes "length hd5 = 5" and "bytes label" and "label \<noteq> []" and "length label < 16"
  shows "snd (objectLabel_parse cfg short
           (hd5 @ nibblize_num (Some (int (length label))) @ enc_bytes label @ post)) =
         length label # butlast label"
proof -
  obtain ini l where lab: "label = ini @ [l]" using assms(3) rev_exhaust by blast
  let ?n = "length label"
  define buf where "buf = hd5 @ nibblize_num (Some (int ?n)) @ enc_bytes label @ post"
  have buf: "buf = hd5 @ enc_bytes (?n # ini) @ (nibblize_num (Some (int l)) @ post)"
    by (simp add: buf_def lab enc_bytes_def)
  have "rd buf 5 = Some (int ?n)"
    using assms(1,4) by (simp add: buf_def rd_def nth_append nibblize_num_Some nat_mod_distrib)
  then have n: "jshl (rd buf 5) 1 = 2 * int ?n"
    using assms(4) by (simp add: jshl_def push_bit_eq_mult to_int32_small)
  have t: "read_text buf 5 (5 + 2 * int ?n) = (?n # ini, 5 + 2 * ?n)"
    using read_text_enc [of "?n # ini" 5 hd5 "5 + 2 * int ?n"] assms
    by (simp add: buf lab bytes_def del: enc_bytes_simps)
  show ?thesis
    unfolding buf_def [symmetric] 
    by (simp only: objectLabel_parse_def n t Let_def prod.case case_prod_beta snd_conv)
      (simp add: lab)
qed

theorem objectLabel_shifted_witness:
  "snd (objectLabel_parse sample_config False
     ([0xF0, 6, 15, 0, 5] @ nibblize_num (Some 3) @ enc_bytes [77, 105, 120] @ [0, 0, 0, 0, 0xF7]))
   = [3, 77, 105]"
  using objectLabel_shifted [of "[0xF0, 6, 15, 0, 5]" "[77, 105, 120]"] by simp

end
