(* ===== verification/Requests.thy ===== *)
theory Requests
  imports Messages
begin

text \<open>
  The messages the program sends (\<open>src/mpxg2-dev/lexicon.js\<close>): the message objects the
  \<open>*_request\<close> functions, \<open>dataMessage\<close> and \<open>handshake_send\<close> build, and the bytes
  \<open>midi_message_send\<close> makes of them, in one piece or in pieces of 16.
\<close>

section \<open>Message objects\<close>

text \<open>
  \<open>m_dataSize2\<close> is twice \<open>msg.dataSize\<close>, which \<open>dataMessage\<close> sets to \<open>data.length/2\<close> and
  which need not be an integer; an absent \<open>dataSize\<close> is 0.  An absent \<open>numLevels\<close> is the
  outer \<open>None\<close>.
\<close>

record message =
  m_type :: int
  m_raw :: bool
  m_request_type :: "int option"
  m_dataSize2 :: nat
  m_data :: "nat list option"
  m_numLevels :: "jnum option"
  m_levels :: "jnum list"
  m_path :: "jstring option"
  m_retry :: "nat option"
  m_duration :: nat

definition SYSTEM_CONFIGURATION :: int where "SYSTEM_CONFIGURATION = 0"
definition DATA :: int where "DATA = 1"
definition OBJECT_TYPE :: int where "OBJECT_TYPE = 3"
definition OBJECT_DESCRIPTION :: int where "OBJECT_DESCRIPTION = 4"
definition OBJECT_LABEL :: int where "OBJECT_LABEL = 5"
definition REQUEST :: int where "REQUEST = 6"
definition TERMINAL :: int where "TERMINAL = 0x11"
definition HANDSHAKE :: int where "HANDSHAKE = 0x12"

lemmas type_defs = SYSTEM_CONFIGURATION_def DATA_def OBJECT_TYPE_def OBJECT_DESCRIPTION_def
  OBJECT_LABEL_def REQUEST_def TERMINAL_def HANDSHAKE_def

definition request_for :: "int \<Rightarrow> message" where
  "request_for ty =
     \<lparr>m_type = REQUEST, m_raw = False, m_request_type = Some ty, m_dataSize2 = 0,
      m_data = None, m_numLevels = None, m_levels = [], m_path = None,
      m_retry = Some 2, m_duration = 2000\<rparr>"

definition systemConfiguration_request :: message where
  "systemConfiguration_request = (request_for SYSTEM_CONFIGURATION)\<lparr>m_retry := Some 10\<rparr>"

definition objectTypeId_request :: "jnum \<Rightarrow> jnum list \<Rightarrow> message" where
  "objectTypeId_request numLevels levels =
     (request_for OBJECT_TYPE)\<lparr>m_numLevels := Some numLevels, m_levels := levels\<rparr>"

definition objectLabel_request :: "jnum \<Rightarrow> jnum list \<Rightarrow> message" where
  "objectLabel_request numLevels levels =
     (request_for OBJECT_LABEL)\<lparr>m_numLevels := Some numLevels, m_levels := levels\<rparr>"

text \<open>A request that the stored configuration answers is not sent: \<open>Answer\<close>.\<close>

datatype 'a asking = Ask message | Answer 'a

definition objectDescription_request :: "config \<Rightarrow> jnum \<Rightarrow> odesc asking" where
  "objectDescription_request cfg objectType =
     (case objectDescription cfg objectType of
        Some od \<Rightarrow> Answer od
      | None \<Rightarrow> Ask ((request_for OBJECT_DESCRIPTION)\<lparr>m_data := Some (nibblize16 objectType)\<rparr>))"

definition handshake_send :: "jnum \<Rightarrow> message" where
  "handshake_send type =
     \<lparr>m_type = HANDSHAKE, m_raw = False, m_request_type = None, m_dataSize2 = 0,
      m_data = Some (nibblize_num type), m_numLevels = None, m_levels = [], m_path = None,
      m_retry = None, m_duration = 2000\<rparr>"

text \<open>
  \<open>dataMessage_request\<close> takes its destination by levels or by path.  Without the device
  (\<open>config.ready\<close> and \<open>alive\<close> not both set) it answers with zeros, as many as the object
  has bytes.
\<close>

datatype dm_dest = By_levels nat "jnum list" | By_path jstring

fun dest_levels :: "config \<Rightarrow> dm_dest \<Rightarrow> (jstring option \<times> nat \<times> jnum list) res" where
  "dest_levels cfg (By_levels n ls) = map_sum id (\<lambda>p. (p, n, ls)) (getLevelName cfg n ls)"
| "dest_levels cfg (By_path p) =
     map_sum id (\<lambda>ls. (Some p, length ls, ls)) (getLevelsByName cfg p)"

definition no_device :: "config \<Rightarrow> nat \<Rightarrow> jnum list \<Rightarrow> dmsg res" where
  "no_device cfg numLevels levels =
     (case Option.bind (getLevel cfg numLevels levels) (od_of cfg) of
        None \<Rightarrow> Inl TypeError
      | Some od \<Rightarrow>
          Inr \<lparr>dm_raw = [], dm_data = replicate (count_of (od_dataSize od)) 0,
               dm_numLevels = Some (int numLevels), dm_levels = levels, dm_path = None\<rparr>)"

definition dataMessage_request :: "config \<Rightarrow> bool \<Rightarrow> dm_dest \<Rightarrow> dmsg asking res" where
  "dataMessage_request cfg ready dest =
     (case dest_levels cfg dest of
        Inl e \<Rightarrow> Inl e
      | Inr (path, numLevels, levels) \<Rightarrow>
          if ready then
            Inr (Ask ((request_for DATA)
              \<lparr>m_path := path, m_numLevels := Some (Some (int numLevels)), m_levels := levels\<rparr>))
          else map_sum id Answer (no_device cfg numLevels levels))"

section \<open>Data messages\<close>

text \<open>
  The data of \<open>dataMessage\<close> is an array of nibbles, sent as it is, or a text or a number, which
  \<open>parseInt\<close> reads when the levels are known.  When they are not, the nibbles are those of the number or, for a text,
  of its characters, each as the number it is in a bit operation: a digit, 0 for white space, or \<open>NaN\<close>.
  An empty path is replaced by the name of the levels.
\<close>

datatype dm_arg = Nibbles "nat list" | Scalar jstring | Number jnum

definition char_number :: "nat \<Rightarrow> jnum" where
  "char_number c = (if 48 \<le> c \<and> c \<le> 57 then Some (int (c - 48)) else if is_ws c then Some 0 else None)"

definition scalar_nibbles :: "config \<Rightarrow> nat \<Rightarrow> jnum list \<Rightarrow> jnum \<Rightarrow> nat list \<Rightarrow> nat list res" where
  "scalar_nibbles cfg numLevels levels v raw =
     (case getLevel cfg numLevels levels of
        None \<Rightarrow> Inr raw
      | Some curLevel \<Rightarrow>
          (case od_of cfg curLevel of
             None \<Rightarrow> Inl TypeError
           | Some od \<Rightarrow>
               (let data = (if od_dataSize od = Some 2 then nibblize16 v else nibblize_num v)
                in if od_optionType od \<noteq> Some 0xFFFF then
                     (case objectDescription cfg (od_optionType od) of
                        None \<Rightarrow> Inl TypeError
                      | Some otod \<Rightarrow>
                          Inr (data @ replicate (2 * count_of (od_dataSize otod)) 0))
                   else Inr data)))"

fun arg_nibbles :: "config \<Rightarrow> nat \<Rightarrow> jnum list \<Rightarrow> dm_arg \<Rightarrow> nat list res" where
  "arg_nibbles cfg n ls (Nibbles xs) = Inr xs"
| "arg_nibbles cfg n ls (Scalar s) = scalar_nibbles cfg n ls (parse_int None s) (nibblize (map char_number s))"
| "arg_nibbles cfg n ls (Number v) = scalar_nibbles cfg n ls v (nibblize_num v)"

definition data_message :: "jstring option \<Rightarrow> nat \<Rightarrow> jnum list \<Rightarrow> nat list \<Rightarrow> message" where
  "data_message path numLevels levels data =
     \<lparr>m_type = DATA, m_raw = False, m_request_type = None, m_dataSize2 = length data,
      m_data = Some data, m_numLevels = Some (Some (int numLevels)), m_levels = levels,
      m_path = path, m_retry = None, m_duration = 2000\<rparr>"

definition dataMessage :: "config \<Rightarrow> dm_dest \<Rightarrow> dm_arg \<Rightarrow> message res" where
  "dataMessage cfg dest arg =
     (case dest_levels cfg dest of
        Inl e \<Rightarrow> Inl e
      | Inr (path0, n, ls) \<Rightarrow>
          (case (if path0 = Some [] \<or> path0 = None then getLevelName cfg n ls else Inr path0) of
             Inl e \<Rightarrow> Inl e
           | Inr path \<Rightarrow>
               map_sum id (data_message path n ls) (arg_nibbles cfg n ls arg)))"

text \<open>
  The form with an array of levels as its first argument, which nothing calls: the argument that should be the data
  is overwritten before it is used, and the levels are sent as the data.
\<close>

definition dataMessage_array :: "config \<Rightarrow> jnum list \<Rightarrow> dm_arg \<Rightarrow> message res" where
  "dataMessage_array cfg numLevels levels0 =
     (let levels = numLevels; n = length levels; data = map (\<lambda>l. nat (case l of None \<Rightarrow> 0 | Some v \<Rightarrow> v)) levels
      in map_sum id (\<lambda>path. data_message path n levels data) (getLevelName cfg n levels))"

lemma dataMessage_levels:
  "dataMessage cfg (By_levels n ls) arg =
     (case getLevelName cfg n ls of
        Inl e \<Rightarrow> Inl e
      | Inr path \<Rightarrow> map_sum id (data_message path n ls) (arg_nibbles cfg n ls arg))"
  by (cases "getLevelName cfg n ls") (auto simp: dataMessage_def split: if_splits sum.splits)

section \<open>By name\<close>

text \<open>
  \<open>set\<close>, \<open>get\<close> and \<open>dataType\<close> of a dotted name, and the switch of the automation.  What
  \<open>dataType\<close> shows are the description of the parameter and that of its option.
\<close>

definition set_by_name :: "config \<Rightarrow> jstring \<Rightarrow> dm_arg \<Rightarrow> message res" where
  "set_by_name cfg path arg =
     (case getLevelsByName cfg path of
        Inl e \<Rightarrow> Inl e
      | Inr levels \<Rightarrow> dataMessage cfg (By_levels (length levels) levels) arg)"

definition get_by_name :: "config \<Rightarrow> bool \<Rightarrow> jstring \<Rightarrow> dmsg asking res" where
  "get_by_name cfg ready path =
     (case getLevelsByName cfg path of
        Inl e \<Rightarrow> Inl e
      | Inr levels \<Rightarrow> dataMessage_request cfg ready (By_levels (length levels) levels))"

definition dataType :: "config \<Rightarrow> jstring \<Rightarrow> odesc option list res" where
  "dataType cfg path =
     (case getLevelsByName cfg path of
        Inl e \<Rightarrow> Inl e
      | Inr levels \<Rightarrow>
          (case Option.bind (getLevel cfg (length levels) levels) (od_of cfg) of
             None \<Rightarrow> Inl TypeError
           | Some od \<Rightarrow>
               Inr (if od_optionType od \<noteq> Some 0xFFFF
                    then [Some od, objectDescription cfg (od_optionType od)] else [Some od])))"

definition midiAutomation_set :: "config \<Rightarrow> bool \<Rightarrow> message res" where
  "midiAutomation_set cfg enable =
     dataMessage cfg (By_levels 3 [Some 1, Some 2, Some 5]) (Number (Some (if enable then 1 else 0)))"

text \<open>By the name of a node or by its levels, the same message is sent and the same asked for.\<close>

lemma by_name_is_by_levels:
  assumes "resolvable cfg (controlTree cfg) ls" and "ls \<noteq> []"
  shows "\<exists>p. getLevelName cfg (length ls) ls = Inr (Some p)
     \<and> set_by_name cfg p arg = dataMessage cfg (By_levels (length ls) ls) arg
     \<and> get_by_name cfg ready p = dataMessage_request cfg ready (By_levels (length ls) ls)"
  using getLevelsByName_getLevelName [OF assms] by (auto simp: set_by_name_def get_by_name_def)

section \<open>Bytes\<close>

record device_ids =
  COMPANY_ID :: nat
  PRODUCT_ID :: nat
  DEVICE_ID :: nat

definition mpxg2_ids :: device_ids where
  "mpxg2_ids = \<lparr>COMPANY_ID = 6, PRODUCT_ID = 0xF, DEVICE_ID = 0\<rparr>"

definition level_bytes :: "bool \<Rightarrow> message \<Rightarrow> nat list" where
  "level_bytes shortAddresses_mode msg =
     (case m_numLevels msg of
        None \<Rightarrow> []
      | Some n \<Rightarrow>
          nibblize16 n @
          (if n = None \<or> n = Some 0 then []
           else if shortAddresses_mode \<and> m_type msg = DATA
             then concat (map nibblize_num (m_levels msg))
           else concat (map nibblize16 (m_levels msg))))"

definition request_body :: "bool \<Rightarrow> message \<Rightarrow> nat list" where
  "request_body shortAddresses_mode msg =
     (case m_request_type msg of None \<Rightarrow> [] | Some t \<Rightarrow> nibblize_num (Some t)) @
     (if m_dataSize2 msg = 0 then [] else nibblize16 (Some (int (m_dataSize2 msg div 2)))) @
     (case m_data msg of None \<Rightarrow> [] | Some xs \<Rightarrow> xs) @
     level_bytes shortAddresses_mode msg"

definition request_bytes :: "device_ids \<Rightarrow> bool \<Rightarrow> message \<Rightarrow> nat list" where
  "request_bytes ids shortAddresses_mode msg =
     (if m_raw msg then (case m_data msg of None \<Rightarrow> [] | Some xs \<Rightarrow> xs)
      else [0xF0, COMPANY_ID ids, PRODUCT_ID ids, DEVICE_ID ids, nat (m_type msg)] @
           request_body shortAddresses_mode msg @ [0xF7])"

text \<open>
  A request of more than 20480 bytes goes out in pieces of 16, one every 550 ms.
\<close>

fun pieces :: "nat list \<Rightarrow> nat list list" where
  "pieces xs = (if length xs \<le> 16 then [xs] else take 16 xs # pieces (drop 16 xs))"

declare pieces.simps [simp del]

definition sendMessages :: "nat list \<Rightarrow> nat list list" where
  "sendMessages request = (if length request > 20480 then pieces request else [request])"

definition midi_message_send :: "device_ids \<Rightarrow> bool \<Rightarrow> message \<Rightarrow> nat list list" where
  "midi_message_send ids shortAddresses_mode msg =
     sendMessages (request_bytes ids shortAddresses_mode msg)"

section \<open>A message that is read back\<close>

lemma concat_words: "concat (map nibblize16 ls) = enc_words (nums ls)" if "word_levels ls"
proof -
  have "nibblize16 l = nibblize16 (Some (the l))" if "l \<in> set ls" for l
    using that \<open>word_levels ls\<close> by (auto simp: word_levels_def)
  then show ?thesis by (simp add: enc_words_def nums_def comp_def cong: map_cong)
qed

text \<open>The five bytes before the body of every message.\<close>

definition msg_head :: "device_ids \<Rightarrow> message \<Rightarrow> nat list" where
  "msg_head ids msg = [0xF0, COMPANY_ID ids, PRODUCT_ID ids, DEVICE_ID ids, nat (m_type msg)]"

lemma length_msg_head [simp]: "length (msg_head ids msg) = 5"
  by (simp add: msg_head_def)

lemma data_message_bytes:
  assumes "word_levels ls" and "ds \<noteq> []"
  shows "request_bytes ids False (data_message path (length ls) ls (enc_bytes ds)) =
     msg_head ids (data_message path (length ls) ls (enc_bytes ds)) @
     nibblize16 (Some (int (length ds))) @ enc_bytes ds @
     nibblize16 (Some (int (length ls))) @ enc_words (nums ls) @ [0xF7]"
  using assms(2)
  by (simp add: request_bytes_def request_body_def level_bytes_def data_message_def
      msg_head_def concat_words [OF assms(1)] enc_words_def nums_def)

lemma data_message_parsed:
  assumes "word_levels ls" and "ds \<noteq> []" and "bytes ds" and "length ds < 65536"
    and "buf = request_bytes ids False (data_message path (length ls) ls (enc_bytes ds))"
  shows "read_data buf = (ds, 9 + 2 * length ds)"
    and "read_levels False buf (9 + 2 * length ds) = (Some (int (length ls)), ls)"
proof -
  let ?h = "msg_head ids (data_message path (length ls) ls (enc_bytes ds))"
  show "read_data buf = (ds, 9 + 2 * length ds)"
    unfolding assms(5) data_message_bytes [OF assms(1,2)] using assms
    by (intro read_data_enc) simp_all
  have "buf = (?h @ nibblize16 (Some (int (length ds))) @ enc_bytes ds) @
      nibblize16 (Some (int (length ls))) @ enc_words (nums ls) @ [0xF7]"
    unfolding assms(5) data_message_bytes [OF assms(1,2)] by simp
  then show "read_levels False buf (9 + 2 * length ds) = (Some (int (length ls)), ls)"
    using assms(1) by (simp only:) (rule read_levels_enc, simp_all)
qed

lemma dataMessage_delivers:
  assumes "word_levels ls" and "ds \<noteq> []" and "bytes ds" and "length ds < 65536"
    and "buf = request_bytes ids False (data_message path (length ls) ls (enc_bytes ds))"
    and "rk_numLevels key = Some (int (length ls))" and "rk_levels key = ls" and "rk_callback key"
  shows "dataMessage_parse cfg False buf (Some key) =
     Inr (Deliver \<lparr>dm_raw = buf, dm_data = ds, dm_numLevels = Some (int (length ls)),
                   dm_levels = ls, dm_path = rk_path key\<rparr>)"
  using assms(6-8) levels_jeq [OF assms(1)]
  by (simp add: dataMessage_parse_def data_message_parsed [OF assms(1-5)] jeq_def count_of_def Let_def)

text \<open>A message for other levels is passed on.\<close>

lemma dataMessage_passes:
  assumes "word_levels ls" and "ds \<noteq> []" and "bytes ds" and "length ds < 65536"
    and "buf = request_bytes ids False (data_message path (length ls) ls (enc_bytes ds))"
    and "rk_numLevels key = Some (int (length (rk_levels key)))" and "rk_levels key \<noteq> ls"
  shows "dataMessage_parse cfg False buf (Some key) = Inr Pass"
proof -
  let ?ks = "rk_levels key"
  have "\<not> (jeq (rk_numLevels key) (Some (int (length ls))) \<and>
      (\<forall>l < count_of (rk_numLevels key). jeq (jnth ?ks l) (jnth ls l)))"
  proof
    assume *: "jeq (rk_numLevels key) (Some (int (length ls))) \<and>
      (\<forall>l < count_of (rk_numLevels key). jeq (jnth ?ks l) (jnth ls l))"
    then have len: "length ?ks = length ls" using assms(6) by (auto simp: jeq_def)
    have "?ks ! l = ls ! l" if "l < length ls" for l
      using * that len assms(6) by (auto simp: jeq_def count_of_def jnth_def)
    then have "?ks = ls" using len by (intro nth_equalityI) auto
    then show False using assms(7) by simp
  qed
  then show ?thesis
    by (simp only: dataMessage_parse_def data_message_parsed [OF assms(1-5)] Let_def prod.case
        option.case if_False)
qed

lemma pieces_concat: "concat (pieces xs) = xs"
  by (induction xs rule: pieces.induct) (subst pieces.simps, simp)

lemma pieces_short: "p \<in> set (pieces xs) \<Longrightarrow> length p \<le> 16"
  by (induction xs rule: pieces.induct) (subst (asm) (2) pieces.simps, auto split: if_splits)

lemma sendMessages_concat: "concat (sendMessages xs) = xs"
  by (simp add: sendMessages_def pieces_concat)

section \<open>Scalars\<close>

lemma parse_int_to_string: "0 \<le> v \<Longrightarrow> parse_int None (int_to_string 10 v) = Some v"
proof -
  assume v: "0 \<le> v"
  let ?ds = "digits_of 10 (nat v)"
  obtain d ds' where d: "?ds = d # ds'" by (cases ?ds) (auto simp: digits_of_ne)
  have dig: "\<forall>c \<in> set ?ds. is_digit 10 c" by (auto intro: digits_of_digits)
  note n = is_digit_not_sign [of 10 d]
  have "?ds ! 1 \<le> 57" if "2 \<le> length ?ds"
  proof -
    have "?ds ! 1 \<in> set ?ds" using that by (intro nth_mem) simp
    then show ?thesis using dig is_digit_10 by blast
  qed
  then have x: "strip_0x ?ds = ?ds" by (auto simp: strip_0x_def)
  have tw: "takeWhile (is_digit 10) ds' = ds'"
    using dig d by (simp add: takeWhile_eq_all_conv)
  show ?thesis
    using v n dig x tw digits_value_digits_of [of 10 "nat v"]
    by (simp add: parse_int_def int_to_string_def d Let_def del: takeWhile_eq_all_conv)
qed

lemma nibbles_of_byte:
  "(x :: int) mod 256 mod 16 = x mod 16" "x mod 256 div 16 mod 16 = x div 16 mod 16"
proof -
  have s: "x mod 256 = x mod 16 + 16 * (x div 16 mod 16)" by (simp add: nibbles_sum8)
  show "x mod 256 mod 16 = x mod 16" by (simp add: mod_mod_cancel)
  show "x mod 256 div 16 mod 16 = x div 16 mod 16" unfolding s by simp
qed

lemma nibblize_num_bytes: "nibblize_num (Some v) = enc_bytes [nat (v mod 256)]"
  by (simp add: nibblize_num_Some nibbles_of_byte)

lemma nibblize16_bytes: "nibblize16 (Some v) = enc_bytes [nat (v mod 256), nat (v div 256 mod 256)]"
proof -
  have d: "v div 256 div 16 = v div 4096" using zdiv_zmult2_eq [of 16 v 256] by simp
  show ?thesis by (simp add: nibblize16_Some nibblize_num_Some nibbles_of_byte d)
qed

definition scalar_bytes :: "nat \<Rightarrow> nat \<Rightarrow> int \<Rightarrow> nat list" where
  "scalar_bytes sz optsz v =
     (if sz = 2 then [nat (v mod 256), nat (v div 256 mod 256)] else [nat (v mod 256)])
     @ replicate optsz 0"

lemma enc_bytes_append: "enc_bytes (a @ b) = enc_bytes a @ enc_bytes b"
  by (simp add: enc_bytes_def)

lemma enc_bytes_zeros: "enc_bytes (replicate n 0) = replicate (2 * n) 0"
  by (induction n) (simp_all add: nibblize_num_Some)

lemma bytes_scalar: "bytes (scalar_bytes sz k v)"
  by (auto simp: scalar_bytes_def bytes_def nat_less_iff)

section \<open>Properties\<close>

definition key_of :: "message \<Rightarrow> request_key" where
  "key_of m = \<lparr>rk_path = m_path m,
     rk_numLevels = (case m_numLevels m of None \<Rightarrow> None | Some n \<Rightarrow> n),
     rk_levels = m_levels m, rk_callback = True\<rparr>"

text \<open>
  C3: A data message answers exactly the pending request for its levels: the bytes
  \<open>dataMessage\<close> and \<open>midi_message_send\<close> make of data at some levels are parsed back to that
  data and those levels and delivered to a request for the same levels, and passed on by a
  request for any other levels.
\<close>

theorem data_message_answers_request:
  assumes "dataMessage cfg (By_levels (length ls) ls) (Nibbles (enc_bytes ds)) = Inr m"
    and "dataMessage_request cfg True (By_levels (length ks) ks) = Inr (Ask r)"
    and "word_levels ls" and "ds \<noteq> []" and "bytes ds" and "length ds < 65536"
  shows "dataMessage_parse cfg False (request_bytes ids False m) (Some (key_of r)) =
    (if ks = ls then Inr (Deliver \<lparr>dm_raw = request_bytes ids False m, dm_data = ds,
        dm_numLevels = Some (int (length ls)), dm_levels = ls, dm_path = m_path r\<rparr>)
     else Inr Pass)"
proof -
  obtain path where m: "m = data_message path (length ls) ls (enc_bytes ds)"
    using assms(1) by (auto simp: dataMessage_levels split: sum.splits)
  have r: "m_numLevels r = Some (Some (int (length ks)))" "m_levels r = ks"
    using assms(2)
    by (cases "getLevelName cfg (length ks) ks"; auto simp: dataMessage_request_def)+
  show ?thesis
  proof (cases "ks = ls")
    case True
    then show ?thesis
      using dataMessage_delivers [OF assms(3-6) refl, of "key_of r"] r m by (simp add: key_of_def)
  next
    case False
    then show ?thesis
      using dataMessage_passes [OF assms(3-6) refl, of "key_of r"] r m by (simp add: key_of_def)
  qed
qed

theorem data_message_answers_request_witness:
  "\<exists>m r. dataMessage sample_config (By_levels 3 [Some 1, Some 18, Some 5]) (Nibbles (enc_bytes [1])) = Inr m \<and>
     dataMessage_request sample_config True (By_levels 2 [Some 1, Some 18]) = Inr (Ask r) \<and>
     dataMessage_parse sample_config False (request_bytes mpxg2_ids False m) (Some (key_of r)) = Inr Pass"
proof -
  let ?ls = "[Some 1, Some 18, Some 5] :: jnum list" and ?ks = "[Some 1, Some 18] :: jnum list"
  obtain m where m: "dataMessage sample_config (By_levels (length ?ls) ?ls) (Nibbles (enc_bytes [1])) = Inr m"
    by (simp add: dataMessage_levels getLevelName_def sample_simps child_def jhead_def od_of_def)
  obtain r where r: "dataMessage_request sample_config True (By_levels (length ?ks) ?ks) = Inr (Ask r)"
    by (simp add: dataMessage_request_def getLevelName_def sample_simps child_def jhead_def od_of_def)
  have "word_levels ?ls" by (simp add: word_levels_def)
  from data_message_answers_request [OF m r this, of mpxg2_ids] m r show ?thesis
    by (intro exI [of _ m] exI [of _ r]) (simp add: numeral_2_eq_2 numeral_3_eq_3)
qed

text \<open>
  A number set by the user arrives whole: for a parameter of one or two bytes, the
  decimal string of a number that \<open>dataMessage\<close> is given is sent as that number's bytes, low
  byte first and reduced to the parameter's size, followed by zeros for the option, whose
  old value is thereby lost.
\<close>

theorem scalar_is_sent:
  assumes "word_levels ls" and "getLevel cfg (length ls) ls = Some t" and "od_of cfg t = Some od"
    and "od_dataSize od = Some (int sz)" and "sz = 1 \<or> sz = 2" and "0 \<le> v"
    and "if od_optionType od = Some 0xFFFF then k = 0
         else \<exists>otod. objectDescription cfg (od_optionType od) = Some otod \<and>
                od_dataSize otod = Some (int k)" and "k < 100"
    and "dataMessage cfg (By_levels (length ls) ls) (Scalar (int_to_string 10 v)) = Inr m"
  shows "fst (read_data (request_bytes ids False m)) = scalar_bytes sz k v"
proof -
  have "scalar_nibbles cfg (length ls) ls (Some v) raw = Inr (enc_bytes (scalar_bytes sz k v))" for raw
  proof (cases "od_optionType od = Some 0xFFFF")
    case True
    then show ?thesis
      using assms(2-5,7) by (auto simp: scalar_nibbles_def scalar_bytes_def Let_def
          nibblize16_bytes nibblize_num_bytes simp del: enc_bytes_simps)
  next
    case False
    then obtain otod where "objectDescription cfg (od_optionType od) = Some otod"
      "od_dataSize otod = Some (int k)" using assms(7) by auto
    then show ?thesis
      using False assms(2-5) by (auto simp: scalar_nibbles_def scalar_bytes_def Let_def
          enc_bytes_append enc_bytes_zeros count_of_def nibblize16_bytes nibblize_num_bytes
          simp del: enc_bytes_simps)
  qed
  then obtain path where m: "m = data_message path (length ls) ls (enc_bytes (scalar_bytes sz k v))"
    using assms(9) by (auto simp: dataMessage_levels parse_int_to_string [OF assms(6)]
        split: sum.splits)
  have "length (scalar_bytes sz k v) < 65536" "scalar_bytes sz k v \<noteq> []"
    using assms(8) by (simp_all add: scalar_bytes_def)
  from data_message_parsed(1) [OF assms(1) this(2) bytes_scalar this(1)] show ?thesis
    unfolding m by simp
qed

theorem scalar_is_sent_witness:
  "\<exists>m. dataMessage sample_config (By_levels 3 [Some 1, Some 18, Some 5])
         (Scalar (int_to_string 10 300)) = Inr m \<and>
       fst (read_data (request_bytes mpxg2_ids False m)) = [44]"
proof -
  let ?ls = "[Some 1, Some 18, Some 5] :: jnum list"
  have g: "getLevel sample_config (length ?ls) ?ls = Some (leaf 457)"
    by (simp add: getLevel_def sample_simps child_def jhead_def)
  have od: "od_of sample_config (leaf 457) = Some (plain_od 457 (S ''AddresMode'') 0 1 4)"
    by (simp add: od_of_def sample_simps)
  obtain p where p: "getLevelName sample_config (length ?ls) ?ls = Inr p"
    by (simp add: getLevelName_def sample_simps child_def jhead_def od_of_def)
  obtain m where m: "dataMessage sample_config (By_levels (length ?ls) ?ls)
      (Scalar (int_to_string 10 300)) = Inr m"
    using p g od by (simp add: dataMessage_levels scalar_nibbles_def plain_od_def Let_def del: One_nat_def)
  have "fst (read_data (request_bytes mpxg2_ids False m)) = scalar_bytes 1 0 300"
    by (rule scalar_is_sent [OF _ g od _ _ _ _ _ m])
      (simp_all add: word_levels_def plain_od_def)
  with m show ?thesis by (simp add: scalar_bytes_def numeral_3_eq_3)
qed

end
