(* ===== verification/Engine.thy ===== *)
theory Engine
  imports Requests
begin

text \<open>
  The message engine of \<open>src/mpxg2-dev/lexicon.js\<close>: the outgoing queue, the list of pending
  requests (\<open>sysex_hook\<close>), the timeouts with their retries, and \<open>sysex_callback\<close>, which
  offers a received message to the pending requests.  Message objects are shared between
  the list, the queue and the timers, and a retry puts the same object in the list again,
  so they live in a heap and are named by their index.  What a request's callback does is a
  parameter \<open>react\<close> of the model: from the received bytes and the client's state it gives
  the new state, the messages it sends, and its return value.
\<close>

section \<open>State\<close>

datatype timeout_kind =
    Retry nat
  | Again

record 'k pend =
  pm_msg :: message
  pm_cb :: "'k option"
  pm_timeout :: "timeout_kind option"
  pm_ref :: "nat option"
  pm_remove :: bool

text \<open>
  A timer is its identity and the message whose \<open>timeout.callback\<close> it runs; \<open>sent\<close> records
  what was handed to the MIDI port, for which message.
\<close>

record 'k engine =
  heap :: "'k pend list"
  sysex_hook :: "nat list"
  midiout_q :: "nat list"
  midiout_lock :: bool
  ticks :: nat
  timers :: "(nat \<times> nat) list"
  next_timer :: nat
  sent :: "(nat \<times> nat list list) list"
  alive :: bool
  ids :: device_ids
  shortAddresses_mode :: bool

definition upd_pend :: "nat \<Rightarrow> ('k pend \<Rightarrow> 'k pend) \<Rightarrow> 'k engine \<Rightarrow> 'k engine" where
  "upd_pend i f e = e\<lparr>heap := (heap e)[i := f (heap e ! i)]\<rparr>"

definition sysex_hook_add :: "nat \<Rightarrow> 'k engine \<Rightarrow> 'k engine" where
  "sysex_hook_add i e = e\<lparr>sysex_hook := sysex_hook e @ [i]\<rparr>"

definition set_timer :: "nat \<Rightarrow> 'k engine \<Rightarrow> 'k engine" where
  "set_timer i e =
     upd_pend i (\<lambda>p. p\<lparr>pm_ref := Some (next_timer e)\<rparr>)
       (e\<lparr>timers := timers e @ [(next_timer e, i)], next_timer := Suc (next_timer e)\<rparr>)"

definition clear_timer :: "nat \<Rightarrow> 'k engine \<Rightarrow> 'k engine" where
  "clear_timer i e =
     (if pm_timeout (heap e ! i) = None then e
      else upd_pend i (\<lambda>p. p\<lparr>pm_ref := None\<rparr>)
        (e\<lparr>timers := filter (\<lambda>(t, _). Some t \<noteq> pm_ref (heap e ! i)) (timers e)\<rparr>))"

section \<open>Sending\<close>

definition send_message :: "nat \<Rightarrow> 'k engine \<Rightarrow> 'k engine" where
  "send_message i e =
     (let p = heap e ! i;
          e1 = (if \<not> m_raw (pm_msg p) \<and> pm_cb p \<noteq> None then sysex_hook_add i e else e);
          e2 = (if \<not> m_raw (pm_msg p) \<and> pm_timeout p \<noteq> None then set_timer i e1 else e1)
      in e2\<lparr>sent := sent e2 @ [(i, midi_message_send (ids e) (shortAddresses_mode e) (pm_msg p))]\<rparr>)"

definition midioutq_sendone :: "'k engine \<Rightarrow> 'k engine" where
  "midioutq_sendone e =
     (let e1 = (case midiout_q e of [] \<Rightarrow> e | i # q \<Rightarrow> send_message i (e\<lparr>midiout_q := q\<rparr>))
      in if midiout_q e1 = [] then e1\<lparr>midiout_lock := False\<rparr>
         else e1\<lparr>ticks := Suc (ticks e1)\<rparr>)"

definition midi_message :: "nat \<Rightarrow> 'k engine \<Rightarrow> 'k engine" where
  "midi_message i e =
     (let e1 = e\<lparr>midiout_q := midiout_q e @ [i]\<rparr>
      in if midiout_lock e1 then e1 else midioutq_sendone e1)"

definition new_message :: "'k pend \<Rightarrow> 'k engine \<Rightarrow> 'k engine" where
  "new_message p e =
     midi_message (length (heap e)) (e\<lparr>heap := heap e @ [p\<lparr>pm_ref := None, pm_remove := False\<rparr>]\<rparr>)"

section \<open>Timeouts\<close>

text \<open>
  A timer that fires sends its message again: a request at most \<open>retry\<close> times, the handshake
  for ever, marking the device as not alive.
\<close>

definition fire :: "nat \<Rightarrow> nat \<Rightarrow> 'k engine \<Rightarrow> 'k engine" where
  "fire t i e =
     (let e1 = e\<lparr>timers := filter (\<lambda>(t', _). t' \<noteq> t) (timers e)\<rparr>
      in case pm_timeout (heap e ! i) of
           None \<Rightarrow> e1
         | Some (Retry n) \<Rightarrow>
             if n > 0 then midi_message i (upd_pend i (\<lambda>p. p\<lparr>pm_timeout := Some (Retry (n - 1))\<rparr>) e1)
             else e1
         | Some Again \<Rightarrow> midi_message i (e1\<lparr>alive := False\<rparr>))"

section \<open>Receiving\<close>

text \<open>
  A callback returns \<open>false\<close>, anything else, or passes the message on: it sets
  \<open>msg.remove=false\<close> and returns \<open>true\<close>.
\<close>

datatype cb_return = RetFalse | RetOther | Passed

type_synonym ('k, 'a) react = "'k \<Rightarrow> nat list \<Rightarrow> 'a \<Rightarrow> 'a \<times> 'k pend list \<times> cb_return"

definition answers :: "'k pend \<Rightarrow> nat list \<Rightarrow> bool" where
  "answers p buf \<longleftrightarrow>
     (let messageType = int (buf ! 4)
      in m_type (pm_msg p) = REQUEST \<and> m_request_type (pm_msg p) = Some messageType
         \<or> m_type (pm_msg p) = messageType)"

text \<open>
  One entry of the list: the timeout is cleared, the message marked, its callback called.
  What it sends goes out at once and may lengthen the list the loop is walking.
\<close>

definition call_hook ::
  "('k, 'a) react \<Rightarrow> nat \<Rightarrow> nat list \<Rightarrow> 'k engine \<times> 'a \<Rightarrow> ('k engine \<times> 'a) \<times> cb_return" where
  "call_hook react i buf s =
     (let (e, a) = s;
          e1 = upd_pend i (\<lambda>p. p\<lparr>pm_remove := True\<rparr>) (clear_timer i e)
      in case pm_cb (heap e ! i) of
           None \<Rightarrow> ((e1, a), RetOther)
         | Some k \<Rightarrow>
             (let (a', outs, ret) = react k buf a;
                  e2 = fold new_message outs e1;
                  e3 = (if ret = Passed then upd_pend i (\<lambda>p. p\<lparr>pm_remove := False\<rparr>) e2 else e2)
              in ((e3, a'), ret)))"

text \<open>
  The loop over the list, with fuel because a callback may lengthen it for ever.  The result
  says whether a callback returned \<open>false\<close>, the new state, and the calls made.
\<close>

fun hook_loop ::
  "('k, 'a) react \<Rightarrow> nat \<Rightarrow> nat \<Rightarrow> nat list \<Rightarrow> 'k engine \<times> 'a \<Rightarrow>
   (bool \<times> ('k engine \<times> 'a) \<times> (nat \<times> cb_return) list) option" where
  "hook_loop react 0 n buf s = None"
| "hook_loop react (Suc fuel) n buf s =
     (if length (sysex_hook (fst s)) \<le> n then Some (False, s, [])
      else
        let i = sysex_hook (fst s) ! n; p = heap (fst s) ! i in
        if pm_remove p then
          hook_loop react fuel n buf
            ((fst s)\<lparr>sysex_hook := take n (sysex_hook (fst s)) @ drop (Suc n) (sysex_hook (fst s))\<rparr>,
             snd s)
        else if answers p buf then
          (let (s', ret) = call_hook react i buf s
           in if ret = RetFalse then Some (True, s', [(i, ret)])
              else map_option (\<lambda>(b, s'', calls). (b, s'', (i, ret) # calls))
                     (hook_loop react fuel (Suc n) buf s'))
        else hook_loop react fuel (Suc n) buf s)"

text \<open>
  \<open>sysex_callback\<close>; the functions of \<open>message_callback\<close>, called when no callback returned
  \<open>false\<close>, are the second parameter: they do not touch the engine.
\<close>

definition sysex_callback ::
  "('k, 'a) react \<Rightarrow> (nat list \<Rightarrow> 'a \<Rightarrow> 'a) \<Rightarrow> nat \<Rightarrow> nat list \<Rightarrow> 'k engine \<times> 'a \<Rightarrow>
   (('k engine \<times> 'a) \<times> (nat \<times> cb_return) list) option" where
  "sysex_callback react process fuel buf s =
     (if length buf > 6 then
        map_option
          (\<lambda>(stopped, s', calls).
             (if stopped then s'
              else if buf ! 4 \<in> {1, 0x11, 0x12} then (fst s', process buf (snd s')) else s', calls))
          (hook_loop react fuel 0 buf s)
      else Some (s, []))"

section \<open>Runs\<close>

text \<open>
  What the environment may do, in any order: deliver a message, let a pending timer fire,
  or have the client send a message.  A run collects the calls of callbacks.
\<close>

inductive engine_run ::
  "('k, 'a) react \<Rightarrow> (nat list \<Rightarrow> 'a \<Rightarrow> 'a) \<Rightarrow> 'k engine \<times> 'a \<Rightarrow> (nat \<times> cb_return) list \<Rightarrow>
   'k engine \<times> 'a \<Rightarrow> bool"
  for react process where
  stop: "engine_run react process s [] s"
| receive: "engine_run react process s cs (e, a) \<Longrightarrow>
     sysex_callback react process fuel buf (e, a) = Some (s', cs') \<Longrightarrow>
     engine_run react process s (cs @ cs') s'"
| timeout: "engine_run react process s cs (e, a) \<Longrightarrow> (t, i) \<in> set (timers e) \<Longrightarrow>
     engine_run react process s cs (fire t i e, a)"
| client: "engine_run react process s cs (e, a) \<Longrightarrow>
     engine_run react process s cs (new_message p e, a')"

definition engine_init :: "device_ids \<Rightarrow> 'k engine" where
  "engine_init dev =
     \<lparr>heap = [], sysex_hook = [], midiout_q = [], midiout_lock = False, ticks = 0, timers = [],
      next_timer = 0, sent = [], alive = False, ids = dev, shortAddresses_mode = False\<rparr>"

section \<open>What each step changes\<close>

text \<open>
  The proofs look at the engine through a few observations, with one lemma per step.
\<close>

definition removed :: "nat \<Rightarrow> 'k engine \<Rightarrow> bool" where
  "removed i e = pm_remove (heap e ! i)"

definition kind_of :: "nat \<Rightarrow> 'k engine \<Rightarrow> timeout_kind option" where
  "kind_of i e = pm_timeout (heap e ! i)"

definition ref_of :: "nat \<Rightarrow> 'k engine \<Rightarrow> nat option" where
  "ref_of i e = pm_ref (heap e ! i)"

definition times_sent :: "nat \<Rightarrow> 'k engine \<Rightarrow> nat" where
  "times_sent i e = length (filter (\<lambda>(j, _). j = i) (sent e))"

definition retries :: "nat \<Rightarrow> 'k engine \<Rightarrow> nat" where
  "retries i e = (case kind_of i e of Some (Retry n) \<Rightarrow> n | _ \<Rightarrow> 0)"

named_theorems views

lemmas view_defs = removed_def kind_of_def ref_of_def times_sent_def

lemma nth_upd: "i < length xs \<Longrightarrow> xs[i := v] ! j = (if j = i then v else xs ! j)"
  by (simp add: nth_list_update)

lemma upd_remove_views [views]:
  "i < length (heap e) \<Longrightarrow> removed j (upd_pend i (\<lambda>p. p\<lparr>pm_remove := b\<rparr>) e) = (if j = i then b else removed j e)"
  "i < length (heap e) \<Longrightarrow> kind_of j (upd_pend i (\<lambda>p. p\<lparr>pm_remove := b\<rparr>) e) = kind_of j e"
  "i < length (heap e) \<Longrightarrow> ref_of j (upd_pend i (\<lambda>p. p\<lparr>pm_remove := b\<rparr>) e) = ref_of j e"
  by (simp_all add: view_defs upd_pend_def nth_upd)

lemma upd_pend_views [views]:
  "times_sent j (upd_pend i f e) = times_sent j e"
  "length (heap (upd_pend i f e)) = length (heap e)"
  "timers (upd_pend i f e) = timers e"
  "midiout_q (upd_pend i f e) = midiout_q e" "midiout_lock (upd_pend i f e) = midiout_lock e"
  "ticks (upd_pend i f e) = ticks e" "sysex_hook (upd_pend i f e) = sysex_hook e"
  "sent (upd_pend i f e) = sent e"
  by (simp_all add: view_defs upd_pend_def)

lemma upd_kind_views [views]:
  "i < length (heap e) \<Longrightarrow> removed j (upd_pend i (\<lambda>p. p\<lparr>pm_timeout := k\<rparr>) e) = removed j e"
  "i < length (heap e) \<Longrightarrow> kind_of j (upd_pend i (\<lambda>p. p\<lparr>pm_timeout := k\<rparr>) e) = (if j = i then k else kind_of j e)"
  "i < length (heap e) \<Longrightarrow> ref_of j (upd_pend i (\<lambda>p. p\<lparr>pm_timeout := k\<rparr>) e) = ref_of j e"
  by (simp_all add: view_defs upd_pend_def nth_upd)

lemma clear_views [views]:
  "i < length (heap e) \<Longrightarrow> removed j (clear_timer i e) = removed j e"
  "i < length (heap e) \<Longrightarrow> kind_of j (clear_timer i e) = kind_of j e"
  "i < length (heap e) \<Longrightarrow> ref_of j (clear_timer i e) =
     (if j = i \<and> kind_of i e \<noteq> None then None else ref_of j e)"
  "times_sent j (clear_timer i e) = times_sent j e"
  "length (heap (clear_timer i e)) = length (heap e)"
  "set (timers (clear_timer i e)) =
     {x \<in> set (timers e). kind_of i e = None \<or> Some (fst x) \<noteq> ref_of i e}"
  "midiout_q (clear_timer i e) = midiout_q e" "midiout_lock (clear_timer i e) = midiout_lock e"
  "ticks (clear_timer i e) = ticks e" "sysex_hook (clear_timer i e) = sysex_hook e"
  "sent (clear_timer i e) = sent e"
  by (auto simp: clear_timer_def upd_pend_def view_defs nth_upd)

definition has_timeout :: "'k pend \<Rightarrow> bool" where
  "has_timeout p \<longleftrightarrow> \<not> m_raw (pm_msg p) \<and> pm_timeout p \<noteq> None"

lemma send_views [views]:
  assumes "i < length (heap e)"
  shows "removed j (send_message i e) = removed j e"
    and "kind_of j (send_message i e) = kind_of j e"
    and "ref_of j (send_message i e) =
      (if j = i \<and> has_timeout (heap e ! i) then Some (next_timer e) else ref_of j e)"
    and "times_sent j (send_message i e) = times_sent j e + (if j = i then 1 else 0)"
    and "length (heap (send_message i e)) = length (heap e)"
    and "set (timers (send_message i e)) =
      set (timers e) \<union> (if has_timeout (heap e ! i) then {(next_timer e, i)} else {})"
    and "midiout_q (send_message i e) = midiout_q e"
    and "midiout_lock (send_message i e) = midiout_lock e"
    and "ticks (send_message i e) = ticks e"
    and "set (sysex_hook (send_message i e)) \<subseteq> insert i (set (sysex_hook e))"
    and "sent (send_message i e) = sent e @
      [(i, midi_message_send (ids e) (shortAddresses_mode e) (pm_msg (heap e ! i)))]"
  using assms
  by (auto simp: send_message_def set_timer_def sysex_hook_add_def upd_pend_def view_defs nth_upd
      has_timeout_def Let_def)

definition idle :: "'k engine \<Rightarrow> bool" where
  "idle e \<longleftrightarrow> midiout_q e = [] \<and> \<not> midiout_lock e"

text \<open>A message given to an idle engine is sent at once.\<close>

lemma midi_message_idle: "idle e \<Longrightarrow> i < length (heap e) \<Longrightarrow> midi_message i e = send_message i e"
proof -
  assume idle: "idle e" and i: "i < length (heap e)"
  then have e: "e\<lparr>midiout_q := []\<rparr> = e" by (simp add: idle_def)
  have "midiout_lock (send_message i e) = False" using idle send_views(8) [OF i] by (simp add: idle_def)
  then have "(send_message i e)\<lparr>midiout_lock := False\<rparr> = send_message i e" by simp
  moreover have "midiout_q (send_message i e) = []"
    using idle send_views(7) [OF i] by (simp add: idle_def)
  ultimately have "midioutq_sendone (e\<lparr>midiout_q := [i]\<rparr>) = send_message i e"
    by (simp add: midioutq_sendone_def Let_def e)
  then show ?thesis using idle by (simp add: midi_message_def idle_def Let_def)
qed

section \<open>The invariant\<close>

text \<open>
  The queue is always drained, the list and the timers name messages that exist, and a
  pending timer is the one its message refers to, so that clearing a message's timeout
  leaves no timer for it.
\<close>

definition einv :: "'k engine \<Rightarrow> bool" where
  "einv e \<longleftrightarrow> idle e \<and> ticks e = 0 \<and> (\<forall>i \<in> set (sysex_hook e). i < length (heap e)) \<and>
     (\<forall>t i. (t, i) \<in> set (timers e) \<longrightarrow>
        i < length (heap e) \<and> ref_of i e = Some t \<and> kind_of i e \<noteq> None)"

lemma einvD:
  assumes "einv e"
  shows "idle e" "ticks e = 0" "i \<in> set (sysex_hook e) \<Longrightarrow> i < length (heap e)"
    "(t, i) \<in> set (timers e) \<Longrightarrow> i < length (heap e)"
    "(t, i) \<in> set (timers e) \<Longrightarrow> ref_of i e = Some t"
    "(t, i) \<in> set (timers e) \<Longrightarrow> kind_of i e \<noteq> None"
  using assms unfolding einv_def by blast+

lemma einvI:
  assumes "idle e" "ticks e = 0" "\<And>i. i \<in> set (sysex_hook e) \<Longrightarrow> i < length (heap e)"
    "\<And>t i. (t, i) \<in> set (timers e) \<Longrightarrow> i < length (heap e) \<and> ref_of i e = Some t \<and> kind_of i e \<noteq> None"
  shows "einv e"
  using assms unfolding einv_def by blast

text \<open>A request that was answered: marked for removal, and no timer will send it again.\<close>

definition settled :: "nat \<Rightarrow> 'k engine \<Rightarrow> bool" where
  "settled i e \<longleftrightarrow> removed i e \<and> i \<notin> snd ` set (timers e)"

text \<open>
  What every step keeps: messages do not disappear, a settled one stays settled and is not
  sent, and the transmissions of a request and the retries it has left add up.
\<close>

definition keeps :: "'k engine \<Rightarrow> 'k engine \<Rightarrow> bool" where
  "keeps e e' \<longleftrightarrow> length (heap e) \<le> length (heap e') \<and>
     (\<forall>i < length (heap e).
        (settled i e \<longrightarrow> settled i e' \<and> times_sent i e' = times_sent i e) \<and>
        (kind_of i e \<noteq> Some Again \<longrightarrow>
           kind_of i e' \<noteq> Some Again \<and>
           times_sent i e' + retries i e' = times_sent i e + retries i e))"

lemma keeps_refl [simp]: "keeps e e"
  by (simp add: keeps_def)

lemma keepsD:
  assumes "keeps e e'"
  shows "length (heap e) \<le> length (heap e')"
    "i < length (heap e) \<Longrightarrow> settled i e \<Longrightarrow> settled i e' \<and> times_sent i e' = times_sent i e"
    "i < length (heap e) \<Longrightarrow> kind_of i e \<noteq> Some Again \<Longrightarrow> kind_of i e' \<noteq> Some Again \<and>
       times_sent i e' + retries i e' = times_sent i e + retries i e"
  using assms unfolding keeps_def by blast+

lemma keeps_trans:
  assumes "keeps e1 e2" and "keeps e2 e3"
  shows "keeps e1 e3"
proof -
  have l: "i < length (heap e2)" if "i < length (heap e1)" for i
    using keepsD(1) [OF assms(1)] that by simp
  show ?thesis
    unfolding keeps_def
    using keepsD(1) [OF assms(1)] keepsD(1) [OF assms(2)] keepsD(2,3) [OF assms(1)]
      keepsD(2,3) [OF assms(2) l] by auto
qed

subsection \<open>Sending and retrying\<close>

lemma send_einv:
  assumes "einv e" and i: "i < length (heap e)" and new: "i \<notin> snd ` set (timers e)"
  shows "einv (send_message i e)"
proof (rule einvI)
  fix t j assume "(t, j) \<in> set (timers (send_message i e))"
  then consider "(t, j) \<in> set (timers e)" | "has_timeout (heap e ! i)" "t = next_timer e" "j = i"
    unfolding send_views(6) [OF i] by (auto split: if_splits)
  then show "j < length (heap (send_message i e)) \<and> ref_of j (send_message i e) = Some t \<and>
      kind_of j (send_message i e) \<noteq> None"
  proof cases
    case 1
    then have "j \<noteq> i" using new by force
    then show ?thesis using einvD(4-6) [OF assms(1) 1] by (simp add: send_views [OF i])
  next
    case 2
    then have "kind_of i e \<noteq> None" by (simp add: has_timeout_def kind_of_def)
    then show ?thesis using 2 i by (simp add: send_views [OF i])
  qed
next
  fix j assume "j \<in> set (sysex_hook (send_message i e))"
  then show "j < length (heap (send_message i e))"
    using send_views(10) [OF i] einvD(3) [OF assms(1)] i by (auto simp: send_views(5) [OF i])
qed (use einvD(1,2) [OF assms(1)] in \<open>simp_all add: idle_def send_views [OF i]\<close>)

lemma alloc_views:
  "j < length (heap e) \<Longrightarrow> removed j (e\<lparr>heap := heap e @ ps\<rparr>) = removed j e"
  "j < length (heap e) \<Longrightarrow> kind_of j (e\<lparr>heap := heap e @ ps\<rparr>) = kind_of j e"
  "j < length (heap e) \<Longrightarrow> ref_of j (e\<lparr>heap := heap e @ ps\<rparr>) = ref_of j e"
  "times_sent j (e\<lparr>heap := heap e @ ps\<rparr>) = times_sent j e"
  by (simp_all add: view_defs nth_append)

lemma alloc_einv:
  assumes "einv e"
  shows "einv (e\<lparr>heap := heap e @ ps\<rparr>)"
proof (rule einvI)
  fix t i assume "(t, i) \<in> set (timers (e\<lparr>heap := heap e @ ps\<rparr>))"
  then have "(t, i) \<in> set (timers e)" by simp
  note t = einvD(4-6) [OF assms this]
  show "i < length (heap (e\<lparr>heap := heap e @ ps\<rparr>)) \<and> ref_of i (e\<lparr>heap := heap e @ ps\<rparr>) = Some t \<and>
      kind_of i (e\<lparr>heap := heap e @ ps\<rparr>) \<noteq> None"
    using t by (simp add: alloc_views(2,3) [OF t(1)])
qed (use einvD(1-3) [OF assms] in \<open>auto simp: idle_def trans_less_add1\<close>)

lemma new_message_eq:
  "einv e \<Longrightarrow> new_message p e =
     send_message (length (heap e)) (e\<lparr>heap := heap e @ [p\<lparr>pm_ref := None, pm_remove := False\<rparr>]\<rparr>)"
  unfolding new_message_def by (rule midi_message_idle) (simp_all add: einv_def idle_def)

lemma no_timer_fresh: "einv e \<Longrightarrow> length (heap e) \<notin> snd ` set (timers e)"
  by (auto dest: einvD(4))

lemma new_message_einv:
  assumes "einv e"
  shows "einv (new_message p e)"
  unfolding new_message_eq [OF assms]
  by (rule send_einv [OF alloc_einv [OF assms]]) (use no_timer_fresh [OF assms] in simp_all)

lemma new_message_keeps:
  assumes "einv e"
  shows "keeps e (new_message p e)"
proof -
  let ?e1 = "e\<lparr>heap := heap e @ [p\<lparr>pm_ref := None, pm_remove := False\<rparr>]\<rparr>"
  have l: "length (heap e) < length (heap ?e1)" by simp
  show ?thesis
    unfolding keeps_def new_message_eq [OF assms]
    by (auto simp: send_views [OF l] alloc_views settled_def retries_def)
qed

lemma drop_timer_views:
  "removed j (e\<lparr>timers := ts\<rparr>) = removed j e" "kind_of j (e\<lparr>timers := ts\<rparr>) = kind_of j e"
  "ref_of j (e\<lparr>timers := ts\<rparr>) = ref_of j e" "times_sent j (e\<lparr>timers := ts\<rparr>) = times_sent j e"
  "removed j (e\<lparr>alive := b\<rparr>) = removed j e" "kind_of j (e\<lparr>alive := b\<rparr>) = kind_of j e"
  "ref_of j (e\<lparr>alive := b\<rparr>) = ref_of j e" "times_sent j (e\<lparr>alive := b\<rparr>) = times_sent j e"
  "removed j (e\<lparr>sysex_hook := h\<rparr>) = removed j e" "kind_of j (e\<lparr>sysex_hook := h\<rparr>) = kind_of j e"
  "ref_of j (e\<lparr>sysex_hook := h\<rparr>) = ref_of j e" "times_sent j (e\<lparr>sysex_hook := h\<rparr>) = times_sent j e"
  by (simp_all add: view_defs)

definition after_fire :: "nat \<Rightarrow> nat \<Rightarrow> 'k engine \<Rightarrow> 'k engine" where
  "after_fire t i e =
     (let e1 = e\<lparr>timers := filter (\<lambda>(t', _). t' \<noteq> t) (timers e)\<rparr>
      in case pm_timeout (heap e ! i) of
           None \<Rightarrow> e1
         | Some (Retry n) \<Rightarrow>
             if n > 0 then upd_pend i (\<lambda>p. p\<lparr>pm_timeout := Some (Retry (n - 1))\<rparr>) e1 else e1
         | Some Again \<Rightarrow> e1\<lparr>alive := False\<rparr>)"

definition resends :: "nat \<Rightarrow> 'k engine \<Rightarrow> bool" where
  "resends i e \<longleftrightarrow> kind_of i e = Some Again \<or> retries i e > 0"

lemma after_fire_views:
  assumes "i < length (heap e)"
  shows "removed j (after_fire t i e) = removed j e"
    and "kind_of j (after_fire t i e) =
       (if j = i \<and> retries i e > 0 then Some (Retry (retries i e - 1)) else kind_of j e)"
    and "ref_of j (after_fire t i e) = ref_of j e"
    and "times_sent j (after_fire t i e) = times_sent j e"
    and "length (heap (after_fire t i e)) = length (heap e)"
    and "set (timers (after_fire t i e)) = {x \<in> set (timers e). fst x \<noteq> t}"
    and "idle (after_fire t i e) = idle e"
    and "ticks (after_fire t i e) = ticks e"
    and "sysex_hook (after_fire t i e) = sysex_hook e"
  using assms
  by (auto simp: after_fire_def Let_def upd_kind_views upd_pend_views drop_timer_views idle_def
      retries_def kind_of_def [symmetric] split: option.splits timeout_kind.splits)

lemma fire_no_timer:
  assumes "einv e" and "(t, i) \<in> set (timers e)"
  shows "i \<notin> snd ` set (timers (after_fire t i e))"
proof
  assume "i \<in> snd ` set (timers (after_fire t i e))"
  then obtain t' where "(t', i) \<in> set (timers e)" "t' \<noteq> t"
    using after_fire_views(6) [OF einvD(4) [OF assms]] by auto
  then show False
    using einvD(5) [OF assms(1), of t i] einvD(5) [OF assms(1), of t' i] assms(2) by simp
qed

lemma after_fire_einv:
  assumes "einv e" and "i < length (heap e)"
  shows "einv (after_fire t i e)"
proof (rule einvI)
  fix t' j assume "(t', j) \<in> set (timers (after_fire t i e))"
  then have "(t', j) \<in> set (timers e)" by (simp add: after_fire_views [OF assms(2)])
  then show "j < length (heap (after_fire t i e)) \<and> ref_of j (after_fire t i e) = Some t' \<and>
      kind_of j (after_fire t i e) \<noteq> None"
    using einvD(4-6) [OF assms(1)] by (simp add: after_fire_views [OF assms(2)])
qed (use einvD(1-3) [OF assms(1)] in \<open>simp_all add: after_fire_views [OF assms(2)]\<close>)

lemma fire_eq:
  assumes "einv e" and i: "i < length (heap e)"
  shows "fire t i e =
    (if resends i e then send_message i (after_fire t i e) else after_fire t i e)"
proof -
  have "midi_message i (after_fire t i e) = send_message i (after_fire t i e)"
    using i einvD(1) [OF assms(1)]
    by (intro midi_message_idle) (simp_all add: after_fire_views [OF i])
  then show ?thesis
    by (auto simp: fire_def after_fire_def resends_def retries_def kind_of_def Let_def
        split: option.splits timeout_kind.splits)
qed

lemma fire_einv:
  assumes "einv e" and "(t, i) \<in> set (timers e)"
  shows "einv (fire t i e)"
proof -
  have i: "i < length (heap e)" using assms einvD(4) by blast
  show ?thesis
    unfolding fire_eq [OF assms(1) i]
    using send_einv [OF after_fire_einv [OF assms(1) i], of i t] fire_no_timer [OF assms]
      after_fire_einv [OF assms(1) i] i
    by (simp add: after_fire_views(5) [OF i])
qed

lemma fire_keeps:
  assumes "einv e" and t: "(t, i) \<in> set (timers e)"
  shows "keeps e (fire t i e)"
proof -
  have i: "i < length (heap e)" using assms einvD(4) by blast
  have l: "i < length (heap (after_fire t i e))" using i by (simp add: after_fire_views(5))
  have ns: "\<not> settled i e" using t by (force simp: settled_def)
  show ?thesis
    unfolding keeps_def fire_eq [OF assms(1) i]
    using ns by (auto simp: send_views [OF l] after_fire_views [OF i] settled_def retries_def
        resends_def split: option.splits timeout_kind.splits)
qed

subsection \<open>Calling a callback\<close>

definition marked :: "nat \<Rightarrow> 'k engine \<Rightarrow> 'k engine" where
  "marked i e = upd_pend i (\<lambda>p. p\<lparr>pm_remove := True\<rparr>) (clear_timer i e)"

lemma marked_views:
  assumes "i < length (heap e)"
  shows "removed j (marked i e) = (j = i \<or> removed j e)"
    and "kind_of j (marked i e) = kind_of j e"
    and "ref_of j (marked i e) = (if j = i \<and> kind_of i e \<noteq> None then None else ref_of j e)"
    and "times_sent j (marked i e) = times_sent j e"
    and "length (heap (marked i e)) = length (heap e)"
    and "set (timers (marked i e)) = {x \<in> set (timers e). kind_of i e = None \<or> Some (fst x) \<noteq> ref_of i e}"
    and "idle (marked i e) = idle e" and "ticks (marked i e) = ticks e"
    and "sysex_hook (marked i e) = sysex_hook e"
  using assms clear_views(5) [of i e]
  by (auto simp: marked_def upd_remove_views upd_pend_views clear_views idle_def)

lemma marked_no_timer:
  assumes "einv e" and i: "i < length (heap e)"
  shows "i \<notin> snd ` set (timers (marked i e))"
proof
  assume "i \<in> snd ` set (timers (marked i e))"
  then obtain t where "(t, i) \<in> set (timers e)" "kind_of i e = None \<or> Some t \<noteq> ref_of i e"
    using marked_views(6) [OF i] by auto
  then show False using einvD(5,6) [OF assms(1)] by auto
qed

lemma marked_einv:
  assumes "einv e" and i: "i < length (heap e)"
  shows "einv (marked i e)"
proof (rule einvI)
  fix t j assume t: "(t, j) \<in> set (timers (marked i e))"
  then have "(t, j) \<in> set (timers e)" by (simp add: marked_views [OF i])
  moreover have "j \<noteq> i" using marked_no_timer [OF assms] t by force
  ultimately show "j < length (heap (marked i e)) \<and> ref_of j (marked i e) = Some t \<and>
      kind_of j (marked i e) \<noteq> None"
    using einvD(4-6) [OF assms(1)] by (simp add: marked_views [OF i])
qed (use einvD(1-3) [OF assms(1)] in \<open>simp_all add: marked_views [OF i]\<close>)

lemma marked_keeps:
  assumes "i < length (heap e)"
  shows "keeps e (marked i e)"
  by (auto simp: keeps_def marked_views [OF assms] settled_def retries_def)

lemma unmark_einv:
  assumes "einv e" and i: "i < length (heap e)"
  shows "einv (upd_pend i (\<lambda>p. p\<lparr>pm_remove := b\<rparr>) e)"
  using einvD [OF assms(1)]
  by (intro einvI) (auto simp: upd_remove_views [OF i] upd_pend_views idle_def)

lemma sends_einv: "einv e \<Longrightarrow> einv (fold new_message outs e)"
  by (induction outs arbitrary: e) (auto intro: new_message_einv)

lemma sends_keeps: "einv e \<Longrightarrow> keeps e (fold new_message outs e)"
proof (induction outs arbitrary: e)
  case (Cons p outs)
  then show ?case
    using keeps_trans [OF new_message_keeps] new_message_einv by fastforce
qed simp

text \<open>
  A call of a callback keeps the invariant; a call of a message that is not settled keeps
  everything else, and settles the message unless it passes the bytes on.
\<close>

lemma keeps_unmark:
  assumes "keeps e e'" and "\<not> settled i e" and "i < length (heap e)"
  shows "keeps e (upd_pend i (\<lambda>p. p\<lparr>pm_remove := b\<rparr>) e')"
proof -
  have i: "i < length (heap e')" using assms(1,3) keepsD(1) by fastforce
  show ?thesis
    using assms(1,2) unfolding keeps_def
    by (auto simp: upd_remove_views [OF i] upd_pend_views settled_def retries_def)
qed

lemma call_hook_inv:
  assumes "einv e" and i: "i < length (heap e)" and "\<not> removed i e"
    and "call_hook react i buf (e, a) = ((e', a'), ret)"
  shows "einv e' \<and> keeps e e' \<and> (ret \<noteq> Passed \<longrightarrow> settled i e')"
proof -
  have m: "einv (marked i e)" "keeps e (marked i e)" "settled i (marked i e)"
    using marked_einv [OF assms(1) i] marked_keeps [OF i] marked_no_timer [OF assms(1) i]
    by (auto simp: settled_def marked_views [OF i])
  have ns: "\<not> settled i e" using assms(3) by (simp add: settled_def)
  show ?thesis
  proof (cases "pm_cb (heap e ! i)")
    case None
    then show ?thesis using assms(4) m by (simp add: call_hook_def Let_def flip: marked_def)
  next
    case (Some k)
    obtain a'' outs r where r: "react k buf a = (a'', outs, r)" by (cases "react k buf a")
    let ?e2 = "fold new_message outs (marked i e)"
    have e': "e' = (if r = Passed then upd_pend i (\<lambda>p. p\<lparr>pm_remove := False\<rparr>) ?e2 else ?e2)" "ret = r"
      using assms(4) Some r by (auto simp: call_hook_def Let_def simp flip: marked_def)
    have 2: "einv ?e2" "keeps e ?e2" "keeps (marked i e) ?e2"
      using sends_einv [OF m(1)] sends_keeps [OF m(1)] keeps_trans [OF m(2)] by auto
    have i2: "i < length (heap ?e2)" using keepsD(1) [OF 2(2)] i by simp
    show ?thesis
    proof (cases "r = Passed")
      case True
      then show ?thesis
        using e' unmark_einv [OF 2(1) i2] keeps_unmark [OF 2(2) ns i] by simp
    next
      case False
      then show ?thesis
        using e' 2 keepsD(2) [OF 2(3)] m(3) i by (simp add: marked_views(5) [OF i])
    qed
  qed
qed

subsection \<open>The loop over the pending requests\<close>

text \<open>
  A list of calls is orderly with respect to an engine before and after them: settled
  messages are not called, and what a callback accepted is called no more and is settled.
\<close>

definition orderly :: "'k engine \<Rightarrow> (nat \<times> cb_return) list \<Rightarrow> 'k engine \<Rightarrow> bool" where
  "orderly e calls e' \<longleftrightarrow>
     (\<forall>(i, r) \<in> set calls. i < length (heap e') \<and> (i < length (heap e) \<longrightarrow> \<not> settled i e)) \<and>
     (\<forall>c1 i r c2. calls = c1 @ (i, r) # c2 \<and> r \<noteq> Passed \<longrightarrow> i \<notin> fst ` set c2 \<and> settled i e')"

lemma orderly_Nil [simp]: "orderly e [] e'"
  by (simp add: orderly_def)

lemma orderlyD:
  "orderly e (c1 @ (i, r) # c2) e' \<Longrightarrow> r \<noteq> Passed \<Longrightarrow> i \<notin> fst ` set c2 \<and> settled i e'"
  unfolding orderly_def by blast

lemma orderly_append:
  assumes c: "orderly e1 c e2" and d: "orderly e2 d e3" and k: "keeps e1 e2" "keeps e2 e3"
  shows "orderly e1 (c @ d) e3"
  unfolding orderly_def
proof (intro conjI allI impI ballI)
  fix x assume x: "x \<in> set (c @ d)"
  obtain i r where [simp]: "x = (i, r)" by (cases x)
  have "\<not> settled i e1" if "i < length (heap e1)" "x \<in> set d"
  proof -
    have "i < length (heap e2)" using that keepsD(1) [OF k(1)] by simp
    then have "\<not> settled i e2" using d that by (auto simp: orderly_def)
    then show ?thesis using keepsD(2) [OF k(1) that(1)] by blast
  qed
  then show "case x of (i, r) \<Rightarrow> i < length (heap e3) \<and> (i < length (heap e1) \<longrightarrow> \<not> settled i e1)"
    using x c d keepsD(1) [OF k(2)] by (auto simp: orderly_def)
next
  fix c1 i r c2
  assume *: "c @ d = c1 @ (i, r) # c2 \<and> r \<noteq> Passed"
  then consider c' where "c = c1 @ (i, r) # c'" "c2 = c' @ d" | d' where "d = d' @ (i, r) # c2"
    by (auto simp: append_eq_append_conv2 append_eq_Cons_conv Cons_eq_append_conv)
  then have "i \<notin> fst ` set c2 \<and> settled i e3"
  proof cases
    case 1
    then have a: "i \<notin> fst ` set c'" "settled i e2" "i < length (heap e2)"
      using * c orderlyD [of e1 c1 i r c' e2] by (auto simp: orderly_def)
    then have "i \<notin> fst ` set d" using d by (auto simp: orderly_def)
    then show ?thesis using 1 a keepsD(2) [OF k(2)] by auto
  next
    case 2
    then show ?thesis using * orderlyD [of e2 d' i r c2 e3] 2 d by blast
  qed
  then show "i \<notin> fst ` set c2" "settled i e3" by blast+
qed

lemma orderly_single:
  assumes "i < length (heap e)" and "\<not> removed i e" and "keeps e e'"
    and "r \<noteq> Passed \<longrightarrow> settled i e'"
  shows "orderly e [(i, r)] e'"
  using assms keepsD(1) [OF assms(3)]
  by (auto simp: orderly_def settled_def Cons_eq_append_conv)

lemma hook_views:
  "heap (e\<lparr>sysex_hook := h\<rparr>) = heap e"
  "settled i (e\<lparr>sysex_hook := h\<rparr>) = settled i e" "retries i (e\<lparr>sysex_hook := h\<rparr>) = retries i e"
  by (simp_all add: settled_def retries_def drop_timer_views)

lemma keeps_hook [simp]:
  "keeps (e\<lparr>sysex_hook := h\<rparr>) e' = keeps e e'" "keeps e (e'\<lparr>sysex_hook := h\<rparr>) = keeps e e'"
  by (simp_all only: keeps_def hook_views drop_timer_views)

lemma orderly_hook [simp]: "orderly (e\<lparr>sysex_hook := h\<rparr>) c e' = orderly e c e'"
  by (simp only: orderly_def hook_views)

lemma hook_loop_inv:
  "hook_loop react fuel n buf (e, a) = Some (b, (e', a'), calls) \<Longrightarrow> einv e \<Longrightarrow>
   einv e' \<and> keeps e e' \<and> orderly e calls e'"
proof (induction fuel arbitrary: n e a b e' a' calls)
  case (Suc fuel)
  let ?i = "sysex_hook e ! n"
  let ?h = "take n (sysex_hook e) @ drop (Suc n) (sysex_hook e)"
  note run = Suc.prems(1)
  consider "length (sysex_hook e) \<le> n"
    | "n < length (sysex_hook e)" "removed ?i e"
    | "n < length (sysex_hook e)" "\<not> removed ?i e" "\<not> answers (heap e ! ?i) buf"
    | "n < length (sysex_hook e)" "\<not> removed ?i e" "answers (heap e ! ?i) buf"
    by (meson not_less)
  then show ?case
  proof cases
    case 1
    then show ?thesis using Suc.prems by simp
  next
    case 2
    have "einv (e\<lparr>sysex_hook := ?h\<rparr>)"
      using einvD [OF Suc.prems(2)] by (intro einvI)
        (auto simp: drop_timer_views idle_def dest: in_set_takeD in_set_dropD)
    from Suc.IH [OF _ this] show ?thesis
      using run 2 by (simp add: removed_def Let_def)
  next
    case 3
    then show ?thesis using Suc.IH [OF _ Suc.prems(2)] run by (simp add: removed_def Let_def)
  next
    case 4
    have i: "?i < length (heap e)" using einvD(3) [OF Suc.prems(2)] 4(1) by simp
    obtain e1 a1 ret where call: "call_hook react ?i buf (e, a) = ((e1, a1), ret)"
      by (metis prod.exhaust)
    note c = call_hook_inv [OF Suc.prems(2) i 4(2) call]
    have one: "orderly e [(?i, ret)] e1" using orderly_single [OF i 4(2)] c by blast
    show ?thesis
    proof (cases "ret = RetFalse")
      case True
      then show ?thesis using run 4 call c one by (simp add: removed_def Let_def)
    next
      case False
      then obtain calls' where
        rest: "hook_loop react fuel (Suc n) buf (e1, a1) = Some (b, (e', a'), calls')" and
        calls: "calls = [(?i, ret)] @ calls'"
        using run 4 call by (auto simp: removed_def Let_def)
      have r: "einv e' \<and> keeps e1 e' \<and> orderly e1 calls' e'" using Suc.IH [OF rest] c by blast
      then show ?thesis
        unfolding calls using orderly_append [OF one] keeps_trans c by blast
    qed
  qed
qed simp

lemma sysex_callback_inv:
  assumes "sysex_callback react process fuel buf (e, a) = Some ((e', a'), calls)" and "einv e"
  shows "einv e' \<and> keeps e e' \<and> orderly e calls e'"
proof (cases "6 < length buf")
  case True
  then obtain b e1 a1 where h: "hook_loop react fuel 0 buf (e, a) = Some (b, (e1, a1), calls)" "e' = e1"
    using assms(1) by (auto simp: sysex_callback_def split: if_splits)
  show ?thesis using hook_loop_inv [OF h(1) assms(2)] h(2) by simp
qed (use assms in \<open>simp add: sysex_callback_def\<close>)

lemma engine_run_inv:
  "engine_run react process s calls s' \<Longrightarrow> einv (fst s) \<Longrightarrow>
   einv (fst s') \<and> keeps (fst s) (fst s') \<and> orderly (fst s) calls (fst s')"
proof (induction rule: engine_run.induct)
  case (receive s cs e a fuel buf s' cs')
  obtain e' a' where s': "s' = (e', a')" by (cases s')
  have r: "einv e' \<and> keeps e e' \<and> orderly e cs' e'"
    using sysex_callback_inv [OF receive.hyps(2) [unfolded s']] receive.IH [OF receive.prems] by simp
  have p: "einv e" "keeps (fst s) e" "orderly (fst s) cs e"
    using receive.IH [OF receive.prems] by simp_all
  then show ?case
    unfolding s' using r keeps_trans [OF p(2)] orderly_append [OF p(3)] by simp
next
  case (timeout s cs e a t i)
  have p: "einv e" "keeps (fst s) e" "orderly (fst s) cs e"
    using timeout.IH [OF timeout.prems] by simp_all
  have k: "einv (fire t i e)" "keeps e (fire t i e)"
    using fire_einv [OF p(1) timeout.hyps(2)] fire_keeps [OF p(1) timeout.hyps(2)] by blast+
  then show ?case
    using orderly_append [OF p(3) orderly_Nil p(2) k(2)] keeps_trans [OF p(2)] by simp
next
  case (client s cs e a p a')
  have q: "einv e" "keeps (fst s) e" "orderly (fst s) cs e"
    using client.IH [OF client.prems] by simp_all
  have k: "einv (new_message p e)" "keeps e (new_message p e)"
    using new_message_einv [OF q(1)] new_message_keeps [OF q(1)] by blast+
  then show ?case
    using orderly_append [OF q(3) orderly_Nil q(2) k(2)] keeps_trans [OF q(2)] by simp
qed simp_all

lemma engine_init_inv [simp]: "einv (engine_init dev)"
  by (simp add: einv_def idle_def engine_init_def)

section \<open>The callback of a data request\<close>

text \<open>
  The callback \<open>dataMessage_request\<close> installs is \<open>dataMessage_parse\<close>; the client keeps what
  is delivered to it.
\<close>

fun data_react :: "config \<Rightarrow> (request_key, dmsg list) react" where
  "data_react cfg k buf a =
     (case dataMessage_parse cfg False buf (Some k) of
        Inr (Deliver dm) \<Rightarrow> (a @ [dm], [], RetOther)
      | Inr Pass \<Rightarrow> (a, [], Passed)
      | _ \<Rightarrow> (a, [], RetFalse))"

definition data_pending :: "message \<Rightarrow> request_key pend" where
  "data_pending r =
     \<lparr>pm_msg = r, pm_cb = Some (key_of r),
      pm_timeout = map_option Retry (m_retry r), pm_ref = None, pm_remove = False\<rparr>"

section \<open>Properties\<close>

text \<open>
  C7: A request is answered at most once, and an answered request is over: once its callback
  has accepted a message (has not passed it on), then whatever messages arrive, timers fire
  and requests are made afterwards, and however often the request had been repeated, the
  callback is not called again and the request is not sent again.
\<close>

theorem request_answered_once:
  assumes "engine_run react process (engine_init dev, a0) (c1 @ (i, r) # c2) (e1, a1)"
    and "r \<noteq> Passed"
    and "engine_run react process (e1, a1) calls (e2, a2)"
  shows "i \<notin> fst ` set (c2 @ calls) \<and> times_sent i e2 = times_sent i e1"
proof -
  have 1: "einv e1" "orderly (engine_init dev) (c1 @ (i, r) # c2) e1"
    using engine_run_inv [OF assms(1)] by simp_all
  have 2: "keeps e1 e2" "orderly e1 calls e2"
    using engine_run_inv [OF assms(3)] 1(1) by simp_all
  have s: "i \<notin> fst ` set c2 \<and> settled i e1" by (rule orderlyD [OF 1(2) assms(2)])
  have l: "i < length (heap e1)" using 1(2) by (auto simp: orderly_def)
  have "i \<notin> fst ` set calls" using 2(2) s l by (auto simp: orderly_def)
  then show ?thesis using s keepsD(2) [OF 2(1) l] by auto
qed

definition sample_request :: message where
  "sample_request = (request_for DATA)\<lparr>m_numLevels := Some (Some 1), m_levels := [Some 1]\<rparr>"

definition sample_reply :: "nat list" where
  "sample_reply = [240, 6, 15, 0, 1, 1, 0, 0, 0, 4, 3, 1, 0, 0, 0, 1, 0, 0, 0, 247]"

lemma sample_reply_parsed:
  "dataMessage_parse cfg False sample_reply (Some (key_of sample_request)) =
     Inr (Deliver \<lparr>dm_raw = sample_reply, dm_data = [52], dm_numLevels = Some 1, dm_levels = [Some 1],
                   dm_path = None\<rparr>)"
  by (simp add: dataMessage_parse_def sample_reply_def sample_request_def key_of_def request_for_def
      read_data_def read_levels_def rd4_def rd2_def rd_def jshl_def push_bit_eq_mult to_int32_small
      count_of_def to_byte_def jeq_def jnth_def Let_def)

lemma sample_run:
  "\<exists>e1 a1. engine_run (data_react cfg) (\<lambda>_ a. a) (engine_init mpxg2_ids, [])
     ([] @ (0, RetOther) # []) (e1, a1)"
proof -
  let ?R = "engine_run (data_react cfg) (\<lambda>_ a. a) (engine_init mpxg2_ids, [])"
  define e where "e = new_message (data_pending sample_request) (engine_init mpxg2_ids)"
  have 1: "?R [] (e, [])" unfolding e_def by (rule client [OF stop])
  have h: "sysex_hook e = [0]" "heap e ! 0 = (data_pending sample_request)\<lparr>pm_ref := Some 0\<rparr>"
    by (simp_all add: e_def new_message_def midi_message_def midioutq_sendone_def send_message_def
        set_timer_def sysex_hook_add_def upd_pend_def engine_init_def data_pending_def
        sample_request_def request_for_def)
  have a: "answers (heap e ! 0) sample_reply"
    by (simp add: h answers_def data_pending_def sample_request_def request_for_def type_defs
        sample_reply_def)
  have l: "0 < length (heap e)"
    by (simp add: e_def new_message_def midi_message_def midioutq_sendone_def send_message_def
        set_timer_def sysex_hook_add_def upd_pend_def engine_init_def Let_def)
  obtain a1 where c: "call_hook (data_react cfg) 0 sample_reply (e, []) = ((marked 0 e, a1), RetOther)"
    by (simp add: call_hook_def h data_pending_def sample_reply_parsed flip: marked_def)
  have s1: "sysex_hook (marked 0 e) = [0]" "removed 0 (marked 0 e)"
    by (simp_all add: marked_views [OF l] h)
  have "sysex_callback (data_react cfg) (\<lambda>_ a. a) 2 sample_reply (e, []) =
      Some ((marked 0 e, a1), [(0, RetOther)])"
    using a s1 by (simp add: sysex_callback_def numeral_2_eq_2 h c data_pending_def removed_def)
      (simp add: sample_reply_def)
  from receive [OF 1 this] show ?thesis by auto
qed

theorem request_answered_once_witness:
  "\<exists>e1 a1. engine_run (data_react sample_config) (\<lambda>_ a. a) (engine_init mpxg2_ids, []) [(0, RetOther)] (e1, a1) \<and>
     (\<forall>calls e2 a2. engine_run (data_react sample_config) (\<lambda>_ a. a) (e1, a1) calls (e2, a2) \<longrightarrow>
        0 \<notin> fst ` set calls \<and> times_sent 0 e2 = times_sent 0 e1)"
proof -
  obtain e1 a1 where r: "engine_run (data_react sample_config) (\<lambda>_ a. a) (engine_init mpxg2_ids, [])
     ([] @ (0, RetOther) # []) (e1, a1)" using sample_run by blast
  show ?thesis
  proof (intro exI conjI allI impI)
    show "engine_run (data_react sample_config) (\<lambda>_ a. a) (engine_init mpxg2_ids, [])
        [(0, RetOther)] (e1, a1)" using r by simp
    fix calls e2 a2
    assume "engine_run (data_react sample_config) (\<lambda>_ a. a) (e1, a1) calls (e2, a2)"
    from request_answered_once [OF r _ this]
    show "0 \<notin> fst ` set calls" "times_sent 0 e2 = times_sent 0 e1" by simp_all
  qed
qed

text \<open>
  C8: A request is repeated at most as often as its retry count says: from the moment it is
  made, in every run, its further transmissions and the retries it has left add up to the
  count it was made with.
\<close>

theorem retransmissions_bounded:
  assumes "engine_run react process (engine_init dev, a0) c1 (e1, a1)"
    and "pm_timeout p = Some (Retry n)"
    and "engine_run react process (new_message p e1, a2) c2 (e3, a3)"
  shows "times_sent (length (heap e1)) e3 + retries (length (heap e1)) e3 =
           times_sent (length (heap e1)) (new_message p e1) + n"
proof -
  let ?i = "length (heap e1)"
  have e1: "einv e1" using engine_run_inv [OF assms(1)] by simp
  let ?ea = "e1\<lparr>heap := heap e1 @ [p\<lparr>pm_ref := None, pm_remove := False\<rparr>]\<rparr>"
  have l: "?i < length (heap ?ea)" by simp
  have k: "kind_of ?i (new_message p e1) = Some (Retry n)"
    unfolding new_message_eq [OF e1] using assms(2)
    by (simp add: send_views [OF l]) (simp add: kind_of_def)
  have "?i < length (heap (new_message p e1))"
    unfolding new_message_eq [OF e1] by (simp add: send_views [OF l])
  moreover have "keeps (new_message p e1) e3"
    using engine_run_inv [OF assms(3)] new_message_einv [OF e1] by simp
  ultimately show ?thesis using keepsD(3) [of _ e3 ?i] k by (simp add: retries_def)
qed

theorem retransmissions_bounded_witness:
  "times_sent 0 (fire 0 0 (new_message (data_pending sample_request) (engine_init mpxg2_ids))) \<le> 3"
proof -
  let ?e = "engine_init mpxg2_ids :: request_key engine"
  let ?p = "data_pending sample_request"
  have r: "engine_run (data_react sample_config) (\<lambda>_ a. a) (?e, []) [] (?e, [])" by (rule stop)
  have n: "pm_timeout ?p = Some (Retry 2)"
    by (simp add: data_pending_def sample_request_def request_for_def)
  have t: "(0, 0) \<in> set (timers (new_message ?p ?e))" and s: "times_sent 0 (new_message ?p ?e) = 1"
    by (simp_all add: new_message_def midi_message_def midioutq_sendone_def send_message_def
        set_timer_def sysex_hook_add_def upd_pend_def engine_init_def data_pending_def
        sample_request_def request_for_def times_sent_def)
  have "engine_run (data_react sample_config) (\<lambda>_ a. a) (new_message ?p ?e, [])
      [] (fire 0 0 (new_message ?p ?e), [])"
    by (rule timeout [OF stop t])
  from retransmissions_bounded [OF r n this] s show ?thesis by (simp add: engine_init_def)
qed



text \<open>
  A message for other levels takes the retry of a waiting request away: when a data
  message arrives while a request for different levels waits for its answer, the request is
  left waiting but its timer is cleared, so that it is never repeated.
\<close>

theorem other_message_ends_retries:
  assumes "einv e" and "sysex_hook e = [i]" and "\<not> removed i e" and "kind_of i e \<noteq> None"
    and "heap e ! i = (data_pending r)\<lparr>pm_timeout := kind_of i e, pm_ref := ref_of i e\<rparr>"
    and "dataMessage_request cfg True (By_levels (length ks) ks) = Inr (Ask r)"
    and "word_levels ls" and "ds \<noteq> []" and "bytes ds" and "length ds < 65536" and "ks \<noteq> ls"
  shows "\<exists>e'. sysex_callback (data_react cfg) process 2
            (request_bytes dev False (data_message path (length ls) ls (enc_bytes ds))) (e, a) =
          Some ((e', process (request_bytes dev False (data_message path (length ls) ls (enc_bytes ds))) a),
            [(i, Passed)]) \<and>
       sysex_hook e' = [i] \<and> \<not> removed i e' \<and> i \<notin> snd ` set (timers e')"
proof -
  let ?buf = "request_bytes dev False (data_message path (length ls) ls (enc_bytes ds))"
  let ?e1 = "upd_pend i (\<lambda>p. p\<lparr>pm_remove := False\<rparr>) (marked i e)"
  have i: "i < length (heap e)" using einvD(3) [OF assms(1)] assms(2) by simp
  have r: "m_numLevels r = Some (Some (int (length ks)))" "m_levels r = ks" "m_type r = REQUEST"
    "m_request_type r = Some DATA"
    using assms(6) by (cases "getLevelName cfg (length ks) ks";
        auto simp: dataMessage_request_def request_for_def)+
  have buf: "6 < length ?buf" "?buf ! 4 = 1"
    unfolding data_message_bytes [OF assms(7,8)]
    by (simp_all add: msg_head_def data_message_def DATA_def)
  have pass: "dataMessage_parse cfg False ?buf (Some (key_of r)) = Inr Pass"
    by (rule dataMessage_passes [OF assms(7-10) refl]) (use r assms(11) in \<open>simp_all add: key_of_def\<close>)
  have cb: "pm_cb (heap e ! i) = Some (key_of r)" "pm_msg (heap e ! i) = r"
    using assms(5) by (simp_all add: data_pending_def)
  have ans: "answers (heap e ! i) ?buf"
    by (simp add: answers_def cb r buf DATA_def)
  have call: "call_hook (data_react cfg) i ?buf (e, a) = ((?e1, a), Passed)"
    by (simp add: call_hook_def cb pass marked_def)
  have i1: "i < length (heap (marked i e))" using i by (simp add: marked_views)
  have e1: "sysex_hook ?e1 = [i]" "\<not> removed i ?e1" "i \<notin> snd ` set (timers ?e1)"
    using marked_no_timer [OF assms(1) i]
    by (simp_all add: upd_pend_views upd_remove_views [OF i1] marked_views [OF i] assms(2))
  have "hook_loop (data_react cfg) 2 0 ?buf (e, a) = Some (False, (?e1, a), [(i, Passed)])"
    using assms(3) ans by (simp add: numeral_2_eq_2 assms(2) removed_def call e1(1))
  then show ?thesis
    using e1 buf by (simp add: sysex_callback_def)
qed

theorem other_message_ends_retries_witness:
  "\<exists>r e'. dataMessage_request sample_config True (By_levels 1 [Some 1]) = Inr (Ask r) \<and>
     sysex_callback (data_react sample_config) (\<lambda>_ a. a) 2
       (request_bytes mpxg2_ids False (data_message None 1 [Some 0] (enc_bytes [5])))
       (new_message (data_pending r) (engine_init mpxg2_ids), []) = Some ((e', []), [(0, Passed)]) \<and>
     sysex_hook e' = [0] \<and> 0 \<notin> snd ` set (timers e')"
proof -
  obtain path where p: "getLevelName sample_config (length [Some 1]) [Some 1] = Inr path"
    by (simp add: getLevelName_def sample_simps child_def jhead_def od_of_def)
  define r where "r = (request_for DATA)\<lparr>m_path := path, m_numLevels := Some (Some 1), m_levels := [Some 1]\<rparr>"
  define e where "e = new_message (data_pending r) (engine_init mpxg2_ids)"
  have req: "dataMessage_request sample_config True (By_levels (length [Some 1]) [Some 1]) = Inr (Ask r)"
    using p by (simp add: dataMessage_request_def r_def)
  have inv: "einv e" unfolding e_def by (rule new_message_einv) simp
  have h: "sysex_hook e = [0]" "heap e ! 0 = (data_pending r)\<lparr>pm_ref := Some 0\<rparr>"
    by (simp_all add: e_def new_message_def midi_message_def midioutq_sendone_def send_message_def
        set_timer_def sysex_hook_add_def upd_pend_def engine_init_def data_pending_def
        r_def request_for_def)
  have k: "\<not> removed 0 e" "kind_of 0 e \<noteq> None" "ref_of 0 e = Some 0"
    by (simp_all add: removed_def kind_of_def ref_of_def h data_pending_def r_def request_for_def)
  have "heap e ! 0 = (data_pending r)\<lparr>pm_timeout := kind_of 0 e, pm_ref := ref_of 0 e\<rparr>"
    by (simp add: kind_of_def ref_of_def h)
  from other_message_ends_retries [OF inv h(1) k(1,2) this req, where ls = "[Some 0]" and ds = "[5]"
      and dev = mpxg2_ids and path = None and process = "\<lambda>_ a. a" and a = "[]"]
  show ?thesis using req unfolding e_def by (auto simp: word_levels_def)
qed

end
