(* ===== verification/EngineEnds.thy ===== *)
theory EngineEnds
  imports Engine
begin

text \<open>
  The loop of \<open>sysex_callback\<close> (\<open>src/mpxg2-dev/lexicon.js\<close>) walks a list that the callbacks it
  calls may lengthen.  It ends when what a callback sends is not itself a request that the same
  message makes send something: the condition, its proof, and that further fuel changes nothing.
\<close>

section \<open>Messages that keep the loop short\<close>

text \<open>A pending request is calm for a message when offering it the message makes it send nothing.\<close>

definition calm :: "('k, 'a) react \<Rightarrow> nat list \<Rightarrow> 'k pend \<Rightarrow> bool" where
  "calm react buf p \<longleftrightarrow>
     \<not> answers p buf \<or> (\<forall>k a. pm_cb p = Some k \<longrightarrow> fst (snd (react k buf a)) = [])"

text \<open>Every callback returns \<open>false\<close>, which ends the loop, or sends calm messages only.\<close>

definition sends_calm :: "('k, 'a) react \<Rightarrow> nat list \<Rightarrow> bool" where
  "sends_calm react buf \<longleftrightarrow>
     (\<forall>k a. case react k buf a of (a', outs, ret) \<Rightarrow> ret = RetFalse \<or> list_all (calm react buf) outs)"

definition same_call :: "'k pend \<Rightarrow> 'k pend \<Rightarrow> bool" where
  "same_call p q \<longleftrightarrow> pm_msg p = pm_msg q \<and> pm_cb p = pm_cb q"

lemma same_call_upd [simp]:
  "same_call (p\<lparr>pm_remove := b\<rparr>) q = same_call p q" "same_call (p\<lparr>pm_ref := r\<rparr>) q = same_call p q"
  "same_call p p"
  by (simp_all add: same_call_def)

lemma calm_same: "same_call p q \<Longrightarrow> calm react buf p = calm react buf q"
  by (simp add: same_call_def calm_def answers_def)

text \<open>A step that changes no message and appends only calm ones to the list.\<close>

definition appends :: "('k, 'a) react \<Rightarrow> nat list \<Rightarrow> 'k engine \<Rightarrow> 'k engine \<Rightarrow> bool" where
  "appends react buf e e' \<longleftrightarrow>
     length (heap e) \<le> length (heap e') \<and>
     (\<forall>i < length (heap e). same_call (heap e' ! i) (heap e ! i)) \<and>
     (\<exists>new. sysex_hook e' = sysex_hook e @ new \<and>
        (\<forall>i \<in> set new. i < length (heap e') \<and> calm react buf (heap e' ! i)))"

lemma appendsI:
  assumes "length (heap e) \<le> length (heap e')"
    and "\<And>i. i < length (heap e) \<Longrightarrow> same_call (heap e' ! i) (heap e ! i)"
    and "sysex_hook e' = sysex_hook e @ new"
    and "\<And>i. i \<in> set new \<Longrightarrow> i < length (heap e') \<and> calm react buf (heap e' ! i)"
  shows "appends react buf e e'"
  using assms unfolding appends_def by blast

lemma appends_refl: "appends react buf e e"
  by (rule appendsI [of _ _ "[]"]) simp_all

lemma appends_trans:
  assumes "appends react buf e1 e2" and "appends react buf e2 e3"
  shows "appends react buf e1 e3"
proof -
  obtain x where x: "sysex_hook e2 = sysex_hook e1 @ x"
    "\<forall>i \<in> set x. i < length (heap e2) \<and> calm react buf (heap e2 ! i)"
    using assms(1) unfolding appends_def by blast
  obtain y where y: "sysex_hook e3 = sysex_hook e2 @ y"
    "\<forall>i \<in> set y. i < length (heap e3) \<and> calm react buf (heap e3 ! i)"
    using assms(2) unfolding appends_def by blast
  have l: "length (heap e1) \<le> length (heap e2)" "length (heap e2) \<le> length (heap e3)"
    and s: "\<And>i. i < length (heap e1) \<Longrightarrow> same_call (heap e2 ! i) (heap e1 ! i)"
      "\<And>i. i < length (heap e2) \<Longrightarrow> same_call (heap e3 ! i) (heap e2 ! i)"
    using assms unfolding appends_def by blast+
  show ?thesis
  proof (rule appendsI)
    show "length (heap e1) \<le> length (heap e3)" using l by simp
    show "same_call (heap e3 ! i) (heap e1 ! i)" if "i < length (heap e1)" for i
      using s(1) [OF that] s(2) [of i] that l by (simp add: same_call_def)
    show "sysex_hook e3 = sysex_hook e1 @ x @ y" using x y by simp
    show "i < length (heap e3) \<and> calm react buf (heap e3 ! i)" if "i \<in> set (x @ y)" for i
      using that x(2) y(2) l calm_same [OF s(2)] by fastforce
  qed
qed

lemma same_call_nth: "same_call v (xs ! i) \<Longrightarrow> same_call (xs[i := v] ! j) (xs ! j)"
  by (cases "i < length xs") (auto simp: nth_list_update list_update_beyond)

lemma appends_upd:
  assumes "\<And>p. same_call (f p) p"
  shows "appends react buf e (upd_pend i f e)"
  by (rule appendsI [of _ _ "[]"]) (use assms in \<open>simp_all add: upd_pend_def same_call_nth\<close>)

lemma appends_marked: "appends react buf e (marked i e)"
proof -
  have "appends react buf e (clear_timer i e)"
    by (rule appendsI [of _ _ "[]"])
      (auto simp: clear_timer_def upd_pend_def same_call_nth)
  moreover have "appends react buf (clear_timer i e) (marked i e)"
    unfolding marked_def by (rule appends_upd) simp
  ultimately show ?thesis by (rule appends_trans)
qed

lemma send_hook:
  "sysex_hook (send_message i e) = sysex_hook e @
     (if \<not> m_raw (pm_msg (heap e ! i)) \<and> pm_cb (heap e ! i) \<noteq> None then [i] else [])"
  "same_call (heap (send_message i e) ! j) (heap e ! j)"
  by (auto simp: send_message_def set_timer_def sysex_hook_add_def upd_pend_def Let_def same_call_nth)

lemma appends_new:
  assumes "einv e" and "calm react buf p"
  shows "appends react buf e (new_message p e)"
proof -
  let ?p = "p\<lparr>pm_ref := None, pm_remove := False\<rparr>" and ?i = "length (heap e)"
  let ?e = "e\<lparr>heap := heap e @ [?p]\<rparr>"
  have c: "calm react buf ?p" using assms(2) by (simp add: calm_def answers_def)
  have h: "same_call (heap (send_message ?i ?e) ! j) (heap ?e ! j)" for j by (rule send_hook(2))
  have l: "length (heap (send_message ?i ?e)) = Suc ?i" using send_views(5) [of ?i ?e] by simp
  show ?thesis
    unfolding new_message_eq [OF assms(1)]
  proof (rule appendsI)
    show "same_call (heap (send_message ?i ?e) ! j) (heap e ! j)" if "j < ?i" for j
      using h [of j] that by (simp add: nth_append)
    let ?new = "if \<not> m_raw (pm_msg p) \<and> pm_cb p \<noteq> None then [?i] else []"
    show "sysex_hook (send_message ?i ?e) = sysex_hook e @ ?new" by (simp add: send_hook(1))
    show "j < length (heap (send_message ?i ?e)) \<and> calm react buf (heap (send_message ?i ?e) ! j)"
      if "j \<in> set ?new" for j
      using that l c h [of ?i] by (auto simp: calm_same split: if_splits)
  qed (use l in simp)
qed

lemma appends_sends:
  "einv e \<Longrightarrow> list_all (calm react buf) outs \<Longrightarrow> appends react buf e (fold new_message outs e)"
proof (induction outs arbitrary: e)
  case (Cons p outs)
  then show ?case
    using appends_trans [OF appends_new] new_message_einv by fastforce
qed (simp add: appends_refl)

lemma appends_call:
  assumes "einv e" and i: "i < length (heap e)" and "sends_calm react buf"
    and "call_hook react i buf (e, a) = ((e', a'), ret)" and "ret \<noteq> RetFalse"
  shows "appends react buf e e'"
proof (cases "pm_cb (heap e ! i)")
  case None
  then show ?thesis
    using assms(4) appends_marked by (auto simp: call_hook_def Let_def simp flip: marked_def)
next
  case (Some k)
  obtain a'' outs r where r: "react k buf a = (a'', outs, r)" by (cases "react k buf a")
  let ?e2 = "fold new_message outs (marked i e)"
  have e': "e' = (if r = Passed then upd_pend i (\<lambda>p. p\<lparr>pm_remove := False\<rparr>) ?e2 else ?e2)" "ret = r"
    using assms(4) Some r by (auto simp: call_hook_def Let_def simp flip: marked_def)
  have "list_all (calm react buf) outs"
    using assms(3) [unfolded sends_calm_def, rule_format, of k a] assms(5) r e'(2) by simp
  then have 2: "appends react buf e ?e2"
    using appends_trans [OF appends_marked appends_sends [OF marked_einv [OF assms(1) i]]] by blast
  then have "appends react buf e (upd_pend i (\<lambda>p. p\<lparr>pm_remove := False\<rparr>) ?e2)"
    by (rule appends_trans) (rule appends_upd, simp)
  then show ?thesis using 2 e'(1) by simp
qed

section \<open>The loop ends\<close>

text \<open>What is left to do from position \<open>n\<close>: the entries that are not calm, and all entries.\<close>

definition restless :: "('k, 'a) react \<Rightarrow> nat list \<Rightarrow> 'k engine \<Rightarrow> nat \<Rightarrow> nat" where
  "restless react buf e n = length (filter (\<lambda>i. \<not> calm react buf (heap e ! i)) (drop n (sysex_hook e)))"

lemma restless_step:
  assumes "n < length (sysex_hook e)"
  shows "restless react buf e n =
    (if calm react buf (heap e ! (sysex_hook e ! n)) then 0 else 1) + restless react buf e (Suc n)"
  by (simp add: restless_def Cons_nth_drop_Suc [OF assms, symmetric])

lemma restless_appends:
  assumes "appends react buf e e'" and "einv e" and "n \<le> length (sysex_hook e)"
  shows "restless react buf e' n = restless react buf e n"
proof -
  obtain new where n: "sysex_hook e' = sysex_hook e @ new"
    "\<forall>i \<in> set new. i < length (heap e') \<and> calm react buf (heap e' ! i)"
    using assms(1) unfolding appends_def by blast
  have "calm react buf (heap e' ! i) = calm react buf (heap e ! i)" if "i \<in> set (drop n (sysex_hook e))" for i
    using assms(1) einvD(3) [OF assms(2)] in_set_dropD [OF that]
    by (intro calm_same) (simp add: appends_def)
  then have "filter (\<lambda>i. \<not> calm react buf (heap e' ! i)) (drop n (sysex_hook e)) =
      filter (\<lambda>i. \<not> calm react buf (heap e ! i)) (drop n (sysex_hook e))"
    by (intro filter_cong) simp_all
  moreover have "filter (\<lambda>i. \<not> calm react buf (heap e' ! i)) new = []" using n(2) by simp
  ultimately show ?thesis using assms(3) by (simp add: restless_def n(1))
qed

text \<open>A call of a calm entry sends nothing.\<close>

lemma call_calm:
  assumes "calm react buf (heap e ! i)" and "answers (heap e ! i) buf"
    and "call_hook react i buf (e, a) = ((e', a'), ret)"
  shows "sysex_hook e' = sysex_hook e"
proof (cases "pm_cb (heap e ! i)")
  case None
  then show ?thesis
    using assms(3) clear_views(10) [of i e] by (auto simp: call_hook_def Let_def upd_pend_views)
next
  case (Some k)
  then have "fst (snd (react k buf a)) = []" using assms(1,2) by (simp add: calm_def)
  then show ?thesis
    using assms(3) Some clear_views(10) [of i e]
    by (auto simp: call_hook_def Let_def upd_pend_views case_prod_beta)
qed

lemma hook_loop_more:
  "hook_loop react fuel n buf s = Some r \<Longrightarrow> fuel \<le> fuel' \<Longrightarrow> hook_loop react fuel' n buf s = Some r"
proof (induction fuel arbitrary: n s r fuel')
  case (Suc fuel)
  obtain f where f: "fuel' = Suc f" "fuel \<le> f" using Suc.prems(2) by (cases fuel') auto
  show ?case
    using Suc.prems(1) Suc.IH [OF _ f(2)] unfolding f(1)
    by (auto simp: Let_def split: if_splits prod.splits)
qed simp

lemma hook_loop_ends:
  assumes "sends_calm react buf"
  shows "einv e \<Longrightarrow> \<exists>fuel r. hook_loop react fuel n buf (e, a) = Some r"
proof (induction "(restless react buf e n, length (sysex_hook e) - n)" arbitrary: e a n
    rule: wf_induct_rule [OF wf_lex_prod [OF wf_less wf_less]])
  case (1 e n a)
  have IH: "\<exists>fuel r. hook_loop react fuel m buf (e', a') = Some r"
    if "einv e'" "restless react buf e' m < restless react buf e n \<or>
      restless react buf e' m = restless react buf e n \<and> length (sysex_hook e') - m < length (sysex_hook e) - n"
    for e' a' m
    using 1(1) [OF _ that(1)] that(2) by auto
  let ?i = "sysex_hook e ! n"
  let ?h = "take n (sysex_hook e) @ drop (Suc n) (sysex_hook e)"
  consider "length (sysex_hook e) \<le> n"
    | "n < length (sysex_hook e)" "removed ?i e"
    | "n < length (sysex_hook e)" "\<not> removed ?i e" "\<not> answers (heap e ! ?i) buf"
    | "n < length (sysex_hook e)" "\<not> removed ?i e" "answers (heap e ! ?i) buf"
    by (meson not_less)
  then show ?case
  proof cases
    case 1
    then have "hook_loop react (Suc 0) n buf (e, a) = Some (False, (e, a), [])" by simp
    then show ?thesis by blast
  next
    case 2
    have "einv (e\<lparr>sysex_hook := ?h\<rparr>)"
      using einvD [OF 1(2)] by (intro einvI)
        (auto simp: drop_timer_views idle_def dest: in_set_takeD in_set_dropD)
    moreover have "restless react buf (e\<lparr>sysex_hook := ?h\<rparr>) n = restless react buf e (Suc n)"
      using 2(1) by (simp add: restless_def)
    ultimately obtain fuel r where "hook_loop react fuel n buf (e\<lparr>sysex_hook := ?h\<rparr>, a) = Some r"
      using IH [of "e\<lparr>sysex_hook := ?h\<rparr>" n a] 2(1) restless_step [OF 2(1), of react buf] by fastforce
    then show ?thesis using 2 by (cases r) (intro exI [of _ "Suc fuel"], auto simp: removed_def Let_def)
  next
    case 3
    obtain fuel r where "hook_loop react fuel (Suc n) buf (e, a) = Some r"
      using IH [OF 1(2), of "Suc n" a] 3(1) restless_step [OF 3(1), of react buf] by fastforce
    then show ?thesis using 3 by (cases r) (intro exI [of _ "Suc fuel"], auto simp: removed_def Let_def)
  next
    case 4
    have i: "?i < length (heap e)" using einvD(3) [OF 1(2)] 4(1) by simp
    obtain e1 a1 ret where call: "call_hook react ?i buf (e, a) = ((e1, a1), ret)"
      by (metis prod.exhaust)
    show ?thesis
    proof (cases "ret = RetFalse")
      case True
      then have "hook_loop react (Suc 0) n buf (e, a) = Some (True, (e1, a1), [(?i, ret)])"
        using 4 call by (simp add: removed_def Let_def)
      then show ?thesis by blast
    next
      case False
      have ap: "appends react buf e e1" by (rule appends_call [OF 1(2) i assms call False])
      have r: "restless react buf e1 (Suc n) = restless react buf e (Suc n)"
        using restless_appends [OF ap 1(2)] 4(1) by simp
      have less: "restless react buf e1 (Suc n) < restless react buf e n \<or>
          restless react buf e1 (Suc n) = restless react buf e n \<and>
          length (sysex_hook e1) - Suc n < length (sysex_hook e) - n"
        using restless_step [OF 4(1), of react buf] r 4(1) call_calm [OF _ 4(3) call] by auto
      have "einv e1" using call_hook_inv [OF 1(2) i 4(2) call] by simp
      then obtain fuel r where "hook_loop react fuel (Suc n) buf (e1, a1) = Some r"
        using IH [OF _ less] by blast
      then show ?thesis
        using 4 call False by (cases r) (intro exI [of _ "Suc fuel"], auto simp: removed_def Let_def)
    qed
  qed
qed

section \<open>Property\<close>

text \<open>
  C16: Handling a received message ends: in every state a run can reach, when each callback stops
  the loop or sends only messages that the same bytes make send nothing, \<open>sysex_callback\<close> returns,
  with one result for all sufficient fuel.
\<close>

theorem received_message_handled:
  assumes "engine_run react process (engine_init dev, a0) calls (e, a)" and "sends_calm react buf"
  shows "\<exists>fuel r. \<forall>fuel' \<ge> fuel. sysex_callback react process fuel' buf (e, a) = Some r"
proof -
  have "einv e" using engine_run_inv [OF assms(1)] by simp
  then obtain fuel r where "hook_loop react fuel 0 buf (e, a) = Some r"
    using hook_loop_ends [OF assms(2)] by blast
  then have more: "hook_loop react fuel' 0 buf (e, a) = hook_loop react fuel 0 buf (e, a)"
    if "fuel \<le> fuel'" for fuel'
    using hook_loop_more that by fastforce
  have "\<exists>r. sysex_callback react process fuel buf (e, a) = Some r"
    using \<open>hook_loop react fuel 0 buf (e, a) = Some r\<close> by (cases r) (simp add: sysex_callback_def)
  then obtain r' where "sysex_callback react process fuel buf (e, a) = Some r'" by blast
  then have "sysex_callback react process fuel' buf (e, a) = Some r'" if "fuel \<le> fuel'" for fuel'
    using more [OF that] by (simp only: sysex_callback_def)
  then show ?thesis by blast
qed

text \<open>The callback of a data request sends nothing itself.\<close>

lemma data_react_calm: "sends_calm (data_react cfg) buf"
  by (auto simp: sends_calm_def split: sum.splits dm_outcome.splits)

theorem received_message_handled_witness:
  "\<exists>fuel r. \<forall>fuel' \<ge> fuel. sysex_callback (data_react sample_config) (\<lambda>_ a. a) fuel' sample_reply
     (new_message (data_pending sample_request) (engine_init mpxg2_ids), []) = Some r"
proof -
  have "engine_run (data_react sample_config) (\<lambda>_ a. a) (engine_init mpxg2_ids, []) []
      (new_message (data_pending sample_request) (engine_init mpxg2_ids), [])"
    by (rule client [OF stop])
  from received_message_handled [OF this data_react_calm] show ?thesis .
qed

end
