(* ===== verification/TreeBuild.thy ===== *)
theory TreeBuild
  imports Requests
begin

text \<open>
  Building the control tree (\<open>controlTree_build\<close>, \<open>controlTree_loop\<close> and \<open>controlTree_add\<close> in
  \<open>src/mpxg2-dev/lexicon.js\<close>): a walk that asks the device for the type of one address after
  the other, descends below control levels and counts through their children, with an
  explicit stack of the highest child numbers.  What the device answers is a parameter:
  \<open>reply\<close> gives the bytes of the object type message for an address, \<open>ask\<close> those of the
  description of a type; a description the configuration holds is not asked for again.
\<close>

section \<open>The walk\<close>

record walk =
  w_numLevels :: nat
  w_levels :: "int list"
  w_stack :: "jnum list"
  w_count :: nat

text \<open>\<open>x < branch.max\<close>, where the maximum may be \<open>undefined\<close>.\<close>

fun below :: "int \<Rightarrow> jnum \<Rightarrow> bool" where
  "below x None = False"
| "below x (Some m) = (x < m)"

text \<open>
  The inner loop: count the last level up, or clear it, leave its control level and go on
  with the one above.  The top of the stack is the head of the list; \<open>None\<close> is the end of
  the walk.
\<close>

fun climb :: "int list \<Rightarrow> jnum list \<Rightarrow> nat \<Rightarrow> (int list \<times> jnum list \<times> nat) option" where
  "climb levels [] n = None"
| "climb levels (m # ms) n =
     (if below (levels ! (n - 1)) m
      then Some (levels[n - 1 := levels ! (n - 1) + 1], m # ms, n)
      else climb (levels[n - 1 := 0]) ms (n - 1))"

definition controlTree_add_callback :: "odesc \<Rightarrow> walk \<Rightarrow> walk option" where
  "controlTree_add_callback od w =
     (let w1 = (if od_name od \<noteq> [] then w\<lparr>w_count := Suc (w_count w)\<rparr> else w)
      in if od_isControlLevel od \<noteq> 0 then
           Some (w1\<lparr>w_stack := jnth (od_maxValue od) 0 # w_stack w1,
                    w_numLevels := Suc (w_numLevels w1)\<rparr>)
         else
           map_option (\<lambda>(ls, ms, n). w1\<lparr>w_levels := ls, w_stack := ms, w_numLevels := n\<rparr>)
             (climb (w_levels w1) (w_stack w1) (w_numLevels w1)))"

definition objectDescription_get ::
  "(jnum \<Rightarrow> nat list) \<Rightarrow> config \<Rightarrow> jnum \<Rightarrow> config \<times> odesc" where
  "objectDescription_get ask cfg ty =
     (case objectDescription cfg ty of
        None \<Rightarrow> objectDescription_parse cfg (ask ty)
      | Some od \<Rightarrow> (cfg, od))"

definition controlTree_add ::
  "(int list \<Rightarrow> nat list) \<Rightarrow> (jnum \<Rightarrow> nat list) \<Rightarrow> config \<Rightarrow> nat \<Rightarrow> int list \<Rightarrow> config \<times> odesc" where
  "controlTree_add reply ask cfg numLevels levels =
     (let (cfg', ty) = objectTypeId_parse cfg numLevels (map Some levels) (reply (take numLevels levels))
      in objectDescription_get ask cfg' ty)"

text \<open>
  One round of \<open>controlTree_loop\<close>; the next one is started by a timer.  The address asked
  about is returned too.
\<close>

definition controlTree_round ::
  "(int list \<Rightarrow> nat list) \<Rightarrow> (jnum \<Rightarrow> nat list) \<Rightarrow> config \<times> walk \<Rightarrow> int list \<times> config \<times> walk option" where
  "controlTree_round reply ask s =
     (let (cfg, w) = s;
          (cfg', od) = controlTree_add reply ask cfg (w_numLevels w) (w_levels w)
      in (take (w_numLevels w) (w_levels w), cfg', controlTree_add_callback od w))"

fun controlTree_loop ::
  "(int list \<Rightarrow> nat list) \<Rightarrow> (jnum \<Rightarrow> nat list) \<Rightarrow> nat \<Rightarrow> config \<Rightarrow> walk option \<Rightarrow>
   int list list \<times> config \<times> walk option" where
  "controlTree_loop reply ask 0 cfg w = ([], cfg, w)"
| "controlTree_loop reply ask (Suc k) cfg None = ([], cfg, None)"
| "controlTree_loop reply ask (Suc k) cfg (Some w) =
     (let (path, cfg', w') = controlTree_round reply ask (cfg, w);
          (paths, cfg'', w'') = controlTree_loop reply ask k cfg' w'
      in (path # paths, cfg'', w''))"

definition controlTree_build :: "sysconf \<Rightarrow> walk" where
  "controlTree_build sc =
     \<lparr>w_numLevels = 0, w_levels = replicate (count_of (sc_numberOfControlLevels sc)) 0,
      w_stack = [], w_count = 0\<rparr>"

section \<open>The device's tree\<close>

datatype dtree = DT (dt_type: int) (dt_kids: "dtree list")

fun kid_paths :: "(dtree \<Rightarrow> int list list) \<Rightarrow> int \<Rightarrow> dtree list \<Rightarrow> int list list" where
  "kid_paths f i [] = []"
| "kid_paths f i (t # ts) = map ((#) i) (f t) @ kid_paths f (i + 1) ts"

lemma kid_paths_cong [fundef_cong]:
  "ts = ts' \<Longrightarrow> (\<And>t. t \<in> set ts' \<Longrightarrow> f t = g t) \<Longrightarrow> kid_paths f i ts = kid_paths g i ts'"
  by (induction ts arbitrary: i ts') auto

text \<open>The addresses of the tree, each node before its children, children in order.\<close>

fun paths :: "dtree \<Rightarrow> int list list" where
  "paths (DT ty kids) = [] # kid_paths paths 0 kids"

fun depth :: "dtree \<Rightarrow> nat" where
  "depth (DT ty kids) = foldr max (map (\<lambda>t. Suc (depth t)) kids) 0"

fun sub :: "dtree \<Rightarrow> int list \<Rightarrow> dtree option" where
  "sub t [] = Some t"
| "sub (DT ty kids) (i # p) =
     (if 0 \<le> i \<and> nat i < length kids then sub (kids ! nat i) p else None)"

text \<open>
  The device answers for this tree: at the address of a node, the type of the node; and the
  description of the type of a node says whether it has children and how many.
\<close>

definition answers_for :: "(int list \<Rightarrow> nat list) \<Rightarrow> dtree \<Rightarrow> bool" where
  "answers_for reply tree \<longleftrightarrow>
     (\<forall>p t. sub tree p = Some t \<longrightarrow> rd4 (reply p) 5 = Some (dt_type t))"

definition describes :: "(jnum \<Rightarrow> odesc) \<Rightarrow> dtree \<Rightarrow> bool" where
  "describes desc t \<longleftrightarrow>
     (if dt_kids t = [] then od_isControlLevel (desc (Some (dt_type t))) = 0
      else od_isControlLevel (desc (Some (dt_type t))) \<noteq> 0 \<and>
           jnth (od_maxValue (desc (Some (dt_type t)))) 0 = Some (int (length (dt_kids t)) - 1))"

section \<open>The walk visits every address once\<close>

text \<open>
  The walk without its counter: levels, stack and number of levels.
\<close>

type_synonym pos = "int list \<times> jnum list \<times> nat"

definition pos_of :: "walk \<Rightarrow> pos" where
  "pos_of w = (w_levels w, w_stack w, w_numLevels w)"

fun next_pos :: "odesc \<Rightarrow> pos \<Rightarrow> pos option" where
  "next_pos od (ls, ms, n) =
     (if od_isControlLevel od \<noteq> 0 then Some (ls, jnth (od_maxValue od) 0 # ms, Suc n)
      else climb ls ms n)"

fun walk_run :: "(int list \<Rightarrow> odesc) \<Rightarrow> nat \<Rightarrow> pos option \<Rightarrow> (nat \<times> int list) list \<times> pos option" where
  "walk_run od_at 0 s = ([], s)"
| "walk_run od_at (Suc k) None = ([], None)"
| "walk_run od_at (Suc k) (Some (ls, ms, n)) =
     (let (vs, s') = walk_run od_at k (next_pos (od_at (take n ls)) (ls, ms, n)) in ((n, ls) # vs, s'))"

lemma walk_run_None [simp]: "walk_run od_at k None = ([], None)"
  by (cases k) simp_all

lemma walk_run_add:
  "walk_run od_at a s = (v, s1) \<Longrightarrow> walk_run od_at b s1 = (v2, s2) \<Longrightarrow>
   walk_run od_at (a + b) s = (v @ v2, s2)"
  by (induction od_at a s arbitrary: v s1 rule: walk_run.induct) (auto split: prod.splits)

lemma next_pos_of: "map_option pos_of (controlTree_add_callback od w) = next_pos od (pos_of w)"
  by (auto simp: controlTree_add_callback_def pos_of_def Let_def option.map_comp comp_def
      case_prod_beta option.map_ident)

text \<open>The description the configuration holds, or the one the device would give.\<close>

definition described :: "(jnum \<Rightarrow> nat list) \<Rightarrow> config \<Rightarrow> jnum \<Rightarrow> odesc" where
  "described ask cfg ty = snd (objectDescription_get ask cfg ty)"

text \<open>The device describes the type it was asked for.\<close>

definition describes_asked :: "(jnum \<Rightarrow> nat list) \<Rightarrow> (int list \<Rightarrow> nat list) \<Rightarrow> bool" where
  "describes_asked ask reply \<longleftrightarrow> (\<forall>p. rd4 (ask (rd4 (reply p) 5)) 5 = rd4 (reply p) 5)"

definition report ::
  "(jnum \<Rightarrow> nat list) \<Rightarrow> (int list \<Rightarrow> nat list) \<Rightarrow> config \<Rightarrow> nat \<times> int list \<Rightarrow> config" where
  "report ask reply c v = fst (controlTree_add reply ask c (fst v) (snd v))"

lemma snd_description_parse: "snd (objectDescription_parse c buf) = snd (objectDescription_parse c' buf)"
  by (simp add: objectDescription_parse_def Let_def split: prod.splits)

lemma fst_description_parse:
  "fst (objectDescription_parse c buf) =
     c\<lparr>objectDescription := (objectDescription c)(rd4 buf 5 \<mapsto> snd (objectDescription_parse c buf))\<rparr>"
  by (simp add: objectDescription_parse_def Let_def split: prod.splits)

lemma description_request_views:
  "controlTree (fst (objectDescription_get ask c ty)) = controlTree c"
  "objectDescription (fst (objectDescription_get ask c ty)) =
     (case objectDescription c ty of
        None \<Rightarrow> (objectDescription c)(rd4 (ask ty) 5 \<mapsto> described ask c ty)
      | Some od \<Rightarrow> objectDescription c)"
  by (simp_all add: described_def objectDescription_get_def fst_description_parse split: option.splits)

lemma described_cong:
  "objectDescription c ty = objectDescription c' ty \<Longrightarrow> described ask c ty = described ask c' ty"
  by (simp add: described_def objectDescription_get_def snd_description_parse [of c _ c'] split: option.splits)

lemma described_tree [simp]: "described ask (c\<lparr>controlTree := t\<rparr>) = described ask c"
  by (rule ext, rule described_cong) simp

lemma report_views:
  "controlTree (report ask reply c (n, ls)) =
     controlTree (fst (objectTypeId_parse c n (map Some ls) (reply (take n ls))))"
  "objectDescription (report ask reply c (n, ls)) =
     (let ty = rd4 (reply (take n ls)) 5
      in case objectDescription c ty of
           None \<Rightarrow> (objectDescription c)(rd4 (ask ty) 5 \<mapsto> described ask c ty)
         | Some od \<Rightarrow> objectDescription c)"
  by (auto simp: report_def controlTree_add_def objectTypeId_parse_def description_request_views Let_def
      split: option.split)

lemma described_report:
  assumes "describes_asked ask reply"
  shows "described ask (report ask reply c v) = described ask c"
proof (rule ext)
  fix ty
  obtain n ls where v: "v = (n, ls)" by (cases v)
  let ?ty = "rd4 (reply (take n ls)) 5"
  have k: "rd4 (ask ?ty) 5 = ?ty" using assms by (simp add: describes_asked_def)
  show "described ask (report ask reply c v) ty = described ask c ty"
  proof (cases "objectDescription c ?ty = None \<and> ty = ?ty")
    case True
    then have "objectDescription (report ask reply c v) ty = Some (described ask c ty)"
      by (simp add: v report_views k Let_def)
    then show ?thesis by (simp add: described_def [of ask "report ask reply c v"] objectDescription_get_def)
  next
    case False
    then have "objectDescription (report ask reply c v) ty = objectDescription c ty"
      by (auto simp: v report_views k Let_def split: option.splits)
    then show ?thesis by (rule described_cong)
  qed
qed

lemma controlTree_round_walk:
  "controlTree_round reply ask (cfg, w) =
     (take (w_numLevels w) (w_levels w), report ask reply cfg (w_numLevels w, w_levels w),
      controlTree_add_callback (described ask cfg (rd4 (reply (take (w_numLevels w) (w_levels w))) 5)) w)"
proof -
  have "snd (objectDescription_get ask (cfg\<lparr>controlTree := t\<rparr>) ty) = described ask cfg ty" for t ty
    using fun_cong [OF described_tree [of ask t cfg]] unfolding described_def .
  then show ?thesis
    by (simp add: controlTree_round_def controlTree_add_def report_def objectTypeId_parse_def Let_def
        case_prod_beta)
qed

lemma loop_walk:
  "describes_asked ask reply \<Longrightarrow> controlTree_loop reply ask k cfg w = (vis, cfg', w') \<Longrightarrow>
   walk_run (\<lambda>p. described ask cfg (rd4 (reply p) 5)) k (map_option pos_of w) = (st, s') \<Longrightarrow>
   vis = map (\<lambda>(n, ls). take n ls) st \<and> map_option pos_of w' = s' \<and> cfg' = foldl (report ask reply) cfg st"
proof (induction k arbitrary: cfg w vis cfg' w' st s')
  case (Suc k)
  show ?case
  proof (cases w)
    case None
    then show ?thesis using Suc.prems by simp
  next
    case (Some w1)
    let ?od = "described ask cfg (rd4 (reply (take (w_numLevels w1) (w_levels w1))) 5)"
    let ?cfg1 = "report ask reply cfg (w_numLevels w1, w_levels w1)"
    obtain vis1 where l: "controlTree_loop reply ask k ?cfg1 (controlTree_add_callback ?od w1) = (vis1, cfg', w')"
      "vis = take (w_numLevels w1) (w_levels w1) # vis1"
      using Suc.prems(2) Some by (auto simp: controlTree_round_walk split: prod.splits)
    obtain st1 where r: "walk_run (\<lambda>p. described ask cfg (rd4 (reply p) 5)) k
        (map_option pos_of (controlTree_add_callback ?od w1)) = (st1, s')"
      "st = (w_numLevels w1, w_levels w1) # st1"
      using Suc.prems(3) Some by (simp add: next_pos_of) (auto simp: pos_of_def split: prod.splits)
    have "vis1 = map (\<lambda>(n, ls). take n ls) st1 \<and> map_option pos_of w' = s' \<and>
        cfg' = foldl (report ask reply) ?cfg1 st1"
      by (rule Suc.IH [OF Suc.prems(1) l(1)]) (use r(1) in \<open>simp add: described_report [OF Suc.prems(1)]\<close>)
    then show ?thesis using l(2) r(2) by simp
  qed
qed simp

definition pad :: "nat \<Rightarrow> int list \<Rightarrow> int list" where
  "pad d p = p @ replicate (d - length p) 0"

lemma take_pad [simp]: "take (length p) (pad d p) = p"
  by (simp add: pad_def)

lemma pad_nth: "pad d (p @ [i]) ! length p = i"
  by (simp add: pad_def nth_append)

lemma pad_upd: "length p < d \<Longrightarrow> (pad d (p @ [i]))[length p := j] = pad d (p @ [j])"
  by (simp add: pad_def list_update_append)

lemma pad_zero: "length p < d \<Longrightarrow> pad d (p @ [0]) = pad d p"
  by (simp add: pad_def) (metis Suc_diff_Suc replicate_Suc)

definition described_at :: "(int list \<Rightarrow> odesc) \<Rightarrow> int list \<Rightarrow> dtree \<Rightarrow> bool" where
  "described_at od_at p t \<longleftrightarrow> (\<forall>q u. sub t q = Some u \<longrightarrow> describes (\<lambda>_. od_at (p @ q)) u)"

lemma described_at_kid:
  assumes "described_at od_at p (DT ty kids)" and "j < length kids"
  shows "described_at od_at (p @ [int j]) (kids ! j)"
  unfolding described_at_def
proof (intro allI impI)
  fix q u assume "sub (kids ! j) q = Some u"
  then have "sub (DT ty kids) (int j # q) = Some u" using assms(2) by simp
  then have "describes (\<lambda>_. od_at (p @ int j # q)) u" using assms(1) unfolding described_at_def by blast
  then show "describes (\<lambda>_. od_at ((p @ [int j]) @ q)) u" by simp
qed

definition visited :: "nat \<Rightarrow> int list \<Rightarrow> int list \<Rightarrow> nat \<times> int list" where
  "visited d p q = (length (p @ q), pad d (p @ q))"

lemma visit_kids:
  assumes "\<And>t j. j < length ts \<Longrightarrow> t = ts ! j \<Longrightarrow>
      walk_run od_at (length (paths t)) (Some (pad d (p @ [i + int j]), Some m # ms, Suc (length p))) =
        (map (visited d (p @ [i + int j])) (paths t),
         climb (pad d (p @ [i + int j])) (Some m # ms) (Suc (length p)))"
    and "ts \<noteq> []" and "m = i + int (length ts) - 1" and "length p < d"
  shows "walk_run od_at (length (kid_paths paths i ts)) (Some (pad d (p @ [i]), Some m # ms, Suc (length p))) =
    (map (visited d p) (kid_paths paths i ts), climb (pad d p) ms (length p))"
  using assms(1-3)
proof (induction ts arbitrary: i)
  case (Cons t ts)
  have first: "walk_run od_at (length (paths t)) (Some (pad d (p @ [i]), Some m # ms, Suc (length p))) =
      (map (visited d (p @ [i])) (paths t), climb (pad d (p @ [i])) (Some m # ms) (Suc (length p)))"
    using Cons.prems(1) [of 0 t] by simp
  have v: "map (visited d (p @ [i])) (paths t) = map (visited d p) (map ((#) i) (paths t))"
    by (simp add: visited_def)
  show ?case
  proof (cases "ts = []")
    case True
    then have "climb (pad d (p @ [i])) (Some m # ms) (Suc (length p)) = climb (pad d p) ms (length p)"
      using Cons.prems(3) assms(4) by (simp add: pad_nth pad_upd pad_zero)
    then show ?thesis using first v True by simp
  next
    case False
    then have m: "i < m" using Cons.prems(3) by (cases ts) auto
    have rest: "walk_run od_at (length (kid_paths paths (i + 1) ts))
        (Some (pad d (p @ [i + 1]), Some m # ms, Suc (length p))) =
      (map (visited d p) (kid_paths paths (i + 1) ts), climb (pad d p) ms (length p))"
    proof (rule Cons.IH)
      fix u j assume "j < length ts" "u = ts ! j"
      then show "walk_run od_at (length (paths u)) (Some (pad d (p @ [i + 1 + int j]), Some m # ms, Suc (length p))) =
        (map (visited d (p @ [i + 1 + int j])) (paths u),
         climb (pad d (p @ [i + 1 + int j])) (Some m # ms) (Suc (length p)))"
        using Cons.prems(1) [of "Suc j" u] by (simp add: ac_simps)
    qed (use False Cons.prems(3) in auto)
    have "climb (pad d (p @ [i])) (Some m # ms) (Suc (length p)) =
        Some (pad d (p @ [i + 1]), Some m # ms, Suc (length p))"
      using m assms(4) by (simp add: pad_nth pad_upd)
    then show ?thesis using walk_run_add [OF first] rest v by simp
  qed
qed simp

lemma depth_kid: "t \<in> set kids \<Longrightarrow> Suc (depth t) \<le> depth (DT ty kids)"
  by (induction kids) (auto simp: le_max_iff_disj)

lemma visit:
  "described_at od_at p t \<Longrightarrow> depth t + length p \<le> d \<Longrightarrow>
   walk_run od_at (length (paths t)) (Some (pad d p, ms, length p)) =
     (map (visited d p) (paths t), climb (pad d p) ms (length p))"
proof (induction t arbitrary: p ms rule: paths.induct)
  case (1 ty kids)
  have "sub (DT ty kids) [] = Some (DT ty kids)" by simp
  then have od: "describes (\<lambda>_. od_at p) (DT ty kids)"
    using 1(2) unfolding described_at_def by fastforce
  show ?case
  proof (cases "kids = []")
    case True
    then show ?thesis using od by (simp add: describes_def visited_def)
  next
    case False
    let ?m = "int (length kids) - 1"
    obtain k where k: "k \<in> set kids" using False by (cases kids) auto
    have len: "length p < d" using depth_kid [OF k, of ty] 1(3) by linarith
    have kids: "walk_run od_at (length (kid_paths paths 0 kids)) (Some (pad d (p @ [0]), Some ?m # ms, Suc (length p))) =
      (map (visited d p) (kid_paths paths 0 kids), climb (pad d p) ms (length p))"
    proof (rule visit_kids [OF _ False _ len])
      fix t j assume j: "j < length kids" and t: "t = kids ! j"
      have "described_at od_at (p @ [int j]) t" using described_at_kid [OF 1(2) j] t by simp
      moreover have "depth t + length (p @ [int j]) \<le> d"
        using depth_kid [of t kids ty] 1(3) j t by simp
      ultimately show "walk_run od_at (length (paths t)) (Some (pad d (p @ [0 + int j]), Some ?m # ms, Suc (length p))) =
        (map (visited d (p @ [0 + int j])) (paths t),
         climb (pad d (p @ [0 + int j])) (Some ?m # ms) (Suc (length p)))"
        using 1(1) [of t "p @ [int j]"] j t by simp
    qed simp
    have "next_pos (od_at (take (length p) (pad d p))) (pad d p, ms, length p) =
        Some (pad d (p @ [0]), Some ?m # ms, Suc (length p))"
      using od False len by (simp add: describes_def pad_zero)
    then show ?thesis using kids by (simp add: visited_def)
  qed
qed

section \<open>What the walk learns\<close>

lemma upd_level_take: "upd_level f t n ls = upd_level f t n (take n ls)"
proof (induction n arbitrary: t ls)
  case (Suc n)
  have "jhead (take (Suc n) ls) = jhead ls" "tl (take (Suc n) ls) = take n (tl ls)"
    by (cases ls; simp add: jhead_def)+
  then show ?case using Suc.IH [of _ "tl ls"] by simp
qed simp

lemma report_visited:
  "controlTree (report ask reply c (visited d [] q)) =
   learn_type (controlTree c) (map Some q) (rd4 (reply q) 5)"
  using upd_level_take [of _ _ "length q" "map Some (pad d q)"]
  by (simp add: report_views visited_def objectTypeId_parse_def learn_type_def Let_def take_map)

lemma reports_visited:
  "controlTree (foldl (report ask reply) c (map (visited d []) qs)) =
   tree_types.reports (controlTree c) (map (\<lambda>q. (map Some q, rd4 (reply q) 5)) qs)"
  by (induction qs arbitrary: c) (simp_all add: report_visited)

lemma kid_paths_member:
  "j < length ts \<Longrightarrow> q \<in> set (f (ts ! j)) \<Longrightarrow> (i + int j) # q \<in> set (kid_paths f i ts)"
proof (induction ts arbitrary: i j)
  case (Cons t ts)
  show ?case
  proof (cases j)
    case (Suc j')
    then have "(i + 1 + int j') # q \<in> set (kid_paths f (i + 1) ts)"
      using Cons.prems by (intro Cons.IH) auto
    then show ?thesis using Suc by (simp add: ac_simps)
  qed (use Cons.prems in auto)
qed simp

lemma sub_in_paths: "sub t q = Some u \<Longrightarrow> q \<in> set (paths t)"
proof (induction t q arbitrary: u rule: sub.induct)
  case (1 t)
  show ?case by (cases t) simp
next
  case (2 ty kids i p)
  then have "0 \<le> i" "nat i < length kids" "p \<in> set (paths (kids ! nat i))"
    by (auto split: if_splits)
  then show ?case using kid_paths_member [of "nat i" kids p paths 0] by simp
qed

lemma reports_all:
  assumes "q \<in> set qs" and "falsy (type_at t (map Some q))" and "rd4 (reply q) 5 = Some ty"
    and "ty \<noteq> 0"
  shows "type_at (tree_types.reports t (map (\<lambda>q. (map Some q, rd4 (reply q) 5)) qs)) (map Some q) =
         Some (Some ty)"
proof -
  obtain ps rs where qs: "qs = ps @ q # rs" "q \<notin> set ps" using assms(1) by (auto dest: split_list_first)
  have "map Some q \<notin> fst ` set (map (\<lambda>q. (map Some q, rd4 (reply q) 5)) ps)"
    using qs(2) by (auto simp: image_image dest: map_injective [OF _ inj_Some])
  from tree_types.reports_first [OF assms(2) this, of "Some ty"] assms(3,4) show ?thesis
    by (simp add: qs(1) falsy_def)
qed

text \<open>Every type reported has its description afterwards.\<close>

lemma report_keeps_od:
  "objectDescription c ty = Some od \<Longrightarrow> objectDescription (report ask reply c v) ty = Some od \<or>
     rd4 (ask (rd4 (reply (take (fst v) (snd v))) 5)) 5 = ty \<and>
     objectDescription c (rd4 (reply (take (fst v) (snd v))) 5) = None"
  by (cases v) (auto simp: report_views Let_def split: option.split)

lemma reports_describe:
  assumes "describes_asked ask reply" and "q \<in> set qs"
  shows "objectDescription (foldl (report ask reply) c (map (visited d []) qs)) (rd4 (reply q) 5) =
     Some (described ask c (rd4 (reply q) 5))"
proof -
  let ?ty = "rd4 (reply q) 5"
  have known: "objectDescription (foldl (report ask reply) c vs) ?ty = Some od"
    if "objectDescription c ?ty = Some od" for c vs od
    using that
  proof (induction vs arbitrary: c)
    case (Cons v vs)
    then show ?case
      using report_keeps_od [of c ?ty od ask reply v] assms(1) by (auto simp: describes_asked_def)
  qed simp
  show ?thesis
    using assms(2)
  proof (induction qs arbitrary: c)
    case (Cons p qs)
    let ?c = "report ask reply c (visited d [] p)"
    show ?case
    proof (cases "q \<in> set qs")
      case True
      then show ?thesis using Cons.IH [of ?c] described_report [OF assms(1)] by simp
    next
      case False
      then have "p = q" using Cons.prems by simp
      then have "objectDescription ?c ?ty = Some (described ask c ?ty)"
        using assms(1) by (auto simp: visited_def report_views describes_asked_def Let_def described_def
          objectDescription_get_def split: option.split)
      then show ?thesis using known by simp
    qed
  qed simp
qed

section \<open>Properties\<close>

definition sample_device :: dtree where
  "sample_device = DT 544 [DT 540 [DT 12 [], DT 13 []], DT 541 [DT 14 []]]"

definition sample_reply_for :: "int list \<Rightarrow> nat list" where
  "sample_reply_for p = [240, 6, 15, 0, 3] @
     nibblize16 (case sub sample_device p of None \<Rightarrow> None | Some u \<Rightarrow> Some (dt_type u)) @ [247]"

definition sample_od_bytes :: "jnum \<Rightarrow> nat list" where
  "sample_od_bytes ty =
     (let v = (case ty of None \<Rightarrow> 0 | Some v \<Rightarrow> v);
          (name, flags, mx) = (if v = 544 then (S ''MPX G2'', 4, 1) else if v = 540 then (S ''Program'', 4, 1)
            else if v = 541 then (S ''System'', 4, 0) else (S ''Leaf'', 1, 10))
      in od_frame [240, 6, 15, 0, 4] v name 1 flags 65535 [(0, mx, 1)])"

definition sample_sysconf :: sysconf where
  "sample_sysconf =
     \<lparr>sc_majorVersion = Some 1, sc_minorVersion = Some 10, sc_timeString = [], sc_dateString = [],
      sc_numberOfObjectTypes = Some 545, sc_reserved = Some 0, sc_numberOfControlLevels = Some 5\<rparr>"

fun nodes :: "dtree \<Rightarrow> dtree list" where
  "nodes (DT ty kids) = DT ty kids # concat (map nodes kids)"

lemma sub_nodes: "sub t q = Some u \<Longrightarrow> u \<in> set (nodes t)"
proof (induction t q arbitrary: u rule: sub.induct)
  case (1 t)
  then show ?case by (cases t) auto
next
  case (2 ty kids i p)
  then show ?case by (auto split: if_splits intro!: bexI [of _ "kids ! nat i"])
qed

lemma tree_built:
  assumes "answers_for reply tree" and "describes_asked ask reply"
    and "\<And>q u. sub tree q = Some u \<Longrightarrow> describes (described ask cfg) u"
    and "depth tree \<le> count_of (sc_numberOfControlLevels sc)"
  shows "\<exists>cfg'. controlTree_loop reply ask (length (paths tree)) cfg (Some (controlTree_build sc)) =
            (paths tree, cfg', None) \<and>
          (\<forall>q u. sub tree q = Some u \<longrightarrow>
             objectDescription cfg' (Some (dt_type u)) = Some (described ask cfg (Some (dt_type u))) \<and>
             (dt_type u \<noteq> 0 \<and> falsy (type_at (controlTree cfg) (map Some q)) \<longrightarrow>
                type_at (controlTree cfg') (map Some q) = Some (Some (dt_type u))))"
proof -
  let ?k = "length (paths tree)" and ?d = "count_of (sc_numberOfControlLevels sc)"
  let ?od = "\<lambda>p. described ask cfg (rd4 (reply p) 5)"
  obtain vis cfg' w' where l: "controlTree_loop reply ask ?k cfg (Some (controlTree_build sc)) = (vis, cfg', w')"
    by (metis prod.exhaust)
  have ty: "rd4 (reply q) 5 = Some (dt_type u)" if "sub tree q = Some u" for q u
    using assms(1) that unfolding answers_for_def by blast
  have "described_at ?od [] tree"
    using assms(3) ty by (fastforce simp: described_at_def describes_def)
  from visit [OF this, of ?d "[]"] assms(4)
  have "walk_run ?od ?k (Some (pad ?d [], [], 0)) = (map (visited ?d []) (paths tree), None)"
    by simp
  then have "walk_run ?od ?k (map_option pos_of (Some (controlTree_build sc))) =
      (map (visited ?d []) (paths tree), None)"
    by (simp add: pos_of_def controlTree_build_def pad_def)
  note r = loop_walk [OF assms(2) l this]
  have "vis = paths tree" using r by (simp add: visited_def comp_def)
  moreover have "w' = None" using r by simp
  moreover have "type_at (controlTree cfg') (map Some q) = Some (Some (dt_type u))"
    if "sub tree q = Some u" "dt_type u \<noteq> 0" "falsy (type_at (controlTree cfg) (map Some q))" for q u
    using r reports_all [where reply = reply, OF sub_in_paths [OF that(1)] that(3) ty [OF that(1)] that(2)]
    by (simp add: reports_visited)
  moreover have "objectDescription cfg' (Some (dt_type u)) = Some (described ask cfg (Some (dt_type u)))"
    if "sub tree q = Some u" for q u
    using r reports_describe [OF assms(2), of q "paths tree" cfg ?d] sub_in_paths [OF that] ty [OF that] by simp
  ultimately show ?thesis using l by blast
qed

lemma loop_keeps_od:
  "describes_asked ask reply \<Longrightarrow> controlTree_loop reply ask k cfg w = (vis, cfg', w') \<Longrightarrow>
   objectDescription cfg ty = Some od \<Longrightarrow> objectDescription cfg' ty = Some od"
proof (induction k arbitrary: cfg w vis)
  case (Suc k)
  show ?case
  proof (cases w)
    case (Some w1)
    let ?v = "(w_numLevels w1, w_levels w1)"
    have "objectDescription (report ask reply cfg ?v) ty = Some od"
      using report_keeps_od [OF Suc.prems(3), of ask reply ?v] Suc.prems(1,3) by (auto simp: describes_asked_def)
    then show ?thesis
      using Suc.IH [OF Suc.prems(1)] Suc.prems(2) Some by (auto simp: controlTree_round_walk split: prod.splits)
  qed (use Suc.prems in simp)
qed simp


lemma sample_od:
  "0 \<le> v \<Longrightarrow> v < 65536 \<Longrightarrow> rd4 (sample_od_bytes (Some v)) 5 = Some v"
  "u \<in> set (nodes sample_device) \<Longrightarrow>
     describes (\<lambda>ty. snd (objectDescription_parse c (sample_od_bytes ty))) u"
proof -
  have frame: "rd4 (od_frame [240, 6, 15, 0, 4] ty name sz flags opt limits) 5 = Some (ty mod 65536)"
    for ty name sz flags opt limits
    unfolding od_frame_def by (rule word_at [OF refl]) simp
  show "rd4 (sample_od_bytes (Some v)) 5 = Some v" if "0 \<le> v" "v < 65536"
    using that by (simp add: sample_od_bytes_def frame)
  show "describes (\<lambda>ty. snd (objectDescription_parse c (sample_od_bytes ty))) u"
    if "u \<in> set (nodes sample_device)"
    using that by (auto simp: sample_device_def describes_def sample_od_bytes_def od_args_ok_def in_word_def
      bytes_def objectDescription_parse_frame learned_od_def limit_ok_def jnth_def js_eval)
qed

lemma sample_replies:
  "rd4 (sample_reply_for p) 5 =
     Some ((case sub sample_device p of None \<Rightarrow> 0 | Some t \<Rightarrow> dt_type t) mod 65536)"
  by (subst word_at [of _ "[240, 6, 15, 0, 3]"
        "case sub sample_device p of None \<Rightarrow> 0 | Some t \<Rightarrow> dt_type t" "[247]"])
    (simp_all add: sample_reply_for_def nibblize16_def nibble_def jshr_def jand_def to_int32_small split: option.split)

lemma sample_answers:
  "answers_for sample_reply_for sample_device"
  "describes_asked sample_od_bytes sample_reply_for"
  "sub sample_device q = Some u \<Longrightarrow>
     describes (described sample_od_bytes \<lparr>objectDescription = \<lambda>_. None, controlTree = empty_node\<rparr>) u"
proof -
  have "dt_type t mod 65536 = dt_type t" if "sub sample_device p = Some t" for p t
    using sub_nodes [OF that] by (auto simp: sample_device_def)
  then show "answers_for sample_reply_for sample_device" by (simp add: answers_for_def sample_replies)
  show "describes_asked sample_od_bytes sample_reply_for"
    by (simp add: describes_asked_def sample_replies sample_od)
  let ?cfg = "\<lparr>objectDescription = \<lambda>_. None, controlTree = empty_node\<rparr>"
  show "describes (described sample_od_bytes ?cfg) u" if "sub sample_device q = Some u"
    using sample_od(2) [OF sub_nodes [OF that], of ?cfg] by (simp add: described_def [abs_def] objectDescription_get_def)
qed


end
