(* ===== verification/ParamValue.thy ===== *)
theory ParamValue
  imports Requests
begin

text \<open>
  The value of a parameter between the device and the user: \<open>getObjectValue\<close> in
  \<open>src/mpxg2-dev/lexicon.js\<close> reads the bytes of a data message as a value, a unit and an
  option, and the socket handler \<open>dataMessage\<close> in \<open>src/mpxg2-dev/main.js\<close> turns what the
  user enters (a number, \<open>value,option\<close> or a text) into the bytes to send.  The table
  \<open>displayUnitLabel\<close>, which is in \<open>Labels\<close>, and the decoding of text bytes are parameters.
\<close>

section \<open>From bytes to a value\<close>

datatype label = Text jstring | Choices "jstring list"

datatype oval = Num jnum | Str jstring

record objval =
  ov_val :: oval
  ov_unit :: jnum
  ov_optionValue :: jnum
  ov_optionLabel :: "label option"
  ov_optionUnitLabel :: "label option"
  ov_unitLabel :: "label option"
  ov_twoValues :: bool

record labels =
  unit_label :: "jnum \<Rightarrow> label option"
  utf8 :: "nat list \<Rightarrow> jstring"

definition jidx :: "jnum list \<Rightarrow> jnum \<Rightarrow> jnum" where
  "jidx ls i = (case i of None \<Rightarrow> None | Some v \<Rightarrow> if 0 \<le> v then jnth ls (nat v) else None)"

definition lo_hi :: "nat list \<Rightarrow> jnum" where
  "lo_hi v = jadd (rd v 0) (Some (jshl (rd v 1) 8))"

definition last_byte :: "nat list \<Rightarrow> jnum" where
  "last_byte v = (if v = [] then None else rd v (length v - 1))"

definition truthy :: "jnum \<Rightarrow> bool" where
  "truthy x \<longleftrightarrow> x \<noteq> None \<and> x \<noteq> Some 0"

text \<open>
  The last step: a unit with bit 15 set makes the value signed, at the size of the object.
\<close>

definition signed_val :: "odesc \<Rightarrow> jnum \<Rightarrow> oval \<Rightarrow> oval" where
  "signed_val od unit val =
     (case val of
        Str s \<Rightarrow> Str s
      | Num v \<Rightarrow>
          if jand (jidx (od_displayUnits od) unit) 0x8000 \<noteq> 0 then
            (if od_dataSize od = Some 1 \<and> jand v 0x80 \<noteq> 0 then Num (map_option (\<lambda>x. - (256 - x)) v)
             else if od_dataSize od = Some 2 \<and> jand v 0x8000 \<noteq> 0
               then Num (map_option (\<lambda>x. - (65536 - x)) v)
             else Num v)
          else Num v)"

definition unit_of :: "labels \<Rightarrow> odesc \<Rightarrow> jnum \<Rightarrow> label option" where
  "unit_of lb od unit = unit_label lb (jidx (od_displayUnits od) unit)"

definition plain_val :: "oval \<Rightarrow> objval" where
  "plain_val v =
     \<lparr>ov_val = v, ov_unit = Some 0, ov_optionValue = Some 0, ov_optionLabel = None,
      ov_optionUnitLabel = None, ov_unitLabel = None, ov_twoValues = False\<rparr>"

text \<open>The switch over the option types; the option's own description is \<open>ood\<close>.\<close>

definition option_val :: "labels \<Rightarrow> odesc \<Rightarrow> odesc \<Rightarrow> nat list \<Rightarrow> int \<Rightarrow> objval option" where
  "option_val lb od ood value ty =
     (let olabel = unit_label lb (jnth (od_displayUnits ood) 0);
          opt = last_byte value
      in
      if ty = 0x12c then
        Some ((if od_dataSize od = Some 2
               then (plain_val (Num (lo_hi value)))\<lparr>ov_optionValue := rd value 2\<rparr>
               else (plain_val (Num (rd value 0)))\<lparr>ov_optionValue := rd value 1\<rparr>)
              \<lparr>ov_unitLabel := unit_of lb od (Some 0), ov_optionUnitLabel := olabel\<rparr>)
      else if ty = 0x12d \<or> ty = 0x12e then
        Some ((plain_val (Num (rd value 0)))
              \<lparr>ov_optionValue := rd value 1,
               ov_unitLabel := unit_of lb od (Some 0), ov_optionUnitLabel := olabel\<rparr>)
      else if ty = 0x13a then
        Some ((plain_val (Num (if opt = Some 1 then Some 0 else lo_hi value)))
              \<lparr>ov_unit := opt, ov_optionValue := opt, ov_unitLabel := unit_of lb od opt,
               ov_optionUnitLabel := olabel, ov_twoValues := (opt = Some 1)\<rparr>)
      else if ty = 0x12f \<or> ty = 0x130 \<or> ty = 0x131 then
        Some ((plain_val (Num (if truthy opt then Some 0 else lo_hi value)))
              \<lparr>ov_unit := opt, ov_optionValue := opt, ov_unitLabel := unit_of lb od opt,
               ov_optionLabel := olabel, ov_twoValues := truthy opt\<rparr>)
      else if ty = 0x133 \<or> ty = 0x134 then
        Some ((plain_val (Num (rd value 0)))
              \<lparr>ov_optionValue := rd value 1, ov_optionLabel := olabel,
               ov_unitLabel := unit_of lb od (Some 0)\<rparr>)
      else if ty = 0x132 \<or> ty = 0x136 then
        Some ((plain_val (Num (if opt = Some 1 then Some 0 else lo_hi value)))
              \<lparr>ov_unit := opt, ov_optionValue := opt, ov_unitLabel := unit_of lb od opt,
               ov_optionLabel := olabel, ov_twoValues := (opt = Some 1)\<rparr>)
      else if ty = 0x139 then
        Some ((plain_val (Num (rd value 0)))
              \<lparr>ov_optionValue := jadd (rd value 1) (Some (- 1)), ov_optionLabel := olabel\<rparr>)
      else if ty = 0x13b then
        (let u = (case rd value 0 of None \<Rightarrow> Some 0 | Some v \<Rightarrow> if v > 100 then Some 1 else Some 0)
         in Some ((plain_val (Num (rd value 0)))
              \<lparr>ov_unit := u, ov_optionValue := u, ov_optionLabel := olabel,
               ov_unitLabel := unit_of lb od u\<rparr>))
      else None)"

text \<open>
  A value shorter than the object's size makes the code call \<open>buffer.concat\<close>, which the
  module \<open>buffer\<close> does not export; an unknown option type ends the program.
\<close>

definition getObjectValue :: "labels \<Rightarrow> config \<Rightarrow> odesc \<Rightarrow> nat list \<Rightarrow> objval res" where
  "getObjectValue lb cfg od value =
     (if (case od_dataSize od of None \<Rightarrow> False | Some n \<Rightarrow> int (length value) < n) then Inl TypeError
      else if od_optionType od \<noteq> Some 0xFFFF then
        (case od_optionType od of
           None \<Rightarrow> Inl Exit
         | Some ty \<Rightarrow>
             if ty \<in> {0x12c, 0x12d, 0x12e, 0x13a, 0x12f, 0x130, 0x131, 0x133, 0x134, 0x132, 0x136, 0x139, 0x13b}
             then
               (case objectDescription cfg (Some ty) of
                  None \<Rightarrow> Inl TypeError
                | Some ood \<Rightarrow>
                    (case option_val lb od ood value ty of
                       None \<Rightarrow> Inl Exit
                     | Some ov \<Rightarrow> Inr (ov\<lparr>ov_val := signed_val od (ov_unit ov) (ov_val ov)\<rparr>)))
             else Inl Exit)
      else if jnth (od_displayUnits od) 0 = Some 0x30 then
        Inr (plain_val (Str (if rd value 0 = Some 0 then [] else utf8 lb value)))
      else
        Inr ((plain_val (signed_val od (Some 0) (Num (lo_hi value))))
             \<lparr>ov_unitLabel := unit_of lb od (Some 0)\<rparr>))"

section \<open>From the user's entry to bytes\<close>

text \<open>
  The test \<open>/^[\-0-9]+,[0-9,]+$/\<close> and the pieces between the commas.
\<close>

definition is_pair :: "jstring \<Rightarrow> bool" where
  "is_pair s \<longleftrightarrow>
     (let a = takeWhile (\<lambda>c. c = 45 \<or> (48 \<le> c \<and> c \<le> 57)) s; b = drop (length a) s
      in a \<noteq> [] \<and> b \<noteq> [] \<and> hd b = 44 \<and> tl b \<noteq> [] \<and>
         list_all (\<lambda>c. c = 44 \<or> (48 \<le> c \<and> c \<le> 57)) (tl b))"

text \<open>
  A value of another size stays the string \<open>v,o\<close>; appending to a string leaves the number
  that \<open>dataMessage\<close> parses at its start.
\<close>

record entry =
  en_arg :: dm_arg
  en_script :: "jstring option"

definition mix_fix :: "jnum \<Rightarrow> jnum \<Rightarrow> jnum" where
  "mix_fix v o1 =
     (if o1 = Some 1 \<and> (case v of None \<Rightarrow> False | Some x \<Rightarrow> 0 \<le> x) then Some (- 97)
      else if o1 = Some 0 \<and> (case v of None \<Rightarrow> False | Some x \<Rightarrow> x < 0) then Some 100
      else v)"

definition show_num :: "jnum \<Rightarrow> jstring" where
  "show_num = num_to_string 10"

definition param_update_script :: "jstring \<Rightarrow> int \<Rightarrow> jstring \<Rightarrow> jstring" where
  "param_update_script L ty v =
     S ''param_update('' @ [39] @ L @ [39] @ S '','' @ int_to_string 10 ty @ S '','' @ v @ S '');''"

fun append_option :: "dm_arg \<Rightarrow> jnum \<Rightarrow> dm_arg" where
  "append_option (Nibbles ns) v = Nibbles (ns @ nibblize_num v)"
| "append_option (Scalar s) v = Scalar s"
| "append_option (Number n) v = Number n"

definition pair_entry :: "config \<Rightarrow> odesc \<Rightarrow> jstring \<Rightarrow> jstring \<Rightarrow> entry res" where
  "pair_entry cfg od L data =
     (let raw = split_on 44 data;
          v0 = parse_int None (hd raw);
          o1 = parse_int None (raw ! 1)
      in case od_optionType od of
           None \<Rightarrow> Inl Exit
         | Some ty \<Rightarrow>
             let v = (if ty = 0x13b then mix_fix v0 o1 else v0);
                 lst = (if length raw = 2 then show_num o1 else last raw)
             in
             if ty \<notin> {0x13b, 0x12f, 0x130, 0x131, 0x132, 0x133, 0x135, 0x136, 0x12c, 0x12d, 0x12e,
                       0x134, 0x139, 0x13a, 0xffff}
             then Inl Exit
             else
               let script = (if ty \<in> {0x13b, 0x12f, 0x130, 0x131, 0x132, 0x133, 0x135, 0x136}
                             then Some (param_update_script L ty lst) else None);
                   arg = (if od_dataSize od = Some 1 then Nibbles (nibblize_num v)
                          else if od_dataSize od = Some 2 then Nibbles (nibblize16 v)
                          else Scalar data)
               in if ty = 0xffff then Inr \<lparr>en_arg = arg, en_script = script\<rparr>
                  else
                    (case objectDescription cfg (Some ty) of
                       None \<Rightarrow> Inl TypeError
                     | Some ood \<Rightarrow>
                         if truthy (od_dataSize ood) then
                           (let o2 = (if od_objectType ood = Some 0x139 then jadd o1 (Some 1) else o1)
                            in Inr \<lparr>en_arg = append_option arg o2, en_script = script\<rparr>)
                         else Inr \<lparr>en_arg = arg, en_script = script\<rparr>))"

definition fit_text :: "nat \<Rightarrow> jstring \<Rightarrow> jstring" where
  "fit_text n s = (if length s > n then take n s else s @ replicate (n - length s) 0x20)"

definition param_entry :: "config \<Rightarrow> odesc \<Rightarrow> jstring \<Rightarrow> jstring \<Rightarrow> entry res" where
  "param_entry cfg od L data =
     (if is_pair data then pair_entry cfg od L data
      else if jnth (od_displayUnits od) 0 = Some 0x30 then
        Inr \<lparr>en_arg = Nibbles (nibblize (map (\<lambda>c. Some (int c)) (fit_text (count_of (od_dataSize od)) data))),
             en_script = None\<rparr>
      else Inr \<lparr>en_arg = Number (parse_int None data), en_script = None\<rparr>)"

section \<open>Entries are read back\<close>

lemma parse_int_int: "parse_int None (int_to_string 10 v) = Some v"
proof (cases "0 \<le> v")
  case True
  then show ?thesis by (rule parse_int_to_string)
next
  case False
  let ?ds = "digits_of 10 (nat (- v))"
  have p: "parse_int None (int_to_string 10 (- v)) = Some (- v)"
    using False by (intro parse_int_to_string) simp
  obtain d ds' where d: "?ds = d # ds'" by (cases ?ds) (auto simp: digits_of_ne)
  have "is_digit 10 d" using digits_of_digits [of 10 d "nat (- v)"] d by simp
  note n = is_digit_not_sign [OF this]
  show ?thesis
    using p False n by (auto simp: parse_int_def int_to_string_def d Let_def is_ws_def split: if_splits)
qed

lemma int_chars: "c \<in> set (int_to_string 10 v) \<Longrightarrow> c = 45 \<or> (48 \<le> c \<and> c \<le> 57)"
  using digits_of_digits [of 10 c] by (auto simp: int_to_string_def is_digit_10 split: if_splits)

lemma nat_chars: "c \<in> set (int_to_string 10 (int n)) \<Longrightarrow> 48 \<le> c \<and> c \<le> 57"
  using digits_of_digits [of 10 c] by (auto simp: int_to_string_def is_digit_10)

lemma int_string_ne: "int_to_string 10 v \<noteq> []"
  by (simp add: int_to_string_def digits_of_ne)

definition pair_text :: "int \<Rightarrow> nat \<Rightarrow> jstring" where
  "pair_text v o1 = int_to_string 10 v @ 44 # int_to_string 10 (int o1)"

lemma pair_text_is_pair: "is_pair (pair_text v o1)"
proof -
  have t: "takeWhile (\<lambda>c. c = 45 \<or> (48 \<le> c \<and> c \<le> 57)) (pair_text v o1) = int_to_string 10 v"
    unfolding pair_text_def using int_chars [of _ v] by (subst takeWhile_append2) auto
  show ?thesis
    unfolding is_pair_def t Let_def
    using nat_chars [of _ o1] by (auto simp: pair_text_def int_string_ne list_all_iff)
qed

lemma split_pair_text: "split_on 44 (pair_text v o1) = [int_to_string 10 v, int_to_string 10 (int o1)]"
proof -
  have "44 \<notin> set (int_to_string 10 v)" using int_chars [of 44 v] by auto
  moreover have "44 \<notin> set (int_to_string 10 (int o1))" using nat_chars [of 44 o1] by auto
  ultimately show ?thesis by (simp add: pair_text_def split_on_append split_on_single)
qed

definition value_bytes :: "int \<Rightarrow> int \<Rightarrow> nat list" where
  "value_bytes sz v =
     (if sz = 2 then [nat (v mod 256), nat (v div 256 mod 256)] else [nat (v mod 256)])"

definition is_signed :: "odesc \<Rightarrow> bool" where
  "is_signed od \<longleftrightarrow> jand (jnth (od_displayUnits od) 0) 0x8000 \<noteq> 0"

definition fits :: "odesc \<Rightarrow> int \<Rightarrow> int \<Rightarrow> bool" where
  "fits od sz v \<longleftrightarrow>
     (if is_signed od then - (128 * (if sz = 2 then 256 else 1)) \<le> v \<and> v < 128 * (if sz = 2 then 256 else 1)
      else 0 \<le> v \<and> v < 256 * (if sz = 2 then 256 else 1))"

text \<open>
  The option types and the size of the values the code reads for them; 0x135 is left out, \<open>getObjectValue\<close> ends
  the program for it.  For some types the option chooses the unit, and for some of these options the two bytes of
  the value are two numbers.
\<close>

definition option_size :: "int \<Rightarrow> int \<Rightarrow> bool" where
  "option_size ty sz \<longleftrightarrow>
     ty = 0x12c \<and> (sz = 1 \<or> sz = 2) \<or>
     ty \<in> {0x12d, 0x12e, 0x133, 0x134, 0x139, 0x13b} \<and> sz = 1 \<or>
     ty \<in> {0x12f, 0x130, 0x131, 0x132, 0x136, 0x13a} \<and> sz = 2"

definition unit_index :: "int \<Rightarrow> nat \<Rightarrow> nat" where
  "unit_index ty o1 = (if ty \<in> {0x12f, 0x130, 0x131, 0x132, 0x136, 0x13a, 0x13b} then o1 else 0)"

definition two_numbers :: "int \<Rightarrow> nat \<Rightarrow> bool" where
  "two_numbers ty o1 \<longleftrightarrow> ty \<in> {0x12f, 0x130, 0x131} \<and> o1 \<noteq> 0 \<or> ty \<in> {0x132, 0x136, 0x13a} \<and> o1 = 1"

text \<open>Of a mix a dry value is negative, and a wet one is not; an entry that does not agree is corrected.\<close>

definition sent_value :: "int \<Rightarrow> int \<Rightarrow> nat \<Rightarrow> int" where
  "sent_value ty v o1 =
     (if ty = 0x13b then (if o1 = 1 \<and> 0 \<le> v then - 97 else if o1 = 0 \<and> v < 0 then 100 else v) else v)"

definition fits_unit :: "odesc \<Rightarrow> nat \<Rightarrow> int \<Rightarrow> int \<Rightarrow> bool" where
  "fits_unit od u sz v \<longleftrightarrow>
     (if jand (jnth (od_displayUnits od) u) 0x8000 \<noteq> 0
      then - (128 * (if sz = 2 then 256 else 1)) \<le> v \<and> v < 128 * (if sz = 2 then 256 else 1)
      else 0 \<le> v \<and> v < 256 * (if sz = 2 then 256 else 1))"

lemma fits_unit_0: "fits_unit od 0 sz v = fits od sz v"
  by (simp add: fits_unit_def fits_def is_signed_def)

text \<open>The entries: any number in the range of its unit, and for a mix an option that is wet or dry.\<close>

definition enterable :: "odesc \<Rightarrow> int \<Rightarrow> int \<Rightarrow> int \<Rightarrow> nat \<Rightarrow> bool" where
  "enterable od ty sz v o1 \<longleftrightarrow>
     (if two_numbers ty o1 then 0 \<le> v \<and> v < 65536
      else fits_unit od (unit_index ty o1) sz (sent_value ty v o1)) \<and>
     (ty = 0x13b \<longrightarrow> o1 = 0 \<and> v \<le> 100 \<or> o1 = 1)"

lemma word_value: "0 \<le> (v :: int) mod 256 + 256 * (v div 256 mod 256)"
  "v mod 256 + 256 * (v div 256 mod 256) = v mod 65536"
  using zmod_zmult2_eq [of 256 v 256] by simp_all

lemma and_0x80: "0 \<le> v \<Longrightarrow> v < 256 \<Longrightarrow> (v AND 0x80 = 0) = (v < (128 :: int))"
proof -
  assume v: "0 \<le> v" "v < 256"
  have m: "(0x80 :: int) = 2 ^ 7" by simp
  have e: "(v AND 0x80 = 0) = even (v div 128)"
    unfolding m and_exp_eq_0_iff_not_bit by (simp add: bit_iff_odd)
  have "v div 128 = (if v < 128 then 0 else 1)"
    using v by (simp add: div_pos_pos_trivial) linarith
  then show ?thesis unfolding e by simp
qed

lemma lo_hi_value: "lo_hi (value_bytes 2 v @ rest) = Some (v mod 65536)"
  by (simp add: lo_hi_def value_bytes_def rd_def jshl_def push_bit_eq_mult to_int32_small
      nat_less_iff mult.commute [of _ 256] word_value)

lemma mod_range: "- m \<le> v \<Longrightarrow> v < m \<Longrightarrow> (v :: int) mod m = (if 0 \<le> v then v else v + m)"
proof (cases "0 \<le> v")
  case False
  assume v: "- m \<le> v" "v < m"
  have "v mod m = (v + m) mod m" by simp
  also have "\<dots> = v + m" using v False by (intro mod_pos_pos_trivial) auto
  finally show ?thesis using False by simp
qed simp

lemma signed_val_unit:
  assumes "od_dataSize od = Some sz" and "sz = 1 \<or> sz = 2" and "fits_unit od u sz v"
  shows "signed_val od (Some (int u)) (Num (Some (v mod (if sz = 2 then 65536 else 256)))) = Num (Some v)"
proof (cases "jand (jnth (od_displayUnits od) u) 0x8000 = 0")
  case True
  then show ?thesis
    using assms by (auto simp: fits_unit_def signed_val_def jidx_def split: if_splits)
next
  case signed: False
  then have j: "jand (jidx (od_displayUnits od) (Some (int u))) 0x8000 \<noteq> 0" by (simp add: jidx_def)
  show ?thesis
  proof (cases "sz = 2")
    case True
    have v: "- 32768 \<le> v" "v < 32768" using assms(3) signed True by (auto simp: fits_unit_def)
    let ?x = "v mod 65536"
    have x: "?x = (if 0 \<le> v then v else v + 65536)" using v by (intro mod_range) auto
    have "jand (Some ?x) 0x8000 = ?x AND 0x8000" by (simp add: jand_def to_int32_small)
    moreover have "(?x AND 0x8000 = 0) = (?x < 32768)" by (rule and_0x8000) simp_all
    ultimately show ?thesis using v x True j assms(1) by (auto simp: signed_val_def)
  next
    case False
    have v: "- 128 \<le> v" "v < 128" using assms(3) signed False by (auto simp: fits_unit_def)
    let ?x = "v mod 256"
    have x: "?x = (if 0 \<le> v then v else v + 256)" using v by (intro mod_range) auto
    have "jand (Some ?x) 0x80 = ?x AND 0x80" by (simp add: jand_def to_int32_small)
    moreover have "(?x AND 0x80 = 0) = (?x < 128)" by (rule and_0x80) simp_all
    ultimately show ?thesis using v x False j assms(1,2) by (auto simp: signed_val_def)
  qed
qed

lemmas signed_val_fits = signed_val_unit [where u = 0, unfolded fits_unit_0 of_nat_0]

definition sent_option :: "int \<Rightarrow> nat \<Rightarrow> nat" where
  "sent_option ty o1 = (if ty = 0x139 then o1 + 1 else o1)"

lemma enc_bytes_value:
  "sz = 1 \<or> sz = 2 \<Longrightarrow>
   (if sz = 1 then nibblize_num (Some v) else nibblize16 (Some v)) = enc_bytes (value_bytes sz v)"
  by (auto simp: value_bytes_def nibblize16_bytes nibblize_num_bytes simp del: enc_bytes_simps)

text \<open>The byte of the option follows when the option has a description with a size.\<close>

definition option_bytes :: "odesc \<Rightarrow> int \<Rightarrow> nat \<Rightarrow> nat list" where
  "option_bytes ood ty o1 = (if truthy (od_dataSize ood) then [sent_option ty o1] else [])"

lemma pair_entry_sent:
  assumes "od_dataSize od = Some sz" and "sz = 1 \<or> sz = 2" and "od_optionType od = Some ty"
    and ty: "ty \<in> {0x12c, 0x12d, 0x12e, 0x133, 0x134, 0x139, 0x12f, 0x130, 0x131, 0x132, 0x136, 0x13a, 0x13b}" and "objectDescription cfg (Some ty) = Some ood"
    and "od_objectType ood = Some ty" and "sent_option ty o1 < 256"
  shows "\<exists>script. param_entry cfg od L (pair_text v o1) =
     Inr \<lparr>en_arg = Nibbles (enc_bytes (value_bytes sz (sent_value ty v o1) @ option_bytes ood ty o1)), en_script = script\<rparr>"
proof -
  let ?o = "if ty = 0x139 then jadd (Some (int o1)) (Some 1) else Some (int o1)"
  let ?arg = "if sz = 1 then Nibbles (nibblize_num (Some (sent_value ty v o1)))
        else if sz = 2 then Nibbles (nibblize16 (Some (sent_value ty v o1))) else Scalar (pair_text v o1)"
  have o1: "nibblize_num ?o = enc_bytes [sent_option ty o1]"
    by (simp add: sent_option_def) (simp add: add.commute)
  have arg: "(if truthy (od_dataSize ood) then append_option ?arg ?o else ?arg) =
      Nibbles (enc_bytes (value_bytes sz (sent_value ty v o1) @ option_bytes ood ty o1))"
    using assms(2) enc_bytes_value [OF assms(2), of "sent_value ty v o1"] o1
    by (elim disjE) (simp_all del: enc_bytes_simps add: enc_bytes_append option_bytes_def enc_bytes_simps(1))
  have "ty \<noteq> 0xffff"
    and "ty \<in> {0x13b, 0x12f, 0x130, 0x131, 0x132, 0x133, 0x135, 0x136, 0x12c, 0x12d, 0x12e,
                       0x134, 0x139, 0x13a, 0xffff}" using ty by auto
  moreover have "(if ty = 0x13b then mix_fix (Some v) (Some (int o1)) else Some v) = Some (sent_value ty v o1)"
    by (simp add: mix_fix_def sent_value_def)
  ultimately have "param_entry cfg od L (pair_text v o1) =
      Inr \<lparr>en_arg = (if truthy (od_dataSize ood) then append_option ?arg ?o else ?arg),
          en_script = (if ty \<in> {0x13b, 0x12f, 0x130, 0x131, 0x132, 0x133, 0x135, 0x136}
             then Some (param_update_script L ty (show_num (Some (int o1)))) else None)\<rparr>"
    using assms(1,3,5,6)
    by (simp add: param_entry_def pair_text_is_pair pair_entry_def split_pair_text parse_int_int
        Let_def del: insert_iff append_option.simps enc_bytes_simps cong: if_cong)
  then show ?thesis unfolding arg by blast
qed

lemma pair_entry_bytes:
  assumes "od_dataSize od = Some sz" and "sz = 1 \<or> sz = 2" and "od_optionType od = Some ty"
    and ty: "ty \<in> {0x12c, 0x12d, 0x12e, 0x133, 0x134, 0x139, 0x12f, 0x130, 0x131, 0x132, 0x136, 0x13a}"
    and "objectDescription cfg (Some ty) = Some ood"
    and "od_objectType ood = Some ty" and "od_dataSize ood = Some 1" and "sent_option ty o1 < 256"
  shows "\<exists>script. param_entry cfg od L (pair_text v o1) =
     Inr \<lparr>en_arg = Nibbles (enc_bytes (value_bytes sz v @ [sent_option ty o1])), en_script = script\<rparr>"
  using pair_entry_sent [OF assms(1-3) _ assms(5,6,8), of L v] assms(4,7)
  by (auto simp: sent_value_def option_bytes_def truthy_def)

lemma getObjectValue_bytes:
  assumes "od_dataSize od = Some sz" and sz: "sz = 1 \<or> sz = 2" and "od_optionType od = Some ty"
    and ty: "option_size ty sz" and "objectDescription cfg (Some ty) = Some ood" and e: "enterable od ty sz v o1"
    and "ty = 0x13b \<or> truthy (od_dataSize ood)"
  shows "\<exists>ov. getObjectValue lb cfg od (value_bytes sz (sent_value ty v o1) @ option_bytes ood ty o1) = Inr ov \<and>
     ov_optionValue ov = Some (int o1) \<and> ov_twoValues ov = two_numbers ty o1 \<and>
     ov_val ov = Num (Some (if two_numbers ty o1 then 0 else sent_value ty v o1))"
proof -
  let ?w = "sent_value ty v o1"
  let ?b = "value_bytes sz ?w @ option_bytes ood ty o1"
  let ?m = "if sz = 2 then 65536 else 256 :: int"
  let ?n = "if two_numbers ty o1 then 0 else ?w mod ?m"
  have two: "sz = 2 \<Longrightarrow> ty \<noteq> 0x13b \<Longrightarrow> lo_hi ?b = Some (?w mod 65536) \<and> rd ?b 2 = Some (int (sent_option ty o1)) \<and>
      last_byte ?b = Some (int (sent_option ty o1)) \<and> length ?b = 3"
    using lo_hi_value [of ?w] assms(7) by (simp add: value_bytes_def rd_def last_byte_def option_bytes_def)
  have one: "sz = 1 \<Longrightarrow> rd ?b 0 = Some (?w mod 256) \<and> (ty \<noteq> 0x13b \<longrightarrow> rd ?b 1 = Some (int (sent_option ty o1))) \<and> 1 \<le> length ?b"
    using assms(7) by (auto simp: value_bytes_def rd_def option_bytes_def)
  have len: "\<not> int (length ?b) < sz" using sz one two ty by (auto simp: option_size_def)
  have in_list: "ty \<in> {0x12c, 0x12d, 0x12e, 0x13a, 0x12f, 0x130, 0x131, 0x133, 0x134, 0x132, 0x136, 0x139, 0x13b}"
    "ty \<noteq> 0xFFFF" using ty by (auto simp: option_size_def)
  have "\<exists>ov. option_val lb od ood ?b ty = Some ov \<and> ov_val ov = Num (Some ?n) \<and>
      ov_unit ov = Some (int (unit_index ty o1)) \<and> ov_optionValue ov = Some (int o1) \<and> ov_twoValues ov = two_numbers ty o1"
    using ty unfolding option_size_def
  proof (elim disjE conjE)
    assume "ty = 0x12c" "sz = 1"
    then show ?thesis using one assms(1)
      by (simp add: option_val_def plain_val_def Let_def sent_option_def two_numbers_def unit_index_def)
  next
    assume "ty = 0x12c" "sz = 2"
    then show ?thesis using two assms(1)
      by (simp add: option_val_def plain_val_def Let_def sent_option_def two_numbers_def unit_index_def)
  next
    assume "ty \<in> {0x12d, 0x12e, 0x133, 0x134, 0x139, 0x13b}" "sz = 1"
    then consider "ty \<in> {0x12d, 0x12e, 0x133, 0x134, 0x139}" "sz = 1" | "ty = 0x13b" "sz = 1" by blast
    then show ?thesis
    proof cases
      case 1
      then have r: "rd ?b 0 = Some (?w mod 256)" "rd ?b 1 = Some (int (sent_option ty o1))" using one by auto
      obtain b where b: "b = ?b" by blast
      from 1 r show ?thesis unfolding b [symmetric]
        by (elim insertE emptyE)
          (simp_all add: option_val_def plain_val_def Let_def sent_option_def two_numbers_def unit_index_def)
    next
      case 2
      then have n: "rd ?b 0 = Some (?w mod 256)" "\<not> two_numbers ty o1" using one by (simp_all add: two_numbers_def)
      have o: "o1 = 0 \<and> 0 \<le> ?w \<and> ?w \<le> 100 \<or> o1 = 1 \<and> ?w < 0"
        using e 2 by (auto simp: enterable_def sent_value_def)
      have "- 128 \<le> ?w" using e n(2) 2 o by (auto simp: enterable_def fits_unit_def split: if_splits)
      then have "(?w mod 256 > 100) = (o1 = 1)" and "o1 = 0 \<or> o1 = 1"
        using o mod_range [of 256 ?w] by auto
      then show ?thesis using n 2
        by (auto simp: option_val_def plain_val_def Let_def unit_index_def)
    qed
  next
    assume "ty \<in> {0x12f, 0x130, 0x131, 0x132, 0x136, 0x13a}" "sz = 2"
    then have r: "lo_hi ?b = Some (?w mod 65536)" "last_byte ?b = Some (int o1)" "ty \<in> {0x12f, 0x130, 0x131, 0x132, 0x136, 0x13a}" "sz = 2"
      using two by (auto simp: sent_option_def)
    obtain b where b: "b = ?b" by blast
    from r show ?thesis unfolding b [symmetric]
      by (elim insertE emptyE)
        (simp_all add: option_val_def plain_val_def Let_def truthy_def two_numbers_def unit_index_def)
  qed
  then obtain ov where ov: "option_val lb od ood ?b ty = Some ov" "ov_val ov = Num (Some ?n)"
    "ov_unit ov = Some (int (unit_index ty o1))" "ov_optionValue ov = Some (int o1)" "ov_twoValues ov = two_numbers ty o1" by blast
  have "signed_val od (ov_unit ov) (ov_val ov) = Num (Some (if two_numbers ty o1 then 0 else ?w))"
  proof (cases "two_numbers ty o1")
    case True
    then show ?thesis by (simp add: ov signed_val_def jand_def to_int32_small)
  next
    case False
    then show ?thesis using signed_val_unit [OF assms(1) sz, of "unit_index ty o1" ?w] e by (simp add: ov enterable_def)
  qed
  then have "getObjectValue lb cfg od ?b = Inr (ov\<lparr>ov_val := Num (Some (if two_numbers ty o1 then 0 else ?w))\<rparr>)"
    using assms(1,3,5) in_list ov(1) len by (simp add: getObjectValue_def del: insert_iff)
  then show ?thesis using ov by simp
qed

section \<open>Properties\<close>

text \<open>
  C14: What the user enters is what is shown.  For every parameter with an option of a type \<open>getObjectValue\<close> knows,
  of the size it reads for the type and with a description of the option, the entry \<open>value,option\<close>, with a value in
  the range of its unit (or of two bytes, where there are two numbers), an option that fits a byte, and for a mix
  one that is wet or dry, is sent as the bytes of the value and of the option, and from these the same option is
  read and the same value; for a mix that is the value as corrected to be wet or dry.  Where the option makes the two bytes two numbers, it is
  said that there are two, and they are the bytes of the value.
\<close>

theorem entry_is_read_back:
  assumes "od_dataSize od = Some sz" and "od_optionType od = Some ty" and "option_size ty sz"
    and "objectDescription cfg (Some ty) = Some ood" and "od_objectType ood = Some ty"
    and "ty = 0x13b \<or> truthy (od_dataSize ood)" and "sent_option ty o1 < 256"
    and "enterable od ty sz v o1"
  shows "\<exists>script bs ov. param_entry cfg od L (pair_text v o1) =
           Inr \<lparr>en_arg = Nibbles (enc_bytes bs), en_script = script\<rparr> \<and>
         bs = value_bytes sz (sent_value ty v o1) @ option_bytes ood ty o1 \<and>
         getObjectValue lb cfg od bs = Inr ov \<and>
         ov_optionValue ov = Some (int o1) \<and> ov_twoValues ov = two_numbers ty o1 \<and>
         (\<not> two_numbers ty o1 \<longrightarrow> ov_val ov = Num (Some (sent_value ty v o1)))"
proof -
  have sz: "sz = 1 \<or> sz = 2" using assms(3) by (auto simp: option_size_def)
  from pair_entry_sent [OF assms(1) sz assms(2) _ assms(4,5,7), of L v] assms(3) show ?thesis
    using getObjectValue_bytes [OF assms(1) sz assms(2-4,8,6), of lb] by (fastforce simp: option_size_def)
qed

definition option_config :: config where
  "option_config =
     \<lparr>objectDescription = [Some 0x12c \<mapsto> plain_od 0x12c (S ''Optimize'') 0 100 0], controlTree = empty_node\<rparr>"

definition level_od :: odesc where
  "level_od = (plain_od 9 (S ''Level'') 1 6 0x8000)
     \<lparr>od_optionType := Some 0x12c, od_minValue := [Some (- 90)]\<rparr>"

theorem entry_is_read_back_witness:
  "\<exists>script bs ov. param_entry option_config level_od (S ''000102'') (pair_text (- 42) 7) =
      Inr \<lparr>en_arg = Nibbles (enc_bytes bs), en_script = script\<rparr> \<and> bs = [214, 7] \<and>
    getObjectValue \<lparr>unit_label = \<lambda>_. None, utf8 = id\<rparr> option_config level_od bs = Inr ov \<and>
    ov_val ov = Num (Some (- 42)) \<and> ov_optionValue ov = Some 7"
proof -
  have "enterable level_od 0x12c 1 (- 42) 7"
    by (simp add: enterable_def two_numbers_def unit_index_def sent_value_def fits_unit_def level_od_def plain_od_def
        jnth_def jand_def to_int32_small)
  from entry_is_read_back [OF _ _ _ _ _ _ _ this, of option_config "plain_od 0x12c (S ''Optimize'') 0 100 0"
      "S ''000102''" "\<lparr>unit_label = \<lambda>_. None, utf8 = id\<rparr>"]
  show ?thesis
    by (auto simp: level_od_def plain_od_def option_config_def option_size_def sent_option_def option_bytes_def truthy_def
        value_bytes_def sent_value_def two_numbers_def)
qed

text \<open>Of the option types the handler of the browser accepts, one is unknown when the value is read: the program ends.\<close>

lemma option_135_ends:
  assumes "od_optionType od = Some 0x135" and "od_dataSize od = Some (int (length bs))"
  shows "getObjectValue lb cfg od bs = Inl Exit"
  using assms by (simp add: getObjectValue_def)

end
