(* ===== verification/Printf.thy ===== *)
theory Printf
  imports JsString
begin

text \<open>
  The formatter of \<open>src/mpxg2-dev/printf.js\<close>: the tokenizer (the regular expression \<open>_re\<close>),
  the interpretation of flags, widths and precisions, integers in any base, characters,
  strings, fractions, and the padding of the fields, with positional and mapped arguments.  What
  \<open>parseFloat\<close>, \<open>toFixed\<close>, \<open>toExponential\<close> and \<open>toPrecision\<close> of the JavaScript library give is a
  parameter.
\<close>

section \<open>Tokens\<close>

record token =
  tk_mapping :: "jstring option"
  tk_intmapping :: "jstring option"
  tk_flags :: jstring
  tk_minWidth :: jstring
  tk_period :: bool
  tk_precision :: jstring
  tk_specifier :: nat

text \<open>An absent \<open>_minWidth\<close> or \<open>_precision\<close> is the empty string.\<close>

definition is_dec :: "nat \<Rightarrow> bool" where
  "is_dec c \<longleftrightarrow> 48 \<le> c \<and> c \<le> 57"

definition is_word :: "nat \<Rightarrow> bool" where
  "is_word c \<longleftrightarrow> is_dec c \<or> (65 \<le> c \<and> c \<le> 90) \<or> (97 \<le> c \<and> c \<le> 122) \<or> c = 95"

definition is_flag :: "nat \<Rightarrow> bool" where
  "is_flag c \<longleftrightarrow> c = 48 \<or> c = 32 \<or> c = 43 \<or> c = 45 \<or> c = 35"

definition is_spec :: "nat \<Rightarrow> bool" where
  "is_spec c \<longleftrightarrow> c \<in> set (map of_char ''%bscdeEfFgGiouxX'')"

definition span :: "(nat \<Rightarrow> bool) \<Rightarrow> jstring \<Rightarrow> jstring \<times> jstring" where
  "span P s = (takeWhile P s, dropWhile P s)"

text \<open>\<open>(?:\(([\w_]+)\)|([1-9]\d*)\$)?\<close>\<close>

definition re_mapping :: "jstring \<Rightarrow> jstring option \<times> jstring option \<times> jstring" where
  "re_mapping s =
     (case s of
        [] \<Rightarrow> (None, None, s)
      | c # r \<Rightarrow>
          if c = 40 then
            (let (w, r') = span is_word r
             in if w \<noteq> [] \<and> r' \<noteq> [] \<and> hd r' = 41 then (Some w, None, tl r') else (None, None, s))
          else if is_dec c \<and> c \<noteq> 48 then
            (let (w, r') = span is_dec s
             in if r' \<noteq> [] \<and> hd r' = 36 then (None, Some w, tl r') else (None, None, s))
          else (None, None, s))"

text \<open>\<open>(\*|\d+)?\<close>\<close>

definition re_width :: "jstring \<Rightarrow> jstring \<times> jstring" where
  "re_width s = (if s \<noteq> [] \<and> hd s = 42 then ([42], tl s) else span is_dec s)"

text \<open>The regular expression after the percent sign; the rest of the input is returned.\<close>

definition re_directive :: "jstring \<Rightarrow> (token \<times> jstring) option" where
  "re_directive s =
     (let (m, im, s1) = re_mapping s;
          (fl, s2) = span is_flag s1;
          (mw, s3) = re_width s2;
          (period, s4) = (if s3 \<noteq> [] \<and> hd s3 = 46 then (True, tl s3) else (False, s3));
          (pr, s5) = re_width s4;
          s6 = (if s5 \<noteq> [] \<and> (hd s5 = 104 \<or> hd s5 = 108 \<or> hd s5 = 76) then tl s5 else s5)
      in if s6 \<noteq> [] \<and> is_spec (hd s6) then
           Some (\<lparr>tk_mapping = m, tk_intmapping = im, tk_flags = fl, tk_minWidth = mw,
                  tk_period = period, tk_precision = pr, tk_specifier = hd s6\<rparr>, tl s6)
         else None)"

lemma span_length: "span P s = (a, b) \<Longrightarrow> length b \<le> length s"
  by (auto simp: span_def length_dropWhile_le)

lemma re_width_length: "re_width s = (a, b) \<Longrightarrow> length b \<le> length s"
  by (auto simp: re_width_def span_length split: if_splits)

lemma re_mapping_length: "re_mapping s = (a, b, c) \<Longrightarrow> length c \<le> length s"
proof -
  have d: "length (tl (dropWhile P t)) \<le> length t" for P and t :: jstring
    using length_dropWhile_le [of P t] by simp
  assume "re_mapping s = (a, b, c)"
  then show ?thesis
    by (auto simp: re_mapping_def span_def Let_def intro: d le_SucI split: list.splits if_splits)
qed

lemma re_directive_length: "re_directive s = Some (t, r) \<Longrightarrow> length r < length s"
proof -
  assume a: "re_directive s = Some (t, r)"
  obtain m im s1 where 1: "re_mapping s = (m, im, s1)" by (metis prod.exhaust)
  obtain fl s2 where 2: "span is_flag s1 = (fl, s2)" by (metis prod.exhaust)
  obtain mw s3 where 3: "re_width s2 = (mw, s3)" by (metis prod.exhaust)
  define s4 where "s4 = (if s3 \<noteq> [] \<and> hd s3 = 46 then tl s3 else s3)"
  obtain pr s5 where 5: "re_width s4 = (pr, s5)" by (metis prod.exhaust)
  define s6 where "s6 = (if s5 \<noteq> [] \<and> (hd s5 = 104 \<or> hd s5 = 108 \<or> hd s5 = 76) then tl s5 else s5)"
  have "s6 \<noteq> []" "r = tl s6"
    using a 1 2 3 5 unfolding re_directive_def s4_def s6_def by (auto simp: Let_def split: if_splits prod.splits)
  moreover have "length s4 \<le> length s3" "length s6 \<le> length s5" by (auto simp: s4_def s6_def)
  ultimately show ?thesis
    using re_mapping_length [OF 1] span_length [OF 2] re_width_length [OF 3] re_width_length [OF 5]
    by (cases s6) auto
qed

datatype piece = Literal jstring | Directive token

text \<open>
  \<open>tokenize\<close>: the text between two matches is a token unless it is empty, and \<open>%%\<close> gives the
  token \<open>%\<close>.  The first argument collects the text before the next match.
\<close>

function tokenize :: "jstring \<Rightarrow> jstring \<Rightarrow> piece list" where
  "tokenize acc [] = (if acc = [] then [] else [Literal acc])"
| "tokenize acc (c # s) =
     (if c = 37 then
        (case re_directive s of
           None \<Rightarrow> tokenize (acc @ [c]) s
         | Some (t, r) \<Rightarrow>
             (if acc = [] then [] else [Literal acc]) @
             (if tk_specifier t = 37 then [Literal [37]] else [Directive t]) @ tokenize [] r)
      else tokenize (acc @ [c]) s)"
  by pat_completeness auto
termination
  by (relation "measure (\<lambda>(acc, s). length s)") (auto dest: re_directive_length)

declare tokenize.simps(2) [simp del]

section \<open>Padding\<close>

text \<open>
  \<open>zeroPad\<close> and \<open>spacePad\<close>: ten characters at a time while more than ten are missing, then
  the rest.  \<open>rightJustify\<close> appends.
\<close>

definition add_pad :: "bool \<Rightarrow> jstring \<Rightarrow> jstring \<Rightarrow> jstring" where
  "add_pad rightJustify p s = (if rightJustify then s @ p else p @ s)"

function pad_tens :: "nat \<Rightarrow> bool \<Rightarrow> nat \<Rightarrow> jstring \<Rightarrow> jstring" where
  "pad_tens c rj len s =
     (if int (length s) < int len - 10 then pad_tens c rj len (add_pad rj (replicate 10 c) s) else s)"
  by pat_completeness auto
termination
  by (relation "measure (\<lambda>(c, rj, len, s). len - length s)") (auto simp: add_pad_def)

declare pad_tens.simps [simp del]

definition pad_to :: "nat \<Rightarrow> bool \<Rightarrow> nat \<Rightarrow> jstring \<Rightarrow> jstring" where
  "pad_to c rj len s0 =
     (let s = pad_tens c rj len s0 in add_pad rj (take (len - length s) (replicate 10 c)) s)"

definition zeroPad :: "bool \<Rightarrow> nat \<Rightarrow> jstring \<Rightarrow> jstring" where
  "zeroPad rj len s = pad_to 48 rj len s"

definition spacePad :: "bool \<Rightarrow> nat \<Rightarrow> jstring \<Rightarrow> jstring" where
  "spacePad rj len s = pad_to 32 rj len s"

section \<open>Arguments\<close>

text \<open>
  An argument is a number, a string or \<open>undefined\<close>.  Of a fraction the code uses its sign,
  whether it is below 0.0001, and what the three methods write; \<open>parse_float\<close> is \<open>parseFloat\<close>,
  with \<open>None\<close> for what is not finite, and \<open>is_nan\<close> is \<open>isNaN\<close> of a string.
\<close>

datatype arg = ANum jnum | AStr jstring | AUndef

record jfloat =
  fl_nonneg :: bool
  fl_small :: bool
  toExponential :: "nat \<Rightarrow> jstring res"
  toFixed :: "nat \<Rightarrow> jstring res"
  toPrecision :: "nat \<Rightarrow> jstring res"

record numlib =
  parse_float :: "arg \<Rightarrow> jfloat option"
  is_nan :: "jstring \<Rightarrow> bool"

fun arg_text :: "arg \<Rightarrow> jstring" where
  "arg_text (ANum x) = num_to_string 10 x"
| "arg_text (AStr s) = s"
| "arg_text AUndef = S ''undefined''"

fun arg_int :: "arg \<Rightarrow> jnum" where
  "arg_int (ANum x) = x"
| "arg_int (AStr s) = parse_int None s"
| "arg_int AUndef = None"

fun is_number :: "arg \<Rightarrow> bool" where
  "is_number (ANum x) = True"
| "is_number _ = False"

section \<open>Fields\<close>

record field =
  f_sign :: jstring
  f_zeroPad :: bool
  f_rightJustify :: bool
  f_alternative :: bool
  f_minWidth :: nat
  f_maxWidth :: "nat option"
  f_precision :: nat
  f_period :: bool

text \<open>
  The flags, from the last to the first: \<open>0\<close> asks for zero padding unless a \<open>-\<close> stands behind
  it, and a \<open>-\<close> takes it back.
\<close>

definition flag_step :: "nat \<Rightarrow> field \<times> bool \<Rightarrow> field \<times> bool" where
  "flag_step c fm =
     (let (f, minus) = fm in
      if c = 32 then (f\<lparr>f_sign := [32]\<rparr>, minus)
      else if c = 43 then (f\<lparr>f_sign := [43]\<rparr>, minus)
      else if c = 48 then (f\<lparr>f_zeroPad := \<not> minus\<rparr>, minus)
      else if c = 45 then (f\<lparr>f_rightJustify := True, f_zeroPad := False\<rparr>, True)
      else (f\<lparr>f_alternative := True\<rparr>, minus))"

definition field_init :: field where
  "field_init =
     \<lparr>f_sign = [], f_zeroPad = False, f_rightJustify = False, f_alternative = False,
      f_minWidth = 0, f_maxWidth = None, f_precision = 1, f_period = False\<rparr>"

definition read_flags :: "jstring \<Rightarrow> field" where
  "read_flags fl = fst (foldr flag_step fl (field_init, False))"

text \<open>The value of digits; \<open>parseInt('*')\<close> is \<open>NaN\<close> and is replaced below.\<close>

definition width_value :: "jstring \<Rightarrow> nat" where
  "width_value s = (case parse_int None s of None \<Rightarrow> 0 | Some v \<Rightarrow> nat v)"

definition base_of :: "nat \<Rightarrow> nat option" where
  "base_of c =
     (if c = of_char (CHR ''b'') then Some 2
      else if c = of_char (CHR ''o'') then Some 8
      else if c = of_char (CHR ''x'') \<or> c = of_char (CHR ''X'') then Some 16
      else if c = of_char (CHR ''d'') \<or> c = of_char (CHR ''i'') \<or> c = of_char (CHR ''u'') then Some 10
      else None)"

definition compile_token :: "token \<Rightarrow> field" where
  "compile_token t =
     (read_flags (tk_flags t))
       \<lparr>f_minWidth := (if tk_minWidth t = [] then 0 else width_value (tk_minWidth t)),
        f_precision := (if tk_period t then (if tk_precision t = [] then 0 else width_value (tk_precision t))
                        else 1),
        f_period := tk_period t\<rparr>"

text \<open>\<open>maxWidth\<close> is \<open>NaN\<close>, which no length exceeds, when the precision is still \<open>*\<close>.\<close>

definition setMaxWidth :: "token \<Rightarrow> field \<Rightarrow> field" where
  "setMaxWidth t f =
     (if tk_specifier t = of_char (CHR ''s'') \<and> tk_period t \<and> tk_precision t \<noteq> [42]
      then f\<lparr>f_maxWidth := Some (f_precision f)\<rparr> else f)"

definition setArg :: "numlib \<Rightarrow> token \<Rightarrow> arg \<Rightarrow> arg res" where
  "setArg lib t a =
     (if tk_specifier t = of_char (CHR ''c'') then
        (if (case a of ANum x \<Rightarrow> x = None | AStr s \<Rightarrow> is_nan lib s | AUndef \<Rightarrow> True) then Inr a
         else
           (case arg_int a of
              None \<Rightarrow> Inr (AStr (S ''NaN''))
            | Some v \<Rightarrow>
                if v < 0 \<or> v > 127 then Inl (Throw (S ''invalid character code passed to %c in printf''))
                else Inr (AStr [nat v])))
      else Inr a)"

definition formatInt :: "nat \<Rightarrow> token \<Rightarrow> field \<Rightarrow> arg \<Rightarrow> jstring res" where
  "formatInt base t f a =
     (case (case arg_int a of
              None \<Rightarrow> if is_number a then Inr 0
                      else Inl (Throw (S ''format argument not an integer''))
            | Some v \<Rightarrow> Inr v) of
        Inl e \<Rightarrow> Inl e
      | Inr i0 \<Rightarrow>
          let i = (if i0 < 0 \<and> (tk_specifier t = of_char (CHR ''u'') \<or> base \<noteq> 10)
                   then 0xffffffff + i0 + 1 else i0);
              s = (if i < 0 then 45 # zeroPad (f_rightJustify f) (f_precision f) (int_to_string base (- i))
                   else f_sign f @
                     (if i = 0 \<and> f_precision f = 0 then []
                      else zeroPad (f_rightJustify f) (f_precision f) (int_to_string base i)));
              s16 = (if base = 16 then
                       (let h = (if f_alternative f then S ''0x'' @ s else s)
                        in if tk_specifier t = of_char (CHR ''X'') then toUpperCase h else toLowerCase h)
                     else s);
              s8 = (if base = 8 \<and> f_alternative f \<and> take 1 s16 \<noteq> [48] then 48 # s16 else s16)
          in Inr s8)"

text \<open>A library that reads no fractions, for examples with integers.\<close>

definition no_fractions :: numlib where
  "no_fractions = \<lparr>parse_float = \<lambda>_. None, is_nan = \<lambda>_. True\<rparr>"

text \<open>The number 0 and what the methods write for it; they throw when the precision is out of range.\<close>

definition zero_digits :: "nat \<Rightarrow> jstring" where
  "zero_digits p = (if p = 0 then [48] else [48, 46] @ replicate p 48)"

definition float_zero :: jfloat where
  "float_zero =
     \<lparr>fl_nonneg = True, fl_small = True,
      toExponential = \<lambda>p. if p > 20 then Inl (Throw (S ''RangeError'')) else Inr (zero_digits p @ S ''e+0''),
      toFixed = \<lambda>p. if p > 20 then Inl (Throw (S ''RangeError'')) else Inr (zero_digits p),
      toPrecision = \<lambda>p. if p = 0 \<or> p > 21 then Inl (Throw (S ''RangeError'')) else Inr (zero_digits (p - 1))\<rparr>"

text \<open>
  The replacements of \<open>formatDouble\<close>.  The first, \<open>/(\..*[^0])0*/\<close>, drops the zeros behind the
  last other character of the text, if one stands behind the point: the zeros of an exponent
  too.  The second and third drop a point and the zeros before an \<open>e\<close>, and one final zero with its
  point.
\<close>

definition trim_zeros :: "jstring \<Rightarrow> jstring" where
  "trim_zeros s =
     (let (whole, fraction) = span (\<lambda>c. c \<noteq> 46) s;
          kept = rev (dropWhile (\<lambda>c. c = 48) (rev (tl fraction)))
      in if fraction = [] \<or> kept = [] then s else whole @ 46 # kept)"

fun drop_point_e :: "jstring \<Rightarrow> jstring" where
  "drop_point_e [] = []"
| "drop_point_e (c # s) =
     (let r = dropWhile (\<lambda>c. c = 48) s
      in if c = 46 \<and> r \<noteq> [] \<and> hd r = 101 then r else c # drop_point_e s)"

definition drop_point_zero :: "jstring \<Rightarrow> jstring" where
  "drop_point_zero s = (if drop (length s - 2) s = [46, 48] then take (length s - 2) s else s)"

text \<open>An exponent of one digit behind the sign \<open>sg\<close> gets a second one.\<close>

definition two_digit_exponent :: "nat \<Rightarrow> jstring \<Rightarrow> jstring" where
  "two_digit_exponent sg s =
     (let n = length s - 3
      in if take 2 (drop n s) = [101, sg] \<and> length s \<ge> 3 \<and> is_dec (last s) then take n s @ [101, sg, 48, last s] else s)"

definition ensure_point :: "jstring \<Rightarrow> jstring" where
  "ensure_point s =
     (let s1 = (if s \<noteq> [] \<and> list_all is_dec s then s @ [46] else s);
          (d, r) = span is_dec s1
      in if d \<noteq> [] \<and> r \<noteq> [] \<and> hd r = 101 then d @ 46 # r else s1)"

definition double_notation :: "nat \<Rightarrow> field \<Rightarrow> jfloat \<Rightarrow> jstring res" where
  "double_notation c f x =
     (let p = (if f_period f then f_precision f else 6) in
      if c = of_char (CHR ''e'') \<or> c = of_char (CHR ''E'') then toExponential x p
      else if c = of_char (CHR ''f'') \<or> c = of_char (CHR ''F'') then toFixed x p
      else
        map_sum id (\<lambda>s. if f_alternative f then s else drop_point_zero (drop_point_e (trim_zeros s)))
          (if fl_small x then toExponential x (p - 1) else toPrecision x p))"

definition formatDouble :: "numlib \<Rightarrow> token \<Rightarrow> field \<Rightarrow> arg \<Rightarrow> jstring res" where
  "formatDouble lib t f a =
     (case (case parse_float lib a of
              None \<Rightarrow> if is_number a then Inr float_zero
                      else Inl (Throw (S ''format argument not a float''))
            | Some x \<Rightarrow> Inr x) of
        Inl e \<Rightarrow> Inl e
      | Inr x \<Rightarrow> map_sum id
        (\<lambda>s. let s1 = two_digit_exponent 45 (two_digit_exponent 43 s);
                 s2 = (if f_alternative f then ensure_point s1 else s1);
                 s3 = (if fl_nonneg x then f_sign f @ s2 else s2)
             in if tk_specifier t = of_char (CHR ''E'') \<or> tk_specifier t = of_char (CHR ''G'')
                then toUpperCase s3 else toLowerCase s3)
        (double_notation (tk_specifier t) f x))"

text \<open>
  \<open>fitField\<close>: what the branch for a too long text returns is not used, so the text stays as
  it is.
\<close>

definition fitField :: "field \<Rightarrow> jstring \<Rightarrow> jstring" where
  "fitField f s =
     (if (case f_maxWidth f of None \<Rightarrow> False | Some m \<Rightarrow> length s > m) then s
      else if f_zeroPad f then zeroPad (f_rightJustify f) (f_minWidth f) s
      else spacePad (f_rightJustify f) (f_minWidth f) s)"

section \<open>Formatting\<close>

datatype args = Positional "arg list" | Mapped "jstring \<Rightarrow> arg option"

definition next_arg :: "args \<Rightarrow> nat \<Rightarrow> token \<Rightarrow> (arg \<times> nat) res" where
  "next_arg args position t =
     (case args of
        Mapped filler \<Rightarrow>
          (case tk_mapping t of
             None \<Rightarrow> Inl (Throw (S ''missing key undefined''))
           | Some k \<Rightarrow>
               (case filler k of
                  None \<Rightarrow> Inl (Throw (S ''missing key '' @ k))
                | Some a \<Rightarrow> Inr (a, position)))
      | Positional xs \<Rightarrow>
          (let p = (case tk_intmapping t of None \<Rightarrow> position | Some d \<Rightarrow> width_value d - 1)
           in if p \<ge> length xs then Inl (Throw (S ''printf arguments, insufficient''))
              else Inr (xs ! p, Suc p)))"

text \<open>\<open>parseInt(arguments[position++])\<close>\<close>

definition star_arg :: "args \<Rightarrow> nat \<Rightarrow> jnum res" where
  "star_arg args position =
     (case args of
        Mapped _ \<Rightarrow> Inl (Throw (S ''* width not supported in mapped formats''))
      | Positional xs \<Rightarrow> Inr (if position < length xs then arg_int (xs ! position) else None))"

definition star_width :: "token \<Rightarrow> args \<Rightarrow> field \<times> nat \<Rightarrow> (field \<times> nat) res" where
  "star_width t args fp =
     (if tk_minWidth t \<noteq> [42] then Inr fp
      else
        (case star_arg args (snd fp) of
           Inl e \<Rightarrow> Inl e
         | Inr None \<Rightarrow> Inl (Throw (S ''the argument for * width is not a number''))
         | Inr (Some v) \<Rightarrow>
             Inr (if v < 0 then (fst fp)\<lparr>f_rightJustify := True, f_minWidth := nat (- v)\<rparr>
                  else (fst fp)\<lparr>f_minWidth := nat v\<rparr>, Suc (snd fp))))"

definition star_precision :: "token \<Rightarrow> args \<Rightarrow> field \<times> nat \<Rightarrow> (field \<times> nat) res" where
  "star_precision t args fp =
     (if tk_precision t \<noteq> [42] \<or> \<not> tk_period t then Inr fp
      else
        (case star_arg args (snd fp) of
           Inl e \<Rightarrow> Inl e
         | Inr None \<Rightarrow> Inl (Throw (S ''the argument for * precision is not a number''))
         | Inr (Some v) \<Rightarrow>
             Inr (if v < 0 then (fst fp)\<lparr>f_precision := 1, f_period := False\<rparr>
                  else (fst fp)\<lparr>f_precision := nat v\<rparr>, Suc (snd fp))))"

definition format_arg :: "numlib \<Rightarrow> token \<Rightarrow> field \<Rightarrow> arg \<Rightarrow> jstring res" where
  "format_arg lib t f a =
     (case base_of (tk_specifier t) of
        Some base \<Rightarrow>
          (let f1 = (if f_period f then f\<lparr>f_zeroPad := False\<rparr> else f)
           in map_sum id (fitField f1) (formatInt base t f1 a))
      | None \<Rightarrow>
          if tk_specifier t = of_char (CHR ''c'') \<or> tk_specifier t = of_char (CHR ''s'') then
            Inr (fitField f (arg_text a))
          else
            map_sum id (fitField f) (formatDouble lib t f a))"

definition format_token :: "numlib \<Rightarrow> args \<Rightarrow> nat \<Rightarrow> token \<Rightarrow> (jstring \<times> nat) res" where
  "format_token lib args position t =
     (case next_arg args position t of
        Inl e \<Rightarrow> Inl e
      | Inr (a0, p1) \<Rightarrow>
          (case setArg lib t a0 of
             Inl e \<Rightarrow> Inl e
           | Inr a \<Rightarrow>
               (case star_width t args (setMaxWidth t (compile_token t), p1) of
                  Inl e \<Rightarrow> Inl e
                | Inr fp2 \<Rightarrow>
                    (case star_precision t args fp2 of
                       Inl e \<Rightarrow> Inl e
                     | Inr (f, p3) \<Rightarrow> map_sum id (\<lambda>s. (s, p3)) (format_arg lib t f a)))))"

fun format_pieces :: "numlib \<Rightarrow> args \<Rightarrow> nat \<Rightarrow> piece list \<Rightarrow> jstring res" where
  "format_pieces lib args position [] = Inr []"
| "format_pieces lib args position (Literal s # ps) = map_sum id ((@) s) (format_pieces lib args position ps)"
| "format_pieces lib args position (Directive t # ps) =
     (case format_token lib args position t of
        Inl e \<Rightarrow> Inl e
      | Inr (s, p) \<Rightarrow> map_sum id ((@) s) (format_pieces lib args p ps))"

definition is_mapped :: "piece list \<Rightarrow> bool" where
  "is_mapped ps \<longleftrightarrow> list_ex (\<lambda>p. case p of Literal _ \<Rightarrow> False | Directive t \<Rightarrow> tk_mapping t \<noteq> None) ps"

text \<open>
  A format with a mapping needs an object; an object given to any other format is an
  argument like others, whose text is \<open>[object Object]\<close>.
\<close>

definition printf :: "numlib \<Rightarrow> jstring \<Rightarrow> args \<Rightarrow> jstring res" where
  "printf lib fmt args =
     (let ps = tokenize [] fmt in
      case args of
        Positional xs \<Rightarrow>
          if is_mapped ps then Inl (Throw (S ''format requires a mapping''))
          else format_pieces lib args 0 ps
      | Mapped filler \<Rightarrow>
          if is_mapped ps then format_pieces lib args 0 ps
          else format_pieces lib (Positional [AStr (S ''[object Object]'')]) 0 ps)"

section \<open>What padding does\<close>

lemma pad_tens_replicate:
  "\<exists>k. pad_tens c rj len s = add_pad rj (replicate k c) s \<and>
     (k = 0 \<or> length s + k < len) \<and> len \<le> length s + k + 10"
proof (induction c rj len s rule: pad_tens.induct)
  case (1 c rj len s)
  show ?case
  proof (cases "int (length s) < int len - 10")
    case True
    then obtain k where k: "pad_tens c rj len (add_pad rj (replicate 10 c) s) =
        add_pad rj (replicate k c) (add_pad rj (replicate 10 c) s)"
      "k = 0 \<or> length (add_pad rj (replicate 10 c) s) + k < len"
      "len \<le> length (add_pad rj (replicate 10 c) s) + k + 10"
      using 1 by blast
    have "pad_tens c rj len s = add_pad rj (replicate (10 + k) c) s"
      using True k(1) by (subst pad_tens.simps) (simp add: add_pad_def replicate_add [symmetric] add.commute)
    then show ?thesis
      using True k(2,3) by (intro exI [of _ "10 + k"]) (auto simp: add_pad_def split: if_splits)
  next
    case False
    then show ?thesis by (subst pad_tens.simps, intro exI [of _ 0]) (auto simp: add_pad_def)
  qed
qed

lemma pad_to_replicate: "pad_to c rj len s = add_pad rj (replicate (len - length s) c) s"
proof -
  obtain k where k: "pad_tens c rj len s = add_pad rj (replicate k c) s"
    "k = 0 \<or> length s + k < len" "len \<le> length s + k + 10" using pad_tens_replicate by blast
  define m where "m = len - (length s + k)"
  have m: "len - length s = m + k" "m \<le> 10" using k(2,3) by (auto simp: m_def)
  have "length (pad_tens c rj len s) = length s + k" by (simp add: k(1) add_pad_def)
  then have "pad_to c rj len s = add_pad rj (replicate m c) (add_pad rj (replicate k c) s)"
    using m(2) by (simp add: pad_to_def Let_def m_def [symmetric] min_def k(1))
  also have "\<dots> = add_pad rj (replicate (m + k) c) s"
    by (simp add: add_pad_def replicate_add) (metis add.commute replicate_add)
  finally show ?thesis by (simp add: m(1))
qed

section \<open>Properties\<close>

lemma width_digit: "1 \<le> w \<Longrightarrow> w \<le> 9 \<Longrightarrow> width_value [48 + w] = w"
  by (auto simp: width_value_def parse_int_def is_digit_def digit_value_def is_ws_def
      digits_value_def strip_0x_def)

text \<open>The directive \<open>%0wX\<close>, \<open>%0wd\<close> and so on.\<close>

definition zero_token :: "nat \<Rightarrow> nat \<Rightarrow> token" where
  "zero_token w spec =
     \<lparr>tk_mapping = None, tk_intmapping = None, tk_flags = [48], tk_minWidth = [48 + w],
      tk_period = False, tk_precision = [], tk_specifier = spec\<rparr>"

lemma tokenize_text: "c \<noteq> 37 \<Longrightarrow> tokenize acc (c # s) = tokenize (acc @ [c]) s"
  by (simp add: tokenize.simps(2))

lemma tokenize_zero:
  assumes "1 \<le> w" and "w \<le> 9" and "spec = 88 \<or> spec = 100"
  shows "tokenize acc (37 # 48 # (48 + w) # spec # rest) =
     (if acc = [] then [] else [Literal acc]) @ Directive (zero_token w spec) # tokenize [] rest"
proof -
  have "re_directive (48 # (48 + w) # spec # rest) = Some (zero_token w spec, rest)"
    using assms(3)
    by (elim disjE) (use assms(1,2) in \<open>simp_all add: re_directive_def re_mapping_def span_def re_width_def
      is_flag_def is_dec_def is_spec_def zero_token_def Let_def\<close>)
  moreover have "tk_specifier (zero_token w spec) \<noteq> 37" using assms(3) by (auto simp: zero_token_def)
  ultimately show ?thesis by (simp add: tokenize.simps(2))
qed

lemma compile_zero: "1 \<le> w \<Longrightarrow> w \<le> 9 \<Longrightarrow>
   compile_token (zero_token w spec) = field_init\<lparr>f_zeroPad := True, f_minWidth := w\<rparr>"
  by (simp add: compile_token_def zero_token_def read_flags_def flag_step_def field_init_def width_digit)

lemma spec_codes: "(of_char (CHR ''X'') :: nat) = 88" "(of_char (CHR ''x'') :: nat) = 120"
  "(of_char (CHR ''d'') :: nat) = 100" "(of_char (CHR ''i'') :: nat) = 105"
  "(of_char (CHR ''u'') :: nat) = 117" "(of_char (CHR ''c'') :: nat) = 99"
  "(of_char (CHR ''s'') :: nat) = 115" "(of_char (CHR ''b'') :: nat) = 98"
  "(of_char (CHR ''o'') :: nat) = 111"
  by simp_all

lemma format_zero:
  assumes "1 \<le> w" and "w \<le> 9" and "spec = 88 \<or> spec = 100" and "i < length xs" and "xs ! i = ANum (Some v)"
  shows "format_token lib (Positional xs) i (zero_token w spec) =
     map_sum id (\<lambda>s. (pad_to 48 False w s, Suc i))
       (formatInt (if spec = 88 then 16 else 10) (zero_token w spec)
          (field_init\<lparr>f_zeroPad := True, f_minWidth := w\<rparr>) (ANum (Some v)))"
proof -
  let ?t = "zero_token w spec" and ?f = "field_init\<lparr>f_zeroPad := True, f_minWidth := w\<rparr>"
  have p: "tk_mapping ?t = None" "tk_intmapping ?t = None" "tk_specifier ?t = spec"
    "tk_minWidth ?t \<noteq> [42]" "tk_precision ?t \<noteq> [42]" "\<not> tk_period ?t"
    by (simp_all add: zero_token_def)
  have b: "base_of spec = Some (if spec = 88 then 16 else 10)"
    using assms(3) by (auto simp: base_of_def spec_codes)
  have c: "setArg lib ?t a = Inr a" "setMaxWidth ?t f = f" for a f
    using assms(3) p by (auto simp: setArg_def setMaxWidth_def spec_codes)
  have s: "f_maxWidth ?f = None" "f_zeroPad ?f" "\<not> f_rightJustify ?f" "f_minWidth ?f = w" "\<not> f_period ?f"
    by (simp_all add: field_init_def)
  have ff: "fitField ?f = pad_to 48 False w"
    using s by (simp add: fun_eq_iff fitField_def zeroPad_def)
  have g: "format_arg lib ?t ?f a = map_sum id (pad_to 48 False w)
      (formatInt (if spec = 88 then 16 else 10) ?t ?f a)" for a
    unfolding format_arg_def p(3) b option.case Let_def
    using s ff by simp
  define r where "r = formatInt (if spec = 88 then 16 else 10) ?t ?f (ANum (Some v))"
  have g': "format_arg lib ?t ?f (ANum (Some v)) = map_sum id (pad_to 48 False w) r"
    unfolding r_def by (rule g)
  show ?thesis
    unfolding r_def [symmetric]
    using p assms(4,5) by (cases r) (simp_all add: format_token_def next_arg_def c star_width_def star_precision_def
        compile_zero [OF assms(1,2)] g')
qed

lemma zero_token_positional [simp]: "tk_mapping (zero_token w spec) = None"
  by (simp add: zero_token_def)

lemma printf_zero:
  assumes "1 \<le> w" and "w \<le> 9" and "spec = 88 \<or> spec = 100"
  shows "printf lib [37, 48, 48 + w, spec] (Positional [ANum (Some v)]) =
     map_sum id (pad_to 48 False w)
       (formatInt (if spec = 88 then 16 else 10) (zero_token w spec)
          (field_init\<lparr>f_zeroPad := True, f_minWidth := w\<rparr>) (ANum (Some v)))"
  using tokenize_zero [OF assms, of "[]" "[]"] format_zero [OF assms, of 0 "[ANum (Some v)]" v lib]
  by (cases "formatInt (if spec = 88 then 16 else 10) (zero_token w spec)
      (field_init\<lparr>f_zeroPad := True, f_minWidth := w\<rparr>) (ANum (Some v))")
    (simp_all add: printf_def is_mapped_def)

lemma pad_one: "s \<noteq> [] \<Longrightarrow> zeroPad rj 1 s = s"
  by (cases s) (simp_all add: zeroPad_def pad_to_replicate add_pad_def)

lemma int_to_string_ne: "int_to_string r v \<noteq> []"
  by (simp add: int_to_string_def digits_of_ne)

lemma upper_digit: "is_digit 16 c \<Longrightarrow> is_digit 16 (upper1 c) \<and> digit_value (upper1 c) = digit_value c"
  by (auto simp: is_digit_def digit_value_def upper1_def split: if_splits option.splits)

lemma digits_value_map_upper:
  "\<forall>c \<in> set ds. is_digit 16 c \<Longrightarrow> digits_value 16 (map upper1 ds) = digits_value 16 ds"
proof (induction ds rule: rev_induct)
  case (snoc c ds)
  then show ?case by (simp add: digits_value_snoc upper_digit)
qed simp

lemma digits_value_zeros: "digits_value r (replicate n 48 @ ds) = digits_value r ds"
proof (induction n)
  case (Suc n)
  then show ?case by (simp add: digits_value_def digit_value_def)
qed simp

lemma hex_digits_strip: "\<forall>c \<in> set ds. is_digit 16 c \<Longrightarrow> strip_0x ds = ds"
proof -
  assume d: "\<forall>c \<in> set ds. is_digit 16 c"
  have "ds ! 1 \<noteq> 120 \<and> ds ! 1 \<noteq> 88" if "2 \<le> length ds"
  proof -
    have "ds ! 1 \<in> set ds" using that by (intro nth_mem) simp
    then have "is_digit 16 (ds ! 1)" using d by blast
    then show ?thesis by (auto simp: is_digit_def digit_value_def)
  qed
  then show ?thesis by (auto simp: strip_0x_def)
qed

text \<open>A number of at least \<open>w\<close> digits, in base 16 or 10.\<close>

definition zeros_number :: "nat \<Rightarrow> nat \<Rightarrow> nat \<Rightarrow> jstring" where
  "zeros_number w spec n =
     (let ds = (if spec = 88 then map upper1 (digits_of 16 n) else digits_of 10 n)
      in replicate (w - length ds) 48 @ ds)"

lemma format_number:
  assumes "1 \<le> w" and "w \<le> 9" and "spec = 88 \<or> spec = 100" and "i < length xs" and "xs ! i = ANum (Some (int n))"
  shows "format_token lib (Positional xs) i (zero_token w spec) = Inr (zeros_number w spec n, Suc i)"
proof -
  have i: "int_to_string r (int n) = digits_of r n" for r by (simp add: int_to_string_def)
  have "formatInt (if spec = 88 then 16 else 10) (zero_token w spec)
      (field_init\<lparr>f_zeroPad := True, f_minWidth := w\<rparr>) (ANum (Some (int n))) =
    Inr (if spec = 88 then map upper1 (digits_of 16 n) else digits_of 10 n)"
    using assms(3) pad_one [OF digits_of_ne]
    by (auto simp: formatInt_def zero_token_def field_init_def i spec_codes toUpperCase_def)
  then show ?thesis
    using format_zero [OF assms, of lib] by (simp add: zeros_number_def pad_to_replicate add_pad_def Let_def)
qed

lemma printf_hex_text:
  assumes "1 \<le> w" and "w \<le> 9"
  shows "printf lib [37, 48, 48 + w, 88] (Positional [ANum (Some (int n))]) =
    Inr (replicate (w - length (digits_of 16 n)) 48 @ map upper1 (digits_of 16 n))"
  using tokenize_zero [OF assms, of 88 "[]" "[]"] format_number [OF assms, of 88 0 "[ANum (Some (int n))]" n lib]
  by (simp add: printf_def is_mapped_def zeros_number_def)

text \<open>
  The hexadecimal fields of dumps, file names and addresses: for every number \<open>n \<ge> 0\<close> and
  every width from 1 to 9, \<open>%0wX\<close> writes the upper case digits of \<open>n\<close> with zeros in front up
  to the width, never cut, and \<open>parseInt(..,16)\<close> reads \<open>n\<close> back.
\<close>

theorem printf_hex:
  assumes "1 \<le> w" and "w \<le> 9"
  shows "\<exists>s. printf lib [37, 48, 48 + w, 88] (Positional [ANum (Some (int n))]) = Inr s \<and>
     s = replicate (w - length (int_to_string 16 (int n))) 48 @ toUpperCase (int_to_string 16 (int n)) \<and>
     parse_int (Some 16) s = Some (int n)"
proof -
  let ?ds = "digits_of 16 n"
  let ?s = "replicate (w - length ?ds) 48 @ map upper1 ?ds"
  have d: "\<forall>c \<in> set ?ds. is_digit 16 c" by (auto intro: digits_of_digits)
  have i: "int_to_string 16 (int n) = ?ds" by (simp add: int_to_string_def)
  have p: "printf lib [37, 48, 48 + w, 88] (Positional [ANum (Some (int n))]) = Inr ?s"
    using assms by (rule printf_hex_text)
  have c: "\<forall>c \<in> set ?s. is_digit 16 c"
    using d upper_digit by (auto simp: is_digit_def [of 16 48] digit_value_def)
  have "digits_value 16 ?s = n"
    by (simp add: digits_value_zeros digits_value_map_upper [OF d] digits_value_digits_of)
  moreover have "parse_int (Some 16) (?s @ []) = Some (int (digits_value 16 ?s))"
    by (rule parse_int_digits) (use c hex_digits_strip [OF c] in \<open>simp_all add: digits_of_ne\<close>)
  ultimately show ?thesis using p by (simp add: i toUpperCase_def)
qed

theorem printf_hex_witness:
  "\<exists>s. printf no_fractions [37, 48, 52, 88]
         (Positional [ANum (Some 300)]) = Inr s \<and> parse_int (Some 16) s = Some 300"
  using printf_hex [of 4 "no_fractions" 300] by auto

text \<open>
  Zero padding goes in front of the sign: a negative number shorter than the width of
  \<open>%0wd\<close> is written with the zeros before its minus sign.
\<close>

theorem printf_zeros_before_sign:
  assumes "1 \<le> w" and "w \<le> 9" and "v < 0" and "length (int_to_string 10 v) < w"
  shows "printf lib [37, 48, 48 + w, 100] (Positional [ANum (Some v)]) =
     Inr (replicate (w - length (int_to_string 10 v)) 48 @ 45 # int_to_string 10 (- v))"
proof -
  have i: "int_to_string 10 v = 45 # int_to_string 10 (- v)" using assms(3) by (simp add: int_to_string_def)
  have "formatInt 10 (zero_token w 100) (field_init\<lparr>f_zeroPad := True, f_minWidth := w\<rparr>) (ANum (Some v))
      = Inr (int_to_string 10 v)"
    using assms(3) pad_one [OF int_to_string_ne]
    by (simp add: formatInt_def zero_token_def field_init_def spec_codes i)
  then show ?thesis
    using printf_zero [OF assms(1,2), of 100 lib v]
    by (simp add: pad_to_replicate add_pad_def i)
qed

theorem printf_zeros_before_sign_witness:
  "printf no_fractions [37, 48, 53, 100]
     (Positional [ANum (Some (- 7))]) = Inr [48, 48, 48, 45, 55]"
proof -
  have d: "int_to_string 10 (- 7) = [45, 55]" "int_to_string 10 7 = [55]"
    by (simp_all add: int_to_string_def digits_of.simps digit_char_def)
  have r3: "replicate 3 (48 :: nat) = [48, 48, 48]" by (simp add: numeral_3_eq_3)
  show ?thesis
    using printf_zeros_before_sign [of 5 "- 7" "no_fractions"]
    by (simp add: d r3)
qed

text \<open>
  \<open>%g\<close> drops the zeros at the end of a fraction, but not when nothing else stands behind the
  point, and it takes them from an exponent too.
\<close>

lemma trim_zeros_fraction:
  assumes "46 \<notin> set d"
  shows "c \<noteq> 48 \<Longrightarrow> trim_zeros (d @ 46 # r @ c # replicate n 48) = d @ 46 # r @ [c]"
    and "trim_zeros (d @ 46 # replicate n 48) = d @ 46 # replicate n 48"
proof -
  have d: "takeWhile (\<lambda>c. c \<noteq> 46) (d @ 46 # xs) = d" "dropWhile (\<lambda>c. c \<noteq> 46) (d @ 46 # xs) = 46 # xs" for xs
    using assms by (induction d) auto
  have z: "dropWhile (\<lambda>c. c = 48) (replicate n 48 @ ys) = dropWhile (\<lambda>c. c = 48) ys" for ys :: jstring
    by (induction n) auto
  show "trim_zeros (d @ 46 # r @ c # replicate n 48) = d @ 46 # r @ [c]" if "c \<noteq> 48"
    using that by (simp add: trim_zeros_def span_def d z)
  show "trim_zeros (d @ 46 # replicate n 48) = d @ 46 # replicate n 48"
    using z [of "[]"] by (simp add: trim_zeros_def span_def d)
qed

lemma printf_exponent_cut:
  assumes "parse_float lib a = Some x" and "\<not> fl_small x" and "toPrecision x 6 = Inr (S ''1.50000e+20'')"
  shows "printf lib (S ''%g'') (Positional [a]) = Inr (S ''1.50000e+02'')"
proof -
  let ?t = "\<lparr>tk_mapping = None, tk_intmapping = None, tk_flags = [], tk_minWidth = [],
       tk_period = False, tk_precision = [], tk_specifier = 103\<rparr>"
  have t: "tokenize [] (S ''%g'') = [Directive ?t]" by code_simp
  have f: "compile_token ?t = field_init" by code_simp
  have r: "drop_point_zero (drop_point_e (trim_zeros (S ''1.50000e+20''))) = S ''1.50000e+2''"
    by code_simp
  have e: "two_digit_exponent 45 (two_digit_exponent 43 (S ''1.50000e+2'')) = S ''1.50000e+02''"
    "toLowerCase (S ''1.50000e+02'') = S ''1.50000e+02''"
    by code_simp+
  have n: "double_notation 103 field_init x = Inr (S ''1.50000e+2'')"
    using r assms(2,3) by (simp add: double_notation_def field_init_def)
  have d: "formatDouble lib ?t field_init a = Inr (S ''1.50000e+02'')"
    using e assms(1) by (simp add: formatDouble_def n Let_def) (simp add: field_init_def)
  have "fitField field_init s = s" for s
    using pad_to_replicate [of 32 False 0 s] by (simp add: fitField_def field_init_def spacePad_def add_pad_def)
  then show ?thesis
    by (simp add: printf_def t is_mapped_def format_token_def next_arg_def setArg_def setMaxWidth_def
        star_width_def star_precision_def f format_arg_def base_of_def d)
qed

lemma tokenize_precision:
  assumes "w \<le> 9"
  shows "tokenize [] [37, 46, 48 + w, 115] =
    [Directive \<lparr>tk_mapping = None, tk_intmapping = None, tk_flags = [], tk_minWidth = [],
       tk_period = True, tk_precision = [48 + w], tk_specifier = 115\<rparr>]"
  using assms
  by (simp add: tokenize.simps(2) re_directive_def re_mapping_def span_def re_width_def is_flag_def is_dec_def
      is_spec_def Let_def)

text \<open>
  A precision does not shorten a string: the text \<open>fitField\<close> cuts is returned and lost,
  so \<open>%.ws\<close> writes a string longer than the precision in full.
\<close>

theorem printf_string_not_cut:
  assumes "1 \<le> w" and "w \<le> 9" and "w < length s"
  shows "printf lib [37, 46, 48 + w, 115] (Positional [AStr s]) = Inr s"
  unfolding printf_def tokenize_precision [OF assms(2)] Let_def
  using assms
  by (simp add: is_mapped_def format_token_def next_arg_def setArg_def setMaxWidth_def
      star_width_def star_precision_def compile_token_def read_flags_def field_init_def
      width_digit format_arg_def base_of_def spec_codes fitField_def)

theorem printf_string_not_cut_witness:
  "printf no_fractions [37, 46, 50, 115]
     (Positional [AStr [65, 66, 67]]) = Inr [65, 66, 67]"
  using printf_string_not_cut [of 2 "[65, 66, 67]"] by simp

end
