(* ===== verification/UploadForm.thy ===== *)
theory UploadForm
  imports Requests
begin

text \<open>
  Uploading sysex files: the browser builds a multipart form in which each file travels in
  hexadecimal (\<open>$.multipartFormData\<close> in \<open>src/main/js/mpxedit.js\<close>), the server parses the form
  (\<open>form_parse\<close> in \<open>src/lib/form.js\<close>), decodes the files and sends the ones that are sysex
  messages (the \<open>/upload\<close> branch of \<open>POST\<close> in \<open>src/mpxg2-dev/main.js\<close>).  The position in the
  data is the list of the bytes that are left.
\<close>

section \<open>The parser\<close>

datatype body = Bytes "nat list" | Body_text jstring

record form_item =
  fi_headers :: "jstring \<Rightarrow> jstring option"
  fi_form_data :: "jstring \<Rightarrow> jstring option"
  fi_body :: "body option"

definition parse_error :: js_error where
  "parse_error = Throw (S ''form parse error'')"

text \<open>\<open>name="value"\<close>, the part of a content disposition after the first.\<close>

definition disposition_val :: "jstring \<Rightarrow> (jstring \<Rightarrow> jstring option) \<Rightarrow> (jstring \<Rightarrow> jstring option) res" where
  "disposition_val val0 fd =
     (let val = trim val0;
          fd_name = takeWhile (\<lambda>c. c \<noteq> 61) val;
          j = length fd_name
      in if j = length val then Inl parse_error
         else if j + 1 \<ge> length val \<or> val ! (j + 1) \<noteq> 34 \<or> last val \<noteq> 34 then Inl parse_error
         else Inr (fd(fd_name \<mapsto> take (length val - (j + 1) - 2) (drop (j + 2) val))))"

fun disposition_vals ::
  "jstring list \<Rightarrow> (jstring \<Rightarrow> jstring option) \<Rightarrow> (jstring \<Rightarrow> jstring option) res" where
  "disposition_vals [] fd = Inr fd"
| "disposition_vals (v # vs) fd =
     (case disposition_val v fd of Inl e \<Rightarrow> Inl e | Inr fd' \<Rightarrow> disposition_vals vs fd')"

definition disposition ::
  "jstring \<Rightarrow> (jstring \<Rightarrow> jstring option) \<Rightarrow> (jstring \<Rightarrow> jstring option) res" where
  "disposition header_value fd =
     (let vs = split_on 59 header_value
      in if toLowerCase (trim (hd vs)) = S ''form-data'' then disposition_vals (tl vs) fd
         else Inl parse_error)"

text \<open>
  The headers of a part.  The test \<open>header_name.length=0\<close> is an assignment and never leaves
  the loop.
\<close>

function parse_headers ::
  "nat list \<Rightarrow> (jstring \<Rightarrow> jstring option) \<Rightarrow> (jstring \<Rightarrow> jstring option) \<Rightarrow>
   ((jstring \<Rightarrow> jstring option) \<times> (jstring \<Rightarrow> jstring option) \<times> nat list) res" where
  "parse_headers r h fd =
     (let header_name = takeWhile (\<lambda>c. c \<noteq> 58 \<and> c \<noteq> 13) r;
          r1 = drop (length header_name) r
      in if r1 = [] \<or> hd r1 \<noteq> 58 then Inl parse_error
         else
           let header_value = takeWhile (\<lambda>c. c \<noteq> 13) (tl r1);
               r3 = drop (length header_value) (tl r1)
           in if r3 = [] then Inl parse_error
              else
                let nm = toLowerCase (trim header_name); v = trim header_value
                in case (if nm = S ''content-disposition'' then disposition v fd else Inr fd) of
                     Inl e \<Rightarrow> Inl e
                   | Inr fd' \<Rightarrow>
                       if length r3 < 4 then Inl parse_error
                       else
                         let r4 = drop 2 r3
                         in if hd r4 = 13 then Inr (h(nm \<mapsto> v), fd', drop 2 r4)
                            else parse_headers r4 (h(nm \<mapsto> v)) fd')"
  by pat_completeness auto
termination
  by (relation "measure (\<lambda>(r, h, fd). length r)") auto

declare parse_headers.simps [simp del]

text \<open>The body, up to the marker; there is an error when the marker does not come.\<close>

fun find_marker :: "nat list \<Rightarrow> nat list \<Rightarrow> nat list \<Rightarrow> (nat list \<times> nat list) res" where
  "find_marker marker acc [] = (if marker = [] then Inr (acc, []) else Inl parse_error)"
| "find_marker marker acc (c # r) =
     (if length (c # r) < length marker then Inl parse_error
      else if take (length marker) (c # r) = marker then Inr (acc, c # r)
      else find_marker marker (acc @ [c]) r)"

definition make_item ::
  "(jstring \<Rightarrow> jstring option) \<Rightarrow> (jstring \<Rightarrow> jstring option) \<Rightarrow> nat list \<Rightarrow> form_item" where
  "make_item h fd bs =
     \<lparr>fi_headers = h, fi_form_data = fd,
      fi_body = (if bs = [] then None
                 else if fd (S ''filename'') \<noteq> None \<and> fd (S ''filename'') \<noteq> Some [] then Some (Bytes bs)
                 else Some (Body_text bs))\<rparr>"

lemma parse_headers_length: "parse_headers r h fd = Inr (h', fd', r') \<Longrightarrow> length r' < length r"
proof (induction r h fd rule: parse_headers.induct)
  case (1 r h fd)
  define n where "n = takeWhile (\<lambda>c. c \<noteq> 58 \<and> c \<noteq> 13) r"
  define r1 where "r1 = drop (length n) r"
  define v where "v = takeWhile (\<lambda>c. c \<noteq> 13) (tl r1)"
  define r3 where "r3 = drop (length v) (tl r1)"
  have l: "length (drop 2 r3) < length r" if "\<not> length r3 < 4"
    using that by (auto simp: r3_def r1_def)
  show ?case
    using 1(2) 1(1) [OF n_def r1_def _ v_def r3_def _ refl refl _ _ refl] l
    by (subst (asm) parse_headers.simps)
      (fastforce simp: Let_def simp flip: n_def r1_def v_def r3_def split: if_splits sum.splits)
qed

lemma find_marker_length: "find_marker m acc r = Inr (bs, r') \<Longrightarrow> length r' \<le> length r"
  by (induction m acc r rule: find_marker.induct) (auto split: if_splits)

function parse_items :: "nat list \<Rightarrow> nat list \<Rightarrow> form_item list res" where
  "parse_items marker r =
     (case parse_headers (drop 2 r) Map.empty Map.empty of
        Inl e \<Rightarrow> Inl e
      | Inr (h, fd, r1) \<Rightarrow>
          (case find_marker marker [] r1 of
             Inl e \<Rightarrow> Inl e
           | Inr (bs, r2) \<Rightarrow>
               let r3 = drop (length marker) r2
               in if length r3 < 2 then Inl parse_error
                  else if r3 ! 0 = 45 \<and> r3 ! 1 = 45 then Inr [make_item h fd bs]
                  else map_sum id ((#) (make_item h fd bs)) (parse_items marker r3)))"
  by pat_completeness auto
termination
proof (relation "measure (\<lambda>(marker, r). length r)")
  fix marker r :: "nat list" and b h p fd r1 b' bs r2 r3
  assume "parse_headers (drop 2 r) Map.empty Map.empty = Inr b" "(h, p) = b" "(fd, r1) = p"
    "find_marker marker [] r1 = Inr b'" "(bs, r2) = b'" "r3 = drop (length marker) r2"
  then have "length r1 < length (drop 2 r)" "length r2 \<le> length r1"
    using parse_headers_length find_marker_length by blast+
  then show "((marker, r3), marker, r) \<in> measure (\<lambda>(marker, r). length r)"
    using \<open>r3 = drop (length marker) r2\<close> by auto
qed simp

declare parse_items.simps [simp del]

definition form_parse :: "nat list \<Rightarrow> form_item list res" where
  "form_parse data =
     (let line = takeWhile (\<lambda>c. c \<noteq> 13) data; r = drop (length line) data
      in if r = [] then Inl parse_error else parse_items ([13, 10] @ line) r)"

text \<open>
  A text is identified with the bytes that carry it, which it is as long as its characters are ASCII; the UTF-8
  encoding of other characters in the names of files is not modelled.  \<open>form_receive\<close> joins the chunks of a request with a \<open>buffer\<close> that the file never defines;
  without a body the parser is called on \<open>undefined\<close>.
\<close>

definition form_receive :: "nat list list \<Rightarrow> form_item list res" where
  "form_receive chunks =
     (case chunks of [] \<Rightarrow> Inl TypeError | [c] \<Rightarrow> form_parse c | _ \<Rightarrow> Inl ReferenceError)"

section \<open>The sender\<close>

record upload =
  up_formBoundary :: "jstring option"
  up_payload :: jstring

definition CRLF :: jstring where
  "CRLF = [13, 10]"

definition dispo_file :: jstring where
  "dispo_file = S ''Content-Disposition: form-data; name='' @ [34] @ S ''file'' @ [34] @ S ''; filename='' @ [34]"

text \<open>The boundary is made up at random by the first call; \<open>b\<close> stands for it.\<close>

definition start_part :: "jstring \<Rightarrow> upload \<Rightarrow> jstring" where
  "start_part b u = (case up_formBoundary u of None \<Rightarrow> b @ CRLF | Some _ \<Rightarrow> up_payload u @ CRLF)"

definition getFormBoundary :: "jstring \<Rightarrow> upload \<Rightarrow> jstring" where
  "getFormBoundary b u = (case up_formBoundary u of None \<Rightarrow> b | Some b' \<Rightarrow> b')"

definition hex_text :: "nat list \<Rightarrow> jstring" where
  "hex_text bs = concat (map (\<lambda>c. (if c < 16 then [48] else []) @ int_to_string 16 (int c)) bs)"

definition payload_addFile :: "jstring \<Rightarrow> jstring \<times> nat list \<Rightarrow> upload \<Rightarrow> upload" where
  "payload_addFile b file u =
     \<lparr>up_formBoundary = Some (getFormBoundary b u),
      up_payload = start_part b u @ dispo_file @ fst file @ [34] @ CRLF @
        S ''Content-Type: text/plain'' @ CRLF @ CRLF @ hex_text (snd file) @ CRLF @ getFormBoundary b u\<rparr>"

definition payload_addField :: "jstring \<Rightarrow> jstring \<Rightarrow> jstring \<Rightarrow> upload \<Rightarrow> upload" where
  "payload_addField b name value u =
     \<lparr>up_formBoundary = Some (getFormBoundary b u),
      up_payload = start_part b u @ S ''Content-Disposition: form-data; name='' @ [34] @ name @ [34] @ CRLF @
        CRLF @ value @ CRLF @ getFormBoundary b u\<rparr>"

definition payload_send :: "upload \<Rightarrow> jstring" where
  "payload_send u = up_payload u @ S ''--'' @ CRLF @ CRLF"

definition addFileList :: "jstring \<Rightarrow> (jstring \<times> nat list) list \<Rightarrow> jstring" where
  "addFileList b files =
     payload_send (fold (payload_addFile b) files \<lparr>up_formBoundary = None, up_payload = []\<rparr>)"

section \<open>The server's answer to an upload\<close>

text \<open>Pairs of hexadecimal digits; a missing second one is the character 0.\<close>

fun hex_bytes :: "nat list \<Rightarrow> jnum list" where
  "hex_bytes [] = []"
| "hex_bytes [c] = [parse_int (Some 16) [c, 0]]"
| "hex_bytes (c # d # s) = parse_int (Some 16) [c, d] # hex_bytes s"

definition uploaded_data :: "form_item \<Rightarrow> jnum list option" where
  "uploaded_data item =
     (case fi_body item of
        None \<Rightarrow> None
      | Some (Body_text t) \<Rightarrow> None
      | Some (Bytes bs) \<Rightarrow>
          if fi_headers item (S ''content-type'') = Some (S ''application/octet-stream'')
          then Some (map (\<lambda>c. Some (int c)) bs)
          else if fi_headers item (S ''content-type'') = Some (S ''text/plain'') then Some (hex_bytes bs)
          else None)"

definition is_sysex :: "jnum list \<Rightarrow> bool" where
  "is_sysex d \<longleftrightarrow> d \<noteq> [] \<and> hd d = Some 0xF0 \<and> last d = Some 0xF7"

definition upload_messages :: "form_item list \<Rightarrow> jnum list list" where
  "upload_messages items = filter is_sysex (List.map_filter uploaded_data items)"

section \<open>What is sent is received\<close>

definition part :: "jstring \<Rightarrow> jstring \<times> nat list \<Rightarrow> jstring" where
  "part b file = dispo_file @ fst file @ [34] @ CRLF @ S ''Content-Type: text/plain'' @ CRLF @
     CRLF @ hex_text (snd file) @ CRLF @ b"

lemma fold_addFile:
  "up_formBoundary u = Some b \<Longrightarrow>
   up_payload (fold (payload_addFile b) files u) =
     up_payload u @ concat (map (\<lambda>f. CRLF @ part b f) files)"
  by (induction files arbitrary: u)
    (simp_all add: payload_addFile_def start_part_def getFormBoundary_def part_def)

lemma addFileList_parts:
  assumes "files \<noteq> []"
  shows "addFileList b files = b @ concat (map (\<lambda>f. CRLF @ part b f) files) @ S ''--'' @ CRLF @ CRLF"
proof -
  obtain f fs where f: "files = f # fs" using assms by (cases files) auto
  show ?thesis
    by (simp add: f addFileList_def payload_send_def fold_addFile payload_addFile_def start_part_def
        getFormBoundary_def part_def)
qed

lemma parse_headers_line:
  assumes "\<forall>c \<in> set name. c \<noteq> 58 \<and> c \<noteq> 13" and "13 \<notin> set val"
  shows "parse_headers (name @ 58 # val @ 13 # 10 # rest) h fd =
    (case (if toLowerCase (trim name) = S ''content-disposition'' then disposition (trim val) fd else Inr fd) of
       Inl e \<Rightarrow> Inl e
     | Inr fd' \<Rightarrow>
         if length rest < 2 then Inl parse_error
         else if hd rest = 13
           then Inr (h(toLowerCase (trim name) \<mapsto> trim val), fd', drop 2 rest)
         else parse_headers rest (h(toLowerCase (trim name) \<mapsto> trim val)) fd')"
proof -
  have n: "takeWhile (\<lambda>c. c \<noteq> 58 \<and> c \<noteq> 13) (name @ 58 # val @ 13 # 10 # rest) = name"
    using assms(1) by (subst takeWhile_append2) auto
  have v: "takeWhile (\<lambda>c. c \<noteq> 13) (val @ 13 # 10 # rest) = val"
    using assms(2) by (subst takeWhile_append2) auto
  show ?thesis
    by (subst parse_headers.simps) (simp add: n v Let_def cong: if_cong split: sum.split)
qed

lemma trim_lead:
  "s \<noteq> [] \<Longrightarrow> \<not> is_ws (hd s) \<Longrightarrow> \<not> is_ws (last s) \<Longrightarrow> is_ws w \<Longrightarrow> trim (w # s) = s"
  "s \<noteq> [] \<Longrightarrow> \<not> is_ws (hd s) \<Longrightarrow> \<not> is_ws (last s) \<Longrightarrow> trim s = s"
proof -
  assume s: "s \<noteq> []" "\<not> is_ws (hd s)" "\<not> is_ws (last s)"
  have a: "dropWhile is_ws s = s" using s by (cases s) auto
  have b: "dropWhile is_ws (rev s) = rev s" using s by (cases s rule: rev_cases) auto
  show "trim s = s" by (simp add: trim_def a b)
  assume "is_ws w"
  then show "trim (w # s) = s" by (simp add: trim_def a b)
qed

definition good_name :: "jstring \<Rightarrow> bool" where
  "good_name n \<longleftrightarrow> n \<noteq> [] \<and> (\<forall>c \<in> set n. c \<noteq> 13 \<and> c \<noteq> 34 \<and> c \<noteq> 59)"

lemma disposition_val_quoted:
  assumes "61 \<notin> set k" and "k \<noteq> []" and "\<not> is_ws (hd k)"
  shows "disposition_val (32 # k @ [61, 34] @ v @ [34]) fd = Inr (fd(k \<mapsto> v))"
proof -
  let ?s = "k @ [61, 34] @ v @ [34]"
  have t: "trim (32 # ?s) = ?s"
    using assms(2,3) by (intro trim_lead) (auto simp: is_ws_def)
  have n: "takeWhile (\<lambda>c. c \<noteq> 61) ?s = k"
    using assms(1) by (subst takeWhile_append2) auto
  show ?thesis
    unfolding disposition_val_def t Let_def n by (simp add: nth_append)
qed

lemma is_ws_codes: "\<not> is_ws 34" "\<not> is_ws 102" "\<not> is_ws 110" "is_ws 32"
  by (simp_all add: is_ws_def)

definition dispo_value :: "jstring \<Rightarrow> jstring" where
  "dispo_value n = S ''form-data'' @ 59 # (32 # S ''name'' @ [61, 34] @ S ''file'' @ [34]) @
     59 # (32 # S ''filename'' @ [61, 34] @ n @ [34])"

lemma disposition_file:
  assumes "good_name n"
  shows "disposition (dispo_value n) Map.empty = Inr [S ''name'' \<mapsto> S ''file'', S ''filename'' \<mapsto> n]"
proof -
  have sp: "split_on 59 (dispo_value n) =
      [S ''form-data'', 32 # S ''name'' @ [61, 34] @ S ''file'' @ [34], 32 # S ''filename'' @ [61, 34] @ n @ [34]]"
  proof -
    have a: "59 \<notin> set (S ''form-data'')" "59 \<notin> set (32 # S ''name'' @ [61, 34] @ S ''file'' @ [34])"
      by (simp_all add: js_eval)
    have b: "59 \<notin> set (32 # S ''filename'' @ [61, 34] @ n @ [34])"
      using assms by (auto simp: good_name_def js_eval)
    show ?thesis
      unfolding dispo_value_def split_on_append [OF a(1)] split_on_append [OF a(2)]
        split_on_single [OF b] by (rule refl)
  qed
  have f: "toLowerCase (trim (S ''form-data'')) = S ''form-data''"
    by (simp add: trim_def is_ws_def toLowerCase_def lower1_def js_eval)
  have 1: "disposition_val (32 # S ''name'' @ [61, 34] @ S ''file'' @ [34]) fd = Inr (fd(S ''name'' \<mapsto> S ''file''))" for fd
    by (rule disposition_val_quoted) (simp_all add: js_eval is_ws_def)
  have 2: "disposition_val (32 # S ''filename'' @ [61, 34] @ n @ [34]) fd = Inr (fd(S ''filename'' \<mapsto> n))" for fd
    by (rule disposition_val_quoted) (simp_all add: js_eval is_ws_def)
  show ?thesis
    by (simp only: disposition_def sp f Let_def list.sel if_True disposition_vals.simps 1 2 sum.case
        simp_thms)
qed

lemma hex_text_chars: "bytes bs \<Longrightarrow> \<forall>c \<in> set (hex_text bs). is_digit 16 c"
  using digits_of_digits [of 16] is_digit_def [of 16 48]
  by (auto simp: hex_text_def int_to_string_def digit_value_def split: if_splits)

lemma hex_text_no_cr: "bytes bs \<Longrightarrow> 13 \<notin> set (hex_text bs)"
  using hex_text_chars [of bs] by (auto simp: is_digit_def digit_value_def)

lemma part_headers:
  assumes "good_name n"
  shows "parse_headers (part b (n, bs) @ tail) Map.empty Map.empty =
    Inr ([S ''content-disposition'' \<mapsto> dispo_value n, S ''content-type'' \<mapsto> S ''text/plain''],
         [S ''name'' \<mapsto> S ''file'', S ''filename'' \<mapsto> n], hex_text bs @ CRLF @ b @ tail)"
proof -
  let ?rest = "S ''Content-Type'' @ 58 # (S '' text/plain'') @ 13 # 10 # CRLF @ hex_text bs @ CRLF @ b @ tail"
  have p: "part b (n, bs) @ tail = S ''Content-Disposition'' @ 58 # (32 # dispo_value n) @ 13 # 10 # ?rest"
    by (simp add: part_def dispo_file_def dispo_value_def CRLF_def js_eval)
  have lower: "toLowerCase (trim (S ''Content-Disposition'')) = S ''content-disposition''"
    "toLowerCase (trim (S ''Content-Type'')) = S ''content-type''"
    "trim (S '' text/plain'') = S ''text/plain''"
    by (simp_all add: trim_def is_ws_def toLowerCase_def lower1_def js_eval)
  have ne: "S ''content-type'' \<noteq> S ''content-disposition''" by (simp add: js_eval)
  have tv: "trim (32 # dispo_value n) = dispo_value n"
    by (rule trim_lead) (simp_all add: dispo_value_def js_eval is_ws_def)
  have nocr: "13 \<notin> set (32 # dispo_value n)"
    using assms by (auto simp: dispo_value_def good_name_def js_eval)
  have c1: "\<forall>c \<in> set (S ''Content-Disposition''). c \<noteq> 58 \<and> c \<noteq> 13"
    and c2: "\<forall>c \<in> set (S ''Content-Type''). c \<noteq> 58 \<and> c \<noteq> 13" and c3: "13 \<notin> set (S '' text/plain'')"
    by (simp_all add: js_eval)
  have r: "\<not> length ?rest < 2" "hd ?rest \<noteq> 13" by (simp_all add: js_eval)
  have one: "parse_headers (part b (n, bs) @ tail) Map.empty Map.empty =
      parse_headers ?rest [S ''content-disposition'' \<mapsto> dispo_value n]
        [S ''name'' \<mapsto> S ''file'', S ''filename'' \<mapsto> n]"
    unfolding p parse_headers_line [OF c1 nocr] lower tv
    using r by (simp only: if_False if_True simp_thms disposition_file [OF assms] sum.case)
  have two: "\<not> length (CRLF @ hex_text bs @ CRLF @ b @ tail) < 2" "hd (CRLF @ hex_text bs @ CRLF @ b @ tail) = 13"
    "drop 2 (CRLF @ hex_text bs @ CRLF @ b @ tail) = hex_text bs @ CRLF @ b @ tail"
    by (simp_all add: CRLF_def)
  show ?thesis
    unfolding one parse_headers_line [OF c2 c3] lower
    using ne two by (simp only: if_False sum.case simp_thms if_True)
qed

lemma find_marker_skip:
  "13 \<notin> set xs \<Longrightarrow> find_marker (13 # m) acc (xs @ 13 # m @ tail) = Inr (acc @ xs, 13 # m @ tail)"
  by (induction xs arbitrary: acc) auto

definition file_item :: "jstring \<times> nat list \<Rightarrow> form_item" where
  "file_item file =
     make_item [S ''content-disposition'' \<mapsto> dispo_value (fst file), S ''content-type'' \<mapsto> S ''text/plain'']
       [S ''name'' \<mapsto> S ''file'', S ''filename'' \<mapsto> fst file] (hex_text (snd file))"

lemma parse_items_file:
  assumes "good_name (fst f)" and "bytes (snd f)" and "2 \<le> length tail"
  shows "parse_items (CRLF @ b) (CRLF @ part b f @ tail) =
    (if tail ! 0 = 45 \<and> tail ! 1 = 45 then Inr [file_item f]
     else map_sum id ((#) (file_item f)) (parse_items (CRLF @ b) tail))"
proof -
  obtain n bs where f: "f = (n, bs)" by (cases f)
  have h: "parse_headers (drop 2 (CRLF @ part b (n, bs) @ tail)) Map.empty Map.empty =
     Inr ([S ''content-disposition'' \<mapsto> dispo_value n, S ''content-type'' \<mapsto> S ''text/plain''],
         [S ''name'' \<mapsto> S ''file'', S ''filename'' \<mapsto> n], hex_text bs @ CRLF @ b @ tail)"
    using part_headers [of n b bs tail] assms(1) by (simp add: f CRLF_def)
  have m: "find_marker (CRLF @ b) [] (hex_text bs @ CRLF @ b @ tail) = Inr (hex_text bs, CRLF @ b @ tail)"
    using find_marker_skip [OF hex_text_no_cr, of bs "10 # b" "[]" tail] assms(2) by (simp add: f CRLF_def)
  have d: "drop (length (CRLF @ b)) (CRLF @ b @ tail) = tail" by simp
  show ?thesis
    by (subst parse_items.simps)
      (use assms(3) in \<open>simp only: h m d sum.case prod.case Let_def file_item_def f fst_conv snd_conv
          not_less [symmetric] simp_thms if_False\<close>)
qed

lemma parse_items_files:
  assumes "files \<noteq> []" and "\<forall>f \<in> set files. good_name (fst f) \<and> bytes (snd f)"
  shows "parse_items (CRLF @ b) (concat (map (\<lambda>f. CRLF @ part b f) files) @ S ''--'' @ CRLF @ CRLF) =
    Inr (map file_item files)"
  using assms
proof (induction files)
  case (Cons f fs)
  let ?tail = "concat (map (\<lambda>f. CRLF @ part b f) fs) @ S ''--'' @ CRLF @ CRLF"
  have t: "2 \<le> length ?tail" by (simp add: CRLF_def)
  have e: "parse_items (CRLF @ b) (CRLF @ part b f @ ?tail) =
    (if ?tail ! 0 = 45 \<and> ?tail ! 1 = 45 then Inr [file_item f]
     else map_sum id ((#) (file_item f)) (parse_items (CRLF @ b) ?tail))"
    using Cons.prems by (intro parse_items_file t) auto
  show ?case
  proof (cases "fs = []")
    case True
    then show ?thesis using e by (simp add: js_eval)
  next
    case False
    then have "?tail ! 0 = 13" by (cases fs) (simp_all add: CRLF_def)
    then show ?thesis using e Cons False by simp
  qed
qed simp

text \<open>The hexadecimal text of a byte is its two digits, and the two digits are the byte.\<close>

lemma digits_two:
  "c < 256 \<Longrightarrow> (if c < 16 then [48] else []) @ int_to_string 16 (int c) = [digit_char (c div 16), digit_char (c mod 16)]"
  by (auto simp: int_to_string_def digits_of.simps [of 16] digit_char_def)

lemma hex_pair: "c < 256 \<Longrightarrow> parse_int (Some 16) [digit_char (c div 16), digit_char (c mod 16)] = Some (int c)"
proof -
  assume c: "c < 256"
  let ?d = "[digit_char (c div 16), digit_char (c mod 16)]"
  have a: "c div 16 < 16" "c mod 16 < 16" using c by auto
  then have v: "digit_value (digit_char (c div 16)) = Some (c div 16)"
    "digit_value (digit_char (c mod 16)) = Some (c mod 16)"
    by (simp_all add: digit_value_char)
  have x: "strip_0x (?d @ []) = ?d @ []"
    by (auto simp: strip_0x_def digit_char_def)
  have "parse_int (Some 16) (?d @ []) = Some (int (digits_value 16 ?d))"
    using a v x by (intro parse_int_digits) (auto simp: is_digit_def)
  then show ?thesis
    using v by (simp add: digits_value_def)
qed

lemma hex_bytes_text: "bytes bs \<Longrightarrow> hex_bytes (hex_text bs) = map (\<lambda>c. Some (int c)) bs"
proof (induction bs)
  case (Cons c bs)
  have h: "hex_text (c # bs) = [digit_char (c div 16), digit_char (c mod 16)] @ hex_text bs"
    using digits_two [of c] Cons.prems by (simp add: hex_text_def)
  show ?case
    using Cons hex_pair [of c] by (simp only: h bytes_simps append.simps hex_bytes.simps list.map)
qed (simp add: hex_text_def)

lemma hex_text_ne: "bs \<noteq> [] \<Longrightarrow> hex_text bs \<noteq> []"
  by (cases bs) (auto simp: hex_text_def int_to_string_def)

lemma uploaded_file:
  assumes "good_name (fst f)" and "bytes (snd f)" and "snd f \<noteq> []"
  shows "fi_form_data (file_item f) (S ''filename'') = Some (fst f)"
    and "uploaded_data (file_item f) = Some (map (\<lambda>c. Some (int c)) (snd f))"
proof -
  have t: "S ''text/plain'' \<noteq> S ''application/octet-stream''" by (simp add: js_eval)
  have b: "fi_body (file_item f) = Some (Bytes (hex_text (snd f)))"
    using assms(1) hex_text_ne [OF assms(3)] by (simp add: file_item_def make_item_def good_name_def)
  have h: "fi_headers (file_item f) (S ''content-type'') = Some (S ''text/plain'')"
    by (simp add: file_item_def make_item_def)
  show "uploaded_data (file_item f) = Some (map (\<lambda>c. Some (int c)) (snd f))"
    using t by (simp add: uploaded_data_def b h hex_bytes_text [OF assms(2)])
  show "fi_form_data (file_item f) (S ''filename'') = Some (fst f)"
    by (simp add: file_item_def make_item_def)
qed

lemma form_parse_files:
  assumes "files \<noteq> []" and "13 \<notin> set b" and "\<forall>f \<in> set files. good_name (fst f) \<and> bytes (snd f)"
  shows "form_receive [addFileList b files] = Inr (map file_item files)"
proof -
  let ?rest = "concat (map (\<lambda>f. CRLF @ part b f) files) @ S ''--'' @ CRLF @ CRLF"
  obtain r where r: "?rest = 13 # r" using assms(1) by (cases files) (auto simp: CRLF_def)
  have line: "takeWhile (\<lambda>c. c \<noteq> 13) (b @ 13 # r) = b"
    using assms(2) by (subst takeWhile_append2) auto
  have "addFileList b files = b @ 13 # r"
    unfolding addFileList_parts [OF assms(1)] r ..
  then have "form_receive [addFileList b files] = parse_items ([13, 10] @ b) (13 # r)"
    by (simp add: form_receive_def form_parse_def Let_def line)
  then show ?thesis
    using parse_items_files [OF assms(1,3), of b] unfolding r by (simp only: CRLF_def append.simps)
qed

text \<open>C15: files that are not empty, sent by the page in one form (whatever the boundary, without
  a carriage return in it, and with ordinary names) and arriving in one chunk, are parsed by the
  server into one part per file, with its name, and the server sends to the MIDI output exactly
  the contents that are sysex messages, byte for byte and in order.\<close>
theorem uploaded_files_sent:
  assumes "files \<noteq> []" and "13 \<notin> set b"
    and "\<forall>f \<in> set files. good_name (fst f) \<and> bytes (snd f) \<and> snd f \<noteq> []"
  shows "\<exists>items. form_receive [addFileList b files] = Inr items
    \<and> map (\<lambda>i. fi_form_data i (S ''filename'')) items = map (Some \<circ> fst) files
    \<and> upload_messages items = filter is_sysex (map (\<lambda>f. map (\<lambda>c. Some (int c)) (snd f)) files)"
proof (intro exI conjI)
  show "form_receive [addFileList b files] = Inr (map file_item files)"
    using assms by (intro form_parse_files) auto
  show "map (\<lambda>i. fi_form_data i (S ''filename'')) (map file_item files) = map (Some \<circ> fst) files"
    using assms(3) uploaded_file(1) by auto
  have "List.map_filter uploaded_data (map file_item files) = map (\<lambda>f. map (\<lambda>c. Some (int c)) (snd f)) files"
    using assms(3) by (induction files) (simp_all add: uploaded_file(2) del: map_map)
  then show "upload_messages (map file_item files) =
      filter is_sysex (map (\<lambda>f. map (\<lambda>c. Some (int c)) (snd f)) files)"
    by (simp only: upload_messages_def)
qed

theorem uploaded_files_sent_witness:
  "\<exists>items. form_receive [addFileList [45, 49] [([97], [0xF0, 6, 0xF7]), ([98], [1])]] = Inr items
    \<and> map (\<lambda>i. fi_form_data i (S ''filename'')) items = [Some [97], Some [98]]
    \<and> upload_messages items = [[Some 0xF0, Some 6, Some 0xF7]]"
  using uploaded_files_sent [of "[([97], [0xF0, 6, 0xF7]), ([98], [1])]" "[45, 49]"]
  by (simp add: good_name_def is_sysex_def)

end
