(* ===== verification/Library.thy ===== *)
theory Library
  imports Requests
begin

text \<open>
  Program dumps (\<open>src/mpxg2-dev/main.js\<close> and \<open>src/mpxg2-dev/lexicon.js\<close>): the library of
  programs that grows with every dump received, the dump of all programs with its bank and
  its timeouts, the buttons pressed on the panel to start it, and the files the pages offer
  for download.  The hash of a dump is a parameter, \<open>hash\<close>; writing the library to disk is
  an entry of the list of effects.
\<close>

section \<open>Dumps that arrive\<close>

text \<open>The test \<open>/System.ProgramDump.*/\<close>: the dot stands for any character but a line end.\<close>

definition line_end :: "nat \<Rightarrow> bool" where
  "line_end c \<longleftrightarrow> c = 10 \<or> c = 13 \<or> c = 8232 \<or> c = 8233"

fun is_dump_path :: "jstring \<Rightarrow> bool" where
  "is_dump_path [] = False"
| "is_dump_path (c # s) =
     (take 6 (c # s) = S ''System'' \<and> length s > 5 \<and> \<not> line_end (s ! 5) \<and>
        take 11 (drop 6 s) = S ''ProgramDump''
      \<or> is_dump_path s)"

record prog =
  pr_name :: jstring
  pr_no :: "jnum option"
  pr_data :: "nat list"

record bank_entry =
  be_name :: jstring
  be_data :: "nat list"
  be_raw :: "nat list"

text \<open>
  Of the timer \<open>all_programs_dump_timeout\<close> only what it will do matters: give up, or
  finish.  \<open>dump_callback\<close> is the request that waits for the bank.  The variable
  \<open>writeLib_timeout\<close> is set as long as its timer is pending and afterwards.
\<close>

datatype dump_timer = Give_up nat | Finish

datatype answer = File "nat list" jstring | Page jstring | Done

datatype write_timer = No_timer | Pending | Fired

datatype lib_effect = Write_library | Answer_request nat answer

record library =
  lib_program :: "(jstring \<times> prog) list"
  dump_callback :: "nat option"
  all_programs_bank :: "(int \<times> bank_entry) list"
  dump_timeout :: "dump_timer option"
  writeLib_timeout :: write_timer
  lib_effects :: "lib_effect list"

text \<open>
  An element of the bank; an array is enumerated by ascending index, and an index that is
  not a number is a property \<open>forEach\<close> does not visit.
\<close>

fun bank_put :: "int \<Rightarrow> bank_entry \<Rightarrow> (int \<times> bank_entry) list \<Rightarrow> (int \<times> bank_entry) list" where
  "bank_put n b [] = [(n, b)]"
| "bank_put n b ((k, c) # bs) =
     (if n = k then (n, b) # bs else if n < k then (n, b) # (k, c) # bs else (k, c) # bank_put n b bs)"

definition bank_store ::
  "jnum option \<Rightarrow> bank_entry \<Rightarrow> (int \<times> bank_entry) list \<Rightarrow> (int \<times> bank_entry) list" where
  "bank_store n b bs = (case n of Some (Some v) \<Rightarrow> if 0 \<le> v then bank_put v b bs else bs | _ \<Rightarrow> bs)"

definition add_program :: "jstring \<Rightarrow> prog \<Rightarrow> (jstring \<times> prog) list \<Rightarrow> (jstring \<times> prog) list" where
  "add_program h p lib = (if map_of lib h = None then lib @ [(h, p)] else lib)"

definition program_dump_received :: "(nat list \<Rightarrow> jstring) \<Rightarrow> dmsg \<Rightarrow> library \<Rightarrow> library" where
  "program_dump_received hash dm st =
     (let st1 = st\<lparr>dump_timeout := None\<rparr>;
          programNumber = parseProgramAddr (dm_numLevels dm) (dm_levels dm);
          programName = getProgramName (dm_data dm);
          h = hash (dm_data dm);
          notInLib = (map_of (lib_program st1) h = None);
          st2 = st1\<lparr>lib_program := add_program h
                  \<lparr>pr_name = programName, pr_no = programNumber, pr_data = dm_data dm\<rparr> (lib_program st1)\<rparr>
      in if dump_callback st2 \<noteq> None then
           st2\<lparr>all_programs_bank := bank_store programNumber
                 \<lparr>be_name = programName, be_data = dm_data dm, be_raw = dm_raw dm\<rparr> (all_programs_bank st2),
               dump_timeout := Some Finish\<rparr>
         else if notInLib \<or> writeLib_timeout st2 \<noteq> No_timer then st2\<lparr>writeLib_timeout := Pending\<rparr> else st2)"

section \<open>The timers\<close>

text \<open>The answer to the request \<open>/dump?what=all_programs\<close>.\<close>

definition all_programs_file :: "(int \<times> bank_entry) list \<Rightarrow> nat list" where
  "all_programs_file bank = concat (map (be_raw \<circ> snd) bank)"

definition all_programs_answer :: "(int \<times> bank_entry) list \<Rightarrow> answer" where
  "all_programs_answer bank =
     (let sysex = all_programs_file bank
      in if sysex \<noteq> [] then File sysex (S ''attachment; filename=All_Programs.syx'')
         else Page (S ''nothing_to_dump.html''))"

text \<open>
  When the bank is complete the callback runs.  What is then reset is
  \<open>all_program_dump_callback\<close>, another name, so the callback stays.
\<close>

definition dump_timer_fires :: "library \<Rightarrow> library" where
  "dump_timer_fires st =
     (case dump_timeout st of
        None \<Rightarrow> st
      | Some (Give_up r) \<Rightarrow>
          st\<lparr>dump_timeout := None,
             lib_effects := lib_effects st @ [Answer_request r (all_programs_answer (all_programs_bank st))]\<rparr>
      | Some Finish \<Rightarrow>
          (case dump_callback st of
             None \<Rightarrow> st
           | Some r \<Rightarrow>
               st\<lparr>dump_timeout := None,
                  lib_effects := lib_effects st @
                    [Answer_request r (all_programs_answer (all_programs_bank st)), Write_library]\<rparr>))"

definition write_timer_fires :: "library \<Rightarrow> library" where
  "write_timer_fires st =
     (if writeLib_timeout st = Pending
      then st\<lparr>writeLib_timeout := Fired, lib_effects := lib_effects st @ [Write_library]\<rparr> else st)"

section \<open>Starting the dump of all programs\<close>

text \<open>
  The buttons pressed, the text the display must show, and what is done when it does not:
  the third failure gives up, and the request is never answered.
\<close>

definition menu_text :: "nat list" where
  "menu_text = [0x53,0x79,0x73,0x74,0x65,0x6d,0x20,0x73,0x65,0x6c,0x65,0x63,0x74,0x3a,0x20,0x01,
     0x1D,0x20,0x20,0x20,0x20,0x20,0x20,0x20,0x20,0x20,0x20,0x41,0x75,0x64,0x69,0x6F]"

definition midi_dump_text :: "nat list" where
  "midi_dump_text = [0x4d,0x49,0x44,0x49,0x00,0x44,0x75,0x6d,0x70,0x20,0x20,0x20,0x20,0x20,0x20,0x20,
     0x1e,0x20,0x20,0x20,0x41,0x6c,0x6c,0x20,0x50,0x72,0x6f,0x67,0x72,0x61,0x6d,0x73]"

definition displays :: "nat list \<Rightarrow> nat list \<Rightarrow> bool" where
  "displays expected data \<longleftrightarrow> (\<forall>i < length expected. rd data i = Some (int (expected ! i)))"

datatype command = Press nat | Ask_display | Set_dump nat

fun command_path :: "command \<Rightarrow> jstring" where
  "command_path (Press k) = S ''System.Panel.PnlButton''"
| "command_path Ask_display = S ''System.Panel.PnlDisply''"
| "command_path (Set_dump k) = S ''System.MIDI.Dump''"

datatype dump_phase =
    Menu nat
  | Dump_menu nat
  | Started
  | Given_up

definition dump_enter :: "command list" where
  "dump_enter = [Press 0x0b, Press 0x37, Press 0x0b, Press 0x37, Ask_display]"

definition dump_quit_option :: "command list" where
  "dump_quit_option = [Press 0x12, Press 0x3E]"

definition dump_select :: "command list" where
  "dump_select = [Press 0x42, Press 0x42] @ concat (replicate 10 [Press 0x3D, Press 0x11]) @ [Set_dump 1]"

definition dump_confirm :: "command list" where
  "dump_confirm = [Press 0x0F, Press 0x3B]"

text \<open>
  One answer of the display: the phase that follows, the commands sent (those after a delay
  included, up to the next question), and the state of the library.
\<close>

definition all_programs_dump_step ::
  "nat \<Rightarrow> dump_phase \<times> library \<Rightarrow> nat list \<Rightarrow> (dump_phase \<times> library) \<times> command list" where
  "all_programs_dump_step request s data =
     (case s of
        (Menu already, st) \<Rightarrow>
          if displays menu_text data then ((Dump_menu already, st), dump_select @ [Ask_display])
          else if already + 1 = 3 then ((Given_up, st), [])
          else ((Menu (already + 1), st), dump_quit_option @ dump_enter)
      | (Dump_menu already, st) \<Rightarrow>
          if displays midi_dump_text data then
            ((Started, st\<lparr>dump_callback := Some request, dump_timeout := Some (Give_up request),
                          all_programs_bank := []\<rparr>), dump_confirm)
          else if already + 1 = 3 then ((Given_up, st), [])
          else ((Menu (already + 1), st), dump_enter)
      | (p, st) \<Rightarrow> ((p, st), []))"

definition all_programs_dump_run ::
  "nat \<Rightarrow> nat list list \<Rightarrow> library \<Rightarrow> dump_phase \<times> library" where
  "all_programs_dump_run request answers st =
     foldl (\<lambda>s data. fst (all_programs_dump_step request s data)) (Menu 0, st) answers"

section \<open>One program\<close>

text \<open>The request for the dump of a program.\<close>

definition programDump :: "config \<Rightarrow> bool \<Rightarrow> jnum \<Rightarrow> dmsg asking res" where
  "programDump cfg ready programNumber =
     dataMessage_request cfg ready
       (By_levels (length (getProgramAddr programNumber)) (getProgramAddr programNumber))"

text \<open>The file offered: the dump, addressed to the current program.\<close>

definition program_file :: "device_ids \<Rightarrow> nat list \<Rightarrow> nat list" where
  "program_file ids data =
     [0xF0, COMPANY_ID ids, PRODUCT_ID ids, DEVICE_ID ids, nat DATA] @
     nibblize16 (Some (int (length data))) @ nibblize (map (\<lambda>d. Some (int d)) data) @
     [0x04,0x00,0x00,0x00,0x01,0x00,0x00,0x00,0x0A,0x00,0x00,0x00,0x02,0x00,0x00,0x00,0x04,0x06,0x00,0x00,0xF7]"

definition file_name :: "jstring \<Rightarrow> jstring" where
  "file_name programName =
     S ''attachment; filename='' @ map (\<lambda>c. if c = 32 then 95 else c) programName @ S ''.syx''"

text \<open>
  The answer to \<open>/dump?p=n\<close>; with \<open>list\<close> the next program is asked for, up to 300.
\<close>

datatype dump_reply = Reply answer | Next jnum

definition dump_answer :: "device_ids \<Rightarrow> bool \<Rightarrow> jnum \<Rightarrow> dmsg \<Rightarrow> dump_reply" where
  "dump_answer ids list p dm =
     (let programNumber = parseProgramAddr (dm_numLevels dm) (dm_levels dm);
          programName = getProgramName (dm_data dm)
      in if programName = [] then Reply (Page (S ''nothing_to_dump.html''))
         else if list then
           (case programNumber of
              Some (Some n) \<Rightarrow> if n < 250 \<or> (n > 250 \<and> n < 300) then Next (jadd p (Some 1)) else Reply Done
            | _ \<Rightarrow> Reply Done)
         else Reply (File (program_file ids (dm_data dm)) (file_name programName)))"

section \<open>The bank\<close>

definition number_of :: "dmsg \<Rightarrow> int option" where
  "number_of dm =
     (case parseProgramAddr (dm_numLevels dm) (dm_levels dm) of
        Some (Some v) \<Rightarrow> if 0 \<le> v then Some v else None
      | _ \<Rightarrow> None)"

text \<open>The last of a list of dumps for a program.\<close>

definition last_dump :: "dmsg list \<Rightarrow> int \<Rightarrow> dmsg" where
  "last_dump dms n = last (filter (\<lambda>dm. number_of dm = Some n) dms)"

definition numbers :: "dmsg list \<Rightarrow> int set" where
  "numbers dms = {n. \<exists>dm \<in> set dms. number_of dm = Some n}"

lemma bank_put_keys [simp]: "fst ` set (bank_put n b bs) = insert n (fst ` set bs)"
  by (induction n b bs rule: bank_put.induct) auto

lemma bank_put_sorted: "sorted_wrt (<) (map fst bs) \<Longrightarrow> sorted_wrt (<) (map fst (bank_put n b bs))"
proof (induction n b bs rule: bank_put.induct)
  case (2 n b k c bs)
  have "\<forall>x \<in> fst ` set (bank_put n b bs). k < x" if "\<not> n < k" "n \<noteq> k"
    using 2 that by auto
  then show ?case using 2 by (auto simp del: sorted_wrt_map)
qed simp

lemma bank_put_map_of [simp]: "map_of (bank_put n b bs) k = (if k = n then Some b else map_of bs k)"
  by (induction n b bs rule: bank_put.induct) auto

definition entry_of :: "dmsg \<Rightarrow> bank_entry" where
  "entry_of dm =
     \<lparr>be_name = getProgramName (dm_data dm), be_data = dm_data dm, be_raw = dm_raw dm\<rparr>"

lemma bank_store_number:
  "bank_store (parseProgramAddr (dm_numLevels dm) (dm_levels dm)) b bs =
     (case number_of dm of None \<Rightarrow> bs | Some n \<Rightarrow> bank_put n b bs)"
  by (auto simp: bank_store_def number_of_def split: option.splits)

lemma received_views:
  assumes "dump_callback st = Some r"
  shows "dump_callback (program_dump_received hash dm st) = Some r"
    and "dump_timeout (program_dump_received hash dm st) = Some Finish"
    and "lib_effects (program_dump_received hash dm st) = lib_effects st"
    and "all_programs_bank (program_dump_received hash dm st) =
      (case number_of dm of None \<Rightarrow> all_programs_bank st
       | Some n \<Rightarrow> bank_put n (entry_of dm) (all_programs_bank st))"
  using assms by (simp_all add: program_dump_received_def Let_def bank_store_number entry_of_def
      split: option.splits)

lemma last_dump_snoc:
  "last_dump (dms @ [dm]) n = (if number_of dm = Some n then dm else last_dump dms n)"
  by (simp add: last_dump_def)

lemma numbers_snoc:
  "numbers (dms @ [dm]) = (case number_of dm of None \<Rightarrow> numbers dms | Some n \<Rightarrow> insert n (numbers dms))"
  by (auto simp: numbers_def split: option.splits)

lemma finite_numbers: "finite (numbers dms)"
proof -
  have "numbers dms \<subseteq> (the \<circ> number_of) ` set dms" by (force simp: numbers_def)
  then show ?thesis by (rule finite_subset) simp
qed

lemma bank_after:
  assumes "dump_callback st = Some r" and "all_programs_bank st = []"
  shows "dump_callback (fold (program_dump_received hash) dms st) = Some r \<and>
    lib_effects (fold (program_dump_received hash) dms st) = lib_effects st \<and>
    (dms \<noteq> [] \<longrightarrow> dump_timeout (fold (program_dump_received hash) dms st) = Some Finish) \<and>
    sorted_wrt (<) (map fst (all_programs_bank (fold (program_dump_received hash) dms st))) \<and>
    fst ` set (all_programs_bank (fold (program_dump_received hash) dms st)) = numbers dms \<and>
    (\<forall>n \<in> numbers dms. map_of (all_programs_bank (fold (program_dump_received hash) dms st)) n =
       Some (entry_of (last_dump dms n)))"
proof (induction dms rule: rev_induct)
  case Nil
  then show ?case using assms by (simp add: numbers_def)
next
  case (snoc dm dms)
  let ?st = "fold (program_dump_received hash) dms st"
  have c: "dump_callback ?st = Some r" using snoc by blast
  show ?case
    using snoc received_views [OF c, of hash dm] bank_put_sorted
    by (auto simp: numbers_snoc last_dump_snoc simp del: sorted_wrt_map
        split: option.splits)
qed

lemma bank_listing:
  assumes "sorted_wrt (<) (map fst bs)" and "fst ` set bs = N" and "\<forall>n \<in> N. map_of bs n = Some (f n)"
  shows "bs = map (\<lambda>n. (n, f n)) (sorted_list_of_set (N :: int set))"
proof -
  have d: "distinct (map fst bs)" "sorted (map fst bs)"
    using assms(1) by (simp_all add: strict_sorted_iff)
  have keys: "map fst bs = sorted_list_of_set N"
    using d assms(2) by (metis list.set_map sorted_list_of_set.idem_if_sorted_distinct)
  have "x = (fst x, f (fst x))" if "x \<in> set bs" for x
  proof -
    have "map_of bs (fst x) = Some (snd x)" using that d(1) by (metis map_of_is_SomeI prod.collapse)
    moreover have "fst x \<in> N" using that assms(2) by blast
    ultimately show ?thesis using assms(3) by (metis option.inject prod.collapse)
  qed
  then have "map (\<lambda>n. (n, f n)) (map fst bs) = bs" by (simp add: map_idI)
  then show ?thesis by (simp only: keys)
qed

lemma all_programs_answered:
  assumes "dump_callback st = Some r" and "all_programs_bank st = []" and "dms \<noteq> []"
  shows "lib_effects (dump_timer_fires (fold (program_dump_received hash) dms st)) = lib_effects st @
    [Answer_request r (all_programs_answer
       (map (\<lambda>n. (n, entry_of (last_dump dms n))) (sorted_list_of_set (numbers dms)))), Write_library]"
proof -
  let ?st = "fold (program_dump_received hash) dms st"
  note after = bank_after [OF assms(1,2), of hash dms]
  have "all_programs_bank ?st =
      map (\<lambda>n. (n, entry_of (last_dump dms n))) (sorted_list_of_set (numbers dms))"
    using after by (intro bank_listing) blast+
  then show ?thesis using after assms(3) by (simp add: dump_timer_fires_def)
qed

text \<open>C21: when the device has sent the dumps of all programs, the request is answered once, with
  the messages of the programs in the order of their numbers, the last message of each program,
  and the library is written; with no numbered program the answer is the page that says so.\<close>
theorem all_programs_file_complete:
  assumes "dump_callback st = Some r" and "all_programs_bank st = []" and "dms \<noteq> []"
  defines "sysex \<equiv> concat (map (\<lambda>n. dm_raw (last_dump dms n)) (sorted_list_of_set (numbers dms)))"
  shows "lib_effects (dump_timer_fires (fold (program_dump_received hash) dms st)) = lib_effects st @
    [Answer_request r (if sysex \<noteq> [] then File sysex (S ''attachment; filename=All_Programs.syx'')
                       else Page (S ''nothing_to_dump.html'')), Write_library]"
  unfolding all_programs_answered [OF assms(1-3)]
  by (simp add: all_programs_answer_def all_programs_file_def entry_of_def comp_def Let_def sysex_def)

section \<open>The library\<close>

lemma add_program_map [simp]:
  "map_of (add_program h p lib) k =
     (case map_of lib k of None \<Rightarrow> if k = h then Some p else None | Some q \<Rightarrow> Some q)"
  by (auto simp: add_program_def map_add_def split: option.splits)

definition program_of :: "dmsg \<Rightarrow> prog" where
  "program_of dm =
     \<lparr>pr_name = getProgramName (dm_data dm), pr_no = parseProgramAddr (dm_numLevels dm) (dm_levels dm),
      pr_data = dm_data dm\<rparr>"

lemma received_library:
  "lib_program (program_dump_received hash dm st) =
     add_program (hash (dm_data dm)) (program_of dm) (lib_program st)"
  by (simp add: program_dump_received_def Let_def program_of_def)

lemma library_after:
  "map_of (lib_program (fold (program_dump_received hash) dms st)) h =
     (case map_of (lib_program st) h of
        Some p \<Rightarrow> Some p
      | None \<Rightarrow> map_option program_of (find (\<lambda>dm. hash (dm_data dm) = h) dms))"
proof (induction dms arbitrary: st)
  case (Cons dm dms)
  show ?case
    by (simp add: Cons.IH received_library split: option.splits)
qed (simp split: option.splits)

text \<open>C22: a program once in the library is never lost or changed, and after any dumps every
  program received is in it, with its data, whatever the order (the hash not colliding): the
  library never forgets a dump.\<close>
theorem library_keeps_programs:
  assumes "inj_on hash (dm_data ` set dms)" and "dm \<in> set dms"
  shows "(\<forall>h p. map_of (lib_program st) h = Some p \<longrightarrow>
           map_of (lib_program (fold (program_dump_received hash) dms st)) h = Some p)
    \<and> (map_of (lib_program st) (hash (dm_data dm)) = None \<longrightarrow>
        (\<exists>p. map_of (lib_program (fold (program_dump_received hash) dms st)) (hash (dm_data dm)) = Some p
           \<and> pr_data p = dm_data dm \<and> pr_name p = getProgramName (dm_data dm)))"
proof -
  let ?P = "\<lambda>d. hash (dm_data d) = hash (dm_data dm)"
  obtain d where d: "find ?P dms = Some d"
    using assms(2) by (cases "find ?P dms") (auto simp: find_None_iff)
  then have "d \<in> set dms" "?P d" by (auto simp: find_Some_iff)
  then have "dm_data d = dm_data dm" using assms by (auto dest: inj_onD)
  then show ?thesis by (simp add: library_after d program_of_def)
qed

section \<open>Witnesses\<close>

text \<open>A dump of program \<open>n\<close>, and a library with nothing in it.\<close>

definition sample_dump :: "int \<Rightarrow> nat list \<Rightarrow> dmsg" where
  "sample_dump n raw =
     \<lparr>dm_raw = raw, dm_data = [nat n], dm_numLevels = Some 4, dm_levels = getProgramAddr (Some n),
      dm_path = Some (S ''System.ProgramDump'')\<rparr>"

definition sample_library :: library where
  "sample_library =
     \<lparr>lib_program = [], dump_callback = Some 1, all_programs_bank = [], dump_timeout = Some (Give_up 1),
      writeLib_timeout = No_timer, lib_effects = []\<rparr>"

lemma number_sample: "1 \<le> n \<Longrightarrow> n \<le> 300 \<Longrightarrow> number_of (sample_dump n raw) = Some n"
  by (auto simp: number_of_def sample_dump_def parseProgramAddr_def getProgramAddr_def jnth_def)

theorem all_programs_file_complete_witness:
  "lib_effects (dump_timer_fires (fold (program_dump_received (\<lambda>d. d))
      [sample_dump 2 [240, 8, 247], sample_dump 1 [240, 7, 247], sample_dump 2 [240, 9, 247]] sample_library)) =
    [Answer_request 1 (File [240, 7, 247, 240, 9, 247] (S ''attachment; filename=All_Programs.syx'')),
     Write_library]"
proof -
  let ?dms = "[sample_dump 2 [240, 8, 247], sample_dump 1 [240, 7, 247], sample_dump 2 [240, 9, 247]]"
  have n: "numbers ?dms = {1, 2}" by (auto simp: numbers_def number_sample)
  have l: "last_dump ?dms 1 = sample_dump 1 [240, 7, 247]" "last_dump ?dms 2 = sample_dump 2 [240, 9, 247]"
    by (simp_all add: last_dump_def number_sample)
  have s: "sorted_list_of_set {1, 2 :: int} = [1, 2]" by simp
  show ?thesis
    using all_programs_file_complete [of sample_library 1 ?dms "\<lambda>d. d"]
    unfolding n s by (simp add: l sample_library_def) (simp add: sample_dump_def)
qed

theorem library_keeps_programs_witness:
  "\<exists>p. map_of (lib_program (fold (program_dump_received (\<lambda>d. d))
      [sample_dump 1 [240, 7, 247], sample_dump 2 [240, 8, 247]] sample_library)) [2] = Some p \<and> pr_data p = [2]"
  using library_keeps_programs [of "\<lambda>d. d" "[sample_dump 1 [240, 7, 247], sample_dump 2 [240, 8, 247]]"
      "sample_dump 2 [240, 8, 247]" sample_library]
  by (auto simp: sample_library_def) (auto simp: sample_dump_def)

section \<open>The file of one program\<close>

lemma program_file_bytes:
  assumes "bytes data"
  shows "program_file ids data =
    [0xF0, COMPANY_ID ids, PRODUCT_ID ids, DEVICE_ID ids, 1] @
    nibblize16 (Some (int (length data))) @ enc_bytes data @
    nibblize16 (Some (int (length [Some 1, Some 10, Some 2, Some 0x64 :: jnum]))) @
    enc_words (nums [Some 1, Some 10, Some 2, Some 0x64]) @ [0xF7]"
proof -
  have a: "nibblize (map (\<lambda>d. Some (int d)) data) = enc_bytes data"
    by (induction data) (simp_all add: enc_bytes_def nibblize_num_def)
  have b: "nibblize16 (Some (int (length [Some 1, Some 10, Some 2, Some 0x64 :: jnum]))) @
      enc_words (nums [Some 1, Some 10, Some 2, Some 0x64]) @ [0xF7] =
    [0x04,0x00,0x00,0x00,0x01,0x00,0x00,0x00,0x0A,0x00,0x00,0x00,0x02,0x00,0x00,0x00,0x04,0x06,0x00,0x00,0xF7]"
    by (simp add: nums_def enc_words_def nibblize16_Some)
  show ?thesis unfolding program_file_def a b DATA_def by simp
qed

text \<open>the file a program is downloaded as, sent back to the device or read by any pending
  request, is a data message that carries the same dump to the current program: its data and
  levels are read back, and the upload recognises it as a sysex message.\<close>
theorem program_file_roundtrip:
  assumes "bytes data" and "length data < 65536"
  shows "dataMessage_parse cfg False (program_file ids data)
       (Some \<lparr>rk_path = path, rk_numLevels = Some 4, rk_levels = [Some 1, Some 10, Some 2, Some 0x64], rk_callback = True\<rparr>) =
      Inr (Deliver \<lparr>dm_raw = program_file ids data, dm_data = data, dm_numLevels = Some 4,
              dm_levels = [Some 1, Some 10, Some 2, Some 0x64], dm_path = path\<rparr>)
    \<and> hd (program_file ids data) = 0xF0 \<and> last (program_file ids data) = 0xF7"
proof (intro conjI)
  let ?ls = "[Some 1, Some 10, Some 2, Some 0x64 :: jnum]"
  let ?h = "[0xF0, COMPANY_ID ids, PRODUCT_ID ids, DEVICE_ID ids, 1]"
  have d: "read_data (program_file ids data) = (data, 9 + 2 * length data)"
    unfolding program_file_bytes [OF assms(1)] using assms by (intro read_data_enc) simp_all
  have "program_file ids data = (?h @ nibblize16 (Some (int (length data))) @ enc_bytes data) @
      nibblize16 (Some (int (length ?ls))) @ enc_words (nums ?ls) @ [0xF7]"
    unfolding program_file_bytes [OF assms(1)] by simp
  then have l: "read_levels False (program_file ids data) (9 + 2 * length data) = (Some (int (length ?ls)), ?ls)"
    by (simp only:) (rule read_levels_enc, simp_all add: word_levels_def)
  have eq: "\<forall>l < 4. jeq (jnth ?ls l) (jnth ?ls l)"
    by (auto simp: jeq_def jnth_def less_Suc_eq numeral_eq_Suc)
  show "dataMessage_parse cfg False (program_file ids data)
       (Some \<lparr>rk_path = path, rk_numLevels = Some 4, rk_levels = ?ls, rk_callback = True\<rparr>) =
      Inr (Deliver \<lparr>dm_raw = program_file ids data, dm_data = data, dm_numLevels = Some 4,
              dm_levels = ?ls, dm_path = path\<rparr>)"
    using eq by (simp add: dataMessage_parse_def d l jeq_def count_of_def Let_def)
  show "hd (program_file ids data) = 0xF0" "last (program_file ids data) = 0xF7"
    by (simp_all add: program_file_def)
qed

theorem program_file_roundtrip_witness:
  "\<exists>dm. dataMessage_parse \<lparr>objectDescription = Map.empty, controlTree = empty_node\<rparr> False
       (program_file mpxg2_ids [1, 200, 3])
       (Some \<lparr>rk_path = None, rk_numLevels = Some 4, rk_levels = [Some 1, Some 10, Some 2, Some 0x64], rk_callback = True\<rparr>) =
     Inr (Deliver dm) \<and> dm_data dm = [1, 200, 3]"
  using program_file_roundtrip [of "[1, 200, 3]" "\<lparr>objectDescription = Map.empty, controlTree = empty_node\<rparr>"
      mpxg2_ids None] by auto

section \<open>The callback that stays\<close>

text \<open>after the dump of all programs is complete the callback is still set (the code resets a
  variable of another name): the next program dump that arrives, which nobody asked for, makes
  the program answer the finished request again, with a bank that has grown.\<close>
theorem finished_dump_answered_again:
  assumes "dump_callback st = Some r" and "dump_timeout st = Some Finish"
  shows "\<exists>a1 a2. lib_effects (dump_timer_fires (program_dump_received hash dm (dump_timer_fires st))) =
    lib_effects st @ [Answer_request r a1, Write_library, Answer_request r a2, Write_library]"
proof -
  let ?st = "dump_timer_fires st"
  have f: "dump_callback ?st = Some r"
    "lib_effects ?st = lib_effects st @ [Answer_request r (all_programs_answer (all_programs_bank st)), Write_library]"
    using assms by (simp_all add: dump_timer_fires_def)
  note v = received_views [OF f(1), of hash dm]
  show ?thesis using v f(2) by (simp add: dump_timer_fires_def [of "program_dump_received hash dm ?st"])
qed

theorem finished_dump_answered_again_witness:
  "\<exists>a1 a2. lib_effects (dump_timer_fires (program_dump_received (\<lambda>d. d) (sample_dump 3 [240, 247])
     (dump_timer_fires (sample_library\<lparr>dump_timeout := Some Finish\<rparr>)))) =
   [Answer_request 1 a1, Write_library, Answer_request 1 a2, Write_library]"
  using finished_dump_answered_again [of "sample_library\<lparr>dump_timeout := Some Finish\<rparr>" 1 "\<lambda>d. d" "sample_dump 3 [240, 247]"]
  by (simp add: sample_library_def)

section \<open>Reaching the menu\<close>

definition phase_rank :: "dump_phase \<Rightarrow> nat" where
  "phase_rank p = (case p of Menu n \<Rightarrow> 2 * (3 - n) | Dump_menu n \<Rightarrow> 2 * (3 - n) - 1 | _ \<Rightarrow> 0)"

definition phase_ok :: "dump_phase \<Rightarrow> bool" where
  "phase_ok p \<longleftrightarrow> (case p of Menu n \<Rightarrow> n < 3 | Dump_menu n \<Rightarrow> n < 3 | _ \<Rightarrow> True)"

definition dump_started :: "nat \<Rightarrow> library \<Rightarrow> library" where
  "dump_started r st =
     st\<lparr>dump_callback := Some r, dump_timeout := Some (Give_up r), all_programs_bank := []\<rparr>"

definition dump_inv :: "nat \<Rightarrow> library \<Rightarrow> nat \<Rightarrow> dump_phase \<times> library \<Rightarrow> bool" where
  "dump_inv r st k s \<longleftrightarrow> phase_ok (fst s) \<and> phase_rank (fst s) \<le> 6 - k \<and>
     snd s = (if fst s = Started then dump_started r st else st)"

lemma dump_step_inv:
  assumes "dump_inv r st k s"
  shows "dump_inv r st (Suc k) (fst (all_programs_dump_step r s data))"
proof -
  obtain p st' where s: "s = (p, st')" by (cases s)
  show ?thesis
    using assms unfolding s
    by (cases p) (auto simp: dump_inv_def all_programs_dump_step_def phase_ok_def phase_rank_def dump_started_def)
qed

lemma dump_run_inv: "dump_inv r st (length answers) (all_programs_dump_run r answers st)"
  unfolding all_programs_dump_run_def
proof (induction answers rule: rev_induct)
  case Nil
  then show ?case by (simp add: dump_inv_def phase_ok_def phase_rank_def)
next
  case (snoc a answers)
  then show ?case using dump_step_inv by simp
qed

text \<open>C23: whatever the display shows, the dialogue that starts the dump of all programs is over
  after at most six looks at it (three attempts): either the device was told to start, and the
  bank, the callback and the five second timeout are set, or the program has given up, and then
  nothing has been set and nothing will ever answer the request.\<close>
theorem all_programs_dump_ends:
  assumes "length answers \<ge> 6"
  shows "all_programs_dump_run r answers st =
      (Started, st\<lparr>dump_callback := Some r, dump_timeout := Some (Give_up r), all_programs_bank := []\<rparr>)
    \<or> all_programs_dump_run r answers st = (Given_up, st)"
proof -
  obtain p st' where s: "all_programs_dump_run r answers st = (p, st')" by fastforce
  have "dump_inv r st (length answers) (p, st')" using dump_run_inv s by metis
  then show ?thesis
    using assms unfolding s
    by (cases p) (auto simp: dump_inv_def phase_ok_def phase_rank_def dump_started_def)
qed

lemma displays_nothing: "\<not> displays menu_text []"
  by (auto simp: displays_def rd_def menu_text_def)

theorem all_programs_dump_ends_witness:
  "all_programs_dump_run 1 [[], [], [], [], [], []] sample_library = (Given_up, sample_library)"
  using all_programs_dump_ends [of "[[], [], [], [], [], []]" 1 sample_library]
  by (simp add: all_programs_dump_run_def all_programs_dump_step_def displays_nothing)

end
