(* ===== verification/Automation.thy ===== *)
theory Automation
  imports ParamValue Printf Library
begin

text \<open>
  Automation (\<open>src/mpxg2-dev/main.js\<close>): a data message of the device or of a browser becomes a
  script that sets the control in the other browsers.  \<open>dataMessage_process\<close> queues the
  message, \<open>automation_q_dosend\<close> writes the script and emits it, and the socket handlers
  \<open>register\<close>, \<open>disconnect\<close> and \<open>dataMessage\<close> change the state.  A socket is named by its
  identity; what is emitted is a list of effects.
\<close>

section \<open>State\<close>

record amsg = dmsg +
  am_automation :: bool

datatype emission =
    Emit nat jstring
  | Broadcast nat jstring
  | Send message
  | Ask_used_steps "(nat \<times> jstring) option"

record hub =
  automationq :: "(amsg \<times> nat option) list"
  automation_pb :: "nat list"
  disable_automation :: bool
  used_steps :: "jnum option"
  patching_to_be_rebuilt :: bool
  hub_library :: library
  hub_out :: "emission list"

text \<open>
  What the model is given: the configuration, the label table, the number formatting of the
  library, the hash of a dump, and the page of an effect.
\<close>

record auto_env =
  ae_config :: config
  ae_labels :: labels
  ae_numlib :: numlib
  ae_hash :: "nat list \<Rightarrow> jstring"
  ae_html :: "jnum list \<Rightarrow> jstring"

definition emit :: "emission list \<Rightarrow> hub \<Rightarrow> hub" where
  "emit es h = h\<lparr>hub_out := hub_out h @ es\<rparr>"

section \<open>Addresses and values\<close>

definition level_arg :: "jnum list \<Rightarrow> nat \<Rightarrow> arg" where
  "level_arg ls i = (if i < length ls then ANum (ls ! i) else AUndef)"

text \<open>\<open>addr+=printf('%02X',levels[i])\<close>\<close>

fun printf_addr :: "numlib \<Rightarrow> arg list \<Rightarrow> jstring res" where
  "printf_addr lib [] = Inr []"
| "printf_addr lib (a # as) =
     (case printf lib (S ''%02X'') (Positional [a]) of
        Inl e \<Rightarrow> Inl e
      | Inr s \<Rightarrow> map_sum id ((@) s) (printf_addr lib as))"

definition addr_of :: "numlib \<Rightarrow> jnum list \<Rightarrow> nat \<Rightarrow> jstring res" where
  "addr_of lib ls n = printf_addr lib (map (level_arg ls) [0..<n])"

text \<open>The value of a message; \<open>None\<close> is \<open>undefined\<close>.\<close>

definition auto_val :: "labels \<Rightarrow> odesc \<Rightarrow> nat list \<Rightarrow> oval option" where
  "auto_val lb od data =
     (if od_dataSize od = Some 1 then map_option (\<lambda>v. Num (Some v)) (rd data 0)
      else if od_dataSize od = Some 2 then Some (Num (lo_hi data))
      else if jnth (od_displayUnits od) 0 = Some 0x30 then Some (Str (trim (utf8 lb data)))
      else None)"

definition auto_signed :: "odesc \<Rightarrow> oval option \<Rightarrow> oval option" where
  "auto_signed od v = map_option (signed_val od (Some 0)) v"

fun show_val :: "oval option \<Rightarrow> jstring" where
  "show_val None = S ''undefined''"
| "show_val (Some (Num x)) = num_to_string 10 x"
| "show_val (Some (Str s)) = s"

definition show_at :: "nat list \<Rightarrow> nat \<Rightarrow> jstring" where
  "show_at data i = (case rd data i of None \<Rightarrow> S ''undefined'' | Some v \<Rightarrow> int_to_string 10 v)"

section \<open>Scripts\<close>

definition set_named :: "jstring \<Rightarrow> jstring \<Rightarrow> jstring \<Rightarrow> jstring \<Rightarrow> jstring" where
  "set_named tag sel addr v =
     Q ''$(`'' @ tag @ Q ''[name=|a'' @ addr @ Q ''|]'' @ sel @ Q ''`).data(`noMessage`,true).val('' @ v @
     Q '').change();''"

definition set_both :: "jstring \<Rightarrow> jstring \<Rightarrow> jstring" where
  "set_both addr v =
     Q ''$(`input#a'' @ addr @ Q '', select#a'' @ addr @ Q ''`).data(`noMessage`,true).val(`'' @ v @
     Q ''`).change();''"

definition set_id :: "jstring \<Rightarrow> jstring \<Rightarrow> jstring \<Rightarrow> jstring" where
  "set_id addr suffix v =
     Q ''$(`input#a'' @ addr @ suffix @ Q ''`).data(`noMessage`,true).val(`'' @ v @ Q ''`).change();''"

definition click_radio :: "jstring \<Rightarrow> jstring \<Rightarrow> jstring \<Rightarrow> jstring" where
  "click_radio prefix addr v =
     Q ''$(`[for=|`+$(`input[name=|'' @ prefix @ addr @ Q ''|][type=|radio|][value='' @ v @
     Q '']`).data(`noMessage`,true).attr(`id`)+`|]`).click();''"

definition unless_update :: "jstring \<Rightarrow> int \<Rightarrow> jstring \<Rightarrow> jstring" where
  "unless_update addr ty v =
     Q ''if (!param_update(`'' @ addr @ Q ''`,'' @ int_to_string 10 ty @ Q '','' @ v @ Q ''))''"

text \<open>The switch over the option types.\<close>

definition option_script :: "odesc \<Rightarrow> jstring \<Rightarrow> nat list \<Rightarrow> oval option \<Rightarrow> jstring res" where
  "option_script od addr data val =
     (case od_optionType od of
        None \<Rightarrow> Inl Exit
      | Some ty \<Rightarrow>
        if ty = 0x133 then
          Inr (set_named (Q ''select'') [] addr (show_at data 1) @ set_named (Q ''input'') [] addr (show_val val))
        else if ty = 0x12c then
          (if od_objectType od = Some 0x33 then
             Inr (set_named (Q ''input'') [] addr (show_at data 1) @ set_named (Q ''select'') [] addr (show_val val))
           else
             Inr (set_named (Q ''input'') (Q '':first'') addr (show_at data 2) @
                  set_named (Q ''input'') (Q '':last'') addr (show_val val)))
        else if ty = 0x12d \<or> ty = 0x12e \<or> ty = 0x13a then
          Inr (set_named (Q ''input'') (Q '':first'') addr (show_at data 1) @
               set_named (Q ''input'') (Q '':last'') addr (show_at data 0))
        else if ty = 0x12f \<or> ty = 0x130 \<or> ty = 0x131 \<or> ty = 0x135 \<or> ty = 0x132 \<or> ty = 0x136 then
          Inr (unless_update addr ty (show_at data 2) @ Q '' {'' @
               (if rd data 2 = Some 1
                then set_id addr (Q ''-0'') (show_at data 0) @ set_id addr (Q ''-1'') (show_at data 1)
                else if ty = 0x132 \<or> ty = 0x136 then set_id addr [] (show_val val)
                else set_both addr (show_val val)) @ Q ''}'')
        else if ty = 0xffff then
          Inr (set_both addr (show_val val) @ click_radio (Q ''a'') addr (show_val val))
        else if ty = 0x134 then
          Inr (set_both addr (show_at data 0) @ click_radio (Q ''o'') addr (show_at data 1))
        else if ty = 0x139 then
          (let v = (case rd data 0 of None \<Rightarrow> 0 | Some d \<Rightarrow> if d = 0 then 0 else - (256 - d))
           in Inr (set_both addr (int_to_string 10 v) @
                   click_radio (Q ''o'') addr (num_to_string 10 (jadd (rd data 1) (Some (- 1))))))
        else if ty = 0x13b then
          (let wet = (jand (rd data 0) 0x80 = 0);
               dry = (if wet then 0 else 1);
               v = (if wet then show_val val
                    else num_to_string 10 (map_option (\<lambda>d. - (256 - d)) (rd data 0)))
           in Inr (unless_update addr ty (int_to_string 10 dry) @ Q ''{'' @ set_both addr v @
                   click_radio (Q ''o'') addr (int_to_string 10 dry) @ Q ''};''))
        else Inl Exit)"

section \<open>Sending\<close>

definition to_others :: "nat option \<Rightarrow> jstring \<Rightarrow> hub \<Rightarrow> hub" where
  "to_others socket script h =
     (case socket of
        Some c \<Rightarrow> emit [Broadcast c script] h
      | None \<Rightarrow> emit (map (\<lambda>c. Emit c script) (automation_pb h)) h)"

definition effect_page :: "jstring \<Rightarrow> jstring \<Rightarrow> jstring" where
  "effect_page addr html =
     Q ''ul=$(`li[data-level^=L'' @ addr @ Q '']:first`).parent();'' @
     Q ''if (ul.size()) {'' @ Q ''  ul.html(`'' @ html @ Q ''`);'' @
     Q ''  $(`td.column.primary ul`).listview(`refresh`);'' @
     Q ''  $(`.ui-page`).trigger(`pagecreate`)'' @ Q ''}''"

definition automation_q_dosend :: "auto_env \<Rightarrow> ctree \<Rightarrow> amsg \<Rightarrow> nat option \<Rightarrow> hub \<Rightarrow> hub res" where
  "automation_q_dosend env curLevel dm socket h =
     (case od_of (ae_config env) curLevel of
        None \<Rightarrow> Inl TypeError
      | Some od \<Rightarrow>
        let val = auto_val (ae_labels env) od (dm_data dm) in
        case addr_of (ae_numlib env) (dm_levels dm) (count_of (dm_numLevels dm)) of
          Inl e \<Rightarrow> Inl e
        | Inr addr \<Rightarrow>
          if dm_path dm = Some (S ''Program.Misc.PrgSelect'') then
            Inr (to_others socket (Q ''program_change('' @ show_val val @ Q '');'')
                  (emit [Ask_used_steps None] (h\<lparr>used_steps := None, patching_to_be_rebuilt := True\<rparr>)))
          else if dm_numLevels dm = Some 2 then
            (let levels = take 2 (dm_levels dm) @ [rd (dm_data dm) 0] in
             if am_automation dm then
               (case printf_addr (ae_numlib env)
                       (map (level_arg (dm_levels dm)) [0..<2] @
                        [if dm_data dm = [] then AUndef else ANum (rd (dm_data dm) 0)]) of
                  Inl e \<Rightarrow> Inl e
                | Inr L \<Rightarrow> Inr (to_others socket (Q ''algorithm_change(`'' @ L @ Q ''`);'') h))
             else
               Inr (case socket of
                      None \<Rightarrow> h
                    | Some c \<Rightarrow> emit [Emit c (effect_page addr (ae_html env levels))] h))
          else
            map_sum id (\<lambda>script. to_others socket script h)
              (option_script od addr (dm_data dm) (auto_signed od val)))"

text \<open>The first call may name the socket that is to be registered.\<close>

definition automationq_send :: "auto_env \<Rightarrow> nat option \<Rightarrow> hub \<Rightarrow> hub res" where
  "automationq_send env socket h =
     (let h1 = (case socket of
                  None \<Rightarrow> h
                | Some c \<Rightarrow> if c \<in> set (automation_pb h) then h
                            else h\<lparr>automation_pb := automation_pb h @ [c]\<rparr>)
      in case automationq h1 of
           [] \<Rightarrow> Inr h1
         | (dm, s) # q \<Rightarrow>
             (case getLevel (ae_config env) (count_of (dm_numLevels dm)) (dm_levels dm) of
                None \<Rightarrow> Inl TypeError
              | Some curLevel \<Rightarrow> automation_q_dosend env curLevel dm s (h1\<lparr>automationq := q\<rparr>)))"

definition path_of :: "amsg \<Rightarrow> jstring" where
  "path_of dm = (case dm_path dm of None \<Rightarrow> S ''undefined'' | Some p \<Rightarrow> p)"

definition dataMessage_process :: "auto_env \<Rightarrow> amsg \<Rightarrow> nat option \<Rightarrow> hub \<Rightarrow> hub res" where
  "dataMessage_process env dm socket h =
     (case getLevel (ae_config env) (count_of (dm_numLevels dm)) (dm_levels dm) of
        None \<Rightarrow> Inr h
      | Some curLevel \<Rightarrow>
          if is_dump_path (path_of dm) then
            Inr (h\<lparr>hub_library := program_dump_received (ae_hash env) (dmsg.truncate dm) (hub_library h)\<rparr>)
          else if disable_automation h then Inr h
          else
            automationq_send env None
              (h\<lparr>automationq := automationq h @
                   [(if socket = None then dm\<lparr>am_automation := True\<rparr> else dm, socket)]\<rparr>))"

definition register :: "auto_env \<Rightarrow> nat \<Rightarrow> hub \<Rightarrow> hub res" where
  "register env c h = automationq_send env (Some c) h"

definition disconnect :: "nat \<Rightarrow> hub \<Rightarrow> hub" where
  "disconnect c h = h\<lparr>automation_pb := filter (\<lambda>d. d \<noteq> c) (automation_pb h)\<rparr>"

section \<open>A message of a browser\<close>

text \<open>The bytes of a message that is sent, as the handler decodes them for the others.\<close>

definition data_of_nibbles :: "nat \<Rightarrow> nat list \<Rightarrow> nat list" where
  "data_of_nibbles n raw = map (\<lambda>j. to_byte (jadd (rd raw (2 * j)) (Some (jshl (rd raw (2 * j + 1)) 4)))) [0..<n]"

definition sent_amsg :: "message \<Rightarrow> amsg" where
  "sent_amsg m =
     (let raw = (case m_data m of None \<Rightarrow> [] | Some xs \<Rightarrow> xs)
      in \<lparr>dm_raw = raw, dm_data = data_of_nibbles (m_dataSize2 m div 2) raw,
          dm_numLevels = (case m_numLevels m of None \<Rightarrow> None | Some n \<Rightarrow> n), dm_levels = m_levels m,
          dm_path = m_path m, am_automation = True\<rparr>)"

text \<open>
  The array of levels is shared with the message, whose third level an algorithm change sets.
\<close>

definition levels_after :: "auto_env \<Rightarrow> amsg \<Rightarrow> hub \<Rightarrow> jnum list" where
  "levels_after env dm h =
     (if dm_numLevels dm = Some 2 \<and> \<not> disable_automation h \<and> \<not> is_dump_path (path_of dm) \<and>
         dm_path dm \<noteq> Some (S ''Program.Misc.PrgSelect'') \<and>
         getLevel (ae_config env) 2 (dm_levels dm) \<noteq> None
      then take 2 (dm_levels dm) @ [rd (dm_data dm) 0] else dm_levels dm)"

definition shortAddresses_set :: "config \<Rightarrow> bool \<Rightarrow> message res" where
  "shortAddresses_set cfg enable =
     dataMessage cfg (By_levels 3 [Some 1, Some 0x12, Some 5]) (Number (Some (if enable then 1 else 0)))"

text \<open>\<open>parseInt(data)\<close>, where the data is a number or an array of nibbles.\<close>

fun arg_truthy :: "dm_arg \<Rightarrow> bool" where
  "arg_truthy (Scalar s) = truthy (parse_int None s)"
| "arg_truthy (Number v) = truthy v"
| "arg_truthy (Nibbles []) = False"
| "arg_truthy (Nibbles (n # ns)) = (n \<noteq> 0)"

definition is_effect :: "jnum list \<Rightarrow> bool" where
  "is_effect levels \<longleftrightarrow>
     jnth levels 0 = Some 0 \<and> (case jnth levels 1 of None \<Rightarrow> False | Some v \<Rightarrow> v < 7)"

definition emit_script :: "nat \<Rightarrow> jstring option \<Rightarrow> hub \<Rightarrow> hub" where
  "emit_script c script h = (case script of None \<Rightarrow> h | Some s \<Rightarrow> emit [Emit c s] h)"

text \<open>The end of the handler: short addresses, the script for the sender, the algorithm.\<close>

definition after_process :: "auto_env \<Rightarrow> nat \<Rightarrow> jstring \<Rightarrow> entry \<Rightarrow> amsg \<Rightarrow> jnum list \<Rightarrow> hub \<Rightarrow> hub res" where
  "after_process env c L en dm levels h =
     (case (if levels = [Some 1, Some 18, Some 5]
            then map_sum id (\<lambda>m. emit [Send m] h) (shortAddresses_set (ae_config env) (arg_truthy (en_arg en)))
            else Inr h) of
        Inl e \<Rightarrow> Inl e
      | Inr h1 \<Rightarrow>
          if dm_numLevels dm = Some 2 \<and> is_effect levels then
            (if \<not> disable_automation h1 then
               Inr (emit [Ask_used_steps (Some (c,
                     (case en_script en of None \<Rightarrow> [] | Some s \<Rightarrow> s) @ Q ''algorithm_change(`'' @ L @ Q ''`);''))] h1)
             else Inr ((emit_script c (en_script en) h1)\<lparr>patching_to_be_rebuilt := True\<rparr>))
          else Inr (emit_script c (en_script en) h1))"

definition socket_dataMessage :: "auto_env \<Rightarrow> nat \<Rightarrow> jstring \<Rightarrow> jstring \<Rightarrow> hub \<Rightarrow> hub res" where
  "socket_dataMessage env c L data h =
     (let cfg = ae_config env in
      if L = [] then Inr h
      else
        (case levels_parse cfg L of
           Inl e \<Rightarrow> Inl e
         | Inr levels \<Rightarrow>
             (case Option.bind (getLevel cfg (length levels) levels) (od_of cfg) of
                None \<Rightarrow> Inl TypeError
              | Some od \<Rightarrow>
                  (case param_entry cfg od L data of
                     Inl e \<Rightarrow> Inl e
                   | Inr en \<Rightarrow>
                       (case dataMessage cfg (By_levels (length levels) levels) (en_arg en) of
                          Inl e \<Rightarrow> Inl e
                        | Inr m \<Rightarrow>
                            (case dataMessage_process env (sent_amsg m) (Some c) (emit [Send m] h) of
                               Inl e \<Rightarrow> Inl e
                             | Inr h1 \<Rightarrow>
                                 after_process env c L en (sent_amsg m)
                                   (levels_after env (sent_amsg m) h) h1))))))"

text \<open>The processing steps arrive.\<close>

definition usedSteps_update :: "jnum list \<Rightarrow> hub \<Rightarrow> hub" where
  "usedSteps_update steps h = h\<lparr>used_steps := Some (foldl jadd (Some 0) steps)\<rparr>"

definition used_steps_arrive :: "(nat \<times> jstring) option \<Rightarrow> jnum list \<Rightarrow> hub \<Rightarrow> hub" where
  "used_steps_arrive k steps h =
     (case k of
        None \<Rightarrow> usedSteps_update steps h
      | Some (c, script) \<Rightarrow>
          (emit [Emit c script] (usedSteps_update steps h))\<lparr>patching_to_be_rebuilt := True\<rparr>)"

section \<open>Every change reaches every other browser\<close>

text \<open>
  The scripts emitted to a browser, and what should be: while it is registered and no page is being made, the
  script of every message of the device.  The handlers that make a page or an effect (\<open>getParam\<close>, \<open>getEffect\<close>,
  \<open>update\<close>, a page of an effect) set \<open>disable_automation\<close> when they begin and clear it when it has been sent;
  with several at once the first to end clears it.
\<close>

datatype event = Register nat | Disconnect nat | Device amsg | Page_begins | Page_sent

definition run_event :: "auto_env \<Rightarrow> event \<Rightarrow> hub \<Rightarrow> hub res" where
  "run_event env ev h =
     (case ev of
        Register c \<Rightarrow> register env c h
      | Disconnect c \<Rightarrow> Inr (disconnect c h)
      | Device dm \<Rightarrow> dataMessage_process env dm None h
      | Page_begins \<Rightarrow> Inr (h\<lparr>disable_automation := True\<rparr>)
      | Page_sent \<Rightarrow> Inr (h\<lparr>disable_automation := False\<rparr>))"

fun run_events :: "auto_env \<Rightarrow> event list \<Rightarrow> hub \<Rightarrow> hub res" where
  "run_events env [] h = Inr h"
| "run_events env (ev # evs) h = (case run_event env ev h of Inl e \<Rightarrow> Inl e | Inr h1 \<Rightarrow> run_events env evs h1)"

fun received_by :: "nat \<Rightarrow> emission list \<Rightarrow> jstring list" where
  "received_by c [] = []"
| "received_by c (Emit d s # es) = (if d = c then s # received_by c es else received_by c es)"
| "received_by c (_ # es) = received_by c es"

text \<open>What a message of the device asks for: the steps, and the script for the browsers.\<close>

definition dosend_device :: "auto_env \<Rightarrow> ctree \<Rightarrow> amsg \<Rightarrow> (bool \<times> jstring option) res" where
  "dosend_device env curLevel dm =
     (case od_of (ae_config env) curLevel of
        None \<Rightarrow> Inl TypeError
      | Some od \<Rightarrow>
          let lib = ae_numlib env; val = auto_val (ae_labels env) od (dm_data dm) in
          case addr_of lib (dm_levels dm) (count_of (dm_numLevels dm)) of
            Inl e \<Rightarrow> Inl e
          | Inr addr \<Rightarrow>
              if dm_path dm = Some (S ''Program.Misc.PrgSelect'') then
                Inr (True, Some (Q ''program_change('' @ show_val val @ Q '');''))
              else if dm_numLevels dm = Some 2 then
                (if am_automation dm then
                   map_sum id (\<lambda>L. (False, Some (Q ''algorithm_change(`'' @ L @ Q ''`);'')))
                     (printf_addr lib (map (level_arg (dm_levels dm)) [0..<2] @
                        [if dm_data dm = [] then AUndef else ANum (rd (dm_data dm) 0)]))
                 else Inr (False, None))
              else
                map_sum id (\<lambda>s. (False, Some s)) (option_script od addr (dm_data dm) (auto_signed od val)))"

definition to_clients :: "bool \<times> jstring option \<Rightarrow> hub \<Rightarrow> hub" where
  "to_clients r h =
     (let h1 = (if fst r then emit [Ask_used_steps None] (h\<lparr>used_steps := None, patching_to_be_rebuilt := True\<rparr>) else h)
      in case snd r of None \<Rightarrow> h1 | Some s \<Rightarrow> emit (map (\<lambda>c. Emit c s) (automation_pb h)) h1)"

lemma received_by_append [simp]: "received_by c (es @ es') = received_by c es @ received_by c es'"
  by (induction c es rule: received_by.induct) auto

lemma received_by_clients:
  "distinct cs \<Longrightarrow> received_by c (map (\<lambda>d. Emit d s) cs) = (if c \<in> set cs then [s] else [])"
  by (induction cs) auto

lemma emit_simps [simp]:
  "hub_out (emit es h) = hub_out h @ es" "automationq (emit es h) = automationq h"
  "automation_pb (emit es h) = automation_pb h" "disable_automation (emit es h) = disable_automation h"
  "hub_library (emit es h) = hub_library h"
  by (simp_all add: emit_def)

text \<open>What is sent for a message of the device does not depend on the state.\<close>

lemma dosend_clients:
  "automation_q_dosend env cl dm None h = map_sum id (\<lambda>r. to_clients r h) (dosend_device env cl dm)"
proof (cases "od_of (ae_config env) cl")
  case None
  then show ?thesis by (simp add: dosend_device_def automation_q_dosend_def)
next
  case (Some od)
  let ?lib = "ae_numlib env"
  let ?three = "printf_addr ?lib (map (level_arg (dm_levels dm)) [0..<2] @
      [if dm_data dm = [] then AUndef else ANum (rd (dm_data dm) 0)])"
  show ?thesis
  proof (cases "addr_of ?lib (dm_levels dm) (count_of (dm_numLevels dm))")
    case (Inl e)
    then show ?thesis using Some by (simp add: dosend_device_def automation_q_dosend_def)
  next
    case (Inr addr)
    let ?script = "option_script od addr (dm_data dm) (auto_signed od (auto_val (ae_labels env) od (dm_data dm)))"
    show ?thesis
      unfolding dosend_device_def automation_q_dosend_def Some Inr option.case sum.case Let_def
      by (cases "?three"; cases "?script") (simp_all add: to_others_def to_clients_def)
  qed
qed

definition device_script :: "auto_env \<Rightarrow> amsg \<Rightarrow> (bool \<times> jstring option) res" where
  "device_script env dm =
     (case getLevel (ae_config env) (count_of (dm_numLevels dm)) (dm_levels dm) of
        None \<Rightarrow> Inr (False, None)
      | Some curLevel \<Rightarrow>
          if is_dump_path (path_of dm) then Inr (False, None)
          else dosend_device env curLevel (dm\<lparr>am_automation := True\<rparr>))"

text \<open>
  What a browser should receive: the script of every message that comes while it is registered and no page is
  being made.
\<close>

fun due :: "auto_env \<Rightarrow> nat \<Rightarrow> bool \<Rightarrow> bool \<Rightarrow> event list \<Rightarrow> jstring list" where
  "due env c reg off [] = []"
| "due env c reg off (Register d # evs) = due env c (reg \<or> d = c) off evs"
| "due env c reg off (Disconnect d # evs) = due env c (reg \<and> c \<noteq> d) off evs"
| "due env c reg off (Page_begins # evs) = due env c reg True evs"
| "due env c reg off (Page_sent # evs) = due env c reg False evs"
| "due env c reg off (Device dm # evs) =
     (if off then []
      else case device_script env dm of
        Inr (_, Some s) \<Rightarrow> if reg then [s] else []
      | _ \<Rightarrow> []) @ due env c reg off evs"

text \<open>Between two events the queue is empty, and nobody is registered twice.\<close>

definition queue_ok :: "hub \<Rightarrow> bool" where
  "queue_ok h \<longleftrightarrow> automationq h = [] \<and> distinct (automation_pb h)"

text \<open>So is a state in which no page is being made.\<close>

definition hub_ok :: "hub \<Rightarrow> bool" where
  "hub_ok h \<longleftrightarrow> automationq h = [] \<and> distinct (automation_pb h) \<and> \<not> disable_automation h"

lemma hub_queue: "hub_ok h \<longleftrightarrow> queue_ok h \<and> \<not> disable_automation h"
  by (auto simp: hub_ok_def queue_ok_def)

lemma to_clients_simps [simp]:
  "automationq (to_clients r h) = automationq h" "automation_pb (to_clients r h) = automation_pb h"
  "disable_automation (to_clients r h) = disable_automation h"
  by (auto simp: to_clients_def Let_def split: option.splits)

lemma received_to_clients:
  "distinct (automation_pb h) \<Longrightarrow> received_by c (hub_out (to_clients r h)) =
     received_by c (hub_out h) @
     (case snd r of None \<Rightarrow> [] | Some s \<Rightarrow> if c \<in> set (automation_pb h) then [s] else [])"
  by (auto simp: to_clients_def Let_def received_by_clients split: option.splits)

lemma process_clients:
  assumes "hub_ok h" and "dataMessage_process env dm None h = Inr h'"
  shows "\<exists>r. device_script env dm = Inr r \<and> hub_ok h' \<and> automation_pb h' = automation_pb h \<and>
    received_by c (hub_out h') = received_by c (hub_out h) @
      (case snd r of None \<Rightarrow> [] | Some s \<Rightarrow> if c \<in> set (automation_pb h) then [s] else [])"
proof (cases "getLevel (ae_config env) (count_of (dm_numLevels dm)) (dm_levels dm)")
  case None
  then show ?thesis using assms by (simp add: dataMessage_process_def device_script_def)
next
  case (Some cl)
  show ?thesis
  proof (cases "is_dump_path (path_of dm)")
    case True
    then show ?thesis using assms Some
      by (auto simp: dataMessage_process_def device_script_def hub_ok_def)
  next
    case False
    let ?dm = "dm\<lparr>am_automation := True\<rparr>"
    have q: "automationq h = []" "distinct (automation_pb h)" "\<not> disable_automation h"
      using assms(1) by (simp_all add: hub_ok_def)
    then have e: "h\<lparr>automationq := []\<rparr> = h" by simp
    have "dataMessage_process env dm None h = automation_q_dosend env cl ?dm None h"
      using q Some False by (simp add: dataMessage_process_def automationq_send_def) (simp only: e)
    then obtain r where r: "dosend_device env cl ?dm = Inr r" "h' = to_clients r h"
      using assms(2) by (cases "dosend_device env cl ?dm") (auto simp: dosend_clients)
    then have "device_script env dm = Inr r" using Some False by (simp add: device_script_def)
    then show ?thesis
      using r(2) q received_to_clients [OF q(2)] by (simp add: hub_ok_def)
  qed
qed

lemma process_disabled:
  assumes "disable_automation h" and "dataMessage_process env dm None h = Inr h'"
  shows "hub_out h' = hub_out h \<and> automationq h' = automationq h \<and> automation_pb h' = automation_pb h \<and> disable_automation h'"
  using assms by (auto simp: dataMessage_process_def split: option.splits if_splits)

lemma event_step:
  assumes "queue_ok h" and "run_event env ev h = Inr h1"
  shows "queue_ok h1 \<and> received_by c (hub_out h1) @ due env c (c \<in> set (automation_pb h1)) (disable_automation h1) evs =
    received_by c (hub_out h) @ due env c (c \<in> set (automation_pb h)) (disable_automation h) (ev # evs)"
proof (cases ev)
  case (Register d)
  then have "h1 = (if d \<in> set (automation_pb h) then h else h\<lparr>automation_pb := automation_pb h @ [d]\<rparr>)"
    using assms by (auto simp: run_event_def register_def automationq_send_def Let_def queue_ok_def)
  then show ?thesis using assms(1) Register
    by (cases "c = d") (auto simp: queue_ok_def insert_absorb)
next
  case (Device dm)
  then have p: "dataMessage_process env dm None h = Inr h1" using assms(2) by (simp add: run_event_def)
  show ?thesis
  proof (cases "disable_automation h")
    case True
    then show ?thesis using process_disabled [OF True p] assms(1) Device by (auto simp: queue_ok_def)
  next
    case False
    then obtain r where "device_script env dm = Inr r" "hub_ok h1" "automation_pb h1 = automation_pb h"
      "received_by c (hub_out h1) = received_by c (hub_out h) @
        (case snd r of None \<Rightarrow> [] | Some s \<Rightarrow> if c \<in> set (automation_pb h) then [s] else [])"
      using process_clients [of h env dm h1 c] assms(1) p by (auto simp: hub_queue)
    then show ?thesis using Device False by (cases r) (auto simp: hub_queue split: option.splits)
  qed
qed (use assms in \<open>auto simp: run_event_def disconnect_def queue_ok_def\<close>)

text \<open>
  C19: in every series of browsers coming and going, of pages begun and sent and of messages from the device that
  ends without an exception, each browser receives, in order and once each, the scripts of exactly the messages that
  arrive while it is registered and no page is being made (those that arrive meanwhile are dropped for all browsers),
  and the queue is empty after every event.
\<close>
theorem automation_reaches_browsers:
  assumes "queue_ok h" and "run_events env evs h = Inr h'"
  shows "received_by c (hub_out h') =
      received_by c (hub_out h) @ due env c (c \<in> set (automation_pb h)) (disable_automation h) evs
    \<and> automationq h' = []"
  using assms
proof (induction evs arbitrary: h)
  case Nil
  then show ?case by (simp add: queue_ok_def)
next
  case (Cons ev evs)
  then obtain h1 where h1: "run_event env ev h = Inr h1" "run_events env evs h1 = Inr h'" by (auto split: sum.splits)
  note step = event_step [OF Cons.prems(1) h1(1), of c evs]
  have "queue_ok h1" using step by blast
  from Cons.IH [OF this h1(2)] show ?case using step by (metis append.assoc)
qed

text \<open>An environment and a state for the witnesses: the parameter \<open>AddresMode\<close>.\<close>

definition sample_env :: auto_env where
  "sample_env =
     \<lparr>ae_config = sample_config, ae_labels = \<lparr>unit_label = \<lambda>_. None, utf8 = id\<rparr>,
      ae_numlib = no_fractions, ae_hash = id, ae_html = \<lambda>_. []\<rparr>"

definition hub_init :: hub where
  "hub_init =
     \<lparr>automationq = [], automation_pb = [], disable_automation = False, used_steps = None,
      patching_to_be_rebuilt = False,
      hub_library = \<lparr>lib_program = [], dump_callback = None, all_programs_bank = [], dump_timeout = None,
         writeLib_timeout = No_timer, lib_effects = []\<rparr>, hub_out = []\<rparr>"

lemma hub_init_ok: "hub_ok hub_init"
  by (simp add: hub_ok_def hub_init_def)

text \<open>The address that \<open>printf\<close> writes is the one of the pages.\<close>

lemma printf_hex2:
  assumes "n < 256"
  shows "printf lib (S ''%02X'') (Positional [ANum (Some (int n))]) = Inr (hex2 n)"
proof -
  have f: "S ''%02X'' = [37, 48, 48 + 2, 88]" by (simp add: js_eval)
  have "replicate (2 - length (digits_of 16 n)) 48 @ map upper1 (digits_of 16 n) = hex2 n"
  proof (cases "n < 16")
    case True
    then have "digits_of 16 n = [digit_char n]" by (subst digits_of.simps) simp
    then show ?thesis using True by (simp add: hex2_def digit_char_def upper1_def)
  next
    case False
    have "digits_of 16 n = digits_of 16 (n div 16) @ [digit_char (n mod 16)]"
      using False by (subst digits_of.simps) simp
    also have "digits_of 16 (n div 16) = [digit_char (n div 16)]"
      using assms by (subst digits_of.simps) simp
    finally show ?thesis by (simp add: hex2_def)
  qed
  then show ?thesis unfolding f using printf_hex_text [of 2 lib n] by simp
qed

lemma printf_addr_hex:
  "\<forall>l \<in> set ls. byte_level l \<Longrightarrow> printf_addr lib (map ANum ls) = Inr (concat (map (\<lambda>l. hex2 (nat (the l))) ls))"
proof (induction ls)
  case (Cons l ls)
  then obtain v where v: "l = Some v" "0 \<le> v" "v < 256" by (auto simp: byte_level_def split: option.splits)
  then have "printf lib (S ''%02X'') (Positional [ANum l]) = Inr (hex2 (nat v))"
    using printf_hex2 [of "nat v" lib] by simp
  then show ?case using Cons v by simp
qed simp

lemma addr_of_toL:
  assumes "\<forall>l \<in> set ls. byte_level l" and "toL (length ls) ls = Inr L"
  shows "addr_of lib ls (length ls) = Inr L"
proof -
  have "map (level_arg ls) [0..<length ls] = map ANum ls"
    by (rule nth_equalityI) (simp_all add: level_arg_def)
  then show ?thesis
    using printf_addr_hex [OF assms(1), of lib] toL_hex2 [OF assms(1)] assms(2) by (simp add: addr_of_def)
qed

definition sample_amsg :: amsg where
  "sample_amsg =
     \<lparr>dm_raw = [], dm_data = [1], dm_numLevels = Some 3, dm_levels = [Some 1, Some 18, Some 5],
      dm_path = Some (S ''System.SystemModes.AddresMode''), am_automation = False\<rparr>"

lemma sample_level: "getLevel sample_config 3 [Some 1, Some 18, Some 5] = Some (leaf 457)"
  "od_of sample_config (leaf 457) = Some (plain_od 457 (S ''AddresMode'') 0 1 4)"
  by (simp_all add: getLevel_def sample_simps child_def jhead_def od_of_def numeral_3_eq_3)

lemma sample_script: "\<exists>s. device_script sample_env sample_amsg = Inr (False, Some s)"
proof -
  let ?ls = "[Some 1, Some 18, Some 5] :: jnum list"
  have b: "\<forall>l \<in> set ?ls. byte_level l" by (simp add: byte_level_def)
  obtain addr where "addr_of (ae_numlib sample_env) ?ls (length ?ls) = Inr addr"
    using addr_of_toL [OF b toL_hex2 [OF b]] by blast
  moreover have "\<not> is_dump_path (path_of sample_amsg)"
    by (simp add: path_of_def sample_amsg_def js_eval)
  moreover have "S ''System.SystemModes.AddresMode'' \<noteq> S ''Program.Misc.PrgSelect''" by (simp add: js_eval)
  ultimately show ?thesis
    using sample_level
    by (simp add: device_script_def dosend_device_def sample_env_def sample_amsg_def count_of_def
        option_script_def plain_od_def numeral_3_eq_3 Let_def)
qed

theorem automation_reaches_browsers_witness:
  "\<exists>h' s. run_events sample_env
      [Register 7, Device sample_amsg, Page_begins, Device sample_amsg, Page_sent, Disconnect 7, Device sample_amsg] hub_init = Inr h' \<and>
     received_by 7 (hub_out h') = [s]"
proof -
  let ?evs = "[Register 7, Device sample_amsg, Page_begins, Device sample_amsg, Page_sent, Disconnect 7, Device sample_amsg]"
  obtain s where s: "device_script sample_env sample_amsg = Inr (False, Some s)" using sample_script by blast
  have g: "getLevel (ae_config sample_env) (count_of (dm_numLevels sample_amsg)) (dm_levels sample_amsg) = Some (leaf 457)"
    using sample_level(1) by (simp add: sample_env_def sample_amsg_def count_of_def)
  have d: "\<not> is_dump_path (path_of sample_amsg)" by (simp add: path_of_def sample_amsg_def js_eval)
  have off: "dataMessage_process sample_env sample_amsg None h = Inr h" if "disable_automation h" for h
    using that g d by (simp add: dataMessage_process_def)
  have p: "\<exists>h'. dataMessage_process sample_env sample_amsg None h = Inr h' \<and> hub_ok h'" if h: "hub_ok h" for h
  proof -
    have "\<exists>h'. dataMessage_process sample_env sample_amsg None h = Inr h'"
      using s g h d by (simp add: dataMessage_process_def device_script_def hub_ok_def automationq_send_def dosend_clients)
    then show ?thesis using process_clients [OF h] by blast
  qed
  have "hub_ok (hub_init\<lparr>automation_pb := [7]\<rparr>)" by (simp add: hub_ok_def hub_init_def)
  then obtain h1 where h1: "dataMessage_process sample_env sample_amsg None (hub_init\<lparr>automation_pb := [7]\<rparr>) = Inr h1" "hub_ok h1"
    using p by blast
  then have "hub_ok (disconnect 7 (h1\<lparr>disable_automation := False\<rparr>))" by (simp add: hub_ok_def disconnect_def)
  then obtain h' where h': "dataMessage_process sample_env sample_amsg None (disconnect 7 (h1\<lparr>disable_automation := False\<rparr>)) = Inr h'"
    using p by blast
  have "register sample_env 7 hub_init = Inr (hub_init\<lparr>automation_pb := [7]\<rparr>)"
    by (simp add: register_def automationq_send_def hub_init_def)
  then have "run_events sample_env ?evs hub_init = Inr h'" using h1(1) h' by (simp add: run_event_def off)
  moreover have "queue_ok hub_init" "\<not> disable_automation hub_init" using hub_init_ok by (simp_all add: hub_queue)
  ultimately show ?thesis
    using automation_reaches_browsers [of hub_init sample_env ?evs h' 7] by (simp add: s) (simp add: hub_init_def)
qed

section \<open>What a browser enters appears in the others\<close>

lemma data_of_nibbles_enc: "bytes ds \<Longrightarrow> data_of_nibbles (length ds) (enc_bytes ds) = ds"
proof -
  assume b: "bytes ds"
  have "to_byte (rd2 (enc_bytes ds) (2 * j)) = ds ! j" if "j < length ds" for j
  proof -
    have d: "ds ! j < 256" using b that by (rule bytes_nth)
    have "rd2 ([] @ enc_bytes ds @ []) (length ([] :: nat list) + 2 * j) = Some (int (ds ! j))"
      unfolding enc_bytes_ints using that d by (subst byte_codec.dec_nth_exact) simp_all
    then show ?thesis using d by (simp add: to_byte_def)
  qed
  then show ?thesis unfolding data_of_nibbles_def rd2_def [symmetric] by (rule map_upt_nth)
qed

lemma is_pair_comma: "is_pair s \<Longrightarrow> 44 \<in> set s"
proof -
  assume p: "is_pair s"
  define b where "b = drop (length (takeWhile (\<lambda>c. c = 45 \<or> (48 \<le> c \<and> c \<le> 57)) s)) s"
  have "b \<noteq> []" "hd b = 44" using p by (simp_all add: is_pair_def Let_def b_def)
  then have "44 \<in> set b" by (metis hd_in_set)
  then show ?thesis unfolding b_def by (rule in_set_dropD)
qed

lemma param_entry_number:
  assumes "jnth (od_displayUnits od) 0 \<noteq> Some 0x30"
  shows "param_entry cfg od L (int_to_string 10 v) = Inr \<lparr>en_arg = Number (Some v), en_script = None\<rparr>"
proof -
  have "\<not> is_pair (int_to_string 10 v)" using is_pair_comma int_chars by fastforce
  then show ?thesis using assms by (simp add: param_entry_def parse_int_int)
qed

lemma bytes_value: "bytes (value_bytes sz v)"
  by (auto simp: value_bytes_def nat_less_iff)

lemma dataMessage_number:
  assumes "getLevel cfg (length ls) ls = Some t" and "od_of cfg t = Some od"
    and "od_dataSize od = Some sz" and "sz = 1 \<or> sz = 2" and "od_optionType od = Some 0xFFFF"
    and "getLevelName cfg (length ls) ls = Inr (Some p)"
  shows "dataMessage cfg (By_levels (length ls) ls) (Number (Some v)) =
    Inr (data_message (Some p) (length ls) ls (enc_bytes (value_bytes sz v)))"
proof -
  have "(if sz = 2 then nibblize16 (Some v) else nibblize_num (Some v)) = enc_bytes (value_bytes sz v)"
    using enc_bytes_value [OF assms(4), of v] assms(4) by (elim disjE) simp_all
  then show ?thesis
    using assms by (simp add: dataMessage_levels parse_int_int scalar_nibbles_def Let_def del: enc_bytes_simps)
qed

lemma auto_val_fits:
  assumes "od_dataSize od = Some sz" and "sz = 1 \<or> sz = 2" and "fits od sz v"
  shows "auto_signed od (auto_val lb od (value_bytes sz v)) = Some (Num (Some v))"
  using signed_val_fits [OF assms] assms(1,2) lo_hi_value [of v "[]"]
  by (elim disjE) (simp_all add: auto_signed_def auto_val_def value_bytes_def rd_def)

text \<open>The script that sets a control without an option.\<close>

definition plain_script :: "jstring \<Rightarrow> int \<Rightarrow> jstring" where
  "plain_script L v = set_both L (int_to_string 10 v) @ click_radio (Q ''a'') L (int_to_string 10 v)"

lemma sent_amsg_views:
  assumes "bytes ds"
  shows "dm_data (sent_amsg (data_message p n ls (enc_bytes ds))) = ds"
    and "dm_numLevels (sent_amsg (data_message p n ls (enc_bytes ds))) = Some (int n)"
    and "dm_levels (sent_amsg (data_message p n ls (enc_bytes ds))) = ls"
    and "dm_path (sent_amsg (data_message p n ls (enc_bytes ds))) = p"
  using data_of_nibbles_enc [OF assms]
  by (simp_all add: sent_amsg_def data_message_def Let_def)



end
