(* ===== verification/Pages.thy ===== *)
theory Pages
  imports Automation TreeBuild
begin

text \<open>
  The pages (\<open>src/mpxg2-dev/main.js\<close>): \<open>controlTree_gui\<close> renders one node of the control tree as
  an item of a list, \<open>loop\<close> renders everything below a node, asking the device for the value of
  each parameter.  \<open>g2.DEBUG\<close>, the table of the processing steps (\<open>g2.info\<close>) and the labels
  are parameters.
\<close>

section \<open>What a page is made from\<close>

record step_info =
  si_man :: int
  si_steps :: int

record gui_env =
  ge_config :: config
  ge_labels :: labels
  ge_numlib :: numlib
  ge_debug :: bool
  ge_info :: "jstring \<Rightarrow> step_info option"
  ge_stepsAvail :: int
  ge_usedSteps :: "jnum option"

text \<open>
  The last section header, \<open>ctgui_ref\<close>.  The array it holds is compared with the array of the
  call; the calls for one page share it, so it is named by an identity, with its content.
\<close>

record section_ref =
  sr_numLevels :: "nat option"
  sr_array :: nat
  sr_levels :: "jnum list"
  sr_label :: jstring
  sr_index :: int

definition native_menus :: jstring where
  "native_menus = Q ''data-native-menu=|true|''"

definition blacklist :: "jstring list" where
  "blacklist =
     [S ''Program.Misc.Effstatus'', S ''Program.Misc.PrgSelect'', S ''Program.Misc.ClearReg'',
      S ''Program.Misc.SaveProg'', S ''System.Setup.SetupSel'', S ''System.Setup.SetupSave'',
      S ''System.Setup.Initialize'', S ''System.Setup.RunTime'', S ''System.MIDI.SysexOnOFF'',
      S ''System.MIDI.DeviceID'', S ''System.MIDI.Dump'', S ''System.MIDI.Renumber'']"

definition show_int :: "int \<Rightarrow> jstring" where
  "show_int = int_to_string 10"

text \<open>A number that is missing is shown as \<open>undefined\<close>, one that is not a number as \<open>NaN\<close>.\<close>

definition show_undef :: "jnum \<Rightarrow> jstring" where
  "show_undef x = (case x of None \<Rightarrow> S ''undefined'' | Some v \<Rightarrow> show_int v)"

fun show_oval :: "oval \<Rightarrow> jstring" where
  "show_oval (Num x) = num_to_string 10 x"
| "show_oval (Str s) = s"

definition show_option :: "odesc \<Rightarrow> jnum \<Rightarrow> jstring" where
  "show_option od v =
     (case v of
        None \<Rightarrow> if od_objectType od = Some 0x139 then S ''NaN'' else S ''undefined''
      | Some x \<Rightarrow> show_int x)"

fun label_text :: "label \<Rightarrow> jstring" where
  "label_text (Text t) = t"
| "label_text (Choices ls) = join [44] ls"

text \<open>\<open>label?' ('+label+')':''\<close>\<close>

definition in_parens :: "label option \<Rightarrow> jstring" where
  "in_parens l =
     (case l of None \<Rightarrow> [] | Some (Text []) \<Rightarrow> [] | Some l \<Rightarrow> Q '' ('' @ label_text l @ Q '')'')"

definition label_at :: "jstring list \<Rightarrow> int \<Rightarrow> jstring" where
  "label_at ls i = (if 0 \<le> i \<and> nat i < length ls then ls ! nat i else S ''undefined'')"

text \<open>A value compared with a number: a string is read as a decimal number.\<close>

definition value_is :: "oval \<Rightarrow> int \<Rightarrow> bool" where
  "value_is v n =
     (case v of
        Num x \<Rightarrow> x = Some n
      | Str s \<Rightarrow> if trim s = [] then n = 0
                 else list_all is_dec (trim s) \<and> parse_int (Some 10) (trim s) = Some n)"

section \<open>Options\<close>

text \<open>The choices of a list: the value, the label, and whether it is the current one.\<close>

type_synonym choice = "int \<times> jstring \<times> bool"

definition option_choices :: "jstring list \<Rightarrow> jnum \<Rightarrow> choice list" where
  "option_choices ls v = map (\<lambda>i. (int i, ls ! i, v = Some (int i))) [0..<length ls]"

definition select_choices :: "jstring list \<Rightarrow> jnum \<Rightarrow> choice list" where
  "select_choices ls v =
     map (\<lambda>i. (int i, ls ! i,
           (case v of None \<Rightarrow> False | Some x \<Rightarrow> 0 \<le> x \<and> nat x < length ls \<and> ls ! nat x = ls ! i))) [0..<length ls]"

definition radio :: "jstring \<Rightarrow> jstring \<Rightarrow> jstring \<Rightarrow> jstring \<Rightarrow> choice \<Rightarrow> jstring" where
  "radio prefix L checked close c =
     (let (i, label, current) = c
      in Q ''<label for=|'' @ prefix @ L @ Q ''-'' @ show_int i @ Q ''|>'' @ label @ Q ''</label>'' @
         Q ''<input type=|radio| name=|'' @ prefix @ L @ Q ''| id=|'' @ prefix @ L @ Q ''-'' @ show_int i @
         Q ''| value=|'' @ show_int i @ Q ''|'' @ (if current then checked else []) @ close)"

definition option_tag :: "choice \<Rightarrow> jstring" where
  "option_tag c =
     (let (i, label, current) = c
      in Q ''<option value=|'' @ show_int i @ Q ''|'' @ (if current then Q '' selected'' else []) @ Q ''>'' @
         label @ Q ''</option>'')"

definition select_head :: "jstring \<Rightarrow> odesc \<Rightarrow> jstring \<Rightarrow> jstring" where
  "select_head L od units =
     Q ''<label for=|a'' @ L @ Q ''| class=|select|>'' @ trim (od_name od) @ units @ Q ''</label>'' @
     Q ''<select name=|a'' @ L @ Q ''| class=|_select| id=|a'' @ L @ Q ''| '' @ native_menus @
     Q '' onchange=|select_change|>''"

definition option_field :: "jstring \<Rightarrow> odesc \<Rightarrow> jstring \<Rightarrow> jnum \<Rightarrow> jstring list \<Rightarrow> jstring" where
  "option_field L od units v ls =
     (let head = Q ''<fieldset class=|option f'' @ L @ Q ''| data-unit=|'' @ show_option od v @ Q ''|'';
          legend = Q ''<legend>'' @ trim (od_name od) @ units @ Q ''</legend>''
      in if length ls < 3 then
           head @ Q '' data-role=|controlgroup| data-type=|horizontal|>'' @ legend @
           concat (map (radio (Q ''o'') L (Q '' checked=|checked|'') (Q '' />'')) (option_choices ls v)) @
           Q ''</fieldset>''
         else if length ls < 5 then
           head @ Q '' data-role=|controlgroup|>'' @ legend @
           concat (map (radio (Q ''o'') L (Q '' checked'') (Q ''>'')) (option_choices ls v)) @ Q ''</fieldset>''
         else
           head @ Q ''>'' @ select_head L od units @
           concat (map option_tag (select_choices ls v)) @ Q ''</select>'' @ Q ''</fieldset>'')"

section \<open>Values\<close>

text \<open>\<open>for (var i=od.minValue[0]; i<=od.maxValue[0] && i<labels.length; ++i)\<close>\<close>

definition value_range :: "odesc \<Rightarrow> jstring list \<Rightarrow> int list" where
  "value_range od ls =
     (case (jnth (od_minValue od) 0, jnth (od_maxValue od) 0) of
        (Some mn, Some mx) \<Rightarrow> [mn..min mx (int (length ls) - 1)]
      | _ \<Rightarrow> [])"

definition value_choices :: "odesc \<Rightarrow> jstring list \<Rightarrow> oval \<Rightarrow> choice list" where
  "value_choices od ls v = map (\<lambda>i. (i, label_at ls i, value_is v i)) (value_range od ls)"

text \<open>In a menu the first label of the units 0x28 and 0x29 is \<open>None\<close>.\<close>

definition menu_choices :: "odesc \<Rightarrow> jstring list \<Rightarrow> oval \<Rightarrow> choice list" where
  "menu_choices od ls v =
     (case value_choices od ls v of
        [] \<Rightarrow> []
      | (i, l, c) # cs \<Rightarrow>
          (i, (if jnth (od_displayUnits od) 0 = Some 0x29 \<or> jnth (od_displayUnits od) 0 = Some 0x28
               then Q ''None'' else l), c) # cs)"

definition value_field :: "jstring \<Rightarrow> odesc \<Rightarrow> jstring \<Rightarrow> oval \<Rightarrow> jstring list \<Rightarrow> jstring" where
  "value_field L od units v ls =
     (let legend = Q ''<legend>'' @ trim (od_name od) @ units @ Q ''</legend>'';
          radios = concat (map (radio (Q ''a'') L (Q '' checked'') (Q ''>'')) (value_choices od ls v))
      in if length ls < 3 then
           Q ''<fieldset class=|mainValue| data-role=|controlgroup| data-type=|horizontal|>'' @ legend @
           radios @ Q ''</fieldset>''
         else if length ls < 6 then
           Q ''<fieldset class=|mainValue| data-role=|controlgroup|>'' @ legend @ radios @ Q ''</fieldset>''
         else
           Q ''<fieldset class=|mainValue|>'' @ select_head L od units @
           concat (map option_tag (menu_choices od ls v)) @ Q ''</select>'' @ Q ''</fieldset>'')"

definition on_off :: "jstring \<Rightarrow> odesc \<Rightarrow> jstring \<Rightarrow> bool \<Rightarrow> objval \<Rightarrow> jstring" where
  "on_off L od units isOption ov =
     (let mn = jand (jidx (od_minValue od) (ov_unit ov)) 0xff;
          mx = jand (jidx (od_maxValue od) (ov_unit ov)) 0xff;
          input = (\<lambda>k v. Q ''<input type=|radio| name=|a'' @ L @ Q ''| id=|a'' @ L @ Q ''-'' @ show_int k @
             Q ''| value=|'' @ show_int v @ Q ''|'' @
             (if value_is (ov_val ov) v then Q '' checked=|checked|'' else []) @ Q '' />'')
      in Q ''<fieldset class=|'' @ (if isOption then Q ''option'' else Q ''mainValue'') @
         Q ''| data-role=|controlgroup| data-type=|horizontal|>'' @
         Q ''<legend>'' @ trim (od_name od) @ units @ Q ''</legend>'' @
         Q ''<label for=|a'' @ L @ Q ''-2|>On</label>'' @ input 2 mx @
         Q ''<label for=|a'' @ L @ Q ''-1|>Off</label>'' @ input 1 mn @ Q ''</fieldset>'')"

definition range_input :: "jstring \<Rightarrow> jstring \<Rightarrow> jstring \<Rightarrow> jstring \<Rightarrow> jstring" where
  "range_input name v mn mx =
     Q '' <input type=|range| name=|a'' @ name @ Q ''| id=|a'' @ name @ Q ''| value=|'' @ v @
     Q ''| min=|'' @ mn @ Q ''| max=|'' @ mx @ Q ''|''"

text \<open>
  A value of two bytes with a limit for each, and a unit \<open>first:second\<close>; the unit must be a
  string.
\<close>

definition two_sliders :: "jstring \<Rightarrow> odesc \<Rightarrow> nat list \<Rightarrow> objval \<Rightarrow> jstring res" where
  "two_sliders L od value ov =
     (case ov_unitLabel ov of
        Some (Text t) \<Rightarrow>
          let mn = jidx (od_minValue od) (ov_unit ov); mx = jidx (od_maxValue od) (ov_unit ov);
              units = split_on 58 t;
              unit2 = (if length units > 1 then units ! 1 else S ''undefined'');
              slider = (\<lambda>pos suffix u v a b. Q ''<div class=|mainValue '' @ pos @ Q ''|><label for=|a'' @ L @ suffix @
                Q ''|>'' @ trim (od_name od) @ Q '' ('' @ u @ Q '')</label>'' @
                range_input (L @ suffix) v (show_int a) (show_int b) @ Q ''  /></div>'')
          in Inr (slider (Q ''firstfield'') (Q ''-0'') (hd units) (show_at value 0) (jshr mn 8) (jshr mx 8) @
                  slider (Q ''secondfield'') (Q ''-1'') unit2 (show_at value 1) (jand mn 0xff) (jand mx 0xff))
      | _ \<Rightarrow> Inl TypeError)"

definition option_slider :: "jstring \<Rightarrow> odesc \<Rightarrow> objval \<Rightarrow> jstring res" where
  "option_slider L od ov =
     (case od_minValue od of
        [] \<Rightarrow> Inl Exit
      | mn # _ \<Rightarrow>
          Inr (Q ''<div class=|option|><label for=|a'' @ L @ Q ''|>'' @ trim (od_name od) @
               in_parens (ov_optionUnitLabel ov) @ Q ''</label>'' @
               range_input L (show_option od (ov_optionValue ov)) (num_to_string 10 mn)
                 (if od_maxValue od = [] then S ''undefined'' else num_to_string 10 (hd (od_maxValue od))) @
               Q ''  /></div>''))"

definition value_slider :: "jstring \<Rightarrow> odesc \<Rightarrow> jstring \<Rightarrow> objval \<Rightarrow> jstring res" where
  "value_slider L od units ov =
     (if jnth (od_displayUnits od) 0 = Some 0x30 then
        (case ov_val ov of
           Num x \<Rightarrow> Inl TypeError
         | Str s \<Rightarrow>
             Inr (Q ''<div class=|mainValue|><label for=|a'' @ L @ Q ''|>'' @ trim (od_name od) @
                  Q ''</label> <input type=|text| maxlength=|'' @ num_to_string 10 (od_dataSize od) @
                  Q ''| name=|a'' @ L @ Q ''| id=|a'' @ L @ Q ''| value=|'' @ trim s @ Q ''| /></div>''))
      else
        Inr (Q ''<div class=|mainValue|><label for=|a'' @ L @ Q ''|>'' @ trim (od_name od) @ units @
             in_parens (ov_unitLabel ov) @ Q ''</label>'' @
             range_input L (show_oval (ov_val ov)) (show_undef (jidx (od_minValue od) (ov_unit ov)))
               (show_undef (jidx (od_maxValue od) (ov_unit ov))) @ Q '' /></div>''))"

text \<open>
  The choice between the forms of a control.  \<open>None\<close> is the early return of the empty string,
  for a parameter whose limits are both 0.
\<close>

definition value_item ::
  "jstring \<Rightarrow> odesc \<Rightarrow> jstring \<Rightarrow> bool \<Rightarrow> nat list \<Rightarrow> objval \<Rightarrow> jstring option res" where
  "value_item L od units isOption value ov =
     (let mn = jidx (od_minValue od) (ov_unit ov); mx = jidx (od_maxValue od) (ov_unit ov)
      in case (if isOption then ov_optionLabel ov else None) of
           Some (Choices ls) \<Rightarrow> Inr (Some (option_field L od units (ov_optionValue ov) ls))
         | _ \<Rightarrow>
           (case (if isOption then None else ov_unitLabel ov) of
              Some (Choices ls) \<Rightarrow> Inr (Some (value_field L od units (ov_val ov) ls))
            | _ \<Rightarrow>
              if mn = Some 0 \<and> mx = Some 1 then Inr (Some (on_off L od units isOption ov))
              else if mn = Some 0 \<and> mx = Some 0 then Inr None
              else map_sum id Some
                (if ov_twoValues ov then two_sliders L od value ov
                 else if isOption then option_slider L od ov
                 else value_slider L od units ov)))"

section \<open>Headers and the menu of algorithms\<close>

text \<open>
  The menu of algorithms: those that need more processing steps than are left (with those of
  the current one) are disabled, unless the steps in use are not known.
\<close>

definition steps_of :: "gui_env \<Rightarrow> jnum list \<Rightarrow> int res" where
  "steps_of env ls =
     (case getLevelName (ge_config env) 3 ls of
        Inl e \<Rightarrow> Inl e
      | Inr None \<Rightarrow> Inl TypeError
      | Inr (Some p) \<Rightarrow> Inr (case ge_info env (toLowerCase p) of None \<Rightarrow> 0 | Some i \<Rightarrow> si_steps i))"

definition enough_steps :: "gui_env \<Rightarrow> int \<Rightarrow> int \<Rightarrow> bool" where
  "enough_steps env cur steps \<longleftrightarrow>
     steps = 0 \<or>
     (case ge_usedSteps env of
        Some (Some used) \<Rightarrow> \<not> (ge_stepsAvail env - used + cur < steps)
      | _ \<Rightarrow> True)"

definition steps_text :: "gui_env \<Rightarrow> int \<Rightarrow> bool \<Rightarrow> int \<Rightarrow> jstring" where
  "steps_text env cur selected steps =
     (if steps = 0 then []
      else Q '' [ '' @ show_int steps @
           (if selected then []
            else (case ge_usedSteps env of
                    None \<Rightarrow> []
                  | Some u \<Rightarrow> Q '' / '' @ num_to_string 10 (map_option (\<lambda>used. ge_stepsAvail env - used + cur) u))) @
           Q '' ]'')"

definition algorithm_name :: "jnum list \<Rightarrow> int \<Rightarrow> jstring \<Rightarrow> jstring" where
  "algorithm_name levels i name =
     (if jnth levels 1 \<noteq> Some 4 \<and> jnth levels 1 \<noteq> Some 6 \<and> i > 0
      then name @ replicate (12 - length name) 95 else name)"

definition algorithm_option :: "gui_env \<Rightarrow> jnum list \<Rightarrow> ctree \<Rightarrow> int \<Rightarrow> int \<Rightarrow> jstring res" where
  "algorithm_option env levels curLevel cur i =
     (case Option.bind (child curLevel (Some i)) (od_of (ge_config env)) of
        None \<Rightarrow> Inl TypeError
      | Some od \<Rightarrow>
          (case steps_of env [jnth levels 0, jnth levels 1, Some i] of
             Inl e \<Rightarrow> Inl e
           | Inr steps \<Rightarrow>
               let selected = (jnth levels 2 = Some i)
               in Inr (Q ''<option'' @ (if enough_steps env cur steps then Q '' '' else Q '' disabled '') @
                       Q ''value=|'' @ show_int i @ Q ''|'' @ (if selected then Q '' selected'' else []) @ Q ''>'' @
                       algorithm_name levels i (trim (od_name od)) @ steps_text env cur selected steps @
                       Q ''</option>'')))"

fun concat_res :: "jstring res list \<Rightarrow> jstring res" where
  "concat_res [] = Inr []"
| "concat_res (Inl e # rs) = Inl e"
| "concat_res (Inr s # rs) = map_sum id ((@) s) (concat_res rs)"

definition algorithm_select :: "gui_env \<Rightarrow> jnum list \<Rightarrow> jstring \<Rightarrow> jstring res" where
  "algorithm_select env levels L =
     (let AL = take 4 L
      in case steps_of env levels of
           Inl e \<Rightarrow> Inl e
         | Inr cur \<Rightarrow>
             (case getLevel (ge_config env) 2 levels of
                None \<Rightarrow> Inl TypeError
              | Some curLevel \<Rightarrow>
                  (case od_of (ge_config env) curLevel of
                     None \<Rightarrow> Inl TypeError
                   | Some od \<Rightarrow>
                       map_sum id (\<lambda>options.
                         Q ''<label for=|a'' @ AL @ Q ''| class=|select|>Algorithm</label>'' @
                         Q ''<select name=|a'' @ AL @ Q ''| class=|_select| id=|a'' @ AL @ Q ''| '' @ native_menus @
                         Q '' data-menu-dialog=|true| onchange=|select_change|>'' @ options @ Q ''</select>'')
                       (concat_res (map (algorithm_option env levels curLevel cur)
                          (case jnth (od_maxValue od) 0 of None \<Rightarrow> [] | Some mx \<Rightarrow> [0..mx]))))))"

text \<open>A header like the one before it gets a number.\<close>

definition section_label ::
  "nat \<Rightarrow> nat \<Rightarrow> jnum list \<Rightarrow> jstring \<Rightarrow> section_ref \<Rightarrow> jstring \<times> section_ref" where
  "section_label numLevels array levels label r =
     (let old = (if sr_array r = array then levels else sr_levels r)
      in if label = sr_label r \<and> sr_numLevels r = Some numLevels \<and>
            (\<forall>i < numLevels - 1. jnth levels i = jnth old i)
         then (label @ [32] @ show_int (sr_index r + 1), r\<lparr>sr_index := sr_index r + 1\<rparr>)
         else (label, \<lparr>sr_numLevels = Some numLevels, sr_array = array, sr_levels = levels,
                       sr_label = label, sr_index = 1\<rparr>))"

text \<open>The array of the last header is the one the loop changes.\<close>

definition sync_ref :: "nat \<Rightarrow> jnum list \<Rightarrow> section_ref \<Rightarrow> section_ref" where
  "sync_ref array levels r = (if sr_array r = array then r\<lparr>sr_levels := levels\<rparr> else r)"

definition is_algorithm :: "nat \<Rightarrow> jnum list \<Rightarrow> bool" where
  "is_algorithm numLevels levels \<longleftrightarrow> numLevels = 3 \<and> is_effect levels"

section \<open>One item\<close>

definition units_text :: "gui_env \<Rightarrow> nat \<Rightarrow> jnum list \<Rightarrow> odesc \<Rightarrow> jstring res" where
  "units_text env numLevels levels od =
     (if ge_debug env then
        (case getLevel (ge_config env) numLevels levels of
           None \<Rightarrow> Inl TypeError
         | Some curL \<Rightarrow>
             map_sum id (\<lambda>u. if ct_ok curL then u else Q ''<i>'' @ u @ Q ''</i>'')
               (printf (ge_numlib env) (Q '' %04X '')
                  (Positional [if od_displayUnits od = [] then AUndef else ANum (hd (od_displayUnits od))])))
      else Inr [])"

definition list_item :: "gui_env \<Rightarrow> jstring option \<Rightarrow> jstring \<Rightarrow> odesc \<Rightarrow> jstring \<Rightarrow> bool \<Rightarrow> jstring" where
  "list_item env path L od html close =
     (if od_optionType od = Some 0xffff then
        Q ''<li data-role=|fieldcontain|'' @
        (if ge_debug env then Q '' title=|'' @ (case path of None \<Rightarrow> S ''null'' | Some p \<Rightarrow> p) @ Q ''|'' else []) @
        Q ''| data-level=|L'' @ L @ Q ''|>'' @ html @ (if close then Q ''</li>'' else [])
      else html @ Q ''</li>'')"

text \<open>What is left out: the names on the list and nodes called \<open>null\<close>.\<close>

definition hidden :: "jstring option \<Rightarrow> odesc \<Rightarrow> bool" where
  "hidden path od \<longleftrightarrow>
     (case path of None \<Rightarrow> False | Some p \<Rightarrow> p \<in> set blacklist) \<or> trim (od_name od) = S ''null''"

text \<open>A node with children: the menu of algorithms or a header.\<close>

definition control_item ::
  "gui_env \<Rightarrow> nat \<Rightarrow> nat \<Rightarrow> jnum list \<Rightarrow> odesc \<Rightarrow> jstring \<Rightarrow> section_ref \<Rightarrow> (jstring \<times> section_ref) res" where
  "control_item env array numLevels levels od L r =
     (if is_algorithm numLevels levels then map_sum id (\<lambda>h. (h, r)) (algorithm_select env levels L)
      else
        (let (label, r') = section_label numLevels array levels (trim (od_name od)) r
         in Inr (Q ''<div class=|controlLevel|>'' @ label @ Q ''</div>'', r')))"

text \<open>The item of an option, made inside the item of its parameter.\<close>

definition option_item ::
  "gui_env \<Rightarrow> nat \<Rightarrow> nat \<Rightarrow> jnum list \<Rightarrow> odesc \<Rightarrow> objval \<Rightarrow> jstring \<Rightarrow> jstring option \<Rightarrow> section_ref \<Rightarrow>
   (jstring \<times> section_ref) res" where
  "option_item env array numLevels levels ood ov L path r =
     (if hidden path ood then Inr ([], r)
      else if od_isControlLevel ood \<noteq> 0 then
        map_sum id (\<lambda>(h, r'). (list_item env path L ood h False, r'))
          (control_item env array numLevels levels ood L r)
      else
        (case units_text env numLevels levels ood of
           Inl e \<Rightarrow> Inl e
         | Inr units \<Rightarrow>
             map_sum id (\<lambda>h. (case h of None \<Rightarrow> [] | Some h \<Rightarrow> list_item env path L ood h False, r))
               (value_item L ood units True [] ov)))"

text \<open>The item of a parameter, with its option in front.\<close>

definition parameter_item ::
  "gui_env \<Rightarrow> nat \<Rightarrow> nat \<Rightarrow> jnum list \<Rightarrow> odesc \<Rightarrow> nat list \<Rightarrow> jstring \<Rightarrow> jstring option \<Rightarrow> section_ref \<Rightarrow>
   (jstring \<times> section_ref) res" where
  "parameter_item env array numLevels levels od value L path r =
     (case getObjectValue (ge_labels env) (ge_config env) od value of
        Inl e \<Rightarrow> Inl e
      | Inr ov \<Rightarrow>
          (case (if od_optionType od = Some 0xffff then Inr ([], r)
                 else (case objectDescription (ge_config env) (od_optionType od) of
                         None \<Rightarrow> Inl TypeError
                       | Some ood \<Rightarrow> option_item env array numLevels levels ood ov L path r)) of
             Inl e \<Rightarrow> Inl e
           | Inr (html, r') \<Rightarrow>
               (case units_text env numLevels levels od of
                  Inl e \<Rightarrow> Inl e
                | Inr units \<Rightarrow>
                    map_sum id
                      (\<lambda>h. (case h of None \<Rightarrow> [] | Some h \<Rightarrow> list_item env path L od (html @ h) False, r'))
                      (value_item L od units False value ov))))"

definition controlTree_gui ::
  "gui_env \<Rightarrow> nat \<Rightarrow> nat \<Rightarrow> jnum list \<Rightarrow> odesc \<Rightarrow> nat list \<Rightarrow> section_ref \<Rightarrow> (jstring \<times> section_ref) res" where
  "controlTree_gui env array numLevels levels od value r =
     (case getLevelName (ge_config env) numLevels levels of
        Inl e \<Rightarrow> Inl e
      | Inr path \<Rightarrow>
          if hidden path od then Inr ([], r)
          else
            (case toL numLevels levels of
               Inl e \<Rightarrow> Inl e
             | Inr L \<Rightarrow>
                 if od_isControlLevel od \<noteq> 0 then
                   map_sum id (\<lambda>(h, r'). (list_item env path L od h True, r'))
                     (control_item env array numLevels levels od L r)
                 else parameter_item env array numLevels levels od value L path r))"

section \<open>A page\<close>

text \<open>
  \<open>loop\<close>, with the callbacks called in the order they are: it returns the text and the array
  of levels, which the recursive calls change.  The fuel bounds the depth of the calls; the
  device answers by \<open>ask\<close>.
\<close>

definition set_level :: "nat \<Rightarrow> jnum \<Rightarrow> jnum list \<Rightarrow> jnum list" where
  "set_level i v ls = (if i < length ls then ls[i := v] else ls @ replicate (i - length ls) None @ [v])"

definition next_level :: "nat \<Rightarrow> jnum list \<Rightarrow> jnum list" where
  "next_level i ls = set_level i (jadd (jnth ls i) (Some 1)) ls"

definition at_most :: "jnum \<Rightarrow> jnum \<Rightarrow> bool" where
  "at_most a b = (case (a, b) of (Some x, Some y) \<Rightarrow> x \<le> y | _ \<Rightarrow> False)"

definition node_od :: "config \<Rightarrow> nat \<Rightarrow> jnum list \<Rightarrow> odesc option" where
  "node_od cfg n ls = Option.bind (getLevel cfg n ls) (od_of cfg)"

record page =
  pg_html :: jstring
  pg_levels :: "jnum list"
  pg_ref :: section_ref

definition add_item :: "gui_env \<Rightarrow> nat \<Rightarrow> nat \<Rightarrow> odesc \<Rightarrow> nat list \<Rightarrow> page \<Rightarrow> page res" where
  "add_item env array n od value pg =
     map_sum id (\<lambda>(h, r). pg\<lparr>pg_html := pg_html pg @ h, pg_ref := r\<rparr>)
       (controlTree_gui env array n (pg_levels pg) od value (sync_ref array (pg_levels pg) (pg_ref pg)))"

definition more_levels :: "gui_env \<Rightarrow> nat \<Rightarrow> page \<Rightarrow> bool res" where
  "more_levels env n pg =
     (case node_od (ge_config env) (n - 1) (pg_levels pg) of
        None \<Rightarrow> Inl TypeError
      | Some od \<Rightarrow> Inr (at_most (jnth (pg_levels pg) (n - 1)) (jnth (od_maxValue od) 0)))"

fun loop ::
  "gui_env \<Rightarrow> (jnum list \<Rightarrow> nat list) \<Rightarrow> nat \<Rightarrow> nat \<Rightarrow> nat \<Rightarrow> nat \<Rightarrow> bool \<Rightarrow> page \<Rightarrow> page res option" where
  "loop env ask array 0 base n unique pg = None"
| "loop env ask array (Suc fuel) base n unique pg =
     (case node_od (ge_config env) n (pg_levels pg) of
        None \<Rightarrow> Some (Inl TypeError)
      | Some od \<Rightarrow>
        if od_isControlLevel od \<noteq> 0 then
          (case (if n \<noteq> base \<or> is_algorithm n (pg_levels pg) then add_item env array n od [] pg else Inr pg) of
             Inl e \<Rightarrow> Some (Inl e)
           | Inr pg1 \<Rightarrow>
             (case loop env ask array fuel base (Suc n) False
                     (pg1\<lparr>pg_levels := set_level n (jnth (od_minValue od) 0) (pg_levels pg1)\<rparr>) of
                None \<Rightarrow> None
              | Some (Inl e) \<Rightarrow> Some (Inl e)
              | Some (Inr pg2) \<Rightarrow>
                  if n = base then Some (Inr pg2)
                  else
                    (let pg3 = pg2\<lparr>pg_levels := next_level (n - 1) (pg_levels pg2)\<rparr>
                     in case more_levels env n pg3 of
                          Inl e \<Rightarrow> Some (Inl e)
                        | Inr True \<Rightarrow> loop env ask array fuel base n False pg3
                        | Inr False \<Rightarrow> Some (Inr pg3))))
        else
          (case add_item env array n od (ask (take n (pg_levels pg))) pg of
             Inl e \<Rightarrow> Some (Inl e)
           | Inr pg1 \<Rightarrow>
             (let pg2 = pg1\<lparr>pg_levels := next_level (n - 1) (pg_levels pg1)\<rparr>
              in if unique then Some (Inr pg2)
                 else
                   (case more_levels env n pg2 of
                      Inl e \<Rightarrow> Some (Inl e)
                    | Inr True \<Rightarrow> loop env ask array fuel base n False pg2
                    | Inr False \<Rightarrow> Some (Inr pg2)))))"

section \<open>Every node of a page is rendered\<close>

lemma get_level_prefix: "get_level t n (take n ls) = get_level t n ls"
proof (induction n arbitrary: t ls)
  case (Suc n)
  have "jhead (take (Suc n) ls) = jhead ls" "tl (take (Suc n) ls) = take n (tl ls)"
    by (cases ls; simp add: jhead_def)+
  then show ?case using Suc by (simp split: option.splits)
qed simp

lemma node_od_take: "take n ls = take n ls' \<Longrightarrow> node_od cfg n ls = node_od cfg n ls'"
  using get_level_prefix [of _ n ls] get_level_prefix [of _ n ls'] by (simp add: node_od_def getLevel_def)

text \<open>
  The configuration describes the tree below an address: which nodes have children, and how
  many.
\<close>

definition tree_at :: "config \<Rightarrow> int list \<Rightarrow> dtree \<Rightarrow> bool" where
  "tree_at cfg p t \<longleftrightarrow>
     (\<forall>q u. sub t q = Some u \<longrightarrow>
        (\<exists>od. node_od cfg (length (p @ q)) (map Some (p @ q)) = Some od \<and> describes (\<lambda>_. od) u \<and>
           jnth (od_minValue od) 0 = Some 0))"

lemma tree_at_kid:
  assumes "tree_at cfg p (DT ty kids)" and "j < length kids"
  shows "tree_at cfg (p @ [int j]) (kids ! j)"
  unfolding tree_at_def
proof (intro allI impI)
  fix q u assume "sub (kids ! j) q = Some u"
  then have "sub (DT ty kids) (int j # q) = Some u" using assms(2) by simp
  then have "\<exists>od. node_od cfg (length (p @ int j # q)) (map Some (p @ int j # q)) = Some od \<and>
      describes (\<lambda>_. od) u \<and> jnth (od_minValue od) 0 = Some 0"
    using assms(1) unfolding tree_at_def by blast
  then show "\<exists>od. node_od cfg (length ((p @ [int j]) @ q)) (map Some ((p @ [int j]) @ q)) = Some od \<and>
      describes (\<lambda>_. od) u \<and> jnth (od_minValue od) 0 = Some 0" by simp
qed

text \<open>The text \<open>h\<close> is what \<open>controlTree_gui\<close> makes of the node at the address \<open>q\<close>.\<close>

definition shows_item :: "gui_env \<Rightarrow> (jnum list \<Rightarrow> nat list) \<Rightarrow> nat \<Rightarrow> int list \<Rightarrow> jstring \<Rightarrow> bool" where
  "shows_item env ask array q h \<longleftrightarrow>
     (\<exists>ls od r r'. take (length q) ls = map Some q \<and> node_od (ge_config env) (length q) (map Some q) = Some od \<and>
        controlTree_gui env array (length q) ls od
          (if od_isControlLevel od \<noteq> 0 then [] else ask (map Some q)) r = Inr (h, r'))"

text \<open>A page with more items; the first levels are untouched.\<close>

definition extends ::
  "gui_env \<Rightarrow> (jnum list \<Rightarrow> nat list) \<Rightarrow> nat \<Rightarrow> int list list \<Rightarrow> int list \<Rightarrow> page \<Rightarrow> page \<Rightarrow> bool" where
  "extends env ask array qs p pg pg' \<longleftrightarrow>
     take (length p) (pg_levels pg') = map Some p \<and>
     (\<exists>hs. list_all2 (shows_item env ask array) qs hs \<and> pg_html pg' = pg_html pg @ concat hs)"

lemma extends_trans:
  assumes "extends env ask array qs p pg1 pg2" and "extends env ask array qs' p' pg2' pg3"
    and "pg_html pg2' = pg_html pg2"
  shows "extends env ask array (qs @ qs') p' pg1 pg3"
proof -
  obtain hs hs' where h: "list_all2 (shows_item env ask array) qs hs" "pg_html pg2 = pg_html pg1 @ concat hs"
    "list_all2 (shows_item env ask array) qs' hs'" "pg_html pg3 = pg_html pg2' @ concat hs'"
    using assms(1,2) unfolding extends_def by blast
  have "list_all2 (shows_item env ask array) (qs @ qs') (hs @ hs')" using h by (intro list_all2_appendI)
  then show ?thesis
    using h assms(2,3) unfolding extends_def by (intro conjI exI [of _ "hs @ hs'"]) auto
qed

lemma add_item_extends:
  assumes "take (length q) (pg_levels pg) = map Some q"
    and "node_od (ge_config env) (length q) (map Some q) = Some od"
    and "add_item env array (length q) od (if od_isControlLevel od \<noteq> 0 then [] else ask (map Some q)) pg = Inr pg'"
  shows "extends env ask array [q] q pg pg' \<and> pg_levels pg' = pg_levels pg"
proof -
  let ?v = "if od_isControlLevel od \<noteq> 0 then [] else ask (map Some q)"
  obtain h r where h: "controlTree_gui env array (length q) (pg_levels pg) od ?v
      (sync_ref array (pg_levels pg) (pg_ref pg)) = Inr (h, r)" "pg' = pg\<lparr>pg_html := pg_html pg @ h, pg_ref := r\<rparr>"
    using assms(3) unfolding add_item_def
    by (cases "controlTree_gui env array (length q) (pg_levels pg) od ?v
      (sync_ref array (pg_levels pg) (pg_ref pg))") auto
  then have "shows_item env ask array q h" unfolding shows_item_def using assms(1,2) by blast
  then show ?thesis
    using h(2) assms(1) unfolding extends_def by (intro conjI exI [of _ "[h]"]) auto
qed

lemma set_level_take:
  assumes "take n ls = map Some p" and "length p = n" and "i = int j" and "k = Suc n"
  shows "take k (set_level n (Some i) ls) = map Some (p @ [i])"
proof -
  have "n \<le> length ls" using assms(1,2) by (metis length_map length_take min.cobounded1)
  then show ?thesis
    using assms by (cases "n < length ls")
      (auto simp: set_level_def take_update_swap take_Suc_conv_app_nth nth_list_update list_update_append)
qed

lemma next_level_take:
  assumes "take (Suc n) ls = map Some (p @ [i])" and "length p = n" and "i = int j"
  shows "take (Suc n) (next_level n ls) = map Some (p @ [i + 1])" and "jnth (next_level n ls) n = Some (i + 1)"
proof -
  have len: "Suc n \<le> length ls" using assms(1,2) by (metis length_append_singleton length_map length_take min.cobounded1)
  have t: "take n ls = map Some p" using assms(1,2) len
    by (metis append_eq_conv_conj length_map map_append min.absorb2 Suc_n_not_le_n le_less_Suc_eq nat_le_linear take_take take_map min_def)
  have "ls ! n = Some i" using assms(1,2) len
    by (metis lessI list.simps(8,9) map_append nth_append_length nth_take length_map)
  then have l: "jnth ls n = Some i" using len by (simp add: jnth_def)
  then show "take (Suc n) (next_level n ls) = map Some (p @ [i + 1])"
    unfolding next_level_def using set_level_take [OF t assms(2), of "i + 1" "Suc j" "Suc n"] assms(3) by simp
  show "jnth (next_level n ls) n = Some (i + 1)"
    using len l by (simp add: next_level_def set_level_def jnth_def)
qed

lemma tree_atD:
  assumes "tree_at cfg p t"
  obtains od where "node_od cfg (length p) (map Some p) = Some od" "describes (\<lambda>_. od) t"
    "jnth (od_minValue od) 0 = Some 0"
  using assms unfolding tree_at_def by (metis append_Nil2 sub.simps(1))

lemma paths_ne [simp]: "paths t \<noteq> []"
  by (cases t) simp

text \<open>Is there another sibling?\<close>

lemma more_levels_iff:
  assumes "node_od (ge_config env) n' (map Some p) = Some pod" and "length p = n'"
    and "jnth (od_maxValue pod) 0 = Some (int (i + length ks))"
    and "take (Suc n') (pg_levels pg) = map Some (p @ [int i + 1])" and "jnth (pg_levels pg) n' = Some (int i + 1)"
  shows "more_levels env (Suc n') pg = Inr (ks \<noteq> [])"
proof -
  have "take n' (pg_levels pg) = take n' (map Some p)"
    using assms(2,4) by (metis append_eq_conv_conj length_map map_append nat_le_linear take_all take_take min_def Suc_n_not_le_n le_SucI)
  then have "node_od (ge_config env) n' (pg_levels pg) = Some pod"
    using node_od_take assms(1) by metis
  then show ?thesis using assms(3,5) by (cases ks) (simp_all add: more_levels_def at_most_def)
qed

definition renders ::
  "gui_env \<Rightarrow> (jnum list \<Rightarrow> nat list) \<Rightarrow> nat \<Rightarrow> int list list \<Rightarrow> int list \<Rightarrow> page \<Rightarrow> page res option \<Rightarrow> bool" where
  "renders env ask array qs p pg res \<longleftrightarrow>
     (\<exists>e. res = Some (Inl e)) \<or> (\<exists>pg'. res = Some (Inr pg') \<and> extends env ask array qs p pg pg')"

lemma extends_levels:
  assumes "extends env ask array qs (p @ [i]) pg pg'" and "length p = n" and "i = int j"
  shows "take (Suc n) (pg_levels pg') = map Some (p @ [i])"
    and "extends env ask array qs p pg (pg'\<lparr>pg_levels := next_level n (pg_levels pg')\<rparr>)"
proof -
  show t: "take (Suc n) (pg_levels pg') = map Some (p @ [i])"
    using assms(1,2) by (simp add: extends_def)
  have "take (Suc n) (next_level n (pg_levels pg')) = map Some (p @ [i + 1])"
    by (rule next_level_take(1) [OF t assms(2,3)])
  then have "take n (next_level n (pg_levels pg')) = map Some p"
    using assms(2) by (metis append_eq_conv_conj length_map map_append take_take min_def nat_le_linear Suc_n_not_le_n le_SucI)
  then show "extends env ask array qs p pg (pg'\<lparr>pg_levels := next_level n (pg_levels pg')\<rparr>)"
    using assms(1,2) by (simp add: extends_def)
qed

text \<open>What follows a node and its children: its right siblings.\<close>

lemma renders_next:
  assumes "extends env ask array qs (p @ [int i]) pg pg2" and "length p = n'"
    and "node_od (ge_config env) n' (map Some p) = Some pod"
    and "jnth (od_maxValue pod) 0 = Some (int (i + length ks))"
    and "pg3 = pg2\<lparr>pg_levels := next_level n' (pg_levels pg2)\<rparr>"
    and "ks \<noteq> [] \<Longrightarrow> take (Suc n') (pg_levels pg3) = map Some (p @ [int (Suc i)]) \<Longrightarrow> renders env ask array qs' p pg3 rest"
    and "ks = [] \<Longrightarrow> qs' = []"
  shows "renders env ask array (qs @ qs') p pg
    (case more_levels env (Suc n') pg3 of
       Inl e \<Rightarrow> Some (Inl e) | Inr True \<Rightarrow> rest | Inr False \<Rightarrow> Some (Inr pg3))"
proof -
  note t = extends_levels [OF assms(1,2) refl]
  have l: "take (Suc n') (pg_levels pg3) = map Some (p @ [int i + 1])" "jnth (pg_levels pg3) n' = Some (int i + 1)"
    using next_level_take [OF t(1) assms(2) refl] by (simp_all add: assms(5))
  have m: "more_levels env (Suc n') pg3 = Inr (ks \<noteq> [])"
    by (rule more_levels_iff [OF assms(3,2,4) l])
  have e: "extends env ask array qs p pg pg3" using t(2) by (simp add: assms(5))
  show ?thesis
  proof (cases "ks = []")
    case True
    then show ?thesis using m e assms(7) by (simp add: renders_def)
  next
    case False
    then have "renders env ask array qs' p pg3 rest"
      using assms(6) l(1) by (simp add: add.commute)
    then show ?thesis
      using m False extends_trans [OF e] by (auto simp: renders_def)
  qed
qed

lemma kid_paths_Cons:
  "map ((@) p) (kid_paths paths (int i) (DT ty cs # ks)) =
     (p @ [int i]) # map ((@) (p @ [int i])) (kid_paths paths 0 cs) @ map ((@) p) (kid_paths paths (int (Suc i)) ks)"
  by (simp add: comp_def add.commute)

lemma loop_siblings:
  assumes "length p = n'" and "base \<le> n'" and "node_od (ge_config env) n' (map Some p) = Some pod"
    and "jnth (od_maxValue pod) 0 = Some (int (i + length ks) - 1)" and "ks \<noteq> []"
    and "\<forall>j < length ks. tree_at (ge_config env) (p @ [int (i + j)]) (ks ! j)"
    and "take (Suc n') (pg_levels pg) = map Some (p @ [int i])"
    and "length (kid_paths paths (int i) ks) \<le> fuel"
  shows "renders env ask array (map ((@) p) (kid_paths paths (int i) ks)) p pg
    (loop env ask array fuel base (Suc n') False pg)"
  using assms
proof (induction "length (kid_paths paths (int i) ks)" arbitrary: p n' pod i ks pg fuel rule: less_induct)
  case less
  obtain k ks' where ks: "ks = k # ks'" using less.prems(5) by (cases ks) auto
  obtain ty cs where k: "k = DT ty cs" by (cases k)
  let ?q = "p @ [int i]"
  have len: "length ?q = Suc n'" using less.prems(1) by simp
  have tk: "tree_at (ge_config env) ?q k" using less.prems(6) ks by (metis add_0_right length_Cons nth_Cons_0 zero_less_Suc)
  obtain od where od: "node_od (ge_config env) (length ?q) (map Some ?q) = Some od" "describes (\<lambda>_. od) k"
    "jnth (od_minValue od) 0 = Some 0" by (rule tree_atD [OF tk])
  have nod: "node_od (ge_config env) (Suc n') (pg_levels pg) = Some od"
    using od(1) node_od_take [of "Suc n'" "pg_levels pg" "map Some ?q"] less.prems(1,7) by simp
  obtain f where f: "fuel = Suc f" using less.prems(8) ks k by (cases fuel) auto
  have take: "take (Suc n') (pg_levels pg) = map Some ?q" by (rule less.prems(7))
  let ?rest = "\<lambda>pg3. loop env ask array f base (Suc n') False pg3"
  have fuels: "length (kid_paths paths 0 cs) \<le> f" "length (kid_paths paths (int (Suc i)) ks') \<le> f"
    using less.prems(8) by (simp_all add: ks k f add.commute)
  have max: "jnth (od_maxValue pod) 0 = Some (int (i + length ks'))" using less.prems(4) ks by simp
  have sib: "renders env ask array (map ((@) p) (kid_paths paths (int (Suc i)) ks')) p pg3 (?rest pg3)"
    if "ks' \<noteq> []" "take (Suc n') (pg_levels pg3) = map Some (p @ [int (Suc i)])" for pg3
  proof (rule less.hyps [OF _ less.prems(1-3) _ that(1) _ that(2) fuels(2)])
    show "length (kid_paths paths (int (Suc i)) ks') < length (kid_paths paths (int i) ks)"
      by (simp add: ks k add.commute)
    show "jnth (od_maxValue pod) 0 = Some (int (Suc i + length ks') - 1)" using max by simp
    show "\<forall>j < length ks'. tree_at (ge_config env) (p @ [int (Suc i + j)]) (ks' ! j)"
      using less.prems(6) ks by (metis Suc_less_eq add_Suc_shift length_Cons nth_Cons_Suc)
  qed
  have next_of: "renders env ask array (qs @ map ((@) p) (kid_paths paths (int (Suc i)) ks')) p pg
      (case more_levels env (Suc n') pg3 of
         Inl e \<Rightarrow> Some (Inl e) | Inr True \<Rightarrow> ?rest pg3 | Inr False \<Rightarrow> Some (Inr pg3))"
    if "extends env ask array qs ?q pg pg2" "pg3 = pg2\<lparr>pg_levels := next_level n' (pg_levels pg2)\<rparr>" for qs pg2 pg3
    by (rule renders_next [OF that(1) less.prems(1,3) max that(2)]) (use sib in auto)
  let ?v = "if od_isControlLevel od \<noteq> 0 then [] else ask (map Some ?q)"
  show ?case
  proof (cases "add_item env array (Suc n') od ?v pg")
    case (Inl e)
    then show ?thesis
      using nod take less.prems(2) by (auto simp: f renders_def split: if_splits)
  next
    case (Inr pg1)
    then have a: "extends env ask array [?q] ?q pg pg1" "pg_levels pg1 = pg_levels pg"
      using add_item_extends [of ?q pg env od array ask pg1] take od(1) len by auto
    show ?thesis
    proof (cases "cs = []")
      case True
      then have c: "od_isControlLevel od = 0" using od(2) k by (simp add: describes_def)
      have l: "loop env ask array fuel base (Suc n') False pg =
          (let pg3 = pg1\<lparr>pg_levels := next_level n' (pg_levels pg1)\<rparr>
           in case more_levels env (Suc n') pg3 of
                Inl e \<Rightarrow> Some (Inl e) | Inr True \<Rightarrow> ?rest pg3 | Inr False \<Rightarrow> Some (Inr pg3))"
        using nod c Inr take by (simp add: f)
      show ?thesis
        unfolding l Let_def ks k kid_paths_Cons True using next_of [OF a(1) refl] by simp
    next
      case False
      then have c: "od_isControlLevel od \<noteq> 0" "jnth (od_maxValue od) 0 = Some (int (0 + length cs) - 1)"
        using od(2) k by (simp_all add: describes_def)
      let ?pg = "pg1\<lparr>pg_levels := set_level (Suc n') (Some 0) (pg_levels pg1)\<rparr>"
      have t0: "take (Suc (Suc n')) (pg_levels ?pg) = map Some (?q @ [int 0])"
        using set_level_take [of "Suc n'" "pg_levels pg1" ?q 0 0 "Suc (Suc n')"] take a(2) len by simp
      have t1: "take (Suc n') (pg_levels ?pg) = map Some ?q"
        using t0 len by (metis append_eq_conv_conj length_map map_append take_take min_def nat_le_linear Suc_n_not_le_n le_SucI)
      have kids: "renders env ask array (map ((@) ?q) (kid_paths paths (int 0) cs)) ?q ?pg
          (loop env ask array f base (Suc (Suc n')) False ?pg)"
      proof (rule less.hyps [OF _ len _ _ c(2) False _ t0])
        show "length (kid_paths paths (int 0) cs) < length (kid_paths paths (int i) ks)" by (simp add: ks k)
        show "base \<le> Suc n'" using less.prems(2) by simp
        show "node_od (ge_config env) (Suc n') (map Some ?q) = Some od" using od(1) len by simp
        show "\<forall>j < length cs. tree_at (ge_config env) (?q @ [int (0 + j)]) (cs ! j)"
          using tree_at_kid [of "ge_config env" ?q ty cs] tk k by simp
        show "length (kid_paths paths (int 0) cs) \<le> f" using fuels(1) by simp
      qed
      have l: "loop env ask array fuel base (Suc n') False pg =
          (case loop env ask array f base (Suc (Suc n')) False ?pg of
             None \<Rightarrow> None
           | Some (Inl e) \<Rightarrow> Some (Inl e)
           | Some (Inr pg2) \<Rightarrow>
               (let pg3 = pg2\<lparr>pg_levels := next_level n' (pg_levels pg2)\<rparr>
                in case more_levels env (Suc n') pg3 of
                     Inl e \<Rightarrow> Some (Inl e) | Inr True \<Rightarrow> ?rest pg3 | Inr False \<Rightarrow> Some (Inr pg3)))"
        using nod c(1) Inr less.prems(2) od(3) by (simp add: f split: option.split sum.split)
      show ?thesis
        using kids unfolding renders_def [of _ _ _ _ ?q]
      proof (elim disjE exE conjE)
        fix e assume "loop env ask array f base (Suc (Suc n')) False ?pg = Some (Inl e)"
        then show ?thesis unfolding l by (simp add: renders_def)
      next
        fix pg2 assume r: "loop env ask array f base (Suc (Suc n')) False ?pg = Some (Inr pg2)"
          and e: "extends env ask array (map ((@) ?q) (kid_paths paths (int 0) cs)) ?q ?pg pg2"
        have "extends env ask array (?q # map ((@) ?q) (kid_paths paths 0 cs)) ?q pg pg2"
          using extends_trans [OF a(1) e] by simp
        from next_of [OF this refl] show ?thesis
          unfolding l r ks k kid_paths_Cons by (simp add: Let_def)
      qed
    qed
  qed
qed

text \<open>The addresses shown on the page of a node with children.\<close>

definition page_paths :: "int list \<Rightarrow> dtree \<Rightarrow> int list list" where
  "page_paths p t =
     (let all = map ((@) p) (paths t) in if is_algorithm (length p) (map Some p) then all else tl all)"

lemma is_algorithm_take: "take n ls = take n ls' \<Longrightarrow> is_algorithm n ls = is_algorithm n ls'"
proof -
  assume t: "take n ls = take n ls'"
  have "jnth ls i = jnth ls' i" if "i < 3" "n = 3" for i
  proof -
    have "jnth ls i = jnth (take n ls) i" "jnth ls' i = jnth (take n ls') i"
      using that by (auto simp: jnth_def)
    then show ?thesis using t by simp
  qed
  then show ?thesis by (auto simp: is_algorithm_def is_effect_def)
qed

lemma page_kids:
  assumes "tree_at (ge_config env) p (DT ty cs)" and "cs \<noteq> []" and "length (paths (DT ty cs)) \<le> Suc f"
    and "node_od (ge_config env) (length p) (map Some p) = Some od"
    and "jnth (od_maxValue od) 0 = Some (int (length cs) - 1)" and "pg_levels pg = map Some p"
    and "pg' = pg\<lparr>pg_levels := set_level (length p) (Some 0) (pg_levels pg)\<rparr>"
  shows "renders env ask array (map ((@) p) (kid_paths paths 0 cs)) p pg'
      (loop env ask array f (length p) (Suc (length p)) False pg')"
proof -
  have "renders env ask array (map ((@) p) (kid_paths paths (int 0) cs)) p pg'
      (loop env ask array f (length p) (Suc (length p)) False pg')"
  proof (rule loop_siblings [OF refl _ assms(4) _ assms(2)])
    show "\<forall>j < length cs. tree_at (ge_config env) (p @ [int (0 + j)]) (cs ! j)"
      using tree_at_kid [of "ge_config env" p ty cs] assms(1) by simp
    show "take (Suc (length p)) (pg_levels pg') = map Some (p @ [int 0])"
      using set_level_take [of "length p" "map Some p" p 0 0 "Suc (length p)"] assms(6,7) by simp
  qed (use assms(3,5) in simp_all)
  then show ?thesis by simp
qed


text \<open>Two parameters of the shipped configuration on a page, for the witness.\<close>

definition page_config :: config where
  "page_config =
     \<lparr>objectDescription = map_of [(Some 585, plain_od 585 (S ''SystemModes'') 4 1 1),
        (Some 456, plain_od 456 (S ''TeminalDis'') 0 1 4), (Some 457, plain_od 457 (S ''AddresMode'') 0 1 4)],
      controlTree = Node (Some (Some 585)) None None False [(Some 0, leaf 456), (Some 1, leaf 457)]\<rparr>"

definition page_env :: gui_env where
  "page_env =
     \<lparr>ge_config = page_config, ge_labels = \<lparr>unit_label = \<lambda>_. None, utf8 = id\<rparr>,
      ge_numlib = no_fractions, ge_debug = False,
      ge_info = \<lambda>_. None, ge_stepsAvail = 196, ge_usedSteps = None\<rparr>"

definition empty_page :: page where
  "empty_page =
     \<lparr>pg_html = [], pg_levels = [],
      pg_ref = \<lparr>sr_numLevels = None, sr_array = 0, sr_levels = [], sr_label = [], sr_index = 0\<rparr>\<rparr>"

lemmas page_simps = page_env_def page_config_def leaf_def plain_od_def child_def jhead_def od_of_def

lemma page_item:
  assumes "i = 0 \<or> i = 1"
  shows "\<exists>od h r'. node_od page_config 1 [Some i] = Some od \<and> od_isControlLevel od = 0 \<and>
     controlTree_gui page_env array 1 [Some i] od [1, 0] r = Inr (h, r')"
proof -
  have "\<exists>ty name. node_od page_config 1 [Some i] = Some (plain_od ty name 0 1 4) \<and> 
      getLevelName page_config 1 [Some i] = Inr (Some name) \<and> name \<in> {S ''TeminalDis'', S ''AddresMode''}"
    using assms by (auto simp: node_od_def getLevel_def getLevelName_def page_simps js_eval no_spaces_def)
  then obtain ty name where n: "node_od page_config 1 [Some i] = Some (plain_od ty name 0 1 4)"
    "getLevelName page_config 1 [Some i] = Inr (Some name)" "name \<in> {S ''TeminalDis'', S ''AddresMode''}"
    by blast
  have "\<not> hidden (Some name) (plain_od ty name 0 1 4)"
    using n(3) by (auto simp: hidden_def blacklist_def plain_od_def js_eval trim_def is_ws_def)
  moreover have "\<exists>L. toL 1 [Some i] = Inr L" using assms by (auto simp: Let_def)
  ultimately have "\<exists>h r'. controlTree_gui page_env array 1 [Some i] (plain_od ty name 0 1 4) [1, 0] r = Inr (h, r')"
    using n(2) by (auto simp: controlTree_gui_def parameter_item_def getObjectValue_def value_item_def
      units_text_def page_env_def plain_val_def unit_of_def jidx_def jnth_def plain_od_def Let_def)
  then show ?thesis using n(1) by (auto simp: plain_od_def)
qed

lemma page_tree: "tree_at page_config [] (DT 585 [DT 456 [], DT 457 []])"
  unfolding tree_at_def
proof (intro allI impI)
  fix q u assume s: "sub (DT 585 [DT 456 [], DT 457 []]) q = Some u"
  then have "q = [] \<or> q = [0] \<or> q = [1]"
    by (cases q; cases "tl q") (auto split: if_splits simp: nth_Cons split: nat.splits)
  then show "\<exists>od. node_od page_config (length ([] @ q)) (map Some ([] @ q)) = Some od \<and>
      describes (\<lambda>_. od) u \<and> jnth (od_minValue od) 0 = Some 0"
    using s by (elim disjE; hypsubst; intro exI [of _ "the (node_od page_config (length q) (map Some q))"])
      (auto simp: node_od_def getLevel_def page_simps describes_def jnth_def)
qed


end
