(* ===== verification/Startup.thy ===== *)
theory Startup
  imports Pages
begin

text \<open>
  Starting the program (\<open>src/mpxg2-dev/lexicon.js\<close>, \<open>file.js\<close>): the identity and the ports,
  the stored configuration, the handshake with the device, its system configuration, and, when
  no stored configuration fits, asking for every description and type and storing the result.
  The text \<open>JSON\<close> has for a configuration, the printing of numbers and the answers of the
  device are parameters; a file is its bytes.
\<close>

section \<open>Files\<close>

text \<open>
  The files on disk and the ones built into the program; \<open>dk_readable\<close> says which of the
  first can be read, \<open>dk_writable\<close> where one can be written.
\<close>

record disk =
  dk_files :: "jstring \<Rightarrow> nat list option"
  dk_data :: "jstring \<Rightarrow> nat list option"
  dk_readable :: "jstring \<Rightarrow> bool"
  dk_writable :: "jstring \<Rightarrow> bool"

text \<open>\<open>path.replace(/^\.\//,'')\<close>\<close>

definition built_in :: "jstring \<Rightarrow> jstring" where
  "built_in path = (if take 2 path = [46, 47] then drop 2 path else path)"

text \<open>\<open>file.stat\<close> with a callback: the error, and the size where there is one.\<close>

definition file_stat :: "disk \<Rightarrow> jstring \<Rightarrow> bool \<times> nat option" where
  "file_stat dk path =
     (case dk_files dk path of
        Some f \<Rightarrow> (False, Some (length f))
      | None \<Rightarrow>
          (case dk_data dk (built_in path) of
             Some f \<Rightarrow> (False, Some (length f))
           | None \<Rightarrow> (True, None)))"

definition no_file :: "disk \<Rightarrow> jstring \<Rightarrow> bool" where
  "no_file dk path = (case file_stat dk path of (err, n) \<Rightarrow> err \<or> n = None \<or> n = Some 0)"

text \<open>
  \<open>file.readFile\<close> with a callback: a file that is nowhere is an exception, not an error of the
  callback; the inner \<open>None\<close> is the error the callback gets.
\<close>

definition file_readFile :: "disk \<Rightarrow> jstring \<Rightarrow> nat list option res" where
  "file_readFile dk path =
     (case dk_files dk path of
        Some f \<Rightarrow> Inr (if dk_readable dk path then Some f else None)
      | None \<Rightarrow>
          (case dk_data dk (built_in path) of
             Some f \<Rightarrow> Inr (Some f)
           | None \<Rightarrow> Inl (Throw (S ''File not found: '' @ path))))"

section \<open>Ports\<close>

record port =
  pt_names :: "jstring list"
  pt_opens :: "nat \<Rightarrow> bool"
  pt_open :: "nat option"

fun port_index :: "nat \<Rightarrow> jstring list \<Rightarrow> jstring \<Rightarrow> nat" where
  "port_index i [] name = 0"
| "port_index i (n # ns) name = (if n = name then i else port_index (Suc i) ns name)"

definition getPortByName :: "port \<Rightarrow> jstring \<Rightarrow> nat" where
  "getPortByName p name = port_index 0 (pt_names p) name"

definition open_port :: "port \<Rightarrow> jstring \<Rightarrow> port" where
  "open_port p name =
     (let i = getPortByName p name in if pt_opens p i then p\<lparr>pt_open := Some i\<rparr> else p)"

section \<open>The state\<close>

type_synonym saved = "config \<times> bool \<times> sysconf option"

record setup_env =
  se_numlib :: numlib
  se_parse :: "nat list \<Rightarrow> saved option"
  se_print :: "saved \<Rightarrow> nat list"
  se_parse_info :: "nat list \<Rightarrow> (jstring \<Rightarrow> step_info option) option"
  se_debug :: bool

text \<open>
  The object \<open>config\<close> is the configuration, its flag \<open>ready\<close> and the system configuration.
  \<open>su_done\<close> is the call of the callback, with its error.
\<close>

record startup =
  su_ids :: device_ids
  su_MIDI_INPUT :: jstring
  su_MIDI_OUTPUT :: jstring
  su_MAJOR_VERSION :: jnum
  su_MINOR_VERSION :: jnum
  su_CONFIG_FILE :: jstring
  su_INFO_FILE :: jstring
  su_config :: config
  su_ready :: bool
  su_sysconf :: "sysconf option"
  su_info :: "jstring \<Rightarrow> step_info option"
  su_midiin :: port
  su_midiout :: port
  su_alive :: bool
  su_ping_timer :: bool
  su_building :: bool
  su_sent :: "message list"
  su_done :: "bool option"

record start_options =
  op_PRODUCT_ID :: "nat option"
  op_DEVICE_ID :: "nat option"
  op_MIDI_INPUT :: jstring
  op_MIDI_OUTPUT :: jstring
  op_MAJOR_VERSION :: jnum
  op_MINOR_VERSION :: jnum

text \<open>\<open>a||b\<close> for numbers and strings.\<close>

definition id_or :: "nat option \<Rightarrow> nat \<Rightarrow> nat" where
  "id_or a b = (case a of None \<Rightarrow> b | Some v \<Rightarrow> if v = 0 then b else v)"

definition num_or :: "jnum \<Rightarrow> jnum \<Rightarrow> jnum" where
  "num_or a b = (if truthy a then a else b)"

definition text_or :: "jstring \<Rightarrow> jstring \<Rightarrow> jstring" where
  "text_or a b = (if a = [] then b else a)"

definition send_out :: "message \<Rightarrow> startup \<Rightarrow> startup" where
  "send_out m s = s\<lparr>su_sent := su_sent s @ [m]\<rparr>"

section \<open>Names of files\<close>

definition CONFIG_FILE :: "setup_env \<Rightarrow> device_ids \<Rightarrow> jnum \<Rightarrow> jnum \<Rightarrow> jstring res" where
  "CONFIG_FILE env dev major minor =
     printf (se_numlib env) (S ''./%02X%02X-%02d%02d.json'')
       (Positional [ANum (Some (int (COMPANY_ID dev))), ANum (Some (int (PRODUCT_ID dev))), ANum major, ANum minor])"

definition INFO_FILE :: "setup_env \<Rightarrow> device_ids \<Rightarrow> jnum \<Rightarrow> jnum \<Rightarrow> jstring res" where
  "INFO_FILE env dev major minor =
     printf (se_numlib env) (S ''./info%02X%02X-%02d%02d.json'')
       (Positional [ANum (Some (int (COMPANY_ID dev))), ANum (Some (int (PRODUCT_ID dev))), ANum major, ANum minor])"

text \<open>For the numbers the device gives, both names are built without an error.\<close>

lemmas file_name_eval = tokenize_zero [of 2 88, simplified] tokenize_zero [of 2 100, simplified] tokenize_text

definition version_name :: "device_ids \<Rightarrow> nat \<Rightarrow> nat \<Rightarrow> jstring" where
  "version_name dev a b =
     zeros_number 2 88 (COMPANY_ID dev) @ zeros_number 2 88 (PRODUCT_ID dev) @ [45] @
     zeros_number 2 100 a @ zeros_number 2 100 b @ S ''.json''"

lemma format_args:
  assumes "xs = [ANum (Some (int c)), ANum (Some (int p)), ANum (Some (int a)), ANum (Some (int b))]"
  shows "format_token lib (Positional xs) 0 (zero_token 2 88) = Inr (zeros_number 2 88 c, 1)"
    "format_token lib (Positional xs) 1 (zero_token 2 88) = Inr (zeros_number 2 88 p, 2)"
    "format_token lib (Positional xs) 2 (zero_token 2 100) = Inr (zeros_number 2 100 a, 3)"
    "format_token lib (Positional xs) 3 (zero_token 2 100) = Inr (zeros_number 2 100 b, 4)"
  using format_number [of 2 88 0 xs c lib] format_number [of 2 88 1 xs p lib]
    format_number [of 2 100 2 xs a lib] format_number [of 2 100 3 xs b lib]
  by (simp_all add: assms numeral_2_eq_2 numeral_3_eq_3)

lemma file_names:
  "CONFIG_FILE env dev (Some (int a)) (Some (int b)) = Inr (S ''./'' @ version_name dev a b)"
  "INFO_FILE env dev (Some (int a)) (Some (int b)) = Inr (S ''./info'' @ version_name dev a b)"
proof -
  note f = format_args [OF refl, of "se_numlib env" "COMPANY_ID dev" "PRODUCT_ID dev" a b]
  show "CONFIG_FILE env dev (Some (int a)) (Some (int b)) = Inr (S ''./'' @ version_name dev a b)"
    by (simp add: CONFIG_FILE_def printf_def js_eval file_name_eval is_mapped_def version_name_def f [simplified])
  show "INFO_FILE env dev (Some (int a)) (Some (int b)) = Inr (S ''./info'' @ version_name dev a b)"
    by (simp add: INFO_FILE_def printf_def js_eval file_name_eval is_mapped_def version_name_def f [simplified])
qed

section \<open>Stored configuration\<close>

definition config_object :: "startup \<Rightarrow> saved" where
  "config_object s = (su_config s, su_ready s, su_sysconf s)"

text \<open>A file that is no JSON text is an exception.  The result says whether there was an error.\<close>

definition config_read :: "setup_env \<Rightarrow> disk \<Rightarrow> jstring \<Rightarrow> startup \<Rightarrow> (bool \<times> startup) res" where
  "config_read env dk path s =
     (case file_readFile dk path of
        Inl e \<Rightarrow> Inl e
      | Inr None \<Rightarrow> Inr (True, s)
      | Inr (Some f) \<Rightarrow>
          (case se_parse env f of
             None \<Rightarrow> Inl (Throw (S ''SyntaxError''))
           | Some (cfg, ready, sc) \<Rightarrow>
               Inr (False, s\<lparr>su_config := cfg, su_ready := ready, su_sysconf := sc\<rparr>)))"

definition info_read :: "setup_env \<Rightarrow> disk \<Rightarrow> jstring \<Rightarrow> startup \<Rightarrow> startup res" where
  "info_read env dk path s =
     (case file_readFile dk path of
        Inl e \<Rightarrow> Inl e
      | Inr None \<Rightarrow> Inr s
      | Inr (Some f) \<Rightarrow>
          (case se_parse_info env f of
             None \<Rightarrow> Inl (Throw (S ''SyntaxError''))
           | Some i \<Rightarrow> Inr (s\<lparr>su_info := i\<rparr>)))"

definition config_save :: "setup_env \<Rightarrow> jstring \<Rightarrow> startup \<Rightarrow> disk \<Rightarrow> startup \<times> disk" where
  "config_save env path s dk =
     (if dk_writable dk path
      then (s\<lparr>su_done := Some False\<rparr>,
            dk\<lparr>dk_files := (dk_files dk)(path \<mapsto> se_print env (config_object s))\<rparr>)
      else (s\<lparr>su_done := Some True\<rparr>, dk))"

section \<open>Descriptions and types\<close>

text \<open>The callback fills the name up to 16 characters, in the object that is stored.\<close>

definition pad_name :: "odesc \<Rightarrow> odesc" where
  "pad_name od = od\<lparr>od_name := od_name od @ replicate (16 - length (od_name od)) 32\<rparr>"

definition objectDescription_round :: "(jnum \<Rightarrow> nat list) \<Rightarrow> int \<Rightarrow> config \<Rightarrow> config" where
  "objectDescription_round ask ty cfg =
     (let (cfg', od) = objectDescription_get ask cfg (Some ty);
          key = (if objectDescription cfg (Some ty) = None then od_objectType od else Some ty)
      in cfg'\<lparr>objectDescription := (objectDescription cfg')(key \<mapsto> pad_name od)\<rparr>)"

function objectDescription_build :: "(jnum \<Rightarrow> nat list) \<Rightarrow> jnum \<Rightarrow> int \<Rightarrow> config \<Rightarrow> config" where
  "objectDescription_build ask n ty cfg =
     (let cfg' = objectDescription_round ask ty cfg
      in if below (ty + 1) n then objectDescription_build ask n (ty + 1) cfg' else cfg')"
  by pat_completeness auto
termination
  by (relation "measure (\<lambda>(ask, n, ty, cfg). nat (case n of None \<Rightarrow> 0 | Some m \<Rightarrow> m - ty))")
    (auto split: option.split elim!: below.elims)

declare objectDescription_build.simps [simp del]

text \<open>
  What the device answers: \<open>dv_types\<close> the object type message for an address,
  \<open>dv_descriptions\<close> the description of a type.  The fuel bounds the walk over the tree.
\<close>

record device =
  dv_types :: "int list \<Rightarrow> nat list"
  dv_descriptions :: "jnum \<Rightarrow> nat list"

definition config_build ::
  "setup_env \<Rightarrow> device \<Rightarrow> nat \<Rightarrow> sysconf \<Rightarrow> startup \<Rightarrow> disk \<Rightarrow> (startup \<times> disk) res option" where
  "config_build env dv fuel sc s dk =
     (let major = sc_majorVersion sc; minor = sc_minorVersion sc
      in case INFO_FILE env (su_ids s) major minor of
           Inl e \<Rightarrow> Some (Inl e)
         | Inr path \<Rightarrow>
             (case info_read env dk path
                     (s\<lparr>su_MAJOR_VERSION := major, su_MINOR_VERSION := minor, su_INFO_FILE := path\<rparr>) of
                Inl e \<Rightarrow> Some (Inl e)
              | Inr s1 \<Rightarrow>
                  (let cfg = objectDescription_build (dv_descriptions dv) (sc_numberOfObjectTypes sc) 0 (su_config s1)
                   in case controlTree_loop (dv_types dv) (dv_descriptions dv) fuel cfg (Some (controlTree_build sc)) of
                        (_, cfg', None) \<Rightarrow>
                          Some (Inr (config_save env (su_CONFIG_FILE s1)
                            (s1\<lparr>su_config := cfg', su_building := False\<rparr>) dk))
                      | (_, cfg', Some w) \<Rightarrow> None)))"

section \<open>The start\<close>

definition midi_init :: "startup \<Rightarrow> startup" where
  "midi_init s =
     s\<lparr>su_midiin := open_port (su_midiin s) (su_MIDI_INPUT s),
       su_midiout := open_port (su_midiout s) (su_MIDI_OUTPUT s)\<rparr>"

definition handshake :: "startup \<Rightarrow> startup" where
  "handshake s = send_out (handshake_send (Some 1)) s"

definition init_step2 :: "startup \<Rightarrow> startup" where
  "init_step2 s = handshake (midi_init s)"

definition init :: "setup_env \<Rightarrow> disk \<Rightarrow> start_options \<Rightarrow> startup \<Rightarrow> startup res" where
  "init env dk opts s =
     (let dev = (su_ids s)\<lparr>PRODUCT_ID := id_or (op_PRODUCT_ID opts) (PRODUCT_ID (su_ids s)),
                           DEVICE_ID := id_or (op_DEVICE_ID opts) (DEVICE_ID (su_ids s))\<rparr>;
          major = num_or (op_MAJOR_VERSION opts) (su_MAJOR_VERSION s);
          minor = num_or (op_MINOR_VERSION opts) (su_MINOR_VERSION s)
      in case CONFIG_FILE env dev major minor of
           Inl e \<Rightarrow> Inl e
         | Inr path \<Rightarrow>
             (let s1 = s\<lparr>su_ids := dev, su_MIDI_INPUT := text_or (op_MIDI_INPUT opts) (su_MIDI_INPUT s),
                         su_MIDI_OUTPUT := text_or (op_MIDI_OUTPUT opts) (su_MIDI_OUTPUT s),
                         su_MAJOR_VERSION := major, su_MINOR_VERSION := minor, su_CONFIG_FILE := path\<rparr>
              in if no_file dk path then Inr (init_step2 s1)
                 else
                   (case config_read env dk path s1 of
                      Inl e \<Rightarrow> Inl e
                    | Inr (err, s2) \<Rightarrow>
                        (case INFO_FILE env dev major minor of
                           Inl e \<Rightarrow> Inl e
                         | Inr info \<Rightarrow>
                             info_read env dk info (init_step2 (s2\<lparr>su_ready := \<not> err, su_INFO_FILE := info\<rparr>))))))"

text \<open>
  The first thing \<open>config_init\<close> does is to set long addresses and ask for the system
  configuration; the rest is the callback of the answer.
\<close>

definition config_init :: "startup \<Rightarrow> startup res" where
  "config_init s =
     (case shortAddresses_set (su_config s) False of
        Inl e \<Rightarrow> Inl e
      | Inr m \<Rightarrow> Inr (send_out systemConfiguration_request (send_out m s)))"

definition systemConfiguration_arrives ::
  "setup_env \<Rightarrow> device \<Rightarrow> nat \<Rightarrow> nat list \<Rightarrow> startup \<Rightarrow> disk \<Rightarrow> (startup \<times> disk) res option" where
  "systemConfiguration_arrives env dv fuel buf s dk =
     (let sc = systemConfiguration_parse buf
      in case CONFIG_FILE env (su_ids s) (sc_majorVersion sc) (sc_minorVersion sc) of
           Inl e \<Rightarrow> Some (Inl e)
         | Inr path \<Rightarrow>
             (let s1 = s\<lparr>su_sysconf := Some sc, su_CONFIG_FILE := path\<rparr>
              in if \<not> su_ready s1 then config_build env dv fuel sc s1 dk
                 else if jeq (su_MAJOR_VERSION s1) (sc_majorVersion sc) \<and> jeq (su_MINOR_VERSION s1) (sc_minorVersion sc)
                 then Some (Inr (s1\<lparr>su_done := Some False\<rparr>, dk))
                 else if no_file dk path then config_build env dv fuel sc s1 dk
                 else
                   (case config_read env dk path s1 of
                      Inl e \<Rightarrow> Some (Inl e)
                    | Inr (True, s2) \<Rightarrow> config_build env dv fuel sc s2 dk
                    | Inr (False, s2) \<Rightarrow> Some (Inr (s2\<lparr>su_ready := True, su_done := Some False\<rparr>, dk)))))"

text \<open>
  The answer to the handshake: the first \<open>I'm Alive\<close> starts \<open>config_init\<close>; outside of
  debugging the handshake is repeated after ten seconds, after any other answer always.  The
  flag of the result is the return value \<open>false\<close>.
\<close>

definition handshake_answer :: "setup_env \<Rightarrow> nat list \<Rightarrow> startup \<Rightarrow> (bool \<times> startup) res" where
  "handshake_answer env buf s =
     (if handshake_parse buf = Some 2 then
        (let s1 = (if se_debug env then s else s\<lparr>su_ping_timer := True\<rparr>)
         in map_sum id (Pair True) (if su_alive s1 then Inr s1 else config_init (s1\<lparr>su_alive := True\<rparr>)))
      else Inr (False, s\<lparr>su_ping_timer := True\<rparr>))"

definition handshake_timeout :: "startup \<Rightarrow> startup" where
  "handshake_timeout s = handshake (s\<lparr>su_alive := False, su_ping_timer := False\<rparr>)"

definition ping_timer_fires :: "startup \<Rightarrow> startup" where
  "ping_timer_fires s = (if su_ping_timer s then handshake (s\<lparr>su_ping_timer := False\<rparr>) else s)"

section \<open>What building asks for\<close>

lemma type_of_description [simp]: "od_objectType (snd (objectDescription_parse c buf)) = rd4 buf 5"
  by (simp add: objectDescription_parse_def Let_def split: prod.splits)

lemma round_views:
  assumes "rd4 (ask (Some ty)) 5 = Some ty"
  shows "objectDescription (objectDescription_round ask ty cfg) =
      (objectDescription cfg)(Some ty \<mapsto> pad_name (described ask cfg (Some ty)))"
    and "controlTree (objectDescription_round ask ty cfg) = controlTree cfg"
  using assms fst_description_parse [of cfg "ask (Some ty)"]
  by (auto simp: objectDescription_round_def objectDescription_get_def described_def Let_def case_prod_beta
      split: option.splits)

definition asked :: "jnum \<Rightarrow> int \<Rightarrow> int \<Rightarrow> bool" where
  "asked n ty v \<longleftrightarrow> v = ty \<or> ty \<le> v \<and> below v n"

lemma asked_Suc:
  "asked n ty v \<longleftrightarrow> v = ty \<or> below (ty + 1) n \<and> asked n (ty + 1) v"
  by (cases n) (auto simp: asked_def)

lemma build_views:
  "\<forall>v. asked n ty v \<longrightarrow> rd4 (ask (Some v)) 5 = Some v \<Longrightarrow>
   objectDescription (objectDescription_build ask n ty cfg) k =
     (case k of
        None \<Rightarrow> objectDescription cfg k
      | Some v \<Rightarrow> if asked n ty v then Some (pad_name (described ask cfg k)) else objectDescription cfg k) \<and>
   controlTree (objectDescription_build ask n ty cfg) = controlTree cfg"
proof (induction ask n ty cfg rule: objectDescription_build.induct)
  case (1 ask n ty cfg)
  let ?cfg = "objectDescription_round ask ty cfg"
  have v: "objectDescription ?cfg = (objectDescription cfg)(Some ty \<mapsto> pad_name (described ask cfg (Some ty)))"
    "controlTree ?cfg = controlTree cfg"
    using round_views [of ask ty cfg] 1(2) by (simp_all add: asked_def)
  show ?case
  proof (cases "below (ty + 1) n")
    case True
    have d: "described ask ?cfg (Some w) = described ask cfg (Some w)" if "asked n (ty + 1) w" for w
      using that by (intro described_cong) (auto simp: v asked_def)
    have "asked n ty w" if "asked n (ty + 1) w" for w using that True asked_Suc by blast
    then have IH: "objectDescription (objectDescription_build ask n (ty + 1) ?cfg) k =
        (case k of
           None \<Rightarrow> objectDescription ?cfg k
         | Some v \<Rightarrow> if asked n (ty + 1) v then Some (pad_name (described ask ?cfg k)) else objectDescription ?cfg k)"
      "controlTree (objectDescription_build ask n (ty + 1) ?cfg) = controlTree ?cfg"
      using 1 True by blast+
    have "\<not> asked n (ty + 1) ty" by (auto simp: asked_def)
    then show ?thesis
      using True d asked_Suc [of n ty]
      by (subst (1 2) objectDescription_build.simps) (auto simp: IH v Let_def split: option.split)
  next
    case False
    then show ?thesis
      using asked_Suc [of n ty]
      by (subst (1 2) objectDescription_build.simps) (auto simp: v Let_def split: option.split)
  qed
qed

definition no_config :: config where
  "no_config = \<lparr>objectDescription = \<lambda>_. None, controlTree = empty_node\<rparr>"

text \<open>A device: its tree, and the descriptions of the types of its nodes.\<close>

definition device_has :: "device \<Rightarrow> sysconf \<Rightarrow> dtree \<Rightarrow> bool" where
  "device_has dv sc tree \<longleftrightarrow>
     answers_for (dv_types dv) tree \<and> describes_asked (dv_descriptions dv) (dv_types dv) \<and>
     (\<forall>v. asked (sc_numberOfObjectTypes sc) 0 v \<longrightarrow> rd4 (dv_descriptions dv (Some v)) 5 = Some v) \<and>
     (\<forall>q u. sub tree q = Some u \<longrightarrow> asked (sc_numberOfObjectTypes sc) 0 (dt_type u) \<and>
        describes (described (dv_descriptions dv) no_config) u) \<and>
     depth tree \<le> count_of (sc_numberOfControlLevels sc)"

text \<open>The configuration holds the tree and every description, the names filled up.\<close>

definition holds_device :: "config \<Rightarrow> device \<Rightarrow> sysconf \<Rightarrow> dtree \<Rightarrow> bool" where
  "holds_device cfg dv sc tree \<longleftrightarrow>
     (\<forall>v. asked (sc_numberOfObjectTypes sc) 0 v \<longrightarrow>
        objectDescription cfg (Some v) = Some (pad_name (described (dv_descriptions dv) no_config (Some v)))) \<and>
     (\<forall>q u. sub tree q = Some u \<and> dt_type u \<noteq> 0 \<longrightarrow>
        type_at (controlTree cfg) (map Some q) = Some (Some (dt_type u)))"

lemma describes_pad: "describes (\<lambda>ty. pad_name (f ty)) u = describes f u"
  by (simp add: describes_def pad_name_def)

lemma described_known: "objectDescription cfg ty = Some od \<Longrightarrow> described ask cfg ty = od"
  by (simp add: described_def objectDescription_get_def)

lemma built_holds_device:
  assumes "device_has dv sc tree"
  shows "\<exists>vis cfg. controlTree_loop (dv_types dv) (dv_descriptions dv) (length (paths tree))
      (objectDescription_build (dv_descriptions dv) (sc_numberOfObjectTypes sc) 0 no_config)
      (Some (controlTree_build sc)) = (vis, cfg, None) \<and> holds_device cfg dv sc tree"
proof -
  let ?ask = "dv_descriptions dv" and ?n = "sc_numberOfObjectTypes sc"
  let ?cfg = "objectDescription_build ?ask ?n 0 no_config"
  note d = assms [unfolded device_has_def]
  have od: "objectDescription ?cfg (Some v) = Some (pad_name (described ?ask no_config (Some v)))" if "asked ?n 0 v" for v
    using build_views [of ?n 0 ?ask no_config "Some v"] d that by simp
  have tree: "controlTree ?cfg = empty_node"
    using build_views [of ?n 0 ?ask no_config] d by (simp add: no_config_def)
  have "describes (described ?ask ?cfg) u" if "sub tree q = Some u" for q u
  proof -
    have u: "asked ?n 0 (dt_type u)" "describes (described ?ask no_config) u" using d that by blast+
    have "described ?ask ?cfg (Some (dt_type u)) = pad_name (described ?ask no_config (Some (dt_type u)))"
      by (rule described_known [OF od [OF u(1)]])
    then show ?thesis using u(2) by (simp add: describes_def pad_name_def)
  qed
  then obtain cfg where c: "controlTree_loop (dv_types dv) ?ask (length (paths tree)) ?cfg (Some (controlTree_build sc)) =
      (paths tree, cfg, None)"
    "\<forall>q u. sub tree q = Some u \<longrightarrow> dt_type u \<noteq> 0 \<and> falsy (type_at (controlTree ?cfg) (map Some q)) \<longrightarrow>
      type_at (controlTree cfg) (map Some q) = Some (Some (dt_type u))"
    using tree_built [of "dv_types dv" tree ?ask ?cfg sc] d by blast
  have "objectDescription cfg (Some v) = Some (pad_name (described ?ask no_config (Some v)))" if "asked ?n 0 v" for v
    using loop_keeps_od [OF _ c(1) od [OF that]] d by blast
  then have "holds_device cfg dv sc tree"
    using c(2) by (simp add: holds_device_def tree type_at_empty falsy_def)
  then show ?thesis using c(1) by blast
qed

text \<open>A start that leaves everything as it is.\<close>

definition no_options :: start_options where
  "no_options =
     \<lparr>op_PRODUCT_ID = None, op_DEVICE_ID = None, op_MIDI_INPUT = [], op_MIDI_OUTPUT = [],
      op_MAJOR_VERSION = None, op_MINOR_VERSION = None\<rparr>"

text \<open>The sample device, its system configuration, and a program that has stored nothing.\<close>

definition sample_sysconf_frame :: "nat list" where
  "sample_sysconf_frame =
     [240, 6, 15, 0, 0, 1, 0, 10, 0] @ replicate 38 0 @ [1, 2, 2, 0] @ [0, 0, 0, 0] @ [2, 0, 0, 0, 247]"

definition sample_device_answers :: device where
  "sample_device_answers = \<lparr>dv_types = sample_reply_for, dv_descriptions = sample_od_bytes\<rparr>"

lemma sample_sysconf_views:
  "sc_majorVersion (systemConfiguration_parse sample_sysconf_frame) = Some 1"
  "sc_minorVersion (systemConfiguration_parse sample_sysconf_frame) = Some 10"
  "sc_numberOfObjectTypes (systemConfiguration_parse sample_sysconf_frame) = Some 545"
  "sc_numberOfControlLevels (systemConfiguration_parse sample_sysconf_frame) = Some 2"
  by code_simp+

lemma sample_device_has:
  "device_has sample_device_answers (systemConfiguration_parse sample_sysconf_frame) sample_device"
proof -
  have "asked (Some 545) 0 (dt_type u)" if "sub sample_device q = Some u" for q u
    using sub_nodes [OF that] by (auto simp: sample_device_def asked_def)
  moreover have "rd4 (sample_od_bytes (Some v)) 5 = Some v" if "asked (Some 545) 0 v" for v
    using that by (intro sample_od(1)) (auto simp: asked_def)
  moreover have "depth sample_device \<le> 2" by (simp add: sample_device_def)
  ultimately show ?thesis
    using sample_answers
    by (simp add: device_has_def sample_device_answers_def sample_sysconf_views no_config_def count_of_def)
qed

definition sample_setup :: startup where
  "sample_setup =
     \<lparr>su_ids = mpxg2_ids, su_MIDI_INPUT = [], su_MIDI_OUTPUT = [], su_MAJOR_VERSION = Some 1,
      su_MINOR_VERSION = Some 10, su_CONFIG_FILE = [], su_INFO_FILE = [], su_config = no_config, su_ready = False,
      su_sysconf = None, su_info = (\<lambda>_. None), su_midiin = \<lparr>pt_names = [], pt_opens = \<lambda>_. False, pt_open = None\<rparr>,
      su_midiout = \<lparr>pt_names = [], pt_opens = \<lambda>_. False, pt_open = None\<rparr>, su_alive = False,
      su_ping_timer = False, su_building = False, su_sent = [], su_done = None\<rparr>"

definition sample_setup_env :: setup_env where
  "sample_setup_env =
     \<lparr>se_numlib = no_fractions,
      se_parse = (\<lambda>_. Some (sample_config, False, None)), se_print = (\<lambda>_. [123, 125]),
      se_parse_info = (\<lambda>_. Some (\<lambda>_. None)), se_debug = True\<rparr>"

definition sample_disk :: disk where
  "sample_disk =
     \<lparr>dk_files = [S ''./info'' @ version_name mpxg2_ids 1 10 \<mapsto> [123, 125]], dk_data = (\<lambda>_. None),
      dk_readable = (\<lambda>_. True), dk_writable = (\<lambda>_. True)\<rparr>"

lemma sample_info: "file_readFile sample_disk (S ''./info'' @ version_name mpxg2_ids 1 10) = Inr (Some [123, 125])"
  by (simp add: sample_disk_def file_readFile_def)

section \<open>Properties\<close>

text \<open>
  The table of processing steps: a file that is nowhere, or is no JSON text, ends the start with an exception; one that
  cannot be read is passed over.
\<close>

definition usable_info :: "setup_env \<Rightarrow> disk \<Rightarrow> jstring \<Rightarrow> bool" where
  "usable_info env dk path \<longleftrightarrow>
     (case file_readFile dk path of
        Inl e \<Rightarrow> False
      | Inr None \<Rightarrow> True
      | Inr (Some f) \<Rightarrow> se_parse_info env f \<noteq> None)"

lemma info_read_cases:
  "if usable_info env dk path then \<exists>i. info_read env dk path s = Inr (s\<lparr>su_info := i\<rparr>) else \<exists>e. info_read env dk path s = Inl e"
proof (cases "file_readFile dk path")
  case (Inr f)
  have "\<exists>i. s = s\<lparr>su_info := i\<rparr>" by (rule exI [of _ "su_info s"]) simp
  then show ?thesis using Inr by (cases f) (auto simp: usable_info_def info_read_def split: option.splits)
qed (simp add: usable_info_def info_read_def)



text \<open>
  C11: A stored configuration is found again: what \<open>config_save\<close> wrote, another start reads
  back, and when the device has the version of the program the start ends with that
  configuration and has sent nothing but the handshake, the address mode and one request.
\<close>

theorem restart_reads_stored:
  assumes "config_save env (S ''./'' @ version_name (su_ids s0) a b) s dk = (s', dk')"
    and "dk_writable dk (S ''./'' @ version_name (su_ids s0) a b)"
    and "dk_readable dk (S ''./'' @ version_name (su_ids s0) a b)"
    and "se_parse env (se_print env (config_object s)) = Some (config_object s)"
    and "se_print env (config_object s) \<noteq> []"
    and "opts = no_options" and "\<not> su_alive s0" and "handshake_parse hs = Some 2"
    and "su_MAJOR_VERSION s0 = Some (int a)" and "su_MINOR_VERSION s0 = Some (int b)"
    and "file_readFile dk (S ''./info'' @ version_name (su_ids s0) a b) = Inr (Some f)" and "se_parse_info env f = Some i"
    and "shortAddresses_set (su_config s) False = Inr m"
    and "sc_majorVersion (systemConfiguration_parse buf) = Some (int a)"
    and "sc_minorVersion (systemConfiguration_parse buf) = Some (int b)"
  shows "\<exists>s1 s2 s3. init env dk' opts s0 = Inr s1 \<and> handshake_answer env hs s1 = Inr (True, s2) \<and>
     systemConfiguration_arrives env dv 0 buf s2 dk' = Some (Inr (s3, dk')) \<and>
     su_config s3 = su_config s \<and> su_ready s3 \<and> su_done s3 = Some False \<and>
     su_sent s3 = su_sent s0 @ [handshake_send (Some 1), m, systemConfiguration_request]"
proof -
  let ?path = "S ''./'' @ version_name (su_ids s0) a b" and ?f = "se_print env (config_object s)"
  let ?info = "S ''./info'' @ version_name (su_ids s0) a b"
  have dk: "dk' = dk\<lparr>dk_files := (dk_files dk)(?path \<mapsto> ?f)\<rparr>"
    using assms(1,2) by (simp add: config_save_def)
  have ne: "?info \<noteq> ?path"
  proof
    assume "?info = ?path"
    then have "length ?info = length ?path" by (rule arg_cong)
    then show False by simp
  qed
  have "\<not> no_file dk' ?path" "file_readFile dk' ?path = Inr (Some ?f)"
    using assms(3,5) by (simp_all add: dk no_file_def file_stat_def file_readFile_def)
  moreover have "file_readFile dk' ?info = Inr (Some f)"
    using ne assms(11) by (simp add: dk file_readFile_def split: option.splits if_splits)
  ultimately show ?thesis
    using assms(4-)
    by (simp add: init_def id_or_def num_or_def truthy_def Let_def config_read_def config_object_def info_read_def
        init_step2_def midi_init_def handshake_def send_out_def handshake_answer_def config_init_def
        systemConfiguration_arrives_def jeq_def file_names no_options_def text_or_def)
qed

theorem restart_reads_stored_witness:
  "\<exists>dk' s1 s2 s3. config_save sample_setup_env (S ''./'' @ version_name mpxg2_ids 1 10)
       (sample_setup\<lparr>su_config := sample_config\<rparr>) sample_disk =
       (sample_setup\<lparr>su_config := sample_config, su_done := Some False\<rparr>, dk') \<and>
     init sample_setup_env dk' no_options sample_setup = Inr s1 \<and>
     handshake_answer sample_setup_env [240, 6, 15, 0, 18, 2, 0, 247] s1 = Inr (True, s2) \<and>
     systemConfiguration_arrives sample_setup_env sample_device_answers 0 sample_sysconf_frame s2 dk' =
       Some (Inr (s3, dk')) \<and>
     su_config s3 = sample_config \<and> su_ready s3 \<and> su_done s3 = Some False"
proof -
  let ?s = "sample_setup\<lparr>su_config := sample_config\<rparr>" and ?path = "S ''./'' @ version_name mpxg2_ids 1 10"
  obtain s' dk' where c: "config_save sample_setup_env ?path ?s sample_disk = (s', dk')" by (meson surj_pair)
  then have s': "s' = ?s\<lparr>su_done := Some False\<rparr>" by (auto simp: config_save_def sample_disk_def)
  have ids: "su_ids sample_setup = mpxg2_ids" by (simp add: sample_setup_def)
  have n: "\<exists>p. getLevelName sample_config 3 [Some 1, Some 18, Some 5] = Inr p"
    by (simp add: getLevelName_def sample_simps child_def jhead_def od_of_def numeral_3_eq_3)
  have "\<exists>d. scalar_nibbles sample_config 3 [Some 1, Some 18, Some 5] (Some 0) (nibblize_num (Some 0)) = Inr d"
    using sample_level by (simp add: scalar_nibbles_def plain_od_def)
  with n have m: "\<exists>m. shortAddresses_set (su_config ?s) False = Inr m"
    by (auto simp: shortAddresses_set_def dataMessage_levels)
  have h: "handshake_parse [240, 6, 15, 0, 18, 2, 0, 247] = Some 2" by code_simp
  from m obtain m where "shortAddresses_set (su_config ?s) False = Inr m" by blast
  from restart_reads_stored [where s = ?s and ?s0.0 = sample_setup and env = sample_setup_env and opts = no_options
      and dk = sample_disk and a = 1 and b = 10, unfolded ids, OF c _ _ _ _ refl _ h _ _ sample_info _ this]
  show ?thesis
    using c s' sample_sysconf_views
    by (simp add: sample_setup_env_def sample_setup_def sample_disk_def config_object_def) blast
qed

text \<open>
  A device of a version the program has no table for cannot be used: when no
  configuration fits and the table of processing steps is neither on disk nor built in,
  the answer to the request for the system configuration ends in an exception, before
  anything is asked or stored.
\<close>

theorem unknown_version_throws:
  assumes "sc_majorVersion (systemConfiguration_parse buf) = Some (int a)"
    and "sc_minorVersion (systemConfiguration_parse buf) = Some (int b)"
    and "su_ready s \<Longrightarrow> (su_MAJOR_VERSION s, su_MINOR_VERSION s) \<noteq> (Some (int a), Some (int b)) \<and>
           no_file dk (S ''./'' @ version_name (su_ids s) a b)"
    and "dk_files dk (S ''./info'' @ version_name (su_ids s) a b) = None"
    and "dk_data dk (S ''info'' @ version_name (su_ids s) a b) = None"
  shows "systemConfiguration_arrives env dv fuel buf s dk =
     Some (Inl (Throw (S ''File not found: ./info'' @ version_name (su_ids s) a b)))"
proof -
  have b: "built_in (S ''./info'' @ version_name (su_ids s) a b) = S ''info'' @ version_name (su_ids s) a b"
    and t: "S ''File not found: ./info'' = S ''File not found: '' @ S ''./info''"
    by (simp_all add: built_in_def js_eval)
  show ?thesis
    using assms
    by (auto simp: systemConfiguration_arrives_def config_build_def info_read_def file_readFile_def file_names
        jeq_def b t Let_def)
qed

theorem unknown_version_throws_witness:
  "systemConfiguration_arrives sample_setup_env sample_device_answers 6 sample_sysconf_frame sample_setup
       (sample_disk\<lparr>dk_files := \<lambda>_. None\<rparr>) =
     Some (Inl (Throw (S ''File not found: ./info'' @ version_name mpxg2_ids 1 10)))"
  using unknown_version_throws [of sample_sysconf_frame 1 10 sample_setup "sample_disk\<lparr>dk_files := \<lambda>_. None\<rparr>"
      sample_setup_env sample_device_answers 6] sample_sysconf_views
  by (simp add: sample_setup_def sample_disk_def)

end
