(* ===== verification/Effects.thy ===== *)
theory Effects
  imports Pages
begin

text \<open>
  What the program works out from the algorithms the effects run
  (\<open>src/mpxg2-dev/lexicon.js\<close>): the processing steps in use (\<open>getUsedSteps\<close>) and the names of
  the patch destinations (\<open>patching_destinations_rebuild\<close>); and the comparison of dumps
  (\<open>dump\<close>, the callback of \<open>programDump\<close>) that finds where a parameter lives in a program.
\<close>

section \<open>Processing steps in use\<close>

text \<open>
  One walk over the five effects at a time: a caller that comes while it runs waits for its
  result.  \<open>us_called\<close> records the calls of the callbacks, \<open>us_asked\<close> the requests.
\<close>

record 'c steps_walk =
  us_getting :: bool
  us_first :: "'c option"
  us_callbacks :: "'c list"
  us_index :: nat
  us_steps :: "(jstring \<times> int) list"
  us_called :: "('c \<times> (jstring \<times> int) list) list"
  us_asked :: "jnum list list"

definition effects_name :: "jstring list" where
  "effects_name = [S ''Effect1'', S ''Effect2'', S ''Chorus'', S ''Delay'', S ''Equalizer'']"

definition effects_algo :: "jstring list" where
  "effects_algo = [S ''FX1Alg'', S ''FX2Alg'', S ''ChorusAlg'', S ''DelayAlg'', S ''EQAlg'']"

definition ask_algorithm :: "config \<Rightarrow> 'c steps_walk \<Rightarrow> 'c steps_walk res" where
  "ask_algorithm cfg w =
     map_sum id (\<lambda>levels. w\<lparr>us_asked := us_asked w @ [levels]\<rparr>)
       (getLevelsByName cfg (S ''Program.AlgSelect.'' @ effects_algo ! us_index w))"

definition getUsedSteps :: "config \<Rightarrow> 'c \<Rightarrow> 'c steps_walk \<Rightarrow> 'c steps_walk res" where
  "getUsedSteps cfg c w =
     (if us_getting w then Inr (w\<lparr>us_callbacks := us_callbacks w @ [c]\<rparr>)
      else ask_algorithm cfg (w\<lparr>us_getting := True, us_first := Some c, us_index := 0, us_steps := []\<rparr>))"

text \<open>
  The steps of the algorithm the answer names: an algorithm without a name is a \<open>TypeError\<close>,
  one without an entry in the table ends the program.
\<close>

definition effect_steps ::
  "config \<Rightarrow> (jstring \<Rightarrow> step_info option) \<Rightarrow> jstring \<Rightarrow> nat list \<Rightarrow> int res" where
  "effect_steps cfg info name dat =
     (if \<not> truthy (rd dat 0) then Inr 0
      else
        (case getLevelsByName cfg (S ''Program.'' @ name) of
           Inl e \<Rightarrow> Inl e
         | Inr levels \<Rightarrow>
             (let ls = levels @ [rd dat 0]
              in case getLevelName cfg (length ls) ls of
                   Inl e \<Rightarrow> Inl e
                 | Inr None \<Rightarrow> Inl TypeError
                 | Inr (Some path) \<Rightarrow>
                     (case info (toLowerCase path) of None \<Rightarrow> Inl Exit | Some i \<Rightarrow> Inr (si_steps i)))))"

definition used_steps_callback ::
  "config \<Rightarrow> (jstring \<Rightarrow> step_info option) \<Rightarrow> nat list \<Rightarrow> 'c steps_walk \<Rightarrow> 'c steps_walk res" where
  "used_steps_callback cfg info dat w =
     (let name = effects_name ! us_index w
      in case effect_steps cfg info name dat of
           Inl e \<Rightarrow> Inl e
         | Inr n \<Rightarrow>
             (let w1 = w\<lparr>us_steps := us_steps w @ [(name, n)], us_index := Suc (us_index w)\<rparr>
              in if us_index w1 = length effects_name then
                   Inr (w1\<lparr>us_called := us_called w1 @
                             map (\<lambda>c. (c, us_steps w1)) (the (us_first w1) # us_callbacks w1),
                           us_callbacks := [], us_getting := False\<rparr>)
                 else ask_algorithm cfg w1))"

section \<open>Patch destinations\<close>

definition od_at :: "config \<Rightarrow> jnum list \<Rightarrow> odesc res" where
  "od_at cfg ls =
     (case node_od cfg (length ls) ls of None \<Rightarrow> Inl TypeError | Some od \<Rightarrow> Inr od)"

fun param_destinations :: "config \<Rightarrow> jstring \<Rightarrow> jnum list \<Rightarrow> int list \<Rightarrow> jstring list res" where
  "param_destinations cfg effect ls [] = Inr []"
| "param_destinations cfg effect ls (p # ps) =
     (case od_at cfg (ls @ [Some p]) of
        Inl e \<Rightarrow> Inl e
      | Inr od \<Rightarrow>
          map_sum id (\<lambda>ds. if od_patchable od \<noteq> 0 then (effect @ S '' - '' @ od_name od) # ds else ds)
            (param_destinations cfg effect ls ps))"

definition effect_destinations :: "config \<Rightarrow> int \<Rightarrow> nat list \<Rightarrow> jstring list res" where
  "effect_destinations cfg effect dat =
     (case od_at cfg [Some 0, Some effect] of
        Inl e \<Rightarrow> Inl e
      | Inr od \<Rightarrow>
          if \<not> truthy (rd dat 0) then Inr []
          else
            (case od_at cfg [Some 0, Some effect, rd dat 0] of
               Inl e \<Rightarrow> Inl e
             | Inr aod \<Rightarrow>
                 param_destinations cfg (od_name od) [Some 0, Some effect, rd dat 0]
                   (case jnth (od_maxValue aod) 0 of None \<Rightarrow> [] | Some mx \<Rightarrow> [0..mx])))"

fun all_destinations :: "config \<Rightarrow> (int \<Rightarrow> nat list) \<Rightarrow> int list \<Rightarrow> jstring list res" where
  "all_destinations cfg ask [] = Inr []"
| "all_destinations cfg ask (effect # es) =
     (case effect_destinations cfg effect (ask effect) of
        Inl e \<Rightarrow> Inl e
      | Inr ds \<Rightarrow> map_sum id ((@) ds) (all_destinations cfg ask es))"

definition fixed_destinations :: "jstring list" where
  "fixed_destinations =
     [S ''KnobValue'', S ''LFO1Rate'', S ''LFO1PW'', S ''LFO1Phase'', S ''LFO1Depth'', S ''LFO1OnLvl'',
      S ''LFO2Rate'', S ''LFO2PW'', S ''LFO2Phase'', S ''LFO2Depth'', S ''LFO2OnLvl'', S ''RandRndLo'',
      S ''RandRndHi'', S ''RandRate'', S ''A/B ARate'', S ''A/B BRate'', S ''A/B OnLvl'', S ''Env ATrim'',
      S ''Env Resp'', S ''PostMix'', S ''PostLevel'', S ''SendLevel'', S ''NGatSend'', S ''NGatThrsh'',
      S ''NGatAtten'', S ''NGatOffse'', S ''NGatATime'', S ''NGatHTime'', S ''NGatRTime'', S ''NGatDelay'',
      S ''TempRate'', S ''Byp FX1'', S ''Byp FX2'', S ''Byp Chrs'', S ''Byp Delay'', S ''Byp Rvb'',
      S ''Byp EQ'', S ''Byp Gain'', S ''Byp Ins'']"

definition patching_destinations_rebuild ::
  "config \<Rightarrow> (int \<Rightarrow> nat list) \<Rightarrow> labels \<Rightarrow> labels res" where
  "patching_destinations_rebuild cfg ask lb =
     map_sum id
       (\<lambda>ds. lb\<lparr>unit_label := (unit_label lb)
          (Some 0x67 \<mapsto> Choices (S ''Unassignd'' # ds @ fixed_destinations))\<rparr>)
       (all_destinations cfg ask [0..6])"

section \<open>Dumps\<close>

text \<open>
  \<open>dump\<close>: a line for every 16 bytes, where a byte that differs from the dump before of the
  same name and length is white; only the last line reaches the callback.  The result is that
  line and the differing positions.
\<close>

definition white :: jstring where "white = 27 # S ''[37m''"

definition reset_colour :: jstring where "reset_colour = 27 # S ''[0m''"

definition byte_changed :: "nat list option \<Rightarrow> nat list \<Rightarrow> nat \<Rightarrow> bool" where
  "byte_changed pbuf buf i =
     (case pbuf of None \<Rightarrow> False | Some p \<Rightarrow> length p = length buf \<and> buf ! i \<noteq> p ! i)"

definition dump_byte :: "numlib \<Rightarrow> bool \<Rightarrow> nat \<Rightarrow> jstring res" where
  "dump_byte lib changed b =
     map_sum id (\<lambda>h. 32 # (if changed then white @ h @ reset_colour else h))
       (printf lib (S ''%02X'') (Positional [ANum (Some (int b))]))"

fun dump_loop ::
  "numlib \<Rightarrow> nat list option \<Rightarrow> nat list \<Rightarrow> nat list \<Rightarrow> jstring \<Rightarrow> nat list \<Rightarrow> (jstring \<times> nat list) res" where
  "dump_loop lib pbuf buf [] line diff = Inr (line, diff)"
| "dump_loop lib pbuf buf (i # is) line diff =
     (case (if i mod 16 = 0 then printf lib (S ''%04X'') (Positional [ANum (Some (int i))]) else Inr line) of
        Inl e \<Rightarrow> Inl e
      | Inr l \<Rightarrow>
          (case dump_byte lib (byte_changed pbuf buf i) (buf ! i) of
             Inl e \<Rightarrow> Inl e
           | Inr h \<Rightarrow> dump_loop lib pbuf buf is (l @ h) (if byte_changed pbuf buf i then diff @ [i] else diff)))"

type_synonym prevbufs = "jstring \<Rightarrow> nat list option"

definition dump ::
  "numlib \<Rightarrow> nat list \<Rightarrow> jstring \<Rightarrow> prevbufs \<Rightarrow> (jstring option \<times> nat list \<times> prevbufs) res" where
  "dump lib buf what prev =
     (let pbuf = (if what = [] then None else Some (case prev what of None \<Rightarrow> [] | Some p \<Rightarrow> p))
      in map_sum id
           (\<lambda>(line, diff). (if buf = [] then None else Some line, diff, prev(what \<mapsto> buf)))
           (dump_loop lib pbuf buf [0..<length buf] [] []))"

text \<open>
  The callback of \<open>programDump\<close> when offsets are looked for: the bytes that changed since the
  dump before are where the changed parameter lives, confirmed when they are as many as its
  size and that of its option.
\<close>

definition set_offset :: "nat list \<Rightarrow> bool \<Rightarrow> ctree \<Rightarrow> ctree" where
  "set_offset ofs ok t = Node (ct_type t) (ct_label t) (Some ofs) (ct_ok t \<or> ok) (ct_kids t)"

definition dump_size :: "config \<Rightarrow> odesc \<Rightarrow> jnum res" where
  "dump_size cfg od =
     (if od_optionType od \<noteq> Some 0xFFFF then
        (case objectDescription cfg (od_optionType od) of
           None \<Rightarrow> Inl TypeError
         | Some ood \<Rightarrow> Inr (jadd (od_dataSize od) (od_dataSize ood)))
      else Inr (od_dataSize od))"

definition find_offsets :: "config \<Rightarrow> jnum list \<Rightarrow> nat list \<Rightarrow> config res" where
  "find_offsets cfg ls diff =
     (case getLevel cfg (length ls) ls of
        None \<Rightarrow> Inl TypeError
      | Some node \<Rightarrow>
          (case od_of cfg node of
             None \<Rightarrow> Inl TypeError
           | Some od \<Rightarrow>
               (case dump_size cfg od of
                  Inl e \<Rightarrow> Inl e
                | Inr n \<Rightarrow>
                    Inr (if ct_ok node then cfg
                         else cfg\<lparr>controlTree :=
                           upd_level (set_offset diff (n = Some (int (length diff)))) (controlTree cfg) (length ls) ls\<rparr>))))"

section \<open>One walk serves every caller\<close>

datatype 'c steps_event = Wants 'c | Arrives "nat list"

definition steps_event ::
  "config \<Rightarrow> (jstring \<Rightarrow> step_info option) \<Rightarrow> 'c steps_event \<Rightarrow> 'c steps_walk \<Rightarrow> 'c steps_walk res" where
  "steps_event cfg info ev w =
     (case ev of Wants c \<Rightarrow> getUsedSteps cfg c w | Arrives dat \<Rightarrow> used_steps_callback cfg info dat w)"

fun steps_run ::
  "config \<Rightarrow> (jstring \<Rightarrow> step_info option) \<Rightarrow> 'c steps_event list \<Rightarrow> 'c steps_walk \<Rightarrow> 'c steps_walk res" where
  "steps_run cfg info [] w = Inr w"
| "steps_run cfg info (ev # evs) w =
     (case steps_event cfg info ev w of Inl e \<Rightarrow> Inl e | Inr w' \<Rightarrow> steps_run cfg info evs w')"

lemma steps_run_append:
  "steps_run cfg info (evs @ evs') w =
     (case steps_run cfg info evs w of Inl e \<Rightarrow> Inl e | Inr w' \<Rightarrow> steps_run cfg info evs' w')"
  by (induction cfg info evs w rule: steps_run.induct) (simp_all split: sum.split)

fun callers :: "'c steps_event list \<Rightarrow> 'c list" where
  "callers [] = []"
| "callers (Wants c # evs) = c # callers evs"
| "callers (Arrives dat # evs) = callers evs"

fun arrivals :: "'c steps_event list \<Rightarrow> nat list list" where
  "arrivals [] = []"
| "arrivals (Wants c # evs) = arrivals evs"
| "arrivals (Arrives dat # evs) = dat # arrivals evs"

text \<open>The walk can ask for every effect, and the answers name algorithms with known steps.\<close>

definition steps_known ::
  "config \<Rightarrow> (jstring \<Rightarrow> step_info option) \<Rightarrow> nat list list \<Rightarrow> int list \<Rightarrow> bool" where
  "steps_known cfg info ds ns \<longleftrightarrow>
     length ds = 5 \<and> length ns = 5 \<and>
     list_all (\<lambda>i. \<exists>ls. getLevelsByName cfg (S ''Program.AlgSelect.'' @ effects_algo ! i) = Inr ls) [0..<5] \<and>
     list_all (\<lambda>i. effect_steps cfg info (effects_name ! i) (ds ! i) = Inr (ns ! i)) [0..<5]"

lemma steps_knownD:
  assumes "steps_known cfg info ds ns" and "i < 5"
  shows "\<exists>ls. getLevelsByName cfg (S ''Program.AlgSelect.'' @ effects_algo ! i) = Inr ls"
    and "effect_steps cfg info (effects_name ! i) (ds ! i) = Inr (ns ! i)"
  using assms by (simp_all add: steps_known_def list_all_iff)

lemma ask_algorithm_ok:
  assumes "steps_known cfg info ds ns" and "us_index w < 5"
  shows "\<exists>ls. ask_algorithm cfg w = Inr (w\<lparr>us_asked := us_asked w @ [ls]\<rparr>)"
  using steps_knownD(1) [OF assms] by (auto simp: ask_algorithm_def)

text \<open>The walk after \<open>k\<close> answers, with the callers so far.\<close>

definition at_effect ::
  "nat \<Rightarrow> 'c \<Rightarrow> 'c list \<Rightarrow> ('c \<times> (jstring \<times> int) list) list \<Rightarrow> int list \<Rightarrow> 'c steps_walk \<Rightarrow> bool" where
  "at_effect k c cs called ns w \<longleftrightarrow>
     us_getting w \<and> us_first w = Some c \<and> us_callbacks w = cs \<and> us_index w = k \<and>
     us_steps w = zip (take k effects_name) (take k ns) \<and> us_called w = called"

lemma length_effects [simp]: "length effects_name = 5"
  by (simp add: effects_name_def)

lemma zip_take_Suc:
  "k < length xs \<Longrightarrow> k < length ys \<Longrightarrow>
   zip (take (Suc k) xs) (take (Suc k) ys) = zip (take k xs) (take k ys) @ [(xs ! k, ys ! k)]"
  by (simp add: take_Suc_conv_app_nth)

lemma steps_walk_on:
  "steps_known cfg info ds ns \<Longrightarrow> at_effect k c cs called ns w \<Longrightarrow> k + length (arrivals evs) < 5 \<Longrightarrow>
   arrivals evs = take (length (arrivals evs)) (drop k ds) \<Longrightarrow>
   \<exists>w'. steps_run cfg info evs w = Inr w' \<and>
     at_effect (k + length (arrivals evs)) c (cs @ callers evs) called ns w'"
proof (induction evs arbitrary: k cs w)
  case (Cons ev evs)
  show ?case
  proof (cases ev)
    case (Wants d)
    have "steps_event cfg info ev w = Inr (w\<lparr>us_callbacks := us_callbacks w @ [d]\<rparr>)"
      using Cons.prems(2) by (simp add: Wants steps_event_def getUsedSteps_def at_effect_def)
    moreover have "at_effect k c (cs @ [d]) called ns (w\<lparr>us_callbacks := us_callbacks w @ [d]\<rparr>)"
      using Cons.prems(2) by (simp add: at_effect_def)
    ultimately show ?thesis using Cons.IH [OF Cons.prems(1)] Cons.prems(3,4) Wants by fastforce
  next
    case (Arrives dat)
    have k: "k < 4" using Cons.prems(3) Arrives by simp
    have ds: "length ds = 5" "length ns = 5" using Cons.prems(1) by (simp_all add: steps_known_def)
    have dat: "dat = ds ! k" "arrivals evs = take (length (arrivals evs)) (drop (Suc k) ds)"
      using Cons.prems(4) Arrives k ds by (simp_all add: Cons_nth_drop_Suc [symmetric])
    let ?w = "w\<lparr>us_steps := us_steps w @ [(effects_name ! k, ns ! k)], us_index := Suc k\<rparr>"
    obtain ls where a: "ask_algorithm cfg ?w = Inr (?w\<lparr>us_asked := us_asked ?w @ [ls]\<rparr>)"
      using ask_algorithm_ok [OF Cons.prems(1), of ?w] k by auto
    have e: "steps_event cfg info ev w = Inr (?w\<lparr>us_asked := us_asked ?w @ [ls]\<rparr>)"
      using Cons.prems(2) steps_knownD(2) [OF Cons.prems(1), of k] k a dat(1)
      by (simp add: Arrives steps_event_def used_steps_callback_def at_effect_def Let_def)
    have "at_effect (Suc k) c cs called ns (?w\<lparr>us_asked := us_asked ?w @ [ls]\<rparr>)"
      using Cons.prems(2) k ds by (simp add: at_effect_def zip_take_Suc)
    from Cons.IH [OF Cons.prems(1) this] show ?thesis
      using Cons.prems(3) dat(2) e Arrives by simp
  qed
qed simp

section \<open>Properties\<close>

text \<open>
  C12: Every caller gets the steps: whenever the walk is idle and somebody asks, and whatever
  others ask while it runs, once the device has answered for the five effects each caller has
  been called exactly once, in the order they came, all with the steps of the same five
  algorithms, and the walk is idle again.
\<close>

theorem used_steps_shared:
  assumes "steps_known cfg info ds ns" and "\<not> us_getting w" and "us_callbacks w = []"
    and "arrivals evs @ [dat] = ds"
  shows "\<exists>w'. steps_run cfg info (Wants c # evs @ [Arrives dat]) w = Inr w' \<and>
     us_called w' = us_called w @ map (\<lambda>d. (d, zip effects_name ns)) (c # callers evs) \<and>
     \<not> us_getting w' \<and> us_callbacks w' = []"
proof -
  let ?w0 = "w\<lparr>us_getting := True, us_first := Some c, us_index := 0, us_steps := []\<rparr>"
  have len: "length ds = 5" "length ns = 5" using assms(1) by (simp_all add: steps_known_def)
  then have l: "length (arrivals evs) = 4" using assms(4) by auto
  obtain ls where a: "ask_algorithm cfg ?w0 = Inr (?w0\<lparr>us_asked := us_asked ?w0 @ [ls]\<rparr>)"
    using ask_algorithm_ok [OF assms(1), of ?w0] by auto
  let ?w1 = "?w0\<lparr>us_asked := us_asked ?w0 @ [ls]\<rparr>"
  have first: "steps_event cfg info (Wants c) w = Inr ?w1"
    using assms(2) a by (simp add: steps_event_def getUsedSteps_def)
  have "at_effect 0 c [] (us_called w) ns ?w1" using assms(3) by (simp add: at_effect_def)
  from steps_walk_on [OF assms(1) this, of evs] obtain w4 where w4: "steps_run cfg info evs ?w1 = Inr w4"
    "at_effect 4 c (callers evs) (us_called w) ns w4"
    using l assms(4) by auto
  have "dat = ds ! 4" using assms(4) l by (metis nth_append_length)
  then have s: "effect_steps cfg info (effects_name ! 4) dat = Inr (ns ! 4)"
    using steps_knownD(2) [OF assms(1), of 4] by simp
  have z: "zip (take 4 effects_name) (take 4 ns) @ [(effects_name ! 4, ns ! 4)] = zip effects_name ns"
    using zip_take_Suc [of 4 effects_name ns] len by simp
  have "steps_run cfg info [Arrives dat] w4 = Inr (w4\<lparr>us_steps := zip effects_name ns, us_index := 5,
      us_called := us_called w @ map (\<lambda>d. (d, zip effects_name ns)) (c # callers evs),
      us_callbacks := [], us_getting := False\<rparr>)"
    using w4(2) s z by (simp add: steps_event_def used_steps_callback_def at_effect_def Let_def)
  then show ?thesis using first w4(1) by (simp add: steps_run_append)
qed

text \<open>The five parameters that name the algorithms, and one effect with one algorithm.\<close>

definition steps_config :: config where
  "steps_config =
     \<lparr>objectDescription = map_of
        [(Some 1, plain_od 1 (S ''Program'') 4 1 1), (Some 2, plain_od 2 (S ''AlgSelect'') 4 4 1),
         (Some 3, plain_od 3 (S ''FX1Alg'') 0 1 1), (Some 4, plain_od 4 (S ''FX2Alg'') 0 1 1),
         (Some 5, plain_od 5 (S ''ChorusAlg'') 0 1 1), (Some 6, plain_od 6 (S ''DelayAlg'') 0 1 1),
         (Some 7, plain_od 7 (S ''EQAlg'') 0 1 1), (Some 8, plain_od 8 (S ''Effect 1'') 4 1 1),
         (Some 9, plain_od 9 (S ''Overdrive'') 4 0 1)],
      controlTree = Node None None None False
        [(Some 0, Node (Some (Some 1)) None None False
           [(Some 0, Node (Some (Some 8)) None None False [(Some 1, leaf 9)]),
            (Some 1, Node (Some (Some 2)) None None False
               [(Some 0, leaf 3), (Some 1, leaf 4), (Some 2, leaf 5), (Some 3, leaf 6), (Some 4, leaf 7)])])]\<rparr>"

definition steps_info :: "jstring \<Rightarrow> step_info option" where
  "steps_info = map_of [(S ''program.effect1.overdrive'', \<lparr>si_man = 44, si_steps = 27\<rparr>)]"

definition idle_walk :: "nat steps_walk" where
  "idle_walk =
     \<lparr>us_getting = False, us_first = None, us_callbacks = [], us_index = 0, us_steps = [],
      us_called = [], us_asked = []\<rparr>"

theorem used_steps_shared_witness:
  "\<exists>w'. steps_run steps_config steps_info
       (Wants 7 # [Arrives [1], Arrives [0], Wants 8, Arrives [0], Arrives [0]] @ [Arrives [0]]) idle_walk = Inr w' \<and>
     us_called w' = [(7, zip effects_name [27, 0, 0, 0, 0]), (8, zip effects_name [27, 0, 0, 0, 0])]"
proof -
  have r: "getLevelsByName steps_config (S ''Program.AlgSelect.FX1Alg'') = Inr [Some 0, Some 1, Some 0]"
    "getLevelsByName steps_config (S ''Program.AlgSelect.FX2Alg'') = Inr [Some 0, Some 1, Some 1]"
    "getLevelsByName steps_config (S ''Program.AlgSelect.ChorusAlg'') = Inr [Some 0, Some 1, Some 2]"
    "getLevelsByName steps_config (S ''Program.AlgSelect.DelayAlg'') = Inr [Some 0, Some 1, Some 3]"
    "getLevelsByName steps_config (S ''Program.AlgSelect.EQAlg'') = Inr [Some 0, Some 1, Some 4]"
    by code_simp+
  have e: "effect_steps steps_config steps_info (S ''Effect1'') [1] = Inr 27" by code_simp
  have z: "effect_steps steps_config steps_info n [0] = Inr 0" for n
    by (simp add: effect_steps_def rd_def truthy_def)
  have "steps_known steps_config steps_info [[1], [0], [0], [0], [0]] [27, 0, 0, 0, 0]"
    using r e z
    by (simp add: steps_known_def effects_name_def effects_algo_def upt_rec S_append [symmetric] numeral_2_eq_2
        numeral_3_eq_3)
  from used_steps_shared [OF this, of idle_walk "[Arrives [1], Arrives [0], Wants 8, Arrives [0], Arrives [0]]" "[0]" 7]
  show ?thesis by (simp add: idle_walk_def del: steps_run.simps) blast
qed

end
