(* ===== verification/Browser.thy ===== *)
theory Browser
  imports Startup Effects
begin

text \<open>
  What the browsers ask for (\<open>src/mpxg2-dev/main.js\<close>): the socket handlers \<open>getParam\<close>,
  \<open>getEffect\<close>, \<open>update\<close>, \<open>request\<close> and \<open>bypass\<close>, the page of a block of parameters and the
  pages of the set-up.  The templates of the pages and the ports are parameters; the texts put
  into a template hold no \<open>$\<close>.
\<close>

section \<open>Rendering for a browser\<close>

text \<open>
  \<open>wb_disable\<close> is \<open>disable_automation\<close>.  A handler gives its answer, \<open>None\<close> when there is none
  because an exception ends the callback, and the state afterwards.
\<close>

record web =
  wb_disable :: bool
  wb_ref :: section_ref

record web_env =
  we_gui :: gui_env
  we_ask :: "jnum list \<Rightarrow> nat list"
  we_connected :: bool
  we_fuel :: nat
  we_array :: nat

type_synonym answered = "jstring option \<times> web"

definition render :: "web_env \<Rightarrow> jnum list \<Rightarrow> bool \<Rightarrow> jstring \<Rightarrow> web \<Rightarrow> page res option" where
  "render env levels unique html w =
     loop (we_gui env) (we_ask env) (we_array env) (we_fuel env) (length levels) (length levels) unique
       \<lparr>pg_html = html, pg_levels = levels, pg_ref = wb_ref w\<rparr>"

text \<open>
  An exception before the first request to the device is one of the call itself, which a \<open>try\<close>
  around it sees; a later one is not.  Without the device nothing is waited for.
\<close>

fun fails_at_once :: "gui_env \<Rightarrow> nat \<Rightarrow> nat \<Rightarrow> nat \<Rightarrow> nat \<Rightarrow> page \<Rightarrow> bool" where
  "fails_at_once env array 0 base n pg = False"
| "fails_at_once env array (Suc fuel) base n pg =
     (case node_od (ge_config env) n (pg_levels pg) of
        None \<Rightarrow> True
      | Some od \<Rightarrow>
          od_isControlLevel od \<noteq> 0 \<and>
          (case (if n \<noteq> base \<or> is_algorithm n (pg_levels pg) then add_item env array n od [] pg else Inr pg) of
             Inl e \<Rightarrow> True
           | Inr pg1 \<Rightarrow>
               fails_at_once env array fuel base (Suc n)
                 (pg1\<lparr>pg_levels := set_level n (jnth (od_minValue od) 0) (pg_levels pg1)\<rparr>)))"

definition caught :: "web_env \<Rightarrow> jnum list \<Rightarrow> jstring \<Rightarrow> web \<Rightarrow> bool" where
  "caught env levels html w \<longleftrightarrow>
     \<not> we_connected env \<or>
     fails_at_once (we_gui env) (we_array env) (we_fuel env) (length levels) (length levels)
       \<lparr>pg_html = html, pg_levels = levels, pg_ref = wb_ref w\<rparr>"

definition answer_page :: "page res \<Rightarrow> web \<Rightarrow> answered" where
  "answer_page r w =
     (case r of
        Inl e \<Rightarrow> (None, w)
      | Inr pg \<Rightarrow> (Some (pg_html pg), w\<lparr>wb_disable := False, wb_ref := pg_ref pg\<rparr>))"

definition getParam :: "web_env \<Rightarrow> jstring \<Rightarrow> web \<Rightarrow> answered option" where
  "getParam env L w =
     (case levels_parse (ge_config (we_gui env)) L of
        Inl e \<Rightarrow> Some (None, w)
      | Inr levels \<Rightarrow>
          (let w1 = w\<lparr>wb_disable := True\<rparr>
           in map_option (\<lambda>r. answer_page r w1) (render env levels True [] w1)))"

text \<open>
  \<open>getEffect\<close> renders an algorithm only when it is the one that is loaded.  Its \<open>catch\<close> uses
  \<open>pb\<close>, which is not defined there, so an exception leaves the handler either way.
\<close>

definition getEffect :: "web_env \<Rightarrow> jstring \<Rightarrow> web \<Rightarrow> answered option" where
  "getEffect env L w =
     (case levels_parse (ge_config (we_gui env)) L of
        Inl e \<Rightarrow> Some (None, w)
      | Inr levels \<Rightarrow>
          (let w1 = w\<lparr>wb_disable := True\<rparr>; n = length levels - 1
           in if levels \<noteq> [] \<and> jeq (rd (we_ask env (take n levels)) 0) (jnth levels n)
              then map_option (\<lambda>r. answer_page r w1) (render env levels False [] w1)
              else Some (Some [], w1\<lparr>wb_disable := False\<rparr>)))"

definition update :: "web_env \<Rightarrow> jstring \<Rightarrow> web \<Rightarrow> answered option" where
  "update env L w =
     (case levels_parse (ge_config (we_gui env)) L of
        Inl e \<Rightarrow> Some (None, w)
      | Inr levels \<Rightarrow>
          if length levels = 2 \<and> is_effect levels then
            (let w1 = w\<lparr>wb_disable := True\<rparr>
             in map_option (\<lambda>r. answer_page r w1)
                  (render env (levels @ [rd (we_ask env levels) 0]) False [] w1))
          else
            map_option
              (\<lambda>r. case r of
                 Inl e \<Rightarrow> (if caught env levels [] w then Some [] else None, w)
               | Inr pg \<Rightarrow> (Some (pg_html pg), w\<lparr>wb_ref := pg_ref pg\<rparr>))
              (render env levels False [] w))"

section \<open>Raw values and bypass\<close>

text \<open>
  The text of a dump, line by line; the first empty line ends it.  Only the last line of a
  dump reaches the callback.
\<close>

definition request_handler :: "web_env \<Rightarrow> jstring \<Rightarrow> prevbufs \<Rightarrow> jstring option \<times> prevbufs" where
  "request_handler env L prev =
     (if L = [] then (None, prev)
      else
        (case levels_parse (ge_config (we_gui env)) L of
           Inl e \<Rightarrow> (None, prev)
         | Inr levels \<Rightarrow>
             (case dump (ge_numlib (we_gui env)) (we_ask env levels) [] prev of
                Inl e \<Rightarrow> (None, prev)
              | Inr (line, diff, prev') \<Rightarrow>
                  (case line of None \<Rightarrow> (None, prev) | Some l \<Rightarrow> (Some (l @ [13]), prev')))))"

definition bypass :: "web_env \<Rightarrow> jstring \<Rightarrow> message res" where
  "bypass env L =
     (let cfg = ge_config (we_gui env)
      in case getLevelsByName cfg (S ''Program.Byp'') of
           Inl e \<Rightarrow> Inl e
         | Inr ls \<Rightarrow>
             (let levels = ls @ [parse_int (Some 16) L];
                  v = map_option (\<lambda>x. 1 - x) (rd (we_ask env levels) 0)
              in dataMessage cfg (By_levels (length levels) levels) (Number v)))"

section \<open>Templates\<close>

fun replace_first :: "jstring \<Rightarrow> jstring \<Rightarrow> jstring \<Rightarrow> jstring" where
  "replace_first pat new [] = (if pat = [] then new else [])"
| "replace_first pat new (c # s) =
     (if take (length pat) (c # s) = pat then new @ drop (length pat) (c # s)
      else c # replace_first pat new s)"

function replace_all :: "jstring \<Rightarrow> jstring \<Rightarrow> jstring \<Rightarrow> jstring" where
  "replace_all pat new [] = []"
| "replace_all pat new (c # s) =
     (if pat \<noteq> [] \<and> take (length pat) (c # s) = pat then new @ replace_all pat new (drop (length pat) (c # s))
      else c # replace_all pat new s)"
  by pat_completeness auto
termination
  by (relation "measure (\<lambda>(pat, new, s). length s)") auto

record templates =
  tp_data1b :: jstring
  tp_data2b :: jstring
  tp_manPage :: jstring
  tp_secondary :: "jnum \<Rightarrow> jstring"

definition columns :: "templates \<Rightarrow> jnum \<Rightarrow> jstring \<Rightarrow> jstring" where
  "columns tp lvl html =
     Q ''<td class=|column secondary|>'' @ tp_secondary tp lvl @ Q ''</td><td class=|column primary|>'' @ html @
     Q ''</ul></td>''"

definition page_head :: "templates \<Rightarrow> jstring \<Rightarrow> jstring \<Rightarrow> jstring" where
  "page_head tp title man =
     replace_first (S ''MANPAGE'') man (replace_first (S ''CACHE'') (S ''no'') (replace_all (S ''TITLE'') title (tp_data1b tp)))"

definition list_start :: "jstring \<Rightarrow> jstring" where
  "list_start L =
     Q ''<ul data-role=|listview| data-theme=|c| data-dividertheme=|b| data-inset=|false| data-toplevel=|L'' @ L @ Q ''|>''"

definition effect_link :: "jstring \<Rightarrow> jstring \<Rightarrow> jstring" where
  "effect_link L html =
     replace_first (Q ''href=|'' @ L) (Q ''class=|effect-current ui-btn-active ui-state-persist| href=|'' @ L) html"

text \<open>
  The page of a block, asked for by the four hexadecimal digits of its name; the section headers
  start again.
\<close>

definition fresh_ref :: section_ref where
  "fresh_ref = \<lparr>sr_numLevels = None, sr_array = 0, sr_levels = [], sr_label = S ''undefined'', sr_index = 1\<rparr>"

definition block_page :: "web_env \<Rightarrow> templates \<Rightarrow> jstring \<Rightarrow> web \<Rightarrow> answered option" where
  "block_page env tp L w =
     (let cfg = ge_config (we_gui env); w0 = w\<lparr>wb_ref := fresh_ref\<rparr>;
          levels = [parse_int (Some 16) (take 2 L), parse_int (Some 16) (take 2 (drop 2 L))]
      in case node_od cfg 2 levels of
           None \<Rightarrow> Some (None, w0)
         | Some od \<Rightarrow>
             (let title = trim (od_name od)
              in if is_effect levels then
                   (let w1 = w0\<lparr>wb_disable := True\<rparr>; ls = levels @ [rd (we_ask env levels) 0]
                    in map_option
                         (\<lambda>r. case r of
                            Inl e \<Rightarrow> (None, w1)
                          | Inr pg \<Rightarrow>
                              (case printf (ge_numlib (we_gui env)) (S ''%02d'') (Positional [ANum (jnth ls 2)]) of
                                 Inl e \<Rightarrow> (None, w1)
                               | Inr alg \<Rightarrow>
                                   (Some (page_head tp title (L @ alg) @ columns tp (jnth levels 0) (pg_html pg) @
                                          effect_link L (tp_data2b tp)),
                                    w1\<lparr>wb_disable := False, wb_ref := pg_ref pg\<rparr>)))
                         (render env ls False (list_start L) w1))
                 else
                   map_option
                     (\<lambda>r. case r of
                        Inl e \<Rightarrow> (None, w0)
                      | Inr pg \<Rightarrow>
                          (Some (page_head tp title L @ columns tp (jnth levels 0) (pg_html pg) @ tp_data2b tp),
                           w0\<lparr>wb_ref := pg_ref pg\<rparr>))
                     (render env levels False (list_start L) w0)))"

text \<open>The page of the manual for a node, from the table of the processing steps.\<close>

definition help_page :: "web_env \<Rightarrow> templates \<Rightarrow> jstring \<Rightarrow> jstring option" where
  "help_page env tp p =
     (let cfg = ge_config (we_gui env)
      in case levels_parse cfg p of
           Inl e \<Rightarrow> None
         | Inr levels \<Rightarrow>
             (case getLevelName cfg (length levels) levels of
                Inl e \<Rightarrow> None
              | Inr path \<Rightarrow>
                  (let man = (case path of
                        None \<Rightarrow> 0
                      | Some [] \<Rightarrow> 0
                      | Some q \<Rightarrow> (case ge_info (we_gui env) (toLowerCase q) of None \<Rightarrow> 0 | Some i \<Rightarrow> si_man i))
                   in case printf (ge_numlib (we_gui env)) (S ''%03d'') (Positional [ANum (Some man)]) of
                        Inl e \<Rightarrow> None
                      | Inr m \<Rightarrow>
                          Some (page_head tp (S ''Manual - Page '' @ show_int man) (S ''0'') @
                                columns tp (jnth levels 0) (replace_first (S ''MANPAGE'') m (tp_manPage tp)) @
                                Q ''</tr></table></div></div></body></html>''))))"

section \<open>The set-up\<close>

text \<open>
  The preferences are those of the program and the file they are saved to.  Choosing a port
  closes the open one, and opens the one of the name, or the first when there is none.
\<close>

record prefs =
  pf_midiin :: jstring
  pf_midiout :: jstring
  pf_deviceID :: jstring

record settings =
  sg_setup :: startup
  sg_prefs :: prefs
  sg_saved :: "prefs option"

definition prefs_save :: "settings \<Rightarrow> settings" where
  "prefs_save g = g\<lparr>sg_saved := Some (sg_prefs g)\<rparr>"

definition prefs_load :: "prefs option \<Rightarrow> prefs \<Rightarrow> prefs" where
  "prefs_load file p = (case file of None \<Rightarrow> p | Some q \<Rightarrow> q)"

definition close_port :: "port \<Rightarrow> port" where
  "close_port p = p\<lparr>pt_open := None\<rparr>"

definition choose_midiin :: "jstring \<Rightarrow> settings \<Rightarrow> jstring \<times> settings" where
  "choose_midiin name g =
     (let s = sg_setup g
      in if su_MIDI_INPUT s = name then (S ''1'', g)
         else
           (let p = close_port (su_midiin s); i = getPortByName p name
            in if pt_opens p i then
                 (S ''1'', prefs_save
                    (g\<lparr>sg_setup := s\<lparr>su_midiin := p\<lparr>pt_open := Some i\<rparr>, su_MIDI_INPUT := name\<rparr>,
                       sg_prefs := (sg_prefs g)\<lparr>pf_midiin := name\<rparr>\<rparr>))
               else (S ''0'', g\<lparr>sg_setup := s\<lparr>su_midiin := p\<rparr>\<rparr>)))"

definition choose_midiout :: "jstring \<Rightarrow> settings \<Rightarrow> jstring \<times> settings" where
  "choose_midiout name g =
     (let s = sg_setup g
      in if su_MIDI_OUTPUT s = name then (S ''1'', g)
         else
           (let p = close_port (su_midiout s); i = getPortByName p name
            in if pt_opens p i then
                 (S ''1'', prefs_save
                    (g\<lparr>sg_setup := s\<lparr>su_midiout := p\<lparr>pt_open := Some i\<rparr>, su_MIDI_OUTPUT := name\<rparr>,
                       sg_prefs := (sg_prefs g)\<lparr>pf_midiout := name\<rparr>\<rparr>))
               else (S ''0'', g\<lparr>sg_setup := s\<lparr>su_midiout := p\<rparr>\<rparr>)))"

text \<open>
  The device number becomes the text of the request, which counts as a number where a message
  is built; a text that is not made of digits counts as 0.
\<close>

definition device_number :: "jstring \<Rightarrow> nat" where
  "device_number s =
     (if s \<noteq> [] \<and> list_all is_dec s then (case parse_int (Some 10) s of None \<Rightarrow> 0 | Some v \<Rightarrow> nat v) else 0)"

definition choose_deviceID :: "jstring \<Rightarrow> settings \<Rightarrow> settings" where
  "choose_deviceID no g =
     prefs_save (g\<lparr>sg_prefs := (sg_prefs g)\<lparr>pf_deviceID := no\<rparr>,
       sg_setup := (sg_setup g)\<lparr>su_ids := (su_ids (sg_setup g))\<lparr>DEVICE_ID := device_number no\<rparr>\<rparr>\<rparr>)"

definition port_choice :: "jstring \<Rightarrow> nat \<Rightarrow> nat \<Rightarrow> jstring \<Rightarrow> jstring" where
  "port_choice kind current i name =
     Q ''<input type=|radio| name=|'' @ kind @ Q ''| id=|'' @ kind @ Q ''-'' @ show_int (int i) @
     Q ''| value=|'' @ show_int (int i) @ Q ''|'' @ (if i = current then Q ''checked=|checked|'' else []) @ Q ''>'' @
     Q ''<label for=|'' @ kind @ Q ''-'' @ show_int (int i) @ Q ''|>'' @ name @ Q ''</label>''"

definition port_choices :: "jstring \<Rightarrow> port \<Rightarrow> jstring \<Rightarrow> jstring" where
  "port_choices kind p current =
     concat (map (\<lambda>i. port_choice kind (getPortByName p current) i (pt_names p ! i)) [0..<length (pt_names p)])"

definition config_page :: "jstring \<Rightarrow> settings \<Rightarrow> jstring" where
  "config_page html g =
     (let s = sg_setup g
      in replace_first (S ''_deviceID_'') (pf_deviceID (sg_prefs g))
           (replace_first (S ''midi_outputs'') (port_choices (S ''midiout'') (su_midiout s) (su_MIDI_OUTPUT s))
             (replace_first (S ''midi_inputs'') (port_choices (S ''midiin'') (su_midiin s) (su_MIDI_INPUT s)) html)))"

section \<open>The list of programs\<close>

definition program_entry :: "jstring \<times> prog \<Rightarrow> jstring" where
  "program_entry e =
     (let (h, p) = e;
          no = (case pr_no p of
                  Some (Some n) \<Rightarrow> if n = 0 then [] else Q ''<span>'' @ show_int n @ Q '' - </span>''
                | _ \<Rightarrow> [])
      in Q ''<input type=|checkbox| id=|'' @ h @ Q ''| name=|program|><label for=|'' @ h @ Q ''|>'' @ no @
         pr_name p @ Q ''</label>'')"

definition programs_page :: "jstring \<Rightarrow> library \<Rightarrow> jstring" where
  "programs_page html lib =
     replace_first (S ''PROGRAMS'') (Q ''<li>'' @ concat (map program_entry (lib_program lib)) @ Q ''</li>'') html"

text \<open>While the control tree is built, every browser is told to wait.\<close>

definition home_page :: "bool \<Rightarrow> jstring \<Rightarrow> jstring \<Rightarrow> jstring list \<Rightarrow> bool \<Rightarrow> jstring" where
  "home_page building wait_html html urls msie =
     (if building then wait_html else
      let links = (if length urls > 1 then [115] else []) @ Q '':&nbsp;'' @
            concat (map (\<lambda>u. Q ''<br /><a href=|'' @ u @ Q ''|>'' @ u @ Q ''</a>'') urls)
      in replace_first (S ''DOWNLOAD_CHROME'') (if msie then S ''block'' else S ''none'')
           (replace_first (S ''URL'') (S ''URL'' @ links) html))"

section \<open>Properties\<close>

text \<open>
  A port that cannot be opened leaves none open, and the one that was open before can not be
  chosen again: the program answers that it is in use, without opening it.
\<close>

theorem failed_port_stays_closed:
  assumes "name \<noteq> su_MIDI_INPUT (sg_setup g)"
    and "\<not> pt_opens (su_midiin (sg_setup g)) (getPortByName (su_midiin (sg_setup g)) name)"
  shows "\<exists>g'. choose_midiin name g = (S ''0'', g') \<and> pt_open (su_midiin (sg_setup g')) = None \<and>
     choose_midiin (su_MIDI_INPUT (sg_setup g)) g' = (S ''1'', g') \<and> sg_saved g' = sg_saved g"
  using assms by (auto simp: choose_midiin_def close_port_def getPortByName_def Let_def)

theorem failed_port_stays_closed_witness:
  "\<exists>g'. choose_midiin (S ''USB'')
       \<lparr>sg_setup = sample_setup\<lparr>su_MIDI_INPUT := S ''Din'',
          su_midiin := \<lparr>pt_names = [S ''Din'', S ''USB''], pt_opens = (\<lambda>i. i = 0), pt_open = Some 0\<rparr>\<rparr>,
        sg_prefs = \<lparr>pf_midiin = S ''Din'', pf_midiout = [], pf_deviceID = []\<rparr>, sg_saved = None\<rparr> = (S ''0'', g') \<and>
     pt_open (su_midiin (sg_setup g')) = None \<and> choose_midiin (S ''Din'') g' = (S ''1'', g')"
proof -
  have "S ''Din'' \<noteq> S ''USB''" by (simp add: js_eval)
  then show ?thesis
    using failed_port_stays_closed [of "S ''USB''" "\<lparr>sg_setup = sample_setup\<lparr>su_MIDI_INPUT := S ''Din'',
        su_midiin := \<lparr>pt_names = [S ''Din'', S ''USB''], pt_opens = (\<lambda>i. i = 0), pt_open = Some 0\<rparr>\<rparr>,
      sg_prefs = \<lparr>pf_midiin = S ''Din'', pf_midiout = [], pf_deviceID = []\<rparr>, sg_saved = None\<rparr>"]
    by (auto simp: getPortByName_def)
qed

end
