(* ===== verification/Client.thy ===== *)
theory Client
  imports Browser
begin

text \<open>
  The script of the pages (\<open>src/main/js/mpxedit.js\<close>): reading the controls of a parameter and
  limiting a slider, keeping the choice of an algorithm, the pages of the manual, the
  navigation bar, and the checks before files are sent.  What the functions find in the
  document is their argument; what they send is a \<open>request\<close>.
\<close>

section \<open>Addresses and controls\<close>

text \<open>\<open>for (var i=0; i<L.length; i+=2) ret.push(parseInt(L.substr(i,2),16))\<close>\<close>

function levels :: "jstring \<Rightarrow> jnum list" where
  "levels L = (if L = [] then [] else parse_int (Some 16) (take 2 L) # levels (drop 2 L))"
  by pat_completeness auto
termination by (relation "measure length") auto

declare levels.simps [simp del]

text \<open>
  The controls in an element: the radio buttons, each with its value and whether it is
  checked, the values of all input elements, and the choice of a menu.
\<close>

record control =
  cl_radios :: "(jstring \<times> bool) list"
  cl_inputs :: "jstring list"
  cl_select :: "jstring option"

definition checked :: "control \<Rightarrow> jstring option" where
  "checked c = map_option fst (find snd (cl_radios c))"

definition control_value :: "control \<Rightarrow> jstring option" where
  "control_value c =
     (case checked c of
        Some v \<Rightarrow> Some v
      | None \<Rightarrow> (case cl_inputs c of v # vs \<Rightarrow> Some v | [] \<Rightarrow> cl_select c))"

definition value_text :: "jstring option \<Rightarrow> jstring" where
  "value_text v = (case v of None \<Rightarrow> S ''undefined'' | Some t \<Rightarrow> t)"

text \<open>
  \<open>get_value\<close>: two main values are the two bytes of one; without a main value the item itself
  is read; every option is appended as text.
\<close>

definition main_value :: "control list \<Rightarrow> control \<Rightarrow> oval option" where
  "main_value mains li =
     (case mains of
        [] \<Rightarrow> map_option Str (control_value li)
      | [a, b] \<Rightarrow>
          (let ins = cl_inputs a @ cl_inputs b;
               num = (\<lambda>k. if k < length ins then parse_int None (ins ! k) else None)
           in Some (Num (jadd (num 0) (Some (jshl (num 1) 8)))))
      | a # _ \<Rightarrow> map_option Str (control_value a))"

definition get_value :: "control list \<Rightarrow> control \<Rightarrow> control list \<Rightarrow> oval option" where
  "get_value mains li options =
     foldl (\<lambda>v c. Some (Str ((case v of None \<Rightarrow> S ''undefined'' | Some x \<Rightarrow> show_oval x) @
                               44 # value_text (control_value c))))
       (main_value mains li) options"

section \<open>Changes\<close>

text \<open>What a change sends, once its delay is over.\<close>

datatype request =
    Data_message jstring "oval option"
  | Get_param jstring
  | Get_effect jstring
  | Update_list jstring
  | Bypass_effect jstring
  | Set_up jstring

definition less_num :: "jnum \<Rightarrow> jnum \<Rightarrow> bool" where
  "less_num a b = (case (a, b) of (Some x, Some y) \<Rightarrow> x < y | _ \<Rightarrow> False)"

text \<open>The text of a slider after its limits are applied; \<open>val(min)\<close> writes the number.\<close>

definition clamp_slider :: "jstring \<Rightarrow> jstring \<Rightarrow> jstring \<Rightarrow> jstring" where
  "clamp_slider v mn mx =
     (let val = parse_int None v; lo = parse_int None mn; hi = parse_int None mx
      in if less_num val lo then num_to_string 10 lo
         else if less_num hi val then num_to_string 10 hi
         else v)"

definition control_address :: "jstring \<Rightarrow> jstring" where
  "control_address ident = takeWhile (\<lambda>c. c \<noteq> 45) (drop 1 ident)"

text \<open>
  A change of an input: one that a script made is not sent; those of the set-up ask for
  their page; those of lists and files are left alone; the others send the value of their item.
\<close>

definition input_change ::
  "bool \<Rightarrow> jstring \<Rightarrow> jstring \<Rightarrow> jstring \<Rightarrow> jstring \<Rightarrow> oval option \<Rightarrow> request option" where
  "input_change noMessage name ident label val item =
     (if noMessage then None
      else if name = S ''midiin'' \<or> name = S ''midiout'' then
        Some (Set_up ([47] @ name @ S ''?name='' @ label))
      else if name = S ''deviceID'' then Some (Set_up ([47] @ name @ S ''?id='' @ val))
      else if name \<in> set (map S [''filter'', ''program'', ''file'', ''dl_what'', ''download'']) then None
      else Some (Data_message (control_address ident) item))"

definition select_change :: "bool \<Rightarrow> jstring \<Rightarrow> oval option \<Rightarrow> request option" where
  "select_change noMessage ident item =
     (if noMessage then None else Some (Data_message (drop 1 ident) item))"

definition param_update :: "jstring option \<Rightarrow> jstring \<Rightarrow> jstring \<Rightarrow> request option" where
  "param_update unit addr option =
     (if unit = Some option then None else Some (Get_param addr))"

section \<open>Algorithms\<close>

text \<open>
  The menus of the page by the address of their effect.  A script that names an algorithm
  chooses it without sending anything; then its parameters are asked for.
\<close>

type_synonym menus = "jstring \<Rightarrow> jnum option"

definition hex_byte_text :: "jnum \<Rightarrow> jstring" where
  "hex_byte_text v = (let h = num_to_string 16 v in (if length h = 1 then 48 # h else h))"

definition algorithm_change :: "jstring \<Rightarrow> menus \<Rightarrow> (request \<times> menus) option" where
  "algorithm_change L menus =
     (if length L = 6 then
        (case menus (take 4 L) of
           None \<Rightarrow> None
         | Some old \<Rightarrow> Some (Get_effect L, menus(take 4 L \<mapsto> parse_int (Some 16) (drop 4 L))))
      else
        (case menus L of
           None \<Rightarrow> None
         | Some v \<Rightarrow> Some (Get_effect (L @ hex_byte_text v), menus)))"

text \<open>
  The answer: the parameters, or nothing when another algorithm is loaded; then the menu goes
  back to the algorithm of the item below it, or to none.
\<close>

definition effect_answer :: "jstring \<Rightarrow> jstring \<Rightarrow> jstring option \<Rightarrow> menus \<Rightarrow> jstring option \<times> menus" where
  "effect_answer L html nxt menus =
     (if html \<noteq> [] then (Some html, menus)
      else
        (None, menus(L \<mapsto>
           (case nxt of None \<Rightarrow> Some 0 | Some lv \<Rightarrow> parse_int (Some 16) (take 2 (drop 5 lv))))))"

definition program_change :: "jstring option \<Rightarrow> request option" where
  "program_change toplevel = map_option (\<lambda>L. Update_list (drop 1 L)) toplevel"

section \<open>Buttons and navigation\<close>

definition panel_button :: "int \<Rightarrow> request" where
  "panel_button v = Data_message (S ''System.Panel.PnlButton'') (Some (Num (Some v)))"

definition insert_toggle :: "request list" where
  "insert_toggle = [panel_button 0x1F, panel_button 0x35]"

definition tuner_toggle :: "request list" where
  "tuner_toggle = [panel_button 0x20, panel_button 0x36]"

definition bypass_toggle :: "request list" where
  "bypass_toggle = [panel_button 0x36]"

fun drop_html :: "jstring \<Rightarrow> jstring" where
  "drop_html [] = []"
| "drop_html (c # s) =
     (if length s \<ge> 4 \<and> \<not> line_end c \<and> take 4 s = S ''html'' then drop 4 s else c # drop_html s)"

text \<open>A click on the effect that is shown switches its bypass; the flag is the mark it gets.\<close>

definition navbar_click :: "jstring \<Rightarrow> bool \<Rightarrow> request option \<times> bool" where
  "navbar_click href current =
     (let L = drop_html href
      in if length L = 4 \<and> less_num (parse_int (Some 16) L) (Some 7) then
           (if current then (Some (Bypass_effect (drop 2 L)), True) else (None, True))
         else (None, current))"

text \<open>A click on a page of the manual: the left third goes back, the right third forward.\<close>

definition manual_page :: "int \<Rightarrow> int \<Rightarrow> int \<Rightarrow> int" where
  "manual_page pageNum pos width =
     (if 3 * pos < width then (if pageNum > 0 then pageNum - 1 else pageNum)
      else if 3 * pos > 3 * width - width then (if pageNum < 171 then pageNum + 1 else pageNum)
      else pageNum)"

definition manual_image :: "int \<Rightarrow> jstring" where
  "manual_image n =
     S ''/man/page-'' @
     (if n < 10 then S ''00'' @ show_int n else if n < 100 then S ''0'' @ show_int n else show_int n) @ S ''.jpg''"

section \<open>Files to send\<close>

record local_file =
  lf_name :: jstring
  lf_fileSize :: int

text \<open>
  The checks before an upload.  \<open>retry\<close> is what the handler of an error answers for a file:
  whether to go on.
\<close>

definition has_extension :: "jstring list \<Rightarrow> local_file \<Rightarrow> bool" where
  "has_extension exts f \<longleftrightarrow> toLowerCase (last (split_on 46 (lf_name f))) \<in> set exts"

fun check_fileExtension :: "jstring list \<Rightarrow> (local_file \<Rightarrow> bool) \<Rightarrow> bool \<Rightarrow> local_file list \<Rightarrow> bool" where
  "check_fileExtension exts retry ok [] = ok"
| "check_fileExtension exts retry ok (f # fs) =
     (if has_extension exts f then check_fileExtension exts retry True fs
      else retry f \<and> check_fileExtension exts retry ok fs)"

record size_limits =
  sl_min :: "int option"
  sl_max :: "int option"

definition bad_size :: "size_limits \<Rightarrow> local_file \<Rightarrow> bool" where
  "bad_size sl f \<longleftrightarrow>
     (case sl_min sl of None \<Rightarrow> False | Some m \<Rightarrow> lf_fileSize f < m) \<or>
     (case sl_max sl of None \<Rightarrow> False | Some m \<Rightarrow> m < lf_fileSize f)"

fun check_fileSize :: "size_limits \<Rightarrow> (local_file \<Rightarrow> bool) \<Rightarrow> bool \<Rightarrow> local_file list \<Rightarrow> bool" where
  "check_fileSize sl retry ok [] = ok"
| "check_fileSize sl retry ok (f # fs) =
     (if bad_size sl f then retry f \<and> check_fileSize sl retry ok fs
      else check_fileSize sl retry (sl_max sl \<noteq> None) fs)"

definition check_files ::
  "jstring list option \<Rightarrow> size_limits option \<Rightarrow> (local_file \<Rightarrow> bool) \<Rightarrow> local_file list \<Rightarrow> bool" where
  "check_files exts sl retry files =
     (let ok = (case exts of None \<Rightarrow> True | Some es \<Rightarrow> check_fileExtension es retry False files)
      in case sl of None \<Rightarrow> ok | Some l \<Rightarrow> ok \<and> check_fileSize l retry False files)"

definition getFilesInfo :: "local_file list \<Rightarrow> jstring list \<times> int" where
  "getFilesInfo files = (map lf_name files, sum_list (map lf_fileSize files))"

definition upload_confirm :: "(jstring list \<Rightarrow> int \<Rightarrow> bool) \<Rightarrow> local_file list \<Rightarrow> bool" where
  "upload_confirm confirm files = (case getFilesInfo files of (names, n) \<Rightarrow> confirm names n)"

text \<open>Files dropped on a page: those that are sent.\<close>

definition onDrop :: "(jstring list \<Rightarrow> int \<Rightarrow> bool) \<Rightarrow> local_file list \<Rightarrow> local_file list" where
  "onDrop confirm files =
     (if check_files (Some [S ''syx'']) None (\<lambda>_. False) files \<and> upload_confirm confirm files then files else [])"

section \<open>Properties\<close>

lemma levels_hex_pairs: "levels L = hex_pairs L"
  by (induction L rule: hex_pairs.induct) (simp_all add: levels.simps)

text \<open>
  Every part of the program means the same by an address: for a node the pages can show,
  the text of the page (\<open>toL\<close>), that of the scripts (\<open>printf\<close>), what the browser reads from
  it and what the server reads from it agree.
\<close>

theorem addresses_agree:
  assumes "\<forall>l \<in> set ls. byte_level l" and "ls \<noteq> []" and "the (hd ls) < 16" and "toL (length ls) ls = Inr L"
  shows "addr_of lib ls (length ls) = Inr L \<and> levels L = ls \<and> levels_parse cfg L = Inr ls"
proof -
  have s: "levels_parse cfg L = Inr ls" by (rule levels_parse_toL [OF assms])
  moreover have "take 1 L = [48]"
    using assms toL_hex2 [OF assms(1)]
    by (cases ls) (auto simp: hex2_def digit_char_def upper1_def byte_level_def split: option.splits)
  ultimately show ?thesis
    using addr_of_toL [OF assms(1,4)] by (simp add: levels_hex_pairs levels_parse_def)
qed

theorem addresses_agree_witness:
  "addr_of (se_numlib sample_setup_env) [Some 1, Some 18, Some 5] 3 = Inr (hex2 1 @ hex2 18 @ hex2 5) \<and>
   levels (hex2 1 @ hex2 18 @ hex2 5) = [Some 1, Some 18, Some 5] \<and>
   levels_parse no_config (hex2 1 @ hex2 18 @ hex2 5) = Inr [Some 1, Some 18, Some 5]"
proof -
  have b: "\<forall>l \<in> set [Some 1, Some 18, Some 5]. byte_level l" by (simp add: byte_level_def)
  show ?thesis
    using addresses_agree [OF b, of "hex2 1 @ hex2 18 @ hex2 5" "se_numlib sample_setup_env" no_config] toL_hex2 [OF b]
    by (simp add: numeral_3_eq_3)
qed

definition slider :: "jstring \<Rightarrow> control" where
  "slider v = \<lparr>cl_radios = [], cl_inputs = [v], cl_select = None\<rparr>"

text \<open>
  C13: A value of two bytes is sent back as it is shown: from the two sliders of a page, each
  showing one byte, and the choice of its option, the browser makes a text from which the
  server makes exactly the bytes the page was made from.
\<close>

theorem shown_value_is_sent_back:
  assumes "od_dataSize od = Some 2" and "od_optionType od = Some ty"
    and "ty \<in> {0x12c, 0x12f, 0x130, 0x131, 0x132, 0x136, 0x13a}"
    and "objectDescription cfg (Some ty) = Some ood" and "od_objectType ood = Some ty" and "od_dataSize ood = Some 1"
    and "a < 256" and "b < 256" and "opt < 256"
    and "control_value choice = Some (int_to_string 10 (int opt))"
  shows "\<exists>text script. get_value [slider (show_at [a, b, opt] 0), slider (show_at [a, b, opt] 1)] li [choice] =
       Some (Str text) \<and>
     param_entry cfg od L text = Inr \<lparr>en_arg = Nibbles (enc_bytes [a, b, opt]), en_script = script\<rparr>"
proof -
  let ?v = "int a + 256 * int b"
  have "main_value [slider (show_at [a, b, opt] 0), slider (show_at [a, b, opt] 1)] li = Some (Num (Some ?v))"
    using assms(8)
    by (simp add: main_value_def slider_def show_at_def rd_def parse_int_int jshl_def push_bit_eq_mult to_int32_small
        Let_def)
  then have g: "get_value [slider (show_at [a, b, opt] 0), slider (show_at [a, b, opt] 1)] li [choice] =
      Some (Str (pair_text ?v opt))"
    using assms(10) by (simp add: get_value_def value_text_def pair_text_def num_to_string_def)
  have "value_bytes 2 ?v = [a, b]" using assms(7,8) by (simp add: value_bytes_def)
  moreover have "sent_option ty opt = opt" using assms(3) by (auto simp: sent_option_def)
  moreover have "ty \<in> {0x12c, 0x12d, 0x12e, 0x133, 0x134, 0x139, 0x12f, 0x130, 0x131, 0x132, 0x136, 0x13a}"
    using assms(3) by auto
  ultimately show ?thesis
    using pair_entry_bytes [OF assms(1) _ assms(2) _ assms(4-6), of opt L ?v] assms(9) g by auto
qed

theorem shown_value_is_sent_back_witness:
  "\<exists>text script. get_value [slider (show_at [3, 2, 7] 0), slider (show_at [3, 2, 7] 1)] (slider []) [slider [55]] =
       Some (Str text) \<and>
     param_entry option_config (level_od\<lparr>od_dataSize := Some 2\<rparr>) (S ''000102'') text =
       Inr \<lparr>en_arg = Nibbles (enc_bytes [3, 2, 7]), en_script = script\<rparr>"
proof -
  have "control_value (slider [55]) = Some (int_to_string 10 (int 7))"
    by (simp add: control_value_def checked_def slider_def int_to_string_def digit_char_def digits_of.simps)
  then show ?thesis
    using shown_value_is_sent_back [where od = "level_od\<lparr>od_dataSize := Some 2\<rparr>" and ty = 300 and cfg = option_config
        and ood = "plain_od 0x12c (S ''Optimize'') 0 100 0" and a = "3" and b = "2" and opt = "7" and choice = "slider [55]"
        and li = "slider []" and L = "S ''000102''"]
    by (simp add: level_od_def option_config_def plain_od_def)
qed

end
