(* ===== verification/Server.thy ===== *)
theory Server
  imports Startup "HOL-Library.AList"
begin

text \<open>
  The web server (\<open>src/mpxg2-dev/server.js\<close>, \<open>mime.js\<close>): the addresses it is reached by, the
  choice of a handler, the type of a file, and the files it sends, from disk or built in.  The
  decoding of text is a parameter; the network interfaces are those of the system.
\<close>

section \<open>Addresses\<close>

record interface_address =
  ia_family :: jstring
  ia_address :: jstring

text \<open>
  The addresses of one interface, each named after it, numbered from the second on.  They are
  collected in one object, so an interface of that very name replaces the address.
\<close>

fun interface_names :: "jstring \<Rightarrow> nat \<Rightarrow> interface_address list \<Rightarrow> (jstring \<times> jstring) list" where
  "interface_names dev n [] = []"
| "interface_names dev n (a # as) =
     (if ia_family a = S ''IPv4'' \<and> ia_address a \<noteq> S ''127.0.0.1'' then
        (if n = 0 then dev else dev @ [58] @ int_to_string 10 (int n), ia_address a) # interface_names dev (Suc n) as
      else interface_names dev n as)"

definition getIPv4AddressList ::
  "jstring option \<Rightarrow> (jstring \<times> interface_address list) list \<Rightarrow> (jstring \<times> jstring) list" where
  "getIPv4AddressList device ifaces =
     foldl (\<lambda>ret (name, address). AList.update name address ret) []
       (concat (map (\<lambda>(dev, as).
          if dev = S ''lo'' \<or> (case device of None \<Rightarrow> False | Some d \<Rightarrow> d \<noteq> [] \<and> d \<noteq> dev) then []
          else interface_names dev 0 as) ifaces))"

definition server_URLs :: "nat \<Rightarrow> (jstring \<times> interface_address list) list \<Rightarrow> jstring list" where
  "server_URLs port ifaces =
     map (\<lambda>(dev, a). S ''http://'' @ a @ [58] @ int_to_string 10 (int port)) (getIPv4AddressList None ifaces)"

section \<open>Requests\<close>

datatype handler = Get_page jstring | Post_form | Not_found

definition handle_request :: "jstring \<Rightarrow> jstring \<Rightarrow> handler" where
  "handle_request verb pathname =
     (if verb = S ''GET'' then Get_page (if pathname = [47] then S ''/index.html'' else pathname)
      else if verb = S ''POST'' then Post_form
      else Not_found)"

section \<open>Types of files\<close>

fun mime_define :: "(jstring \<times> jstring list) list \<Rightarrow> (jstring \<Rightarrow> jstring option) \<Rightarrow> jstring \<Rightarrow> jstring option" where
  "mime_define [] types = types"
| "mime_define ((ty, exts) # defs) types =
     mime_define defs (foldl (\<lambda>t e. t(e \<mapsto> ty)) types exts)"

definition mime_types :: "jstring \<Rightarrow> jstring option" where
  "mime_types = mime_define
     [(S ''text/html'', map S [''html'', ''htm'']), (S ''text/css'', [S ''css'']), (S ''text/plain'', [S ''txt'']),
      (S ''application/javascript'', [S ''js'']), (S ''image/jpeg'', map S [''jpeg'', ''jpg'', ''jpe'']),
      (S ''image/png'', [S ''png'']), (S ''image/x-ico'', [S ''ico'']), (S ''application/octet-stream'', [S ''syx''])]
     (\<lambda>_. None)"

text \<open>What follows the last dot or slash.\<close>

definition extension :: "jstring \<Rightarrow> jstring" where
  "extension path = toLowerCase (rev (takeWhile (\<lambda>c. c \<noteq> 46 \<and> c \<noteq> 47) (rev path)))"

text \<open>
  The types are looked up in a plain object: the two names in lower case that every object
  inherits give something that is not a string.
\<close>

datatype mime = Type jstring | Inherited

definition mime_lookup :: "jstring \<Rightarrow> mime" where
  "mime_lookup path =
     (let ext = extension path
      in case mime_types ext of
           Some ty \<Rightarrow> Type ty
         | None \<Rightarrow>
             if ext = S ''constructor'' \<or> ext = S ''__proto__'' then Inherited
             else Type (S ''application/octet-stream''))"

definition is_binary :: "jstring \<Rightarrow> bool" where
  "is_binary ty \<longleftrightarrow> hd (split_on 47 ty) \<in> set (map S [''image'', ''audio'', ''video'', ''application''])"

section \<open>Files\<close>

text \<open>A body longer than 4096 bytes is written in pieces, one per turn of the event loop.\<close>

function streamIt :: "nat list \<Rightarrow> nat \<Rightarrow> nat list list" where
  "streamIt buf offset =
     (if int (length buf) - int offset > 4096
      then take 4096 (drop offset buf) # streamIt buf (offset + 4096)
      else [drop offset buf])"
  by pat_completeness auto
termination by (relation "measure (\<lambda>(buf, offset). length buf - offset)") auto

declare streamIt.simps [simp del]

lemma streamIt_pieces:
  "concat (streamIt buf offset) = drop offset buf"
  "p \<in> set (streamIt buf offset) \<Longrightarrow> length p \<le> 4096"
proof -
  show "concat (streamIt buf offset) = drop offset buf"
  proof (induction buf offset rule: streamIt.induct)
    case (1 buf offset)
    then show ?case
      by (subst streamIt.simps) (simp add: add.commute [of offset] drop_drop [symmetric] del: drop_drop)
  qed
  show "p \<in> set (streamIt buf offset) \<Longrightarrow> length p \<le> 4096"
  proof (induction buf offset rule: streamIt.induct)
    case (1 buf offset)
    then show ?case by (subst (asm) (2) streamIt.simps) (auto split: if_splits)
  qed
qed

text \<open>
  An answer: the type, the announced length, and the pieces of the body.  A file on disk is
  streamed by the system, here as one piece; a built-in one is sent as bytes, or decoded as text,
  whose length is counted in characters.  \<open>None\<close> is the answer 404; the exception for a type that is
  no string is thrown in a callback of the file system, where nothing catches it.
\<close>

record file_answer =
  fa_type :: jstring
  fa_length :: nat
  fa_pieces :: "nat list list"

definition serve_file ::
  "(nat list \<Rightarrow> jstring) \<Rightarrow> (jstring \<Rightarrow> nat list) \<Rightarrow> disk \<Rightarrow> jstring \<Rightarrow> jstring \<Rightarrow> file_answer option res" where
  "serve_file decode encode dk root pathname =
     (let path = root @ pathname
      in case mime_lookup path of
           Inherited \<Rightarrow> Inl TypeError
         | Type ty \<Rightarrow> Inr
             (case dk_files dk path of
                Some f \<Rightarrow> Some \<lparr>fa_type = ty, fa_length = length f, fa_pieces = [f]\<rparr>
              | None \<Rightarrow>
                  (case dk_data dk (built_in path) of
                     None \<Rightarrow> None
                   | Some f \<Rightarrow>
                       if is_binary ty then
                         (if f = [] then None
                          else Some \<lparr>fa_type = ty, fa_length = length f, fa_pieces = streamIt f 0\<rparr>)
                       else
                         (if decode f = [] then None
                          else Some \<lparr>fa_type = ty, fa_length = length (decode f), fa_pieces = [encode (decode f)]\<rparr>))))"

lemma serve_binary:
  assumes "dk_files dk (root @ pathname) = None" and "dk_data dk (built_in (root @ pathname)) = Some f" and "f \<noteq> []"
    and "mime_lookup (root @ pathname) = Type ty" and "is_binary ty"
  shows "\<exists>a. serve_file decode encode dk root pathname = Inr (Some a) \<and> fa_length a = length f
            \<and> concat (fa_pieces a) = f"
  using assms streamIt_pieces(1) [of f 0] by (simp add: serve_file_def)

text \<open>An address that ends in the name of an inherited property stops the server.\<close>

lemma inherited_type_raises:
  "serve_file decode encode dk root (S ''/x.constructor'') = Inl TypeError"
proof -
  have dot: "S ''/x.constructor'' = [47, 120] @ 46 # S ''constructor''" by code_simp
  have ext: "extension (root @ S ''/x.constructor'') = S ''constructor''"
    unfolding dot extension_def by (simp add: takeWhile_append2) code_simp
  have none: "mime_types (S ''constructor'') = None" by code_simp
  show ?thesis by (simp add: serve_file_def mime_lookup_def ext none)
qed

end
