(* ===== verification/ConfigTypes.thy ===== *)
theory ConfigTypes
  imports Messages
begin

text \<open>
  What a well-typed configuration is, and that it stays one whatever the device sends: the parsers
  of \<open>lexicon.js\<close> that learn from messages are run on arbitrary bytes, cut short or not.
\<close>

section \<open>Well-typed configurations\<close>

definition text_ok :: "jstring \<Rightarrow> bool" where
  "text_ok s \<longleftrightarrow> list_all (\<lambda>c. c < 65536) s"

definition flag_ok :: "int \<Rightarrow> int \<Rightarrow> bool" where
  "flag_ok b v \<longleftrightarrow> v = 0 \<or> v = b"

definition od_ok :: "jnum \<Rightarrow> odesc \<Rightarrow> bool" where
  "od_ok ty od \<longleftrightarrow>
     od_objectType od = ty \<and> text_ok (od_name od) \<and>
     list_all (\<lambda>l. length l = count_of (od_numberOfUnitsOrLimits od))
       [od_minValue od, od_maxValue od, od_displayUnits od] \<and>
     flag_ok 1 (od_patchable od) \<and> flag_ok 2 (od_automation od) \<and> flag_ok 4 (od_isControlLevel od) \<and>
     flag_ok 8 (od_isBottomControlLevel od) \<and> flag_ok 16 (od_usesTemp od) \<and>
     flag_ok 32 (od_wrapping od) \<and> flag_ok 64 (od_softRowAssignable od)"

text \<open>The children of a node are in the order of their keys, each key once.\<close>

fun tree_ok :: "ctree \<Rightarrow> bool" where
  "tree_ok (Node ty label offset ok kids) \<longleftrightarrow>
     pred_option text_ok label \<and> sorted_wrt key_less (map fst kids) \<and> (\<forall>p \<in> set kids. tree_ok (snd p))"

definition config_ok :: "config \<Rightarrow> bool" where
  "config_ok cfg \<longleftrightarrow>
     tree_ok (controlTree cfg) \<and> (\<forall>ty od. objectDescription cfg ty = Some od \<longrightarrow> od_ok ty od)"

section \<open>The tree\<close>

lemma set_kid_keys: "set (map fst (set_kid k t kids)) = insert k (set (map fst kids))"
  by (induction k t kids rule: set_kid.induct) auto

lemma set_kid_kids: "p \<in> set (set_kid k t kids) \<Longrightarrow> p = (k, t) \<or> p \<in> set kids"
  by (induction k t kids rule: set_kid.induct) (auto split: if_splits)

lemma key_less_trans: "key_less a b \<Longrightarrow> key_less b c \<Longrightarrow> key_less a c"
  by (cases a; cases b; cases c) auto

lemma key_less_total: "a \<noteq> b \<Longrightarrow> \<not> key_less a b \<Longrightarrow> key_less b a"
  by (cases a; cases b) auto

lemma set_kid_sorted: "sorted_wrt key_less (map fst kids) \<Longrightarrow> sorted_wrt key_less (map fst (set_kid k t kids))"
proof (induction k t kids rule: set_kid.induct)
  case (2 k t k' t' kids)
  then show ?case
    using set_kid_keys [of k t kids] by (auto intro: key_less_trans dest: key_less_total)
qed simp

lemma tree_ok_simp:
  "tree_ok t \<longleftrightarrow> pred_option text_ok (ct_label t) \<and> sorted_wrt key_less (map fst (ct_kids t)) \<and>
     (\<forall>p \<in> set (ct_kids t). tree_ok (snd p))"
  by (cases t) simp

lemma child_ok: "tree_ok t \<Longrightarrow> child t k = Some c \<Longrightarrow> tree_ok c"
  unfolding child_def by (subst (asm) tree_ok_simp) (fastforce dest: map_of_SomeD)

lemma upd_level_ok:
  "tree_ok t \<Longrightarrow> (\<And>t. tree_ok t \<Longrightarrow> tree_ok (f t)) \<Longrightarrow> tree_ok (upd_level f t n ls)"
proof (induction f t n ls rule: upd_level.induct)
  case (1 f t ls)
  then show ?case by simp
next
  case (2 f t n ls)
  let ?c = "case child t (jhead ls) of None \<Rightarrow> empty_node | Some c \<Rightarrow> c"
  have c: "tree_ok ?c" using 2(2) by (auto simp: empty_node_def split: option.split dest: child_ok)
  have "tree_ok (upd_level f ?c n (tl ls))" by (rule 2(1) [OF refl c 2(3)])
  then show ?case
    using 2(2) [unfolded tree_ok_simp [of t]]
    by (auto simp: set_kids_def Let_def set_kid_sorted dest!: set_kid_kids)
qed

section \<open>The messages\<close>

lemma read_text_ok: "text_ok (fst (read_text buf j stop))"
proof (induction buf j stop rule: read_text.induct)
  case (1 buf j stop)
  have "from_char_code v < 65536" for v
    by (simp add: from_char_code_def nat_less_iff split: option.split)
  then show ?case
    using 1 by (subst read_text.simps) (auto simp: text_ok_def case_prod_beta Let_def)
qed

lemma jand_flag: "flag_ok (2 ^ k) (jand v (2 ^ k))"
proof -
  have "x AND 2 ^ k = of_bool (bit x k) * 2 ^ k" for x :: int
    by (rule bit_eqI) (auto simp: bit_simps)
  then show ?thesis by (simp add: flag_ok_def jand_def)
qed

lemma jand_flags:
  "flag_ok 1 (jand v 1)" "flag_ok 2 (jand v 2)" "flag_ok 4 (jand v 4)" "flag_ok 8 (jand v 8)"
  "flag_ok 16 (jand v 16)" "flag_ok 32 (jand v 32)" "flag_ok 64 (jand v 64)"
  using jand_flag [of 0 v] jand_flag [of 1 v] jand_flag [of 2 v] jand_flag [of 3 v]
    jand_flag [of 4 v] jand_flag [of 5 v] jand_flag [of 6 v] by simp_all

lemma objectDescription_parse_typed:
  "od_ok (rd4 buf 5) (snd (objectDescription_parse cfg buf))"
  "fst (objectDescription_parse cfg buf) =
     cfg\<lparr>objectDescription := (objectDescription cfg)(rd4 buf 5 \<mapsto> snd (objectDescription_parse cfg buf))\<rparr>"
  using read_text_ok [of buf 11 "11 + jshl (rd2 buf 9) 1"]
  by (simp_all add: objectDescription_parse_def Let_def case_prod_beta od_ok_def jand_flags)

text \<open>The messages the configuration is learnt from, and what each of them does to it.\<close>

datatype report =
    Type_report nat "jnum list" "nat list"
  | Label_report bool "nat list"
  | Description_report "nat list"

fun learn :: "config \<Rightarrow> report \<Rightarrow> config" where
  "learn cfg (Type_report n levels buf) = fst (objectTypeId_parse cfg n levels buf)"
| "learn cfg (Label_report short buf) = fst (objectLabel_parse cfg short buf)"
| "learn cfg (Description_report buf) = fst (objectDescription_parse cfg buf)"

lemma learn_ok:
  assumes "config_ok cfg"
  shows "config_ok (learn cfg r)"
proof (cases r)
  case (Type_report n levels buf)
  have "tree_ok (set_type ty t)" if "tree_ok t" for ty t
    using that by (cases t) (simp add: set_type_def)
  then show ?thesis
    using assms by (simp add: Type_report objectTypeId_parse_def config_ok_def Let_def upd_level_ok)
next
  case (Label_report short buf)
  have "tree_ok (set_label l t)" if "tree_ok t" "text_ok l" for l t
    using that by (cases t) (simp add: set_label_def)
  then show ?thesis
    using assms read_text_ok [of buf 5 "5 + jshl (rd buf 5) 1"]
    by (simp add: Label_report objectLabel_parse_def config_ok_def Let_def case_prod_beta upd_level_ok)
next
  case (Description_report buf)
  then show ?thesis
    using assms objectDescription_parse_typed [where buf = buf and cfg = cfg] by (simp add: config_ok_def)
qed

section \<open>Property\<close>

text \<open>
  C5: The configuration stays well typed: whatever object types, labels and descriptions arrive,
  on any bytes, complete or cut short, every stored description stands under its own type, has as
  many minima, maxima and units as it announces and flags that are their bits, every text is made
  of 16-bit units, and the children of every node are in the order of their keys, once each.
\<close>

theorem learned_config_typed:
  assumes "config_ok cfg"
  shows "config_ok (foldl learn cfg rs)"
  using assms by (induction rs arbitrary: cfg) (simp_all add: learn_ok)

theorem learned_config_typed_witness:
  "config_ok (foldl learn sample_config
     [Description_report [0xF0, 6, 15, 0, 4, 7, 0, 0], Label_report False [0xF0, 6],
      Type_report 1 [Some 9] [0xF0, 6, 15, 0, 3, 1, 0, 0, 0, 0xF7]])"
  by (rule learned_config_typed) (auto simp: config_ok_def sample_simps od_ok_def text_ok_def flag_ok_def
      S_def count_of_def split: if_splits)

end
