(* ===== verification/PathNames.thy ===== *)
theory PathNames
  imports JsString
begin

text \<open>
  File names (\<open>src/lib/path.js\<close>, the branch for POSIX): \<open>normalize\<close>, \<open>join\<close>, \<open>resolve\<close>,
  \<open>relative\<close>, and the parts of a name.  The specification walks the name from the root, as the
  file system does: a name enters a directory, two dots leave it.  The current directory is a
  parameter.
\<close>

section \<open>The code\<close>

abbreviation slash :: nat where "slash \<equiv> 47"
abbreviation dot :: jstring where "dot \<equiv> [46]"
abbreviation dots :: jstring where "dots \<equiv> [46, 46]"

text \<open>
  The loop of \<open>normalizeArray\<close> goes from the last part to the first; what is given is the reversed
  list, and what is left of it is returned with the number of parents above it.
\<close>

fun normalize_back :: "jstring list \<Rightarrow> nat \<Rightarrow> jstring list \<times> nat" where
  "normalize_back [] up = ([], up)"
| "normalize_back (part # parts) up =
     (if part = dot then normalize_back parts up
      else if part = dots then normalize_back parts (Suc up)
      else if up > 0 then normalize_back parts (up - 1)
      else (let (r, u) = normalize_back parts up in (part # r, u)))"

definition normalizeArray :: "jstring list \<Rightarrow> bool \<Rightarrow> jstring list" where
  "normalizeArray parts allowAboveRoot =
     (let (r, up) = normalize_back (rev parts) 0
      in (if allowAboveRoot then replicate up dots else []) @ rev r)"

definition name_parts :: "jstring \<Rightarrow> jstring list" where
  "name_parts path = filter (\<lambda>p. p \<noteq> []) (split_on slash path)"

definition is_absolute :: "jstring \<Rightarrow> bool" where
  "is_absolute path \<longleftrightarrow> take 1 path = [slash]"

definition normalize :: "jstring \<Rightarrow> jstring" where
  "normalize path =
     (let isAbsolute = is_absolute path;
          trailingSlash = (path \<noteq> [] \<and> last path = slash);
          p1 = join [slash] (normalizeArray (name_parts path) (\<not> isAbsolute));
          p2 = (if p1 = [] \<and> \<not> isAbsolute then dot else p1);
          p3 = (if p2 \<noteq> [] \<and> trailingSlash then p2 @ [slash] else p2)
      in (if isAbsolute then [slash] else []) @ p3)"

definition path_join :: "jstring list \<Rightarrow> jstring" where
  "path_join paths = normalize (join [slash] (filter (\<lambda>p. p \<noteq> []) paths))"

text \<open>The loop of \<open>resolve\<close> over the arguments from the last to the first, then the current directory.\<close>

fun resolve_loop :: "jstring list \<Rightarrow> jstring \<Rightarrow> bool \<Rightarrow> jstring \<times> bool" where
  "resolve_loop [] resolvedPath resolvedAbsolute = (resolvedPath, resolvedAbsolute)"
| "resolve_loop (path # paths) resolvedPath resolvedAbsolute =
     (if resolvedAbsolute then (resolvedPath, resolvedAbsolute)
      else if path = [] then resolve_loop paths resolvedPath resolvedAbsolute
      else resolve_loop paths (path @ slash # resolvedPath) (is_absolute path))"

definition resolve :: "jstring \<Rightarrow> jstring list \<Rightarrow> jstring" where
  "resolve cwd args =
     (let (resolvedPath, resolvedAbsolute) = resolve_loop (rev args @ [cwd]) [] False;
          p = join [slash] (normalizeArray (name_parts resolvedPath) (\<not> resolvedAbsolute));
          r = (if resolvedAbsolute then [slash] else []) @ p
      in if r = [] then dot else r)"

text \<open>\<open>trim\<close> of \<open>relative\<close>: \<open>arr.slice(start, end - start + 1)\<close>, where the second number is an index.\<close>

definition trim_parts :: "jstring list \<Rightarrow> jstring list" where
  "trim_parts arr =
     (let start = length (takeWhile (\<lambda>p. p = []) arr);
          stop = length arr - length (takeWhile (\<lambda>p. p = []) (rev arr))
      in if start \<ge> stop then [] else drop start (take (stop - start) arr))"

fun same_parts :: "jstring list \<Rightarrow> jstring list \<Rightarrow> nat" where
  "same_parts (a # as) (b # bs) = (if a = b then Suc (same_parts as bs) else 0)"
| "same_parts _ _ = 0"

definition relative :: "jstring \<Rightarrow> jstring \<Rightarrow> jstring \<Rightarrow> jstring" where
  "relative cwd from to =
     (let fromParts = trim_parts (split_on slash (drop 1 (resolve cwd [from])));
          toParts = trim_parts (split_on slash (drop 1 (resolve cwd [to])));
          samePartsLength = same_parts fromParts toParts
      in join [slash]
           (replicate (length fromParts - samePartsLength) dots @ drop samePartsLength toParts))"

text \<open>
  \<open>splitPathRe\<close>: the root; the longest text that ends in a slash which is neither its first
  character nor the last of the name, or a slash; and the rest, in which an extension is the last
  dot and what follows it, unless the dot is the first character.
\<close>

definition split_dir :: "jstring \<Rightarrow> jstring \<times> jstring" where
  "split_dir s =
     (let ends = filter (\<lambda>i. s ! (i - 1) = slash) [2..<length s]
      in if ends \<noteq> [] then (take (last ends) s, drop (last ends) s)
         else if is_absolute s then ([slash], drop 1 s) else ([], s))"

definition split_ext :: "jstring \<Rightarrow> jstring" where
  "split_ext t =
     (if t = dot \<or> t = dots then []
      else case filter (\<lambda>j. t ! j = 46 \<and> list_all (\<lambda>c. c \<noteq> 46 \<and> c \<noteq> slash) (drop (Suc j) t)) [1..<length t] of
             [] \<Rightarrow> [] | j # _ \<Rightarrow> drop j t)"

definition splitPath :: "jstring \<Rightarrow> jstring \<times> jstring \<times> jstring \<times> jstring" where
  "splitPath path =
     (let root = (if is_absolute path then [slash] else []);
          (dir, base) = split_dir (drop (length root) path)
      in (root, dir, base, split_ext base))"

definition dirname :: "jstring \<Rightarrow> jstring" where
  "dirname path =
     (case splitPath path of (root, dir, _, _) \<Rightarrow>
        if root = [] \<and> dir = [] then dot else root @ butlast dir)"

definition basename :: "jstring \<Rightarrow> jstring \<Rightarrow> jstring" where
  "basename path ext =
     (case splitPath path of (_, _, f, _) \<Rightarrow>
        if ext \<noteq> [] \<and> drop (length f - length ext) f = ext then take (length f - length ext) f else f)"

definition extname :: "jstring \<Rightarrow> jstring" where
  "extname path = snd (snd (snd (splitPath path)))"

section \<open>Walking a name\<close>

text \<open>
  Where a walk stands: the directories entered, the last one first, and how often it left the place
  where it started.
\<close>

type_synonym place = "jstring list \<times> nat"

fun walk1 :: "jstring \<Rightarrow> place \<Rightarrow> place" where
  "walk1 p (names, k) =
     (if p = dot then (names, k)
      else if p = dots then (case names of [] \<Rightarrow> ([], Suc k) | _ # ns \<Rightarrow> (ns, k))
      else (p # names, k))"

definition walk_from :: "place \<Rightarrow> jstring list \<Rightarrow> place" where
  "walk_from pl parts = fold walk1 parts pl"

lemma walk_from_simps [simp]:
  "walk_from pl [] = pl" "walk_from pl (p # ps) = walk_from (walk1 p pl) ps"
  "walk_from pl (ps @ qs) = walk_from (walk_from pl ps) qs"
  by (simp_all add: walk_from_def)

lemma normalize_back_walk:
  "walk_from ([], 0) parts = (names, k) \<Longrightarrow>
   normalize_back (rev parts) up = (drop up names, k + (up - length names))"
proof (induction parts arbitrary: names k up rule: rev_induct)
  case (snoc p parts)
  obtain ns j where w: "walk_from ([], 0) parts = (ns, j)" by fastforce
  show ?case
    using snoc.prems snoc.IH [OF w] w
    by (cases ns; cases up) (auto split: if_splits)
qed simp

lemma normalizeArray_walk:
  "walk_from ([], 0) parts = (names, k) \<Longrightarrow>
   normalizeArray parts allow = (if allow then replicate k dots else []) @ rev names"
  using normalize_back_walk [of parts names k 0] by (simp add: normalizeArray_def)

section \<open>Parts\<close>

definition good_part :: "jstring \<Rightarrow> bool" where
  "good_part p \<longleftrightarrow> p \<noteq> [] \<and> slash \<notin> set p"

definition plain_part :: "jstring \<Rightarrow> bool" where
  "plain_part p \<longleftrightarrow> good_part p \<and> p \<noteq> dot \<and> p \<noteq> dots"

lemma good_dots [simp]: "good_part dots" "good_part dot" "good_part []  \<longleftrightarrow> False"
  by (simp_all add: good_part_def)

lemma plain_good: "plain_part p \<Longrightarrow> good_part p"
  by (simp add: plain_part_def)

lemma split_on_app: "split_on d (a @ d # b) = split_on d a @ split_on d b"
proof (induction a)
  case (Cons c a)
  then show ?case by (cases "split_on d a") (auto split: list.splits)
qed simp

lemma name_parts_app: "name_parts (a @ slash # b) = name_parts a @ name_parts b"
  by (simp add: name_parts_def split_on_app)

lemma name_parts_Nil [simp]: "name_parts [] = []"
  by (simp add: name_parts_def)

lemma name_parts_slash: "name_parts (slash # b) = name_parts b" "name_parts (a @ [slash]) = name_parts a"
  using name_parts_app [of "[]" b] name_parts_app [of a "[]"] by simp_all

lemma name_parts_good: "list_all good_part (name_parts p)"
  using split_on_no_sep [of _ slash p] by (auto simp: name_parts_def list_all_iff good_part_def)

lemma name_parts_join: "list_all good_part ps \<Longrightarrow> name_parts (join [slash] ps) = ps"
proof (cases "ps = []")
  case False
  assume "list_all good_part ps"
  then show ?thesis
    using split_on_join [OF False, of slash]
    by (auto simp: name_parts_def list_all_iff good_part_def filter_id_conv)
qed simp

lemma name_parts_single: "good_part p \<Longrightarrow> name_parts p = [p]"
  using name_parts_join [of "[p]"] by simp

lemma join_ends:
  assumes "list_all good_part ps" and "ps \<noteq> []"
  shows "join [slash] ps \<noteq> []" "hd (join [slash] ps) \<noteq> slash" "last (join [slash] ps) \<noteq> slash"
proof -
  have "join [slash] ps \<noteq> [] \<and> hd (join [slash] ps) \<noteq> slash \<and> last (join [slash] ps) \<noteq> slash"
    using assms
  proof (induction "[slash]" ps rule: join.induct)
    case (2 p)
    then show ?case by (auto simp: good_part_def dest: hd_in_set last_in_set)
  next
    case (3 p q ps)
    then show ?case by (auto simp: good_part_def dest: hd_in_set)
  qed simp
  then show "join [slash] ps \<noteq> []" "hd (join [slash] ps) \<noteq> slash" "last (join [slash] ps) \<noteq> slash" by auto
qed

lemma is_absolute_simps [simp]:
  "is_absolute (slash # s)" "\<not> is_absolute []" "\<not> is_absolute (46 # s)"
  by (simp_all add: is_absolute_def)

lemma is_absolute_app: "a \<noteq> [] \<Longrightarrow> is_absolute (a @ b) = is_absolute a"
  by (cases a) (simp_all add: is_absolute_def)

lemma is_absolute_join: "list_all good_part ps \<Longrightarrow> \<not> is_absolute (join [slash] ps)"
  using join_ends [of ps] by (cases "ps = []"; cases "join [slash] ps") (auto simp: is_absolute_def)

section \<open>Where a walk ends\<close>

lemma walk_plain:
  "list_all good_part parts \<Longrightarrow> list_all plain_part (fst pl) \<Longrightarrow> list_all plain_part (fst (walk_from pl parts))"
proof (induction parts arbitrary: pl)
  case (Cons p parts)
  obtain names k where pl: "pl = (names, k)" by fastforce
  have "list_all plain_part (fst (walk1 p pl))"
    using Cons.prems by (cases names) (auto simp: pl plain_part_def list_all_iff)
  then show ?case using Cons by simp
qed simp

lemma walk_names: "list_all plain_part ns \<Longrightarrow> walk_from (names, k) ns = (rev ns @ names, k)"
  by (induction ns arbitrary: names) (auto simp: plain_part_def)

lemma walk_up: "walk_from (names, k) (replicate n dots) = (drop n names, k + (n - length names))"
proof (induction n arbitrary: names k)
  case (Suc n)
  then show ?case by (cases names) simp_all
qed simp

definition walked :: "jstring \<Rightarrow> place" where
  "walked path = walk_from ([], 0) (name_parts path)"

lemma walked_plain: "list_all plain_part (fst (walked path))"
  unfolding walked_def by (rule walk_plain [OF name_parts_good]) simp

definition place_parts :: "bool \<Rightarrow> place \<Rightarrow> jstring list" where
  "place_parts allow pl = (if allow then replicate (snd pl) dots else []) @ rev (fst pl)"

lemma place_parts_good: "list_all plain_part (fst pl) \<Longrightarrow> list_all good_part (place_parts allow pl)"
  by (auto simp: place_parts_def list_all_iff plain_good)

lemma normalizeArray_walked: "normalizeArray (name_parts path) allow = place_parts allow (walked path)"
  using normalizeArray_walk [of "name_parts path" "fst (walked path)" "snd (walked path)" allow]
  by (simp add: walked_def place_parts_def)

lemma walk_place:
  "list_all plain_part (fst pl) \<Longrightarrow>
   walk_from ([], 0) (place_parts allow pl) = (fst pl, if allow then snd pl else 0)"
  by (cases pl) (auto simp: place_parts_def walk_up walk_names)

text \<open>The shape of a normalised name.\<close>

definition normal_parts :: "jstring \<Rightarrow> jstring list" where
  "normal_parts path = place_parts (\<not> is_absolute path) (walked path)"

lemma normal_parts_good: "list_all good_part (normal_parts path)"
  unfolding normal_parts_def by (rule place_parts_good [OF walked_plain])

lemma normalize_shape:
  "normalize path =
     (let t = (if path \<noteq> [] \<and> last path = slash then [slash] else [])
      in if is_absolute path then slash # (if normal_parts path = [] then [] else join [slash] (normal_parts path) @ t)
         else (if normal_parts path = [] then dot else join [slash] (normal_parts path)) @ t)"
proof -
  have a: "normalizeArray (name_parts path) (\<not> is_absolute path) = normal_parts path"
    by (simp add: normalizeArray_walked normal_parts_def)
  have n: "join [slash] (normal_parts path) = [] \<longleftrightarrow> normal_parts path = []"
    using join_ends(1) [OF normal_parts_good] by auto
  show ?thesis unfolding normalize_def Let_def a by (simp add: n)
qed

lemma normalize_parts:
  "is_absolute (normalize path) = is_absolute path"
  "name_parts (normalize path) =
     (if normal_parts path = [] \<and> \<not> is_absolute path then [dot] else normal_parts path)"
  "path \<noteq> [] \<Longrightarrow> \<not> (is_absolute path \<and> normal_parts path = []) \<Longrightarrow>
     (last (normalize path) = slash) = (last path = slash)"
proof -
  note g = normal_parts_good [of path]
  note e = join_ends [OF g]
  show "is_absolute (normalize path) = is_absolute path"
    using is_absolute_join [OF g] e(1)
    by (auto simp: normalize_shape Let_def is_absolute_app)
  show "name_parts (normalize path) =
     (if normal_parts path = [] \<and> \<not> is_absolute path then [dot] else normal_parts path)"
    using name_parts_join [OF g] name_parts_single [of dot] name_parts_slash name_parts_slash(2) [of dot]
    by (auto simp: normalize_shape Let_def)
  show "path \<noteq> [] \<Longrightarrow> \<not> (is_absolute path \<and> normal_parts path = []) \<Longrightarrow>
     (last (normalize path) = slash) = (last path = slash)"
    using e by (auto simp: normalize_shape Let_def)
qed

lemma normalize_not_empty: "normalize path \<noteq> []"
  using join_ends(1) [OF normal_parts_good [of path]] by (auto simp: normalize_shape Let_def)

lemma normal_parts_again: "normal_parts (normalize path) = normal_parts path"
proof -
  have "walk_from ([], 0) (normal_parts path) =
      (fst (walked path), if is_absolute path then 0 else snd (walked path))"
    unfolding normal_parts_def by (simp add: walk_place [OF walked_plain])
  then show ?thesis
    by (auto simp: normal_parts_def [of "normalize path"] walked_def [of "normalize path"] normalize_parts(1,2)
        normal_parts_def [of path] place_parts_def)
qed

text \<open>Joining the parts of a name below a directory stays below it.\<close>

lemma resolve_loop_absolute: "resolve_loop ps r True = (r, True)"
  by (cases ps) simp_all

lemma resolve_walk:
  assumes "is_absolute cwd"
  shows "resolve cwd [path] = slash # join [slash]
    (rev (fst (walk_from ([], 0) (if is_absolute path then name_parts path else name_parts cwd @ name_parts path))))"
proof -
  have c: "cwd \<noteq> []" using assms by auto
  have r: "resolve cwd [path] = slash # join [slash] (normalizeArray (name_parts q) False)"
    if "resolve_loop [path, cwd] [] False = (q, True)" for q
    using that by (simp add: resolve_def)
  define q where "q = (if path = [] then cwd @ [slash] else if is_absolute path then path @ [slash]
      else cwd @ slash # path @ [slash])"
  have "resolve_loop [path, cwd] [] False = (q, True)"
    using assms c by (auto simp: q_def)
  note r = r [OF this]
  have p: "name_parts q = (if is_absolute path then name_parts path else name_parts cwd @ name_parts path)"
    by (auto simp: q_def name_parts_app name_parts_slash)
  show ?thesis
    unfolding r normalizeArray_walked by (simp add: place_parts_def walked_def p)
qed

lemma resolve_relative_walk:
  assumes "is_absolute cwd" and "\<not> is_absolute path"
  shows "resolve cwd [from, path] = slash # join [slash]
    (rev (fst (walk_from (walk_from ([], 0)
       (if is_absolute from then name_parts from else name_parts cwd @ name_parts from)) (name_parts path))))"
proof -
  have c: "cwd \<noteq> []" using assms by auto
  define tail where "tail = (if path = [] then [] else path @ [slash])"
  define q where "q = (if from = [] then cwd @ slash # tail else if is_absolute from then from @ slash # tail
      else cwd @ slash # from @ slash # tail)"
  have "resolve_loop [path, from, cwd] [] False = (q, True)"
    using assms c by (auto simp: q_def tail_def)
  then have r: "resolve cwd [from, path] = slash # join [slash] (normalizeArray (name_parts q) False)"
    by (simp add: resolve_def)
  have t: "name_parts tail = name_parts path" by (simp add: tail_def name_parts_slash)
  have "name_parts q = (if is_absolute from then name_parts from else name_parts cwd @ name_parts from) @ name_parts path"
    by (auto simp: q_def name_parts_app t)
  then show ?thesis
    unfolding r normalizeArray_walked by (simp add: place_parts_def walked_def)
qed

section \<open>Relative names\<close>

lemma same_parts_take: "take (same_parts as bs) as = take (same_parts as bs) bs"
  "same_parts as bs \<le> length as" "same_parts as bs \<le> length bs"
  by (induction as bs rule: same_parts.induct) auto

lemma trim_good: "list_all good_part ps \<Longrightarrow> trim_parts (split_on slash (join [slash] ps)) = ps"
proof (cases "ps = []")
  case False
  assume g: "list_all good_part ps"
  then have "split_on slash (join [slash] ps) = ps"
    using split_on_join [OF False, of slash] by (auto simp: list_all_iff good_part_def)
  moreover have "takeWhile (\<lambda>p. p = []) ps = []" "takeWhile (\<lambda>p. p = []) (rev ps) = []"
    using g False by (auto simp: takeWhile_eq_Nil_iff list_all_iff good_part_def hd_rev)
  ultimately show ?thesis using False by (simp add: trim_parts_def)
qed (simp add: trim_parts_def)

section \<open>Properties\<close>

text \<open>
  \<open>normalizeArray\<close>, which goes from the last part to the first and counts the parents to drop,
  gives what a walk from the first part to the last gives: the directories it is in, after as many
  parents as it left its start by.
\<close>

theorem normalizeArray_is_walk:
  "normalizeArray parts allow =
     (let (names, k) = walk_from ([], 0) parts in (if allow then replicate k dots else []) @ rev names)"
  by (cases "walk_from ([], 0) parts") (simp add: normalizeArray_walk)

text \<open>
  A normalised name is normal: normalising it again changes nothing, and the parts of an absolute
  one are names, so that no two dots are left that could leave a directory it is put below.
\<close>

theorem normalize_normal:
  "normalize (normalize path) = normalize path \<and>
   list_all (\<lambda>p. p \<noteq> dots) (name_parts (normalize (slash # path)))"
proof
  let ?q = "normalize path"
  have l: "(last ?q = slash) = (last path = slash)" if "path \<noteq> []" "\<not> (is_absolute path \<and> normal_parts path = [])"
    using normalize_parts(3) [OF that] .
  show "normalize ?q = ?q"
  proof (cases "path = [] \<or> is_absolute path \<and> normal_parts path = []")
    case True
    have "normalize [] = dot" "normalize dot = dot" by code_simp+
    moreover have "normalize [slash] = [slash]" by code_simp
    moreover have "?q = [slash]" if "is_absolute path" "normal_parts path = []"
      using that by (simp add: normalize_shape Let_def)
    ultimately show ?thesis using True by auto
  next
    case False
    then show ?thesis
      using l normalize_not_empty [of path]
      by (simp add: normalize_shape [of ?q] normalize_parts(1) normal_parts_again)
        (auto simp: normalize_shape [of path] Let_def)
  qed
  have "list_all plain_part (normal_parts (slash # path))"
    using walked_plain [of "slash # path"] by (simp add: normal_parts_def place_parts_def)
  then show "list_all (\<lambda>p. p \<noteq> dots) (name_parts (normalize (slash # path)))"
    by (auto simp: normalize_parts(2) list_all_iff plain_part_def)
qed

text \<open>
  C29: A relative name leads where it says: from an absolute current directory, resolving
  \<open>relative(from, to)\<close> from \<open>from\<close> gives what \<open>to\<close> resolves to.
\<close>

theorem relative_resolves:
  assumes "is_absolute cwd"
  shows "resolve cwd [from, relative cwd from to] = resolve cwd [to]"
proof -
  define base where "base x = (if is_absolute x then name_parts x else name_parts cwd @ name_parts x)" for x
  define ns where "ns x = rev (fst (walk_from ([], 0) (base x)))" for x
  have plain: "list_all plain_part (ns x)" for x
  proof -
    have "list_all good_part (base x)" using name_parts_good by (simp add: base_def)
    from walk_plain [OF this, of "([], 0)"] show ?thesis by (simp add: ns_def)
  qed
  then have good: "list_all good_part (ns x)" for x by (auto simp: list_all_iff plain_good)
  have res: "resolve cwd [x] = slash # join [slash] (ns x)" for x
    by (simp add: resolve_walk [OF assms] ns_def base_def)
  let ?n = "same_parts (ns from) (ns to)"
  let ?r = "replicate (length (ns from) - ?n) dots @ drop ?n (ns to)"
  have rel: "relative cwd from to = join [slash] ?r"
    by (simp add: relative_def res trim_good [OF good] Let_def)
  have g: "list_all good_part ?r"
    using good [of to] by (auto simp: list_all_iff dest: in_set_dropD)
  obtain k where w: "walk_from ([], 0) (base from) = (rev (ns from), k)"
    by (cases "walk_from ([], 0) (base from)") (simp add: ns_def)
  have "walk_from (walk_from ([], 0) (base from)) ?r = (rev (ns to), k)"
  proof -
    have "drop (length (ns from) - ?n) (rev (ns from)) = rev (take ?n (ns from))"
      using same_parts_take(2) [of "ns from" "ns to"] by (simp add: rev_take)
    moreover have "list_all plain_part (drop ?n (ns to))"
      using plain [of to] by (auto simp: list_all_iff dest: in_set_dropD)
    moreover have "rev (drop ?n (ns to)) @ rev (take ?n (ns from)) = rev (ns to)"
      unfolding same_parts_take(1) [of "ns from" "ns to"]
      by (simp only: rev_append [symmetric] append_take_drop_id)
    ultimately show ?thesis by (simp add: w walk_up walk_names)
  qed
  then show ?thesis
    unfolding rel resolve_relative_walk [OF assms is_absolute_join [OF g]] res
    by (simp add: name_parts_join [OF g] flip: base_def)
qed

theorem relative_resolves_witness:
  "resolve (S ''/home/user'') [S ''www'', relative (S ''/home/user'') (S ''www'') (S ''../lib/mpx.syx'')] =
     resolve (S ''/home/user'') [S ''../lib/mpx.syx'']"
  by (rule relative_resolves) code_simp

text \<open>The parts \<open>splitPath\<close> finds make up the name.\<close>

lemma split_dir_app: "split_dir s = (d, b) \<Longrightarrow> d @ b = s"
  by (cases s) (auto simp: split_dir_def is_absolute_def Let_def split: if_splits)

lemma splitPath_app: "splitPath path = (root, dir, base, ext) \<Longrightarrow> root @ dir @ base = path"
  using split_dir_app
  by (cases path) (auto simp: splitPath_def is_absolute_def Let_def split: if_splits prod.splits)

lemma extname_suffix: "\<exists>stem. basename path [] = stem @ extname path"
proof -
  have "\<exists>stem. t = stem @ split_ext t" for t
    by (auto simp: split_ext_def split: list.splits intro: exI [of _ "take j t" for j] append_take_drop_id [symmetric])
  then show ?thesis by (auto simp: basename_def extname_def splitPath_def split: prod.splits)
qed

lemma path_examples:
  "path_join [S ''./www'', S ''..'', S ''lib/'', [], S ''mpx.syx''] = S ''lib/mpx.syx''"
  "dirname (S ''/www/man/page-1.jpg'') = S ''/www/man''" "basename (S ''/www/man/page-1.jpg'') (S ''.jpg'') = S ''page-1''"
  "extname (S ''/www/man/page-1.jpg'') = S ''.jpg''" "extname (S ''.bashrc'') = []" "dirname (S ''a'') = dot"
  "normalize (S ''/../../etc//./passwd'') = S ''/etc/passwd''"
  by code_simp+

end
