(* ===== verification/LinkList.thy ===== *)
theory LinkList
  imports Main
begin

text \<open>
  The idle lists (\<open>src/lib/_linklist.js\<close>): rings of objects linked through \<open>_idleNext\<close> and
  \<open>_idlePrev\<close>, in which the object that stands for the list is one of the ring.  Objects are named
  by numbers, an absent or \<open>null\<close> link is \<open>None\<close>.  The specification is a queue: the item that has
  been idle longest is its head.
\<close>

section \<open>The code\<close>

record links =
  idleNext :: "nat \<Rightarrow> nat option"
  idlePrev :: "nat \<Rightarrow> nat option"

definition set_next :: "nat \<Rightarrow> nat option \<Rightarrow> links \<Rightarrow> links" where
  "set_next x v h = h\<lparr>idleNext := (idleNext h)(x := v)\<rparr>"

definition set_prev :: "nat \<Rightarrow> nat option \<Rightarrow> links \<Rightarrow> links" where
  "set_prev x v h = h\<lparr>idlePrev := (idlePrev h)(x := v)\<rparr>"

definition list_init :: "nat \<Rightarrow> links \<Rightarrow> links" where
  "list_init l h = set_prev l (Some l) (set_next l (Some l) h)"

definition list_peek :: "nat \<Rightarrow> links \<Rightarrow> nat option" where
  "list_peek l h = (if idlePrev h l = Some l then None else idlePrev h l)"

definition list_remove :: "nat \<Rightarrow> links \<Rightarrow> links" where
  "list_remove item h =
     (let h1 = (case idleNext h item of None \<Rightarrow> h | Some n \<Rightarrow> set_prev n (idlePrev h item) h);
          h2 = (case idlePrev h1 item of None \<Rightarrow> h1 | Some p \<Rightarrow> set_next p (idleNext h1 item) h1)
      in set_prev item None (set_next item None h2))"

text \<open>\<open>shift\<close> on a list without links would raise a \<open>TypeError\<close>; the second \<open>None\<close>.\<close>

definition list_shift :: "nat \<Rightarrow> links \<Rightarrow> (nat \<times> links) option" where
  "list_shift l h = map_option (\<lambda>first. (first, list_remove first h)) (idlePrev h l)"

definition list_append :: "nat \<Rightarrow> nat \<Rightarrow> links \<Rightarrow> links option" where
  "list_append l item h =
     (let h1 = list_remove item h; h2 = set_next item (idleNext h1 l) h1
      in case idleNext h2 l of
           None \<Rightarrow> None
         | Some n \<Rightarrow> Some (set_next l (Some item) (set_prev item (Some l) (set_prev n (Some item) h2))))"

definition list_isEmpty :: "nat \<Rightarrow> links \<Rightarrow> bool" where
  "list_isEmpty l h \<longleftrightarrow> idleNext h l = Some l"

section \<open>Rings\<close>

text \<open>Consecutive objects of a list are linked, the later one being the \<open>_idlePrev\<close> of the earlier.\<close>

fun linked :: "links \<Rightarrow> nat list \<Rightarrow> bool" where
  "linked h (a # b # r) \<longleftrightarrow> idlePrev h a = Some b \<and> idleNext h b = Some a \<and> linked h (b # r)"
| "linked h _ = True"

definition ring :: "links \<Rightarrow> nat \<Rightarrow> nat list \<Rightarrow> bool" where
  "ring h l q \<longleftrightarrow> distinct (l # q) \<and> linked h (l # q @ [l])"

lemma linked_app: "linked h (xs @ a # ys) \<longleftrightarrow> linked h (xs @ [a]) \<and> linked h (a # ys)"
  by (induction h xs rule: linked.induct) (auto simp: neq_Nil_conv)

lemma linked_snoc: "linked h (xs @ [a, b]) \<longleftrightarrow> linked h (xs @ [a]) \<and> idlePrev h a = Some b \<and> idleNext h b = Some a"
  using linked_app [of h xs a "[b]"] by simp

text \<open>The links a run depends on: the previous of all but the last, the next of all but the first.\<close>

lemma linked_cong:
  "\<forall>x \<in> set (butlast xs). idlePrev h' x = idlePrev h x \<Longrightarrow> \<forall>x \<in> set (tl xs). idleNext h' x = idleNext h x \<Longrightarrow>
   linked h' xs = linked h xs"
proof (induction h xs rule: linked.induct)
  case (1 h a b r)
  then show ?case by (cases r) auto
qed auto

lemma ring_Nil: "ring h l [] \<longleftrightarrow> idlePrev h l = Some l \<and> idleNext h l = Some l"
  by (simp add: ring_def)

lemma ring_peek: "ring h l q \<Longrightarrow> list_peek l h = (case q of [] \<Rightarrow> None | x # _ \<Rightarrow> Some x)"
  by (auto simp: ring_def list_peek_def split: list.splits)

lemma ring_isEmpty: "ring h l q \<Longrightarrow> list_isEmpty l h \<longleftrightarrow> q = []"
  by (cases q rule: rev_cases) (auto simp: ring_def list_isEmpty_def linked_app [of h "l # _" _ "[_]", simplified])

lemma ring_init: "ring (list_init l h) l []"
  by (simp add: ring_Nil list_init_def set_prev_def set_next_def)

lemma filter_notin: "x \<notin> set xs \<Longrightarrow> filter (\<lambda>y. y \<noteq> x) xs = xs"
  by (induction xs) auto

lemma in_tl: "x \<in> set (tl xs) \<Longrightarrow> x \<in> set xs"
  by (cases xs) auto

lemmas link_simps = set_prev_def set_next_def

text \<open>Taking an object out of a run closes the gap.\<close>

lemma remove_linked:
  assumes "linked h (as @ [p, x, n] @ bs)" and "distinct (as @ [p])" and "distinct (n # bs)"
    and "x \<notin> set (as @ [p])" and "x \<notin> set (n # bs)"
    and "n \<notin> set (tl (as @ [p]))" and "p \<notin> set (butlast (n # bs))"
  shows "linked (list_remove x h) (as @ [p, n] @ bs)"
    and "list_remove x h = set_prev x None (set_next x None (set_next n (Some p) (set_prev p (Some n) h)))"
proof -
  have l: "linked h (as @ [p])" "idlePrev h p = Some x" "idleNext h x = Some p"
    "idlePrev h x = Some n" "idleNext h n = Some x" "linked h (n # bs)"
    using assms(1) linked_app [of h as p "x # n # bs"] by auto
  show r: "list_remove x h = set_prev x None (set_next x None (set_next n (Some p) (set_prev p (Some n) h)))"
    using l assms(4,5) by (auto simp: list_remove_def link_simps)
  have "linked (list_remove x h) (as @ [p])"
    using l(1) assms(2,4,6) unfolding r
    by (subst linked_cong [where h = h]) (auto simp: link_simps dest: in_tl)
  moreover have "linked (list_remove x h) (n # bs)"
    using l(6) assms(3,5,7) unfolding r
    by (subst linked_cong [where h = h]) (auto simp: link_simps dest: in_set_butlastD)
  moreover have "idlePrev (list_remove x h) p = Some n" "idleNext (list_remove x h) n = Some p"
    using assms(4,5) by (auto simp: r link_simps)
  ultimately show "linked (list_remove x h) (as @ [p, n] @ bs)"
    using linked_app [of "list_remove x h" as p "n # bs"] by simp
qed

text \<open>The neighbours of an item of a ring.\<close>

lemma ring_split:
  assumes "ring h l (a @ x # b)"
  obtains as p n bs where "l # a = as @ [p]" "b @ [l] = n # bs" "linked h (as @ [p, x, n] @ bs)"
    "idleNext h x = Some p" "idlePrev h x = Some n"
proof -
  obtain as p where p: "l # a = as @ [p]" by (metis list.distinct(1) rev_exhaust)
  obtain n bs where n: "b @ [l] = n # bs" by (cases "b @ [l]") auto
  have "linked h ((l # a) @ x # (b @ [l]))" using assms by (simp add: ring_def)
  then have l: "linked h (as @ [p, x, n] @ bs)" by (simp add: p n)
  then have "idleNext h x = Some p" "idlePrev h x = Some n"
    using linked_app [of h as p "x # n # bs"] by auto
  then show ?thesis using that p n l by blast
qed

lemma ring_remove:
  assumes "ring h l (a @ x # b)"
  shows "ring (list_remove x h) l (a @ b)"
    and "y \<notin> set (l # a @ x # b) \<Longrightarrow> idleNext (list_remove x h) y = idleNext h y \<and> idlePrev (list_remove x h) y = idlePrev h y"
    and "idleNext (list_remove x h) x = None \<and> idlePrev (list_remove x h) x = None"
proof -
  have d: "distinct (l # a @ x # b)" using assms by (simp add: ring_def)
  obtain as p n bs where s: "l # a = as @ [p]" "b @ [l] = n # bs" "linked h (as @ [p, x, n] @ bs)"
    by (rule ring_split [OF assms])
  have t: "tl (as @ [p]) = a" "butlast (n # bs) = b" unfolding s(1,2) [symmetric] by simp_all
  have m: "p \<in> set (l # a)" "n \<in> set (b @ [l])" unfolding s by simp_all
  have 1: "distinct (as @ [p])" "distinct (n # bs)" "x \<notin> set (as @ [p])" "x \<notin> set (n # bs)"
    "n \<notin> set (tl (as @ [p]))" "p \<notin> set (butlast (n # bs))"
    unfolding t unfolding s(1,2) [symmetric] using d m by auto
  note r = remove_linked [OF s(3) 1]
  have "linked (list_remove x h) ((as @ [p]) @ (n # bs))" using r(1) by simp
  then show "ring (list_remove x h) l (a @ b)"
    unfolding s(1,2) [symmetric] using d by (simp add: ring_def)
  show "y \<notin> set (l # a @ x # b) \<Longrightarrow> idleNext (list_remove x h) y = idleNext h y \<and> idlePrev (list_remove x h) y = idlePrev h y"
    using m unfolding r(2) by (auto simp: link_simps)
  show "idleNext (list_remove x h) x = None \<and> idlePrev (list_remove x h) x = None"
    unfolding r(2) by (simp add: link_simps)
qed

definition loose :: "links \<Rightarrow> nat \<Rightarrow> bool" where
  "loose h x \<longleftrightarrow> (idleNext h x = None \<and> idlePrev h x = None) \<or> (idleNext h x = Some x \<and> idlePrev h x = Some x)"

lemma remove_loose:
  assumes "loose h x"
  shows "list_remove x h = set_prev x None (set_next x None h)"
  using assms by (auto simp: loose_def list_remove_def link_simps)

lemma ring_insert:
  assumes "ring h l q" and "x \<notin> set (l # q)" and "idleNext h x = None" and "idlePrev h x = None"
  obtains h' where "list_append l x h = Some h'" "ring h' l (q @ [x])"
    "\<And>y. y \<notin> set (l # x # q) \<Longrightarrow> idleNext h' y = idleNext h y \<and> idlePrev h' y = idlePrev h y"
proof -
  have d: "distinct (l # q)" and l: "linked h ((l # q) @ [l])" using assms(1) by (simp_all add: ring_def)
  obtain as p where p: "l # q = as @ [p]" by (metis list.distinct(1) rev_exhaust)
  have q: "tl (as @ [p]) = q" unfolding p [symmetric] by simp
  have pq: "p \<in> set (l # q)" unfolding p by simp
  have m: "distinct (as @ [p])" "x \<notin> set (as @ [p])" "set (as @ [p]) = insert l (set q)"
    unfolding p [symmetric] using d assms(2) by simp_all
  have ll: "linked h (as @ [p])" "idlePrev h p = Some l" "idleNext h l = Some p"
    using l linked_snoc [of h as p l] unfolding p by simp_all
  have r: "list_remove x h = h"
    using assms(3,4) by (simp add: list_remove_def link_simps fun_upd_idem)
  have xl: "x \<noteq> l" using assms(2) by simp
  define h' where "h' = set_next l (Some x) (set_prev x (Some l) (set_prev p (Some x) (set_next x (Some p) h)))"
  have a: "list_append l x h = Some h'"
    using ll(3) xl by (simp add: list_append_def r Let_def h'_def link_simps)
  have "linked h' (as @ [p])"
    using ll(1) m d xl assms(2) unfolding q [symmetric]
    by (subst linked_cong [where h = h]) (auto simp: h'_def link_simps q dest: in_tl)
  moreover have "idlePrev h' p = Some x" "idleNext h' x = Some p" "idlePrev h' x = Some l" "idleNext h' l = Some x"
    using m xl by (auto simp: h'_def link_simps)
  ultimately have "linked h' ((l # q) @ [x] @ [l])"
    unfolding p using linked_app [of h' as p "[x, l]"] by simp
  then have "ring h' l (q @ [x])" using d assms(2) by (simp add: ring_def)
  moreover have "idleNext h' y = idleNext h y \<and> idlePrev h' y = idlePrev h y" if "y \<notin> set (l # x # q)" for y
    using that pq by (auto simp: h'_def link_simps)
  ultimately show ?thesis using that a by blast
qed

lemma ring_frame:
  assumes "ring h l q" and "\<And>y. y \<in> set (l # q) \<Longrightarrow> idleNext h' y = idleNext h y \<and> idlePrev h' y = idlePrev h y"
  shows "ring h' l q"
proof -
  have "linked h' (l # q @ [l]) = linked h (l # q @ [l])"
    using assms(2) by (intro linked_cong) (auto dest!: in_set_butlastD)
  then show ?thesis using assms(1) by (simp add: ring_def)
qed

section \<open>All lists\<close>

text \<open>
  The lists that share the objects: each is a ring, no object is in two of them, and an object in
  none of them has no links or is linked to itself.
\<close>

type_synonym queues = "nat \<Rightarrow> nat list option"

definition objects :: "queues \<Rightarrow> nat set" where
  "objects Q = {x. \<exists>l q. Q l = Some q \<and> x \<in> set (l # q)}"

definition lists_on :: "links \<Rightarrow> queues \<Rightarrow> bool" where
  "lists_on h Q \<longleftrightarrow>
     (\<forall>l q. Q l = Some q \<longrightarrow> ring h l q) \<and>
     (\<forall>l l' q q'. Q l = Some q \<and> Q l' = Some q' \<and> l \<noteq> l' \<longrightarrow> set (l # q) \<inter> set (l' # q') = {}) \<and>
     (\<forall>x. x \<notin> objects Q \<longrightarrow> loose h x)"

text \<open>The specification of the operations.\<close>

definition q_remove :: "nat \<Rightarrow> queues \<Rightarrow> queues" where
  "q_remove x Q = (\<lambda>l. map_option (filter (\<lambda>y. y \<noteq> x)) (Q l))"

definition q_append :: "nat \<Rightarrow> nat \<Rightarrow> queues \<Rightarrow> queues" where
  "q_append l x Q = (let Q' = q_remove x Q in Q'(l := map_option (\<lambda>q. q @ [x]) (Q' l)))"

lemma lists_onD:
  assumes "lists_on h Q"
  shows "Q l = Some q \<Longrightarrow> ring h l q"
    "Q l = Some q \<Longrightarrow> Q l' = Some q' \<Longrightarrow> x \<in> set (l # q) \<Longrightarrow> x \<in> set (l' # q') \<Longrightarrow> l = l'"
    "x \<notin> objects Q \<Longrightarrow> loose h x"
  using assms unfolding lists_on_def by blast+

lemma lists_onI:
  assumes "\<And>l q. Q l = Some q \<Longrightarrow> ring h l q"
    and "\<And>l l' q q' x. Q l = Some q \<Longrightarrow> Q l' = Some q' \<Longrightarrow> x \<in> set (l # q) \<Longrightarrow> x \<in> set (l' # q') \<Longrightarrow> l = l'"
    and "\<And>x. x \<notin> objects Q \<Longrightarrow> loose h x"
  shows "lists_on h Q"
  using assms unfolding lists_on_def disjoint_iff by blast

lemma objectsI: "Q l = Some q \<Longrightarrow> x \<in> set (l # q) \<Longrightarrow> x \<in> objects Q"
  unfolding objects_def by blast

lemma objects_remove: "Q x = None \<Longrightarrow> objects (q_remove x Q) = objects Q - {x}"
  by (fastforce simp: objects_def q_remove_def)

lemma remove_refines:
  assumes L: "lists_on h Q" and x: "Q x = None"
  shows "lists_on (list_remove x h) (q_remove x Q)"
    and "idleNext (list_remove x h) x = None" "idlePrev (list_remove x h) x = None"
proof -
  have loosen: "loose (list_remove x h) y"
    if "y \<notin> objects Q - {x}" "\<And>y. y \<notin> objects Q \<Longrightarrow> y \<noteq> x \<Longrightarrow>
        idleNext (list_remove x h) y = idleNext h y \<and> idlePrev (list_remove x h) y = idlePrev h y"
      "idleNext (list_remove x h) x = None \<and> idlePrev (list_remove x h) x = None" for y
    using that lists_onD(3) [OF L, of y] by (cases "y = x") (auto simp: loose_def)
  have disj: "l = l'"
    if e: "q_remove x Q l = Some q" "q_remove x Q l' = Some q'" and y: "y \<in> set (l # q)" "y \<in> set (l' # q')"
    for l l' q q' y
  proof -
    obtain p p' where p: "Q l = Some p" "Q l' = Some p'" "set q \<subseteq> set p" "set q' \<subseteq> set p'"
      using e by (auto simp: q_remove_def)
    then show ?thesis using y by (intro lists_onD(2) [OF L p(1,2), of y]) auto
  qed
  have "lists_on (list_remove x h) (q_remove x Q) \<and>
      idleNext (list_remove x h) x = None \<and> idlePrev (list_remove x h) x = None"
  proof (cases "x \<in> objects Q")
    case False
    then have l: "loose h x" by (rule lists_onD(3) [OF L])
    have r: "q_remove x Q = Q"
    proof
      fix l
      show "q_remove x Q l = Q l"
        using False objectsI [of Q l] by (cases "Q l") (auto simp: q_remove_def filter_id_conv)
    qed
    have same: "idleNext (list_remove x h) y = idleNext h y \<and> idlePrev (list_remove x h) y = idlePrev h y"
      if "y \<noteq> x" for y using that by (simp add: remove_loose [OF l] link_simps)
    have none: "idleNext (list_remove x h) x = None \<and> idlePrev (list_remove x h) x = None"
      by (simp add: remove_loose [OF l] link_simps)
    have "lists_on (list_remove x h) Q"
    proof (rule lists_onI)
      show "ring (list_remove x h) l q" if q: "Q l = Some q" for l q
        using False objectsI [of Q, OF q] by (intro ring_frame [OF lists_onD(1) [OF L q]] same) blast
      show "loose (list_remove x h) y" if "y \<notin> objects Q" for y
        using that same none by (intro loosen) auto
    qed (rule lists_onD(2) [OF L])
    then show ?thesis using r none by simp
  next
    case True
    then obtain l q where q: "Q l = Some q" "x \<in> set q" using x unfolding objects_def by fastforce
    obtain a b where ab: "q = a @ x # b" using q(2) by (meson split_list)
    note r = ring_remove [OF lists_onD(1) [OF L q(1), unfolded ab]]
    have same: "idleNext (list_remove x h) y = idleNext h y \<and> idlePrev (list_remove x h) y = idlePrev h y"
      if "y \<notin> set (l # q)" for y using that r(2) by (simp add: ab)
    have "lists_on (list_remove x h) (q_remove x Q)"
    proof (rule lists_onI)
      fix l' q' assume l': "q_remove x Q l' = Some q'"
      then obtain p where p: "Q l' = Some p" "q' = filter (\<lambda>y. y \<noteq> x) p" by (auto simp: q_remove_def)
      show "ring (list_remove x h) l' q'"
      proof (cases "l' = l")
        case True
        then have "distinct (l # a @ x # b)" "p = a @ x # b"
          using lists_onD(1) [OF L q(1)] p(1) q(1) by (auto simp: ab ring_def)
        then have "q' = a @ b" using p(2) by (simp add: filter_notin)
        then show ?thesis using r(1) True by simp
      next
        case False
        have n: "y \<notin> set (l # q)" if "y \<in> set (l' # p)" for y
          using lists_onD(2) [OF L p(1) q(1) that] False by blast
        then have "x \<notin> set p" using q(2) by auto
        then have "q' = p" using p(2) by (auto simp: filter_id_conv)
        then show ?thesis using n same by (intro ring_frame [OF lists_onD(1) [OF L, of l' q']]) (auto simp: p(1))
      qed
    next
      fix y assume "y \<notin> objects (q_remove x Q)"
      then show "loose (list_remove x h) y"
        using same r(3) objectsI [of Q, OF q(1)] by (intro loosen) (auto simp: objects_remove [of Q x, OF x])
    qed (rule disj)
    then show ?thesis using r(3) by simp
  qed
  then show "lists_on (list_remove x h) (q_remove x Q)" "idleNext (list_remove x h) x = None"
    "idlePrev (list_remove x h) x = None" by blast+
qed

lemma append_refines:
  assumes L: "lists_on h Q" and x: "Q x = None" and l: "Q l \<noteq> None"
  obtains h' where "list_append l x h = Some h'" "lists_on h' (q_append l x Q)"
proof -
  let ?h = "list_remove x h" and ?Q = "q_remove x Q"
  note r = remove_refines [OF L x]
  obtain q where q: "?Q l = Some q" using l by (auto simp: q_remove_def)
  have lx: "l \<noteq> x" using l x by auto
  have out: "x \<notin> objects ?Q" by (simp add: objects_remove [of Q x, OF x])
  then have xq: "x \<notin> set (l # q)" using objectsI [of ?Q, OF q] by blast
  obtain h' where h': "list_append l x ?h = Some h'" "ring h' l (q @ [x])"
    and same: "\<And>y. y \<notin> set (l # x # q) \<Longrightarrow> idleNext h' y = idleNext ?h y \<and> idlePrev h' y = idlePrev ?h y"
    using ring_insert [OF lists_onD(1) [OF r(1) q] xq r(2,3)] by blast
  have "list_remove x ?h = ?h" using r(2,3) by (simp add: list_remove_def link_simps fun_upd_idem)
  then have a: "list_append l x h = Some h'" using h'(1) by (simp add: list_append_def)
  have Q': "q_append l x Q = ?Q(l \<mapsto> q @ [x])" using q by (simp add: q_append_def Let_def)
  have disj: False
    if e: "l' \<noteq> l" "?Q l' = Some q'" and y: "y \<in> set (l' # q')" "y \<in> set (l # q @ [x])" for l' q' y
  proof (cases "y = x")
    case True
    then show ?thesis using objectsI [of ?Q, OF e(2)] y(1) out by blast
  next
    case False
    then show ?thesis using lists_onD(2) [OF r(1) e(2) q y(1)] y(2) e(1) by auto
  qed
  have "lists_on h' (?Q(l \<mapsto> q @ [x]))"
  proof (rule lists_onI)
    fix l' q' assume q': "(?Q(l \<mapsto> q @ [x])) l' = Some q'"
    show "ring h' l' q'"
    proof (cases "l' = l")
      case False
      then have "?Q l' = Some q'" using q' by simp
      then show ?thesis using disj [OF False] by (intro ring_frame [OF lists_onD(1) [OF r(1)]] same) auto
    qed (use q' h' in simp)
  next
    fix l1 l2 q1 q2 y
    assume "(?Q(l \<mapsto> q @ [x])) l1 = Some q1" "(?Q(l \<mapsto> q @ [x])) l2 = Some q2"
      "y \<in> set (l1 # q1)" "y \<in> set (l2 # q2)"
    then show "l1 = l2"
      using disj lists_onD(2) [OF r(1)] by (auto simp del: set_simps split: if_splits)
  next
    fix y assume y: "y \<notin> objects (?Q(l \<mapsto> q @ [x]))"
    have "y \<notin> set (l # x # q)"
      using y objectsI [of "?Q(l \<mapsto> q @ [x])" l "q @ [x]" y] by auto
    moreover have "y \<notin> objects ?Q"
    proof
      assume "y \<in> objects ?Q"
      then obtain l' q' where l': "?Q l' = Some q'" "y \<in> set (l' # q')" by (auto simp: objects_def)
      then show False using y calculation q objectsI [of "?Q(l \<mapsto> q @ [x])" l' q' y] by (cases "l' = l") auto
    qed
    ultimately show "loose h' y" using lists_onD(3) [OF r(1), of y] same [of y] by (simp add: loose_def)
  qed
  then show ?thesis using that a unfolding Q' by blast
qed

lemma objects_dom: "objects Q = (\<Union>l \<in> dom Q. set (l # the (Q l)))"
  by (force simp: objects_def dom_def)

lemma objects_new:
  assumes "Q x = None"
  shows "objects (Q(x \<mapsto> [])) = insert x (objects Q)"
proof -
  have "(\<Union>l \<in> dom Q. set (l # the ((Q(x \<mapsto> [])) l))) = (\<Union>l \<in> dom Q. set (l # the (Q l)))"
    by (rule SUP_cong) (use assms in auto)
  then show ?thesis by (simp add: objects_dom [where Q = "Q(x \<mapsto> [])"] objects_dom [where Q = Q])
qed

lemma objects_closed:
  assumes "Q l = Some []"
  shows "objects Q = insert l (objects (Q(l := None)))"
proof -
  have "(Q(l := None))(l \<mapsto> []) = Q" using assms by (simp add: fun_upd_idem)
  then show ?thesis using objects_new [where Q = "Q(l := None)" and x = l] by simp
qed

lemma init_refines:
  assumes L: "lists_on h Q" and x: "x \<notin> objects Q"
  shows "lists_on (list_init x h) Q" "lists_on (list_init x h) (Q(x \<mapsto> []))"
proof -
  have same: "idleNext (list_init x h) y = idleNext h y \<and> idlePrev (list_init x h) y = idlePrev h y" if "y \<noteq> x" for y
    using that by (simp add: list_init_def link_simps)
  have rings: "ring (list_init x h) l q" if q: "Q l = Some q" for l q
    using x objectsI [of Q, OF q] by (intro ring_frame [OF lists_onD(1) [OF L q]] same) blast
  have none: "loose (list_init x h) y" if "y \<notin> objects Q" for y
    using same [of y] lists_onD(3) [OF L that] by (cases "y = x") (auto simp: loose_def list_init_def link_simps)
  show "lists_on (list_init x h) Q" by (rule lists_onI [OF rings lists_onD(2) [OF L] none])
  have Qx: "Q x = None" using x objectsI [of Q x _ x] by (cases "Q x") auto
  have sub: "objects Q \<subseteq> objects (Q(x \<mapsto> []))" by (simp add: objects_new [where Q = Q, OF Qx] subset_insertI)
  show "lists_on (list_init x h) (Q(x \<mapsto> []))"
  proof (rule lists_onI)
    show "ring (list_init x h) l q" if "(Q(x \<mapsto> [])) l = Some q" for l q
      using that rings ring_init by (auto split: if_splits)
    fix l1 l2 q1 q2 y
    assume q: "(Q(x \<mapsto> [])) l1 = Some q1" "(Q(x \<mapsto> [])) l2 = Some q2"
      and y: "y \<in> set (l1 # q1)" "y \<in> set (l2 # q2)"
    have in1: "y \<in> objects Q" if "l1 \<noteq> x" using that q(1) y(1) objectsI [where Q = Q] by (simp del: set_simps)
    have in2: "y \<in> objects Q" if "l2 \<noteq> x" using that q(2) y(2) objectsI [where Q = Q] by (simp del: set_simps)
    consider "l1 = x" "l2 = x" | "l1 = x" "l2 \<noteq> x" | "l1 \<noteq> x" "l2 = x" | "l1 \<noteq> x" "l2 \<noteq> x" by blast
    then show "l1 = l2"
    proof cases
      case 2
      then have "y = x" using q(1) y(1) by simp
      then show ?thesis using in2 [OF 2(2)] x by simp
    next
      case 3
      then have "y = x" using q(2) y(2) by simp
      then show ?thesis using in1 [OF 3(1)] x by simp
    next
      case 4
      then show ?thesis using lists_onD(2) [OF L _ _ y] q by simp
    qed simp
  next
    show "loose (list_init x h) y" if "y \<notin> objects (Q(x \<mapsto> []))" for y using that sub none by blast
  qed
qed

lemma close_refines:
  assumes L: "lists_on h Q" and l: "Q l = Some []"
  shows "lists_on h (Q(l := None))"
proof (rule lists_onI)
  show "ring h l' q" if "(Q(l := None)) l' = Some q" for l' q
    using that lists_onD(1) [OF L] by (auto split: if_splits)
  show "l1 = l2" if "(Q(l := None)) l1 = Some q1" "(Q(l := None)) l2 = Some q2"
    "y \<in> set (l1 # q1)" "y \<in> set (l2 # q2)" for l1 l2 q1 q2 y
    using that(1,2) lists_onD(2) [OF L _ _ that(3,4)] by (auto simp del: set_simps split: if_splits)
  show "loose h y" if "y \<notin> objects (Q(l := None))" for y
  proof (cases "y = l")
    case True
    then show ?thesis using lists_onD(1) [OF L l] by (simp add: ring_Nil loose_def)
  next
    case False
    then show ?thesis using that lists_onD(3) [OF L] by (simp add: objects_closed [where Q = Q, OF l])
  qed
qed

section \<open>Runs of operations\<close>

text \<open>
  A run of operations on a store, each with a result, and when it stops at an error.  The locale
  carries a simulation of single operations to runs.
\<close>

fun run_ops :: "('o \<Rightarrow> 'c \<Rightarrow> ('r \<times> 'c) option) \<Rightarrow> 'o list \<Rightarrow> 'c \<Rightarrow> ('r list \<times> 'c) option" where
  "run_ops step [] c = Some ([], c)"
| "run_ops step (op # ops) c =
     (case step op c of
        None \<Rightarrow> None
      | Some (r, c') \<Rightarrow> map_option (\<lambda>(rs, c''). (r # rs, c'')) (run_ops step ops c'))"

fun spec_ops :: "('o \<Rightarrow> 'a \<Rightarrow> 'r \<times> 'a) \<Rightarrow> 'o list \<Rightarrow> 'a \<Rightarrow> 'r list \<times> 'a" where
  "spec_ops step [] a = ([], a)"
| "spec_ops step (op # ops) a =
     (let (r, a') = step op a; (rs, a'') = spec_ops step ops a' in (r # rs, a''))"

fun ops_ok :: "('o \<Rightarrow> 'a \<Rightarrow> bool) \<Rightarrow> ('o \<Rightarrow> 'a \<Rightarrow> 'r \<times> 'a) \<Rightarrow> 'o list \<Rightarrow> 'a \<Rightarrow> bool" where
  "ops_ok ok step [] a = True"
| "ops_ok ok step (op # ops) a \<longleftrightarrow> ok op a \<and> ops_ok ok step ops (snd (step op a))"

locale op_refinement =
  fixes step :: "'o \<Rightarrow> 'c \<Rightarrow> ('r \<times> 'c) option"
    and spec :: "'o \<Rightarrow> 'a \<Rightarrow> 'r \<times> 'a"
    and rep :: "'c \<Rightarrow> 'a \<Rightarrow> bool"
    and ok :: "'o \<Rightarrow> 'a \<Rightarrow> bool"
  assumes simulated: "rep c a \<Longrightarrow> ok op a \<Longrightarrow> \<exists>c'. step op c = Some (fst (spec op a), c') \<and> rep c' (snd (spec op a))"
begin

lemma run_refines:
  "rep c a \<Longrightarrow> ops_ok ok spec ops a \<Longrightarrow>
   \<exists>c'. run_ops step ops c = Some (fst (spec_ops spec ops a), c') \<and> rep c' (snd (spec_ops spec ops a))"
proof (induction ops arbitrary: c a)
  case (Cons op ops)
  obtain c' where c': "step op c = Some (fst (spec op a), c')" "rep c' (snd (spec op a))"
    using simulated [OF Cons.prems(1), of op] Cons.prems(2) by auto
  then obtain c'' where "run_ops step ops c' = Some (fst (spec_ops spec ops (snd (spec op a))), c'')"
    "rep c'' (snd (spec_ops spec ops (snd (spec op a))))"
    using Cons.IH [OF c'(2)] Cons.prems(2) by auto
  then show ?case using c'(1) by (simp add: case_prod_beta Let_def)
qed simp

end

text \<open>
  The operations the timers use: \<open>Create\<close> makes an object a list, \<open>Detach\<close> links an object to itself.
\<close>

datatype list_op = Create nat | Detach nat | Append nat nat | Remove nat | Shift nat | Peek nat | Empty nat

fun list_step :: "list_op \<Rightarrow> links \<Rightarrow> (nat option \<times> links) option" where
  "list_step (Create l) h = Some (None, list_init l h)"
| "list_step (Detach x) h = Some (None, list_init x h)"
| "list_step (Append l x) h = map_option (Pair None) (list_append l x h)"
| "list_step (Remove x) h = Some (None, list_remove x h)"
| "list_step (Shift l) h = map_option (\<lambda>(x, h'). (Some x, h')) (list_shift l h)"
| "list_step (Peek l) h = Some (list_peek l h, h)"
| "list_step (Empty l) h = Some (if list_isEmpty l h then Some 1 else None, h)"

fun queue_step :: "list_op \<Rightarrow> queues \<Rightarrow> nat option \<times> queues" where
  "queue_step (Create l) Q = (None, Q(l \<mapsto> []))"
| "queue_step (Detach x) Q = (None, Q)"
| "queue_step (Append l x) Q = (None, q_append l x Q)"
| "queue_step (Remove x) Q = (None, q_remove x Q)"
| "queue_step (Shift l) Q = (Some (hd (the (Q l))), q_remove (hd (the (Q l))) Q)"
| "queue_step (Peek l) Q = (case the (Q l) of [] \<Rightarrow> None | x # _ \<Rightarrow> Some x, Q)"
| "queue_step (Empty l) Q = (if the (Q l) = [] then Some 1 else None, Q)"

fun list_op_ok :: "list_op \<Rightarrow> queues \<Rightarrow> bool" where
  "list_op_ok (Create l) Q \<longleftrightarrow> l \<notin> objects Q"
| "list_op_ok (Detach x) Q \<longleftrightarrow> x \<notin> objects Q"
| "list_op_ok (Append l x) Q \<longleftrightarrow> Q l \<noteq> None \<and> Q x = None"
| "list_op_ok (Remove x) Q \<longleftrightarrow> Q x = None"
| "list_op_ok (Shift l) Q \<longleftrightarrow> Q l \<noteq> None \<and> Q l \<noteq> Some []"
| "list_op_ok (Peek l) Q \<longleftrightarrow> Q l \<noteq> None"
| "list_op_ok (Empty l) Q \<longleftrightarrow> Q l \<noteq> None"

lemma shift_refines:
  assumes L: "lists_on h Q" and l: "Q l = Some (x # q)"
  shows "list_shift l h = Some (x, list_remove x h)" "Q x = None"
proof -
  have r: "ring h l (x # q)" by (rule lists_onD(1) [OF L l])
  then show "list_shift l h = Some (x, list_remove x h)" by (simp add: list_shift_def ring_def)
  have "x \<noteq> l" using r by (auto simp: ring_def)
  then show "Q x = None" using lists_onD(2) [OF L l, of x _ x] by (cases "Q x") auto
qed

interpretation lists: op_refinement list_step queue_step lists_on list_op_ok
proof
  fix h Q op
  assume L: "lists_on h Q" and ok: "list_op_ok op Q"
  show "\<exists>h'. list_step op h = Some (fst (queue_step op Q), h') \<and> lists_on h' (snd (queue_step op Q))"
  proof (cases op)
    case (Append l x)
    then show ?thesis using append_refines [OF L, of x l] ok by auto
  next
    case (Shift l)
    then obtain x q where q: "Q l = Some (x # q)" using ok by (auto simp: neq_Nil_conv)
    then show ?thesis using Shift shift_refines [OF L q] remove_refines(1) [OF L] by simp
  next
    case (Peek l)
    then obtain q where q: "Q l = Some q" using ok by auto
    then show ?thesis using Peek L ring_peek [OF lists_onD(1) [OF L q]] by simp
  next
    case (Empty l)
    then obtain q where q: "Q l = Some q" using ok by auto
    then show ?thesis using Empty L ring_isEmpty [OF lists_onD(1) [OF L q]] by simp
  qed (use ok init_refines [OF L] remove_refines(1) [OF L] L in auto)
qed

section \<open>Property\<close>

definition no_links :: links where
  "no_links = \<lparr>idleNext = \<lambda>_. None, idlePrev = \<lambda>_. None\<rparr>"



end
