(* ===== verification/Timers.thy ===== *)
theory Timers
  imports LinkList JsString
begin

text \<open>
  The timers of the program (\<open>src/lib/timers.js\<close>): \<open>setTimeout\<close>, \<open>setInterval\<close> and the idle
  timeouts of sockets.  Timers of one duration share a list and one native watcher, which is started
  for the item that has been idle longest.  Objects are named by numbers; what a callback does is a
  parameter, the list of the calls it makes; the system lets time pass and fires any watcher that is
  active, at any time.
\<close>

section \<open>State\<close>

text \<open>
  A native watcher that is started: for a list of one duration, for one timer or for an interval, with
  the delay it was started with.  \<open>onTimeout\<close> says that the callback of an object is set, \<open>native\<close> that
  it is a native \<open>Timer\<close>.  Two fields observe: \<open>held\<close> says which objects the program was given,
  which excludes the lists, and \<open>calls\<close> records the calls of callbacks, with the start and the duration the
  object had and the time.  Durations are whole milliseconds or \<open>NaN\<close>.
\<close>

datatype watcher = For_list int | For_timer | For_interval

record timer_state =
  tm_links :: links
  idleStart :: "nat \<Rightarrow> int"
  idleTimeout :: "nat \<Rightarrow> jnum"
  onTimeout :: "nat \<Rightarrow> bool"
  native :: "nat \<Rightarrow> bool"
  duration_lists :: "int \<Rightarrow> nat option"
  watchers :: "nat \<Rightarrow> (watcher \<times> int) option"
  next_obj :: nat
  tm_clock :: int
  held :: "nat \<Rightarrow> bool"
  calls :: "(nat \<times> int \<times> jnum \<times> int) list"

definition timers_init :: timer_state where
  "timers_init =
     \<lparr>tm_links = no_links, idleStart = \<lambda>_. 0, idleTimeout = \<lambda>_. None, onTimeout = \<lambda>_. False,
      native = \<lambda>_. False, duration_lists = \<lambda>_. None, watchers = \<lambda>_. None, next_obj = 0, tm_clock = 0, held = \<lambda>_. False,
      calls = []\<rparr>"

section \<open>The functions\<close>

definition start_watcher :: "nat \<Rightarrow> watcher \<Rightarrow> int \<Rightarrow> timer_state \<Rightarrow> timer_state" where
  "start_watcher w k delay s = s\<lparr>watchers := (watchers s)(w \<mapsto> (k, delay))\<rparr>"

definition close_watcher :: "nat \<Rightarrow> timer_state \<Rightarrow> timer_state" where
  "close_watcher w s = s\<lparr>watchers := (watchers s)(w := None)\<rparr>"

definition new_timer :: "timer_state \<Rightarrow> nat \<times> timer_state" where
  "new_timer s = (next_obj s, s\<lparr>native := (native s)(next_obj s := True), next_obj := Suc (next_obj s)\<rparr>)"

text \<open>\<open>None\<close> is an exception, here and below.\<close>

definition timer_append :: "nat \<Rightarrow> nat \<Rightarrow> timer_state \<Rightarrow> timer_state option" where
  "timer_append l item s = map_option (\<lambda>h. s\<lparr>tm_links := h\<rparr>) (list_append l item (tm_links s))"

definition list_for :: "int \<Rightarrow> timer_state \<Rightarrow> nat \<times> timer_state" where
  "list_for msecs s =
     (case duration_lists s msecs of
        Some l \<Rightarrow> (l, s)
      | None \<Rightarrow>
          (let (l, s1) = new_timer s;
               s2 = start_watcher l (For_list msecs) msecs s1
           in (l, s2\<lparr>tm_links := list_init l (tm_links s2),
                     duration_lists := (duration_lists s2)(msecs \<mapsto> l)\<rparr>)))"

definition timer_insert :: "nat \<Rightarrow> int \<Rightarrow> timer_state \<Rightarrow> timer_state option" where
  "timer_insert item msecs s =
     (let s1 = s\<lparr>idleStart := (idleStart s)(item := tm_clock s), idleTimeout := (idleTimeout s)(item := Some msecs)\<rparr>
      in if msecs < 0 then Some s1
         else (let (l, s2) = list_for msecs s1 in timer_append l item s2))"

definition unenroll :: "nat \<Rightarrow> timer_state \<Rightarrow> timer_state" where
  "unenroll item s =
     (let s1 = s\<lparr>tm_links := list_remove item (tm_links s)\<rparr>;
          s2 = (case Option.bind (idleTimeout s1 item) (\<lambda>m. map_option (Pair m) (duration_lists s1 m)) of
                  None \<Rightarrow> s1
                | Some (m, l) \<Rightarrow>
                    if list_isEmpty l (tm_links s1)
                    then (close_watcher l s1)\<lparr>duration_lists := (duration_lists s1)(m := None)\<rparr> else s1)
      in s2\<lparr>idleTimeout := (idleTimeout s2)(item := Some (- 1))\<rparr>)"

definition enroll :: "nat \<Rightarrow> jnum \<Rightarrow> timer_state \<Rightarrow> timer_state" where
  "enroll item msecs s =
     (let s1 = (if idleNext (tm_links s) item \<noteq> None then unenroll item s else s)
      in s1\<lparr>idleTimeout := (idleTimeout s1)(item := msecs), tm_links := list_init item (tm_links s1)\<rparr>)"

definition timer_active :: "nat \<Rightarrow> timer_state \<Rightarrow> timer_state option" where
  "timer_active item s =
     (case idleTimeout s item of
        None \<Rightarrow> Some s
      | Some msecs \<Rightarrow>
          if msecs < 0 then Some s
          else
            (case duration_lists s msecs of
               None \<Rightarrow> timer_insert item msecs s
             | Some l \<Rightarrow>
                 if list_isEmpty l (tm_links s) then timer_insert item msecs s
                 else timer_append l item (s\<lparr>idleStart := (idleStart s)(item := tm_clock s)\<rparr>)))"

definition setTimeout :: "jnum \<Rightarrow> timer_state \<Rightarrow> timer_state option" where
  "setTimeout after s =
     (if (case after of None \<Rightarrow> False | Some a \<Rightarrow> a \<le> 0) then
        (let (t, s1) = new_timer s
         in Some (start_watcher t For_timer 0
              (s1\<lparr>onTimeout := (onTimeout s1)(t := True), held := (held s1)(t := True)\<rparr>)))
      else
        (let t = next_obj s
         in timer_active t
              (s\<lparr>next_obj := Suc t, idleTimeout := (idleTimeout s)(t := after),
                 tm_links := list_init t (tm_links s), onTimeout := (onTimeout s)(t := True),
                 held := (held s)(t := True)\<rparr>)))"

definition clearTimeout :: "nat \<Rightarrow> timer_state \<Rightarrow> timer_state" where
  "clearTimeout t s =
     (if onTimeout s t then
        (let s1 = s\<lparr>onTimeout := (onTimeout s)(t := False)\<rparr>
         in if native s t then close_watcher t s1 else unenroll t s1)
      else s)"

definition setInterval :: "jnum \<Rightarrow> timer_state \<Rightarrow> timer_state" where
  "setInterval repeat s =
     (let (t, s1) = new_timer s
      in start_watcher t For_interval (case repeat of None \<Rightarrow> 0 | Some r \<Rightarrow> r)
           (s1\<lparr>onTimeout := (onTimeout s1)(t := True), held := (held s1)(t := True)\<rparr>))"

definition clearInterval :: "nat \<Rightarrow> timer_state \<Rightarrow> timer_state" where
  "clearInterval t s =
     (if native s t then close_watcher t (s\<lparr>onTimeout := (onTimeout s)(t := False)\<rparr>) else s)"

section \<open>Calls\<close>

text \<open>
  What a program does with timers: the calls above, and letting time pass.  \<open>Make_object\<close> makes an
  object with a callback that can be enrolled, as a socket is.
\<close>

datatype timer_call =
    Set_timeout jnum | Clear_timeout nat | Set_interval jnum | Clear_interval nat
  | Make_object | Enroll nat jnum | Unenroll nat | Active nat | Wait nat

fun timer_call_step :: "timer_call \<Rightarrow> timer_state \<Rightarrow> timer_state option" where
  "timer_call_step (Set_timeout a) s = setTimeout a s"
| "timer_call_step (Clear_timeout t) s = Some (clearTimeout t s)"
| "timer_call_step (Set_interval r) s = Some (setInterval r s)"
| "timer_call_step (Clear_interval t) s = Some (clearInterval t s)"
| "timer_call_step Make_object s =
     Some (s\<lparr>next_obj := Suc (next_obj s), onTimeout := (onTimeout s)(next_obj s := True),
             held := (held s)(next_obj s := True)\<rparr>)"
| "timer_call_step (Enroll x m) s = Some (enroll x m s)"
| "timer_call_step (Unenroll x) s = Some (unenroll x s)"
| "timer_call_step (Active x) s = timer_active x s"
| "timer_call_step (Wait d) s = Some (s\<lparr>tm_clock := tm_clock s + int d\<rparr>)"

fun timer_calls_run :: "timer_call list \<Rightarrow> timer_state \<Rightarrow> timer_state option" where
  "timer_calls_run [] s = Some s"
| "timer_calls_run (c # cs) s = Option.bind (timer_call_step c s) (timer_calls_run cs)"

section \<open>Firing\<close>

type_synonym behaviour = "timer_state \<Rightarrow> nat \<Rightarrow> timer_call list"

definition call_back :: "behaviour \<Rightarrow> nat \<Rightarrow> timer_state \<Rightarrow> timer_state option" where
  "call_back behave t s =
     (let s1 = s\<lparr>calls := calls s @ [(t, idleStart s t, idleTimeout s t, tm_clock s)]\<rparr>
      in timer_calls_run (behave s1 t) s1)"

text \<open>
  \<open>ontimeout\<close> of a list: \<open>now\<close> is read once.  The fuel bounds the number of items taken from the list,
  which callbacks may put items on.
\<close>

fun list_loop :: "behaviour \<Rightarrow> nat \<Rightarrow> nat \<Rightarrow> int \<Rightarrow> int \<Rightarrow> timer_state \<Rightarrow> timer_state option" where
  "list_loop behave 0 l msecs now s = None"
| "list_loop behave (Suc fuel) l msecs now s =
     (case list_peek l (tm_links s) of
        None \<Rightarrow> Some ((close_watcher l s)\<lparr>duration_lists := (duration_lists s)(msecs := None)\<rparr>)
      | Some first \<Rightarrow>
          let diff = now - idleStart s first in
          if diff + 1 < msecs then Some (start_watcher l (For_list msecs) (msecs - diff) s)
          else
            (let s1 = s\<lparr>tm_links := list_remove first (tm_links s)\<rparr>
             in if \<not> onTimeout s1 first then list_loop behave fuel l msecs now s1
                else Option.bind (call_back behave first s1) (list_loop behave fuel l msecs now)))"

definition fire_watcher :: "behaviour \<Rightarrow> nat \<Rightarrow> nat \<Rightarrow> timer_state \<Rightarrow> timer_state option" where
  "fire_watcher behave fuel w s =
     (case watchers s w of
        None \<Rightarrow> None
      | Some (For_list msecs, _) \<Rightarrow> list_loop behave fuel w msecs (tm_clock s) (close_watcher w s)
      | Some (For_timer, _) \<Rightarrow> map_option (close_watcher w) (call_back behave w (close_watcher w s))
      | Some (For_interval, _) \<Rightarrow> call_back behave w s)"

section \<open>The invariant\<close>

text \<open>
  A program uses only objects it was given (the lists, which are native timers too, are not given
  to it), and does not enroll a native timer, which has a timeout of its own.
\<close>

fun call_ok :: "timer_call \<Rightarrow> timer_state \<Rightarrow> bool" where
  "call_ok (Clear_timeout t) s = held s t"
| "call_ok (Clear_interval t) s = held s t"
| "call_ok (Enroll x m) s \<longleftrightarrow> held s x \<and> \<not> native s x"
| "call_ok (Unenroll x) s = held s x"
| "call_ok (Active x) s = held s x"
| "call_ok _ s = True"

fun calls_ok :: "timer_call list \<Rightarrow> timer_state \<Rightarrow> bool" where
  "calls_ok [] s = True"
| "calls_ok (c # cs) s \<longleftrightarrow> call_ok c s \<and> (case timer_call_step c s of None \<Rightarrow> True | Some s' \<Rightarrow> calls_ok cs s')"

text \<open>
  The lists hold queues \<open>qs\<close> of items, each for one duration \<open>K\<close>, sorted by the time the items were
  started at.  Every list has an active watcher, but for the list \<open>cur\<close> whose watcher fired.
\<close>

definition tinv :: "queues \<Rightarrow> (nat \<Rightarrow> int option) \<Rightarrow> nat option \<Rightarrow> timer_state \<Rightarrow> bool" where
  "tinv qs K cur s \<longleftrightarrow>
     lists_on (tm_links s) qs \<and> dom K = dom qs \<and> (\<forall>c. cur = Some c \<longrightarrow> K c \<noteq> None) \<and>
     (\<forall>x. x \<in> objects qs \<or> native s x \<or> onTimeout s x \<or> held s x \<longrightarrow> x < next_obj s) \<and>
     (\<forall>l m. K l = Some m \<longrightarrow> \<not> held s l \<and> 0 \<le> m \<and> (cur \<noteq> Some l \<longrightarrow> (\<exists>d. watchers s l = Some (For_list m, d)))) \<and>
     (\<forall>w k d. watchers s w = Some (k, d) \<longrightarrow> native s w) \<and>
     (\<forall>w m d. watchers s w = Some (For_list m, d) \<longrightarrow> K w = Some m \<and> cur \<noteq> Some w) \<and>
     (\<forall>w k d. watchers s w = Some (k, d) \<longrightarrow> k = For_timer \<or> k = For_interval \<longrightarrow> onTimeout s w \<and> held s w) \<and>
     (\<forall>m l. duration_lists s m = Some l \<longrightarrow> K l = Some m) \<and>
     (\<forall>l q. qs l = Some q \<longrightarrow> sorted (map (idleStart s) q) \<and>
        (\<forall>x \<in> set q. idleTimeout s x = K l \<and> idleStart s x \<le> tm_clock s))"

lemma tinvD:
  assumes "tinv qs K cur s"
  shows "lists_on (tm_links s) qs" "dom K = dom qs"
    "x \<in> objects qs \<or> native s x \<or> onTimeout s x \<or> held s x \<Longrightarrow> x < next_obj s"
    "K l = Some m \<Longrightarrow> \<not> held s l" "K l = Some m \<Longrightarrow> 0 \<le> m"
    "K l = Some m \<Longrightarrow> cur \<noteq> Some l \<Longrightarrow> \<exists>d. watchers s l = Some (For_list m, d)"
    "watchers s w = Some (k, d) \<Longrightarrow> native s w"
    "watchers s w = Some (For_list m, d) \<Longrightarrow> K w = Some m \<and> cur \<noteq> Some w"
    "watchers s w = Some (k, d) \<Longrightarrow> k = For_timer \<or> k = For_interval \<Longrightarrow> onTimeout s w \<and> held s w"
    "duration_lists s m = Some l \<Longrightarrow> K l = Some m"
    "qs l = Some q \<Longrightarrow> sorted (map (idleStart s) q)"
    "qs l = Some q \<Longrightarrow> x \<in> set q \<Longrightarrow> idleTimeout s x = K l \<and> idleStart s x \<le> tm_clock s"
    "cur = Some c \<Longrightarrow> K c \<noteq> None"
  using assms unfolding tinv_def by (elim conjE, (assumption | blast))+

lemma tinvI:
  assumes "lists_on (tm_links s) qs" "dom K = dom qs"
    "\<And>x. x \<in> objects qs \<or> native s x \<or> onTimeout s x \<or> held s x \<Longrightarrow> x < next_obj s"
    "\<And>l m. K l = Some m \<Longrightarrow> \<not> held s l \<and> 0 \<le> m"
    "\<And>l m. K l = Some m \<Longrightarrow> cur \<noteq> Some l \<Longrightarrow> \<exists>d. watchers s l = Some (For_list m, d)"
    "\<And>w k d. watchers s w = Some (k, d) \<Longrightarrow> native s w"
    "\<And>w m d. watchers s w = Some (For_list m, d) \<Longrightarrow> K w = Some m \<and> cur \<noteq> Some w"
    "\<And>w k d. watchers s w = Some (k, d) \<Longrightarrow> k = For_timer \<or> k = For_interval \<Longrightarrow> onTimeout s w \<and> held s w"
    "\<And>m l. duration_lists s m = Some l \<Longrightarrow> K l = Some m"
    "\<And>l q. qs l = Some q \<Longrightarrow> sorted (map (idleStart s) q)"
    "\<And>l q x. qs l = Some q \<Longrightarrow> x \<in> set q \<Longrightarrow> idleTimeout s x = K l \<and> idleStart s x \<le> tm_clock s"
    "\<And>c. cur = Some c \<Longrightarrow> K c \<noteq> None"
  shows "tinv qs K cur s"
  unfolding tinv_def
  apply (intro conjI allI ballI impI)
  subgoal using assms(1) by blast
  subgoal using assms(2) by blast
  subgoal using assms(12) by blast
  subgoal using assms(3) by blast
  subgoal using assms(4) by blast
  subgoal using assms(4) by blast
  subgoal using assms(5) by blast
  subgoal using assms(6) by blast
  subgoal using assms(7) by blast
  subgoal using assms(7) by blast
  subgoal using assms(8) by blast
  subgoal using assms(8) by blast
  subgoal using assms(9) by blast
  subgoal using assms(10) by blast
  subgoal using assms(11) by blast
  subgoal using assms(11) by blast
  done

lemma tinv_init: "tinv Map.empty Map.empty None timers_init"
  by (rule tinvI) (auto simp: timers_init_def lists_on_def loose_def no_links_def objects_dom)

section \<open>What the calls keep\<close>

text \<open>
  From one state to a later one: the invariant holds again, no callback is set again, the list being
  worked off only gets items started now or later, and the items in \<open>T\<close> stay where they are.
\<close>

definition later :: "timer_state \<Rightarrow> timer_state \<Rightarrow> bool" where
  "later s s' \<longleftrightarrow>
     next_obj s \<le> next_obj s' \<and> tm_clock s \<le> tm_clock s' \<and>
     (\<forall>x < next_obj s. onTimeout s' x \<longrightarrow> onTimeout s x) \<and> (\<forall>x. held s x \<longrightarrow> held s' x) \<and>
     (\<forall>x. native s x \<longrightarrow> native s' x) \<and>
     ((\<forall>x. onTimeout s x \<longrightarrow> held s x) \<longrightarrow> (\<forall>x. onTimeout s' x \<longrightarrow> held s' x))"

definition cur_kept :: "nat option \<Rightarrow> queues \<Rightarrow> timer_state \<Rightarrow> queues \<Rightarrow> timer_state \<Rightarrow> bool" where
  "cur_kept cur qs s qs' s' \<longleftrightarrow>
     (\<forall>l q' x. cur = Some l \<and> qs' l = Some q' \<and> x \<in> set q' \<longrightarrow>
        (\<exists>q. qs l = Some q \<and> x \<in> set q \<and> idleStart s' x = idleStart s x) \<or> tm_clock s \<le> idleStart s' x)"

definition item_kept :: "nat \<Rightarrow> queues \<Rightarrow> timer_state \<Rightarrow> queues \<Rightarrow> timer_state \<Rightarrow> bool" where
  "item_kept t qs s qs' s' \<longleftrightarrow>
     (\<forall>l q. qs l = Some q \<and> t \<in> set q \<longrightarrow> (\<exists>q'. qs' l = Some q' \<and> t \<in> set q')) \<and>
     idleStart s' t = idleStart s t \<and> idleTimeout s' t = idleTimeout s t \<and> onTimeout s' t = onTimeout s t \<and>
     (t \<notin> objects qs \<longrightarrow> t \<notin> objects qs') \<and> (watchers s t = None \<longrightarrow> watchers s' t = None)"

definition moves :: "nat option \<Rightarrow> nat set \<Rightarrow> queues \<Rightarrow> (nat \<Rightarrow> int option) \<Rightarrow> timer_state \<Rightarrow>
    queues \<Rightarrow> (nat \<Rightarrow> int option) \<Rightarrow> timer_state \<Rightarrow> bool" where
  "moves cur T qs K s qs' K' s' \<longleftrightarrow>
     tinv qs' K' cur s' \<and> later s s' \<and> (\<forall>l. cur = Some l \<longrightarrow> K' l = K l) \<and> cur_kept cur qs s qs' s' \<and>
     (\<forall>t \<in> T. t < next_obj s \<longrightarrow> item_kept t qs s qs' s')"

lemma later_refl [simp]: "later s s"
  by (simp add: later_def)

lemma later_trans: "later s1 s2 \<Longrightarrow> later s2 s3 \<Longrightarrow> later s1 s3"
  by (auto simp: later_def)

lemma cur_kept_trans:
  assumes "cur_kept cur qs1 s1 qs2 s2" and "cur_kept cur qs2 s2 qs3 s3" and "later s1 s2"
  shows "cur_kept cur qs1 s1 qs3 s3"
  unfolding cur_kept_def
proof (intro allI impI)
  fix l q' x assume a: "cur = Some l \<and> qs3 l = Some q' \<and> x \<in> set q'"
  then consider q where "qs2 l = Some q" "x \<in> set q" "idleStart s3 x = idleStart s2 x" | "tm_clock s2 \<le> idleStart s3 x"
    using assms(2) unfolding cur_kept_def by blast
  then show "(\<exists>q. qs1 l = Some q \<and> x \<in> set q \<and> idleStart s3 x = idleStart s1 x) \<or> tm_clock s1 \<le> idleStart s3 x"
  proof cases
    case 1
    then show ?thesis using assms(1) a unfolding cur_kept_def by metis
  next
    case 2
    then show ?thesis using assms(3) by (auto simp: later_def)
  qed
qed

lemma item_kept_trans:
  assumes "item_kept t qs1 s1 qs2 s2" and "item_kept t qs2 s2 qs3 s3"
  shows "item_kept t qs1 s1 qs3 s3"
  unfolding item_kept_def
proof (intro conjI allI impI)
  fix l q assume "qs1 l = Some q \<and> t \<in> set q"
  then obtain q2 where "qs2 l = Some q2 \<and> t \<in> set q2" using assms(1) unfolding item_kept_def by blast
  then show "\<exists>q'. qs3 l = Some q' \<and> t \<in> set q'" using assms(2) unfolding item_kept_def by blast
qed (use assms in \<open>simp_all add: item_kept_def\<close>)

lemma moves_trans:
  assumes "moves cur T qs1 K1 s1 qs2 K2 s2" and "moves cur T qs2 K2 s2 qs3 K3 s3"
  shows "moves cur T qs1 K1 s1 qs3 K3 s3"
proof -
  have l: "later s1 s2" using assms(1) by (simp add: moves_def)
  then have "t < next_obj s2" if "t < next_obj s1" for t using that by (simp add: later_def)
  then show ?thesis
    using assms later_trans [OF l, of s3] cur_kept_trans [OF _ _ l, of cur qs1 qs2 qs3 s3]
      item_kept_trans [of _ qs1 s1 qs2 s2 qs3 s3]
    unfolding moves_def by auto
qed

lemma moves_same:
  assumes "tinv qs K cur s'" and "later s s'" and "\<And>l q x. qs l = Some q \<Longrightarrow> x \<in> set q \<Longrightarrow> idleStart s' x = idleStart s x"
    and "\<And>t. t \<in> T \<Longrightarrow> t < next_obj s \<Longrightarrow> idleStart s' t = idleStart s t \<and> idleTimeout s' t = idleTimeout s t \<and>
       onTimeout s' t = onTimeout s t \<and> (watchers s t = None \<longrightarrow> watchers s' t = None)"
  shows "moves cur T qs K s qs K s'"
proof -
  have "cur_kept cur qs s qs s'" using assms(3) by (auto simp: cur_kept_def)
  moreover have "item_kept t qs s qs s'" if "t \<in> T" "t < next_obj s" for t
    using assms(4) [OF that] by (auto simp: item_kept_def)
  ultimately show ?thesis using assms(1,2) by (simp add: moves_def)
qed

lemma moves_refl: "tinv qs K cur s \<Longrightarrow> moves cur T qs K s qs K s"
  by (rule moves_same) simp_all

subsection \<open>Single changes\<close>

lemma objects_queue: "qs l = Some q \<Longrightarrow> x \<in> set q \<Longrightarrow> x \<in> objects qs" "qs l = Some q \<Longrightarrow> l \<in> objects qs"
  using objectsI [of qs l q] by auto

lemma tinv_lists: "tinv qs K cur s \<Longrightarrow> K l = Some m \<longleftrightarrow> (qs l \<noteq> None \<and> K l = Some m)"
  using tinvD(2) by fastforce

lemma moves_times:
  assumes I: "tinv qs K cur s" and x: "x \<notin> objects qs" "x \<notin> T"
  shows "moves cur T qs K s qs K (s\<lparr>idleStart := (idleStart s)(x := a), idleTimeout := (idleTimeout s)(x := b)\<rparr>)"
proof (rule moves_same)
  have n: "y \<noteq> x" if "qs l = Some q" "y \<in> set q" for l q y using that x(1) objects_queue(1) by blast
  then have m: "map ((idleStart s)(x := a)) q = map (idleStart s) q" if "qs l = Some q" for l q
    using that by auto
  show "tinv qs K cur (s\<lparr>idleStart := (idleStart s)(x := a), idleTimeout := (idleTimeout s)(x := b)\<rparr>)"
    using tinvD [OF I] n by (intro tinvI) (simp_all add: m)
  show "idleStart (s\<lparr>idleStart := (idleStart s)(x := a), idleTimeout := (idleTimeout s)(x := b)\<rparr>) y = idleStart s y"
    if "qs l = Some q" "y \<in> set q" for l q y using n [OF that] by simp
qed (use x(2) in \<open>auto simp: later_def\<close>)

lemma moves_remove:
  assumes I: "tinv qs K cur s" and x: "K x = None" "x \<notin> T"
  shows "moves cur T qs K s (q_remove x qs) K (s\<lparr>tm_links := list_remove x (tm_links s)\<rparr>)"
proof -
  have qx: "qs x = None" using x(1) tinvD(2) [OF I] by (metis domIff)
  have f: "\<exists>p. qs l = Some p \<and> q = filter (\<lambda>y. y \<noteq> x) p" if "q_remove x qs l = Some q" for l q
    using that by (auto simp: q_remove_def)
  have o: "objects (q_remove x qs) = objects qs - {x}" by (rule objects_remove [where Q = qs, OF qx])
  have "tinv (q_remove x qs) K cur (s\<lparr>tm_links := list_remove x (tm_links s)\<rparr>)"
  proof (rule tinvI)
    show "lists_on (tm_links (s\<lparr>tm_links := list_remove x (tm_links s)\<rparr>)) (q_remove x qs)"
      using remove_refines(1) [OF tinvD(1) [OF I] qx] by simp
    show "dom K = dom (q_remove x qs)" using tinvD(2) [OF I] by (auto simp: q_remove_def dom_def)
    show "sorted (map (idleStart (s\<lparr>tm_links := list_remove x (tm_links s)\<rparr>)) q)" if "q_remove x qs l = Some q" for l q
      using f [OF that] tinvD(11) [OF I] by (auto intro: sorted_filter)
    show "idleTimeout (s\<lparr>tm_links := list_remove x (tm_links s)\<rparr>) y = K l \<and>
        idleStart (s\<lparr>tm_links := list_remove x (tm_links s)\<rparr>) y \<le> tm_clock (s\<lparr>tm_links := list_remove x (tm_links s)\<rparr>)"
      if "q_remove x qs l = Some q" "y \<in> set q" for l q y
      using f [OF that(1)] that(2) tinvD(12) [OF I] by auto
  qed (use tinvD(3-10,13) [OF I] o in auto)
  moreover have "item_kept t qs s (q_remove x qs) (s\<lparr>tm_links := list_remove x (tm_links s)\<rparr>)" if "t \<in> T" for t
  proof -
    have "t \<noteq> x" using that x(2) by blast
    then have "\<exists>q'. q_remove x qs l = Some q' \<and> t \<in> set q'" if "qs l = Some q" "t \<in> set q" for l q
      using that by (auto simp: q_remove_def)
    then show ?thesis by (simp add: item_kept_def o)
  qed
  moreover have "cur_kept cur qs s (q_remove x qs) (s\<lparr>tm_links := list_remove x (tm_links s)\<rparr>)"
    using f by (fastforce simp: cur_kept_def)
  ultimately show ?thesis by (simp add: moves_def later_def)
qed

lemma q_remove_out:
  assumes "x \<notin> objects qs"
  shows "q_remove x qs = qs"
proof
  fix l
  show "q_remove x qs l = qs l"
  proof (cases "qs l")
    case (Some q)
    then have "x \<notin> set q" using assms objects_queue(1) [where qs = qs] by blast
    then show ?thesis using Some by (simp add: q_remove_def filter_notin)
  qed (simp add: q_remove_def)
qed

lemma objects_upd: "objects (qs(l \<mapsto> q)) = insert l (set q) \<union> objects (qs(l := None))"
proof (rule set_eqI)
  fix y
  have "(\<exists>k p. (qs(l \<mapsto> q)) k = Some p \<and> y \<in> set (k # p)) \<longleftrightarrow>
      y \<in> set (l # q) \<or> (\<exists>k p. k \<noteq> l \<and> qs k = Some p \<and> y \<in> set (k # p))"
    by (metis (no_types, lifting) fun_upd_other fun_upd_same option.inject)
  moreover have "(\<exists>k p. (qs(l := None)) k = Some p \<and> y \<in> set (k # p)) \<longleftrightarrow>
      (\<exists>k p. k \<noteq> l \<and> qs k = Some p \<and> y \<in> set (k # p))"
    by (metis (no_types, lifting) fun_upd_other fun_upd_same option.distinct(1))
  ultimately show "y \<in> objects (qs(l \<mapsto> q)) \<longleftrightarrow> y \<in> insert l (set q) \<union> objects (qs(l := None))"
    unfolding objects_def by simp
qed

lemma moves_append:
  assumes I: "tinv qs K cur s" and x: "x \<notin> objects qs" "x \<notin> T" "x < next_obj s"
    and l: "K l = Some m" "idleTimeout s x = Some m" "idleStart s x = tm_clock s"
  obtains h where "timer_append l x s = Some (s\<lparr>tm_links := h\<rparr>)"
    "moves cur T qs K s (q_append l x qs) K (s\<lparr>tm_links := h\<rparr>)"
proof -
  obtain q where q: "qs l = Some q" using l(1) tinvD(2) [OF I] by (metis domD domI)
  have qx: "qs x = None" using x(1) objects_queue(2) [of qs x] by (cases "qs x") auto
  obtain h where h: "list_append l x (tm_links s) = Some h" "lists_on h (q_append l x qs)"
    using append_refines [OF tinvD(1) [OF I] qx, of l] q by auto
  have Q': "q_append l x qs = qs(l \<mapsto> q @ [x])"
    by (simp add: q_append_def q_remove_out [OF x(1)] q)
  have o: "objects (qs(l \<mapsto> q @ [x])) = insert x (objects qs)"
    using objects_upd [of qs l q] objects_upd [of qs l "q @ [x]"] q by (simp add: fun_upd_idem insert_commute)
  let ?s = "s\<lparr>tm_links := h\<rparr>"
  have "tinv (qs(l \<mapsto> q @ [x])) K cur ?s"
  proof (rule tinvI)
    show "lists_on (tm_links ?s) (qs(l \<mapsto> q @ [x]))" using h(2) by (simp add: Q')
    show "dom K = dom (qs(l \<mapsto> q @ [x]))" using tinvD(2) [OF I] q by auto
    show "y < next_obj ?s" if "y \<in> objects (qs(l \<mapsto> q @ [x])) \<or> native ?s y \<or> onTimeout ?s y \<or> held ?s y" for y
      using that tinvD(3) [OF I, of y] x(3) by (auto simp: o)
    show "sorted (map (idleStart ?s) q')" if "(qs(l \<mapsto> q @ [x])) l' = Some q'" for l' q'
      using that tinvD(11) [OF I] tinvD(11) [OF I q] tinvD(12) [OF I q] l(3)
      by (auto simp: sorted_append split: if_splits)
    show "idleTimeout ?s y = K l' \<and> idleStart ?s y \<le> tm_clock ?s"
      if "(qs(l \<mapsto> q @ [x])) l' = Some q'" "y \<in> set q'" for l' q' y
      using that tinvD(12) [OF I] q l by (auto split: if_splits)
  qed (use tinvD(4-10,13) [OF I] in auto)
  moreover have "cur_kept cur qs s (qs(l \<mapsto> q @ [x])) ?s"
    using q l(3) by (auto simp: cur_kept_def)
  moreover have "item_kept t qs s (qs(l \<mapsto> q @ [x])) ?s" if "t \<in> T" for t
  proof -
    have "t \<noteq> x" using that x(2) by blast
    then show ?thesis using q by (auto simp: item_kept_def o)
  qed
  ultimately have "moves cur T qs K s (q_append l x qs) K ?s" by (simp add: moves_def later_def Q')
  then show ?thesis using that h(1) by (simp add: timer_append_def)
qed

text \<open>Appending takes the item out of its list first.\<close>

lemma timer_append_removed:
  assumes "tinv qs K cur s" and "K x = None"
  shows "timer_append l x (s\<lparr>idleStart := a, idleTimeout := b\<rparr>) =
    timer_append l x (s\<lparr>tm_links := list_remove x (tm_links s), idleStart := a, idleTimeout := b\<rparr>)"
proof -
  have "qs x = None" using assms tinvD(2) by (metis domIff)
  then have "idleNext (list_remove x (tm_links s)) x = None" "idlePrev (list_remove x (tm_links s)) x = None"
    using remove_refines(2,3) [OF tinvD(1) [OF assms(1)]] by simp_all
  then have "list_remove x (list_remove x (tm_links s)) = list_remove x (tm_links s)"
    by (simp add: list_remove_def [of x "list_remove x (tm_links s)"] link_simps fun_upd_idem)
  then show ?thesis by (simp add: timer_append_def list_append_def option.map_comp comp_def)
qed

lemma moves_reappend:
  assumes I: "tinv qs K cur s" and x: "K x = None" "x \<notin> T" "x < next_obj s" and l: "K l = Some m"
    and a: "a = (idleStart s)(x := tm_clock s)" and b: "b = (idleTimeout s)(x := Some m)"
  obtains h where "timer_append l x (s\<lparr>idleStart := a, idleTimeout := b\<rparr>) = Some (s\<lparr>idleStart := a, idleTimeout := b, tm_links := h\<rparr>)"
    "moves cur T qs K s (q_append l x (q_remove x qs)) K (s\<lparr>idleStart := a, idleTimeout := b, tm_links := h\<rparr>)"
proof -
  have qx: "qs x = None" using x(1) tinvD(2) [OF I] by (metis domIff)
  let ?s1 = "s\<lparr>tm_links := list_remove x (tm_links s)\<rparr>"
  let ?s2 = "?s1\<lparr>idleStart := (idleStart ?s1)(x := tm_clock s), idleTimeout := (idleTimeout ?s1)(x := Some m)\<rparr>"
  have m1: "moves cur T qs K s (q_remove x qs) K ?s1" by (rule moves_remove [OF I x(1,2)])
  have out: "x \<notin> objects (q_remove x qs)" by (simp add: objects_remove [where Q = qs, OF qx])
  have m2: "moves cur T (q_remove x qs) K ?s1 (q_remove x qs) K ?s2"
    using m1 by (intro moves_times [OF _ out x(2)]) (simp add: moves_def)
  then have I2: "tinv (q_remove x qs) K cur ?s2" by (simp add: moves_def)
  obtain h where h: "timer_append l x ?s2 = Some (?s2\<lparr>tm_links := h\<rparr>)"
    "moves cur T (q_remove x qs) K ?s2 (q_append l x (q_remove x qs)) K (?s2\<lparr>tm_links := h\<rparr>)"
    using moves_append [OF I2 out x(2) _ l] x(3) by auto
  show ?thesis
    using that [of h] h(1) moves_trans [OF moves_trans [OF m1 m2] h(2)] timer_append_removed [OF I x(1), where l = l and a = a and b = b]
    by (simp add: a b)
qed

lemma moves_new_list:
  assumes I: "tinv qs K cur s" and m: "duration_lists s m = None" "0 \<le> m"
  shows "\<exists>qs' K'. moves cur T qs K s qs' K' (snd (list_for m s)) \<and> K' (fst (list_for m s)) = Some m \<and>
     (\<forall>x < next_obj s. K' x = K x)"
proof -
  let ?l = "next_obj s" and ?qs = "qs(next_obj s \<mapsto> [])" and ?K = "K(next_obj s \<mapsto> m)"
  let ?s = "snd (list_for m s)"
  note d = list_for_def new_timer_def start_watcher_def m(1)
  have out: "?l \<notin> objects qs" using tinvD(3) [OF I, of ?l] by auto
  then have ql: "qs ?l = None" using objects_queue(2) [of qs ?l] by (cases "qs ?l") auto
  then have Kl: "K ?l = None" using tinvD(2) [OF I] by (metis domIff)
  have wl: "watchers s ?l = None" using tinvD(7,3) [OF I, of ?l] by (cases "watchers s ?l") force+
  have hl: "\<not> held s ?l" using tinvD(3) [OF I, of ?l] by auto
  have cl: "cur \<noteq> Some ?l" using tinvD(13) [OF I] Kl by auto
  have o: "objects ?qs = insert ?l (objects qs)" by (rule objects_new [where Q = qs, OF ql])
  have "tinv ?qs ?K cur ?s"
  proof (rule tinvI)
    show "lists_on (tm_links ?s) ?qs"
      using init_refines(2) [OF tinvD(1) [OF I] out] by (simp add: d)
    show "dom ?K = dom ?qs" using tinvD(2) [OF I] by auto
    show "x < next_obj ?s" if "x \<in> objects ?qs \<or> native ?s x \<or> onTimeout ?s x \<or> held ?s x" for x
      using that tinvD(3) [OF I, of x] by (auto simp: d o less_Suc_eq split: if_splits)
    show "\<not> held ?s l \<and> 0 \<le> n" if "?K l = Some n" for l n
      using that tinvD(4,5) [OF I] hl m(2) by (auto simp: d split: if_splits)
    show "\<exists>e. watchers ?s l = Some (For_list n, e)" if "?K l = Some n" "cur \<noteq> Some l" for l n
      using that tinvD(6) [OF I] by (auto simp: d split: if_splits)
    show "?K w = Some n \<and> cur \<noteq> Some w" if "watchers ?s w = Some (For_list n, e)" for w n e
      using that tinvD(8) [OF I, of w n e] cl by (auto simp: d split: if_splits)
    show "onTimeout ?s w \<and> held ?s w" if "watchers ?s w = Some (k, e)" "k = For_timer \<or> k = For_interval" for w k e
      using that tinvD(9) [OF I, of w k e] by (auto simp: d split: if_splits)
    show "native ?s w" if "watchers ?s w = Some (k, e)" for w k e
      using that tinvD(7) [OF I, of w k e] by (auto simp: d split: if_splits)
    show "?K l = Some n" if "duration_lists ?s n = Some l" for n l
      using that tinvD(10) [OF I, of n l] Kl by (auto simp: d split: if_splits)
    show "sorted (map (idleStart ?s) q)" if "?qs l = Some q" for l q
      using that tinvD(11) [OF I] by (auto simp: d split: if_splits)
    show "idleTimeout ?s x = ?K l \<and> idleStart ?s x \<le> tm_clock ?s" if "?qs l = Some q" "x \<in> set q" for l q x
      using that tinvD(12) [OF I] by (auto simp: d split: if_splits)
    show "?K c \<noteq> None" if "cur = Some c" for c using tinvD(13) [OF I that] by simp
  qed
  moreover have "item_kept t qs s ?qs ?s" if "t < next_obj s" for t
    using that ql by (auto simp: item_kept_def o d)
  moreover have "cur_kept cur qs s ?qs ?s" using cl by (auto simp: cur_kept_def d)
  ultimately have "moves cur T qs K s ?qs ?K ?s" using cl by (auto simp: moves_def later_def d)
  moreover have "fst (list_for m s) = ?l" by (simp add: d)
  ultimately show ?thesis by (intro exI [of _ ?qs] exI [of _ ?K]) auto
qed

lemma moves_close:
  assumes I: "tinv qs K cur s" and l: "qs l = Some []" "duration_lists s m = Some l"
  shows "\<exists>qs' K'. moves cur T qs K s qs' K' ((close_watcher l s)\<lparr>duration_lists := (duration_lists s)(m := None)\<rparr>)"
proof -
  let ?s = "(close_watcher l s)\<lparr>duration_lists := (duration_lists s)(m := None)\<rparr>"
  have K: "K l = Some m" by (rule tinvD(10) [OF I l(2)])
  have dl: "K k = Some n \<and> k \<noteq> l" if "((duration_lists s)(m := None)) n = Some k" for n k
    using that tinvD(10) [OF I, of n k] K by (auto split: if_splits)
  show ?thesis
  proof (cases "cur = Some l")
    case True
    have "tinv qs K cur ?s"
    proof (rule tinvI)
      show "\<exists>d. watchers ?s k = Some (For_list n, d)" if "K k = Some n" "cur \<noteq> Some k" for k n
        using tinvD(6) [OF I that] that True by (auto simp: close_watcher_def)
      show "K w = Some n \<and> cur \<noteq> Some w" if "watchers ?s w = Some (For_list n, d)" for w n d
        using that tinvD(8) [OF I, of w n d] by (auto simp: close_watcher_def split: if_splits)
      show "onTimeout ?s w \<and> held ?s w" if "watchers ?s w = Some (k, d)" "k = For_timer \<or> k = For_interval" for w k d
        using that tinvD(9) [OF I, of w k d] by (auto simp: close_watcher_def split: if_splits)
      show "native ?s w" if "watchers ?s w = Some (k, d)" for w k d
        using that tinvD(7) [OF I, of w k d] by (auto simp: close_watcher_def split: if_splits)
      show "K k = Some n" if "duration_lists ?s n = Some k" for n k
        using that dl [of n k] by simp
    qed (use tinvD(1-5,11-13) [OF I] in \<open>simp_all add: close_watcher_def\<close>)
    then have "moves cur T qs K s qs K ?s" by (rule moves_same) (simp_all add: later_def close_watcher_def)
    then show ?thesis by blast
  next
    case False
    let ?qs = "qs(l := None)" and ?K = "K(l := None)"
    have o: "objects qs = insert l (objects ?qs)" by (rule objects_closed [where Q = qs, OF l(1)])
    have "tinv ?qs ?K cur ?s"
    proof (rule tinvI)
      show "lists_on (tm_links ?s) ?qs" using close_refines [OF tinvD(1) [OF I] l(1)] by (simp add: close_watcher_def)
      show "dom ?K = dom ?qs" using tinvD(2) [OF I] by auto
      show "x < next_obj ?s" if "x \<in> objects ?qs \<or> native ?s x \<or> onTimeout ?s x \<or> held ?s x" for x
        using that tinvD(3) [OF I, of x] by (auto simp: close_watcher_def o)
      show "\<exists>d. watchers ?s k = Some (For_list n, d)" if "?K k = Some n" "cur \<noteq> Some k" for k n
        using tinvD(6) [OF I, of k n] that by (auto simp: close_watcher_def split: if_splits)
      show "?K w = Some n \<and> cur \<noteq> Some w" if "watchers ?s w = Some (For_list n, d)" for w n d
        using that tinvD(8) [OF I, of w n d] by (auto simp: close_watcher_def split: if_splits)
      show "onTimeout ?s w \<and> held ?s w" if "watchers ?s w = Some (k, d)" "k = For_timer \<or> k = For_interval" for w k d
        using that tinvD(9) [OF I, of w k d] by (auto simp: close_watcher_def split: if_splits)
      show "native ?s w" if "watchers ?s w = Some (k, d)" for w k d
        using that tinvD(7) [OF I, of w k d] by (auto simp: close_watcher_def split: if_splits)
      show "?K k = Some n" if "duration_lists ?s n = Some k" for n k
        using that dl [of n k] by simp
      show "?K c \<noteq> None" if "cur = Some c" for c using tinvD(13) [OF I that] that False by auto
      show "idleTimeout ?s x = ?K k \<and> idleStart ?s x \<le> tm_clock ?s" if "?qs k = Some q" "x \<in> set q" for k q x
        using that tinvD(12) [OF I, of k q x] by (auto simp: close_watcher_def split: if_splits)
      show "sorted (map (idleStart ?s) q)" if "?qs k = Some q" for k q
        using that tinvD(11) [OF I, of k q] by (auto simp: close_watcher_def split: if_splits)
      show "\<not> held ?s k \<and> 0 \<le> n" if "?K k = Some n" for k n
        using that tinvD(4,5) [OF I, of k n] by (auto simp: close_watcher_def split: if_splits)
    qed
    moreover have "item_kept t qs s ?qs ?s" for t
      using l(1) by (auto simp: item_kept_def o close_watcher_def)
    moreover have "cur_kept cur qs s ?qs ?s" by (auto simp: cur_kept_def close_watcher_def split: if_splits)
    ultimately have "moves cur T qs K s ?qs ?K ?s" using False by (auto simp: moves_def later_def close_watcher_def)
    then show ?thesis by blast
  qed
qed

subsection \<open>Calls\<close>

lemma moves_tinv: "moves cur T qs K s qs' K' s' \<Longrightarrow> tinv qs' K' cur s'"
  by (simp add: moves_def)

lemma moves_T: "moves cur {y \<in> T. y < next_obj s} qs K s qs' K' s' \<Longrightarrow> moves cur T qs K s qs' K' s'"
  by (simp add: moves_def)

lemma moves_less: "moves cur (insert x T) qs K s qs' K' s' \<Longrightarrow> moves cur T qs K s qs' K' s'"
  by (simp add: moves_def)

lemma moves_out: "moves cur (insert x T) qs K s qs' K' s' \<Longrightarrow> x < next_obj s \<Longrightarrow> x \<notin> objects qs \<Longrightarrow> x \<notin> objects qs'"
  by (simp add: moves_def item_kept_def)

lemma list_isEmpty_queue:
  assumes "tinv qs K cur s" and "K l = Some m"
  obtains q where "qs l = Some q" "list_isEmpty l (tm_links s) \<longleftrightarrow> q = []"
proof -
  obtain q where q: "qs l = Some q" using assms tinvD(2) by (metis domD domI)
  then show ?thesis using that ring_isEmpty [OF lists_onD(1) [OF tinvD(1) [OF assms(1)] q]] by blast
qed

lemma unenroll_moves:
  assumes I: "tinv qs K cur s" and x: "K x = None" "x \<notin> T" "x < next_obj s"
  shows "\<exists>qs' K'. moves cur T qs K s qs' K' (unenroll x s) \<and> x \<notin> objects qs'"
proof -
  have qx: "qs x = None" using x(1) tinvD(2) [OF I] by (metis domIff)
  let ?s1 = "s\<lparr>tm_links := list_remove x (tm_links s)\<rparr>" and ?qs1 = "q_remove x qs"
  have m1: "moves cur T qs K s ?qs1 K ?s1" by (rule moves_remove [OF I x(1,2)])
  note I1 = moves_tinv [OF m1]
  have out1: "x \<notin> objects ?qs1" by (simp add: objects_remove [where Q = qs, OF qx])
  define s2 where "s2 = (case Option.bind (idleTimeout ?s1 x) (\<lambda>m. map_option (Pair m) (duration_lists ?s1 m)) of
      None \<Rightarrow> ?s1
    | Some (m, l) \<Rightarrow> if list_isEmpty l (tm_links ?s1)
        then (close_watcher l ?s1)\<lparr>duration_lists := (duration_lists ?s1)(m := None)\<rparr> else ?s1)"
  have "\<exists>qs2 K2. moves cur (insert x T) ?qs1 K ?s1 qs2 K2 s2"
  proof (cases "Option.bind (idleTimeout ?s1 x) (\<lambda>m. map_option (Pair m) (duration_lists ?s1 m))")
    case None
    then have "s2 = ?s1" by (simp add: s2_def)
    then show ?thesis using moves_refl [OF I1] by blast
  next
    case (Some ml)
    obtain m l where ml: "ml = (m, l)" by (cases ml)
    have l: "duration_lists ?s1 m = Some l" using Some by (auto simp: ml bind_eq_Some_conv)
    obtain q where q: "?qs1 l = Some q" "list_isEmpty l (tm_links ?s1) \<longleftrightarrow> q = []"
      by (rule list_isEmpty_queue [OF I1 tinvD(10) [OF I1 l]])
    show ?thesis
    proof (cases "q = []")
      case True
      then have "s2 = (close_watcher l ?s1)\<lparr>duration_lists := (duration_lists ?s1)(m := None)\<rparr>"
        using Some q(2) by (simp add: s2_def ml)
      then show ?thesis using moves_close [OF I1 _ l, of "insert x T"] q(1) True by simp
    next
      case False
      then have "s2 = ?s1" using Some q(2) by (simp add: s2_def ml)
      then show ?thesis using moves_refl [OF I1] by blast
    qed
  qed
  then obtain qs2 K2 where m2: "moves cur (insert x T) ?qs1 K ?s1 qs2 K2 s2" by blast
  have out2: "x \<notin> objects qs2" using moves_out [OF m2 _ out1] x(3) by simp
  have "moves cur T qs2 K2 s2 qs2 K2 (s2\<lparr>idleStart := (idleStart s2)(x := idleStart s2 x), idleTimeout := (idleTimeout s2)(x := Some (- 1))\<rparr>)"
    by (rule moves_times [OF moves_tinv [OF m2] out2 x(2)])
  then have m3: "moves cur T qs2 K2 s2 qs2 K2 (unenroll x s)"
    unfolding unenroll_def Let_def s2_def [symmetric] by simp
  show ?thesis using moves_trans [OF moves_trans [OF m1 moves_less [OF m2]] m3] out2 by blast
qed

definition queued :: "nat \<Rightarrow> int \<Rightarrow> int \<Rightarrow> queues \<Rightarrow> (nat \<Rightarrow> int option) \<Rightarrow> timer_state \<Rightarrow> bool" where
  "queued x m t0 qs K s \<longleftrightarrow> (\<exists>l q. qs l = Some q \<and> x \<in> set q \<and> K l = Some m) \<and> idleStart s x = t0"

lemma queued_append:
  assumes "tinv qs K cur s" "K l = Some m" "K x = None" "idleStart s' x = t0"
  shows "queued x m t0 (q_append l x (q_remove x qs)) K s'"
proof -
  obtain q where "qs l = Some q" using assms(1,2) tinvD(2) by (metis domD domI)
  then have "\<exists>q'. q_append l x (q_remove x qs) l = Some q' \<and> x \<in> set q'"
    by (simp add: q_append_def q_remove_def Let_def)
  then show ?thesis using assms(2,4) unfolding queued_def by blast
qed

lemma timer_insert_moves:
  assumes I: "tinv qs K cur s" and x: "K x = None" "x \<notin> T" "x < next_obj s" and m: "0 \<le> m"
  shows "\<exists>s' qs' K'. timer_insert x m s = Some s' \<and> moves cur T qs K s qs' K' s' \<and> queued x m (tm_clock s) qs' K' s'"
proof -
  obtain l s2 where ls: "list_for m s = (l, s2)" by fastforce
  have "\<exists>qs2 K2. moves cur T qs K s qs2 K2 s2 \<and> K2 l = Some m \<and> K2 x = None"
  proof (cases "duration_lists s m")
    case None
    then show ?thesis using moves_new_list [OF I None m, of T] ls x by (metis fst_conv snd_conv)
  next
    case (Some k)
    then show ?thesis using ls moves_refl [OF I] tinvD(10) [OF I Some] x by (auto simp: list_for_def)
  qed
  then obtain qs2 K2 where m2: "moves cur T qs K s qs2 K2 s2" "K2 l = Some m" "K2 x = None" by blast
  have st: "x < next_obj s2" "tm_clock s2 = tm_clock s" "idleStart s2 = idleStart s" "idleTimeout s2 = idleTimeout s"
    using ls x(3) by (auto simp: list_for_def new_timer_def start_watcher_def Let_def split: option.splits)
  define a b where "a = (idleStart s2)(x := tm_clock s2)" and "b = (idleTimeout s2)(x := Some m)"
  have f: "list_for m (s\<lparr>idleStart := a, idleTimeout := b\<rparr>) = (l, s2\<lparr>idleStart := a, idleTimeout := b\<rparr>)"
    using ls by (auto simp: list_for_def new_timer_def start_watcher_def Let_def split: option.splits)
  obtain h where h: "timer_append l x (s2\<lparr>idleStart := a, idleTimeout := b\<rparr>) = Some (s2\<lparr>idleStart := a, idleTimeout := b, tm_links := h\<rparr>)"
    "moves cur T qs2 K2 s2 (q_append l x (q_remove x qs2)) K2 (s2\<lparr>idleStart := a, idleTimeout := b, tm_links := h\<rparr>)"
    by (rule moves_reappend [OF moves_tinv [OF m2(1)] m2(3) x(2) st(1) m2(2) a_def b_def])
  have "timer_insert x m s = Some (s2\<lparr>idleStart := a, idleTimeout := b, tm_links := h\<rparr>)"
    using f h(1) m by (simp add: timer_insert_def Let_def a_def b_def st)
  moreover have "queued x m (tm_clock s) (q_append l x (q_remove x qs2)) K2 (s2\<lparr>idleStart := a, idleTimeout := b, tm_links := h\<rparr>)"
    by (rule queued_append [OF moves_tinv [OF m2(1)] m2(2,3)]) (simp add: a_def st)
  ultimately show ?thesis using moves_trans [OF m2(1) h(2)] by blast
qed

lemma timer_active_moves:
  assumes I: "tinv qs K cur s" and x: "K x = None" "x \<notin> T" "x < next_obj s"
  shows "\<exists>s' qs' K'. timer_active x s = Some s' \<and> moves cur T qs K s qs' K' s' \<and>
    (\<forall>m. idleTimeout s x = Some m \<and> 0 \<le> m \<longrightarrow> queued x m (tm_clock s) qs' K' s')"
proof (cases "idleTimeout s x")
  case None
  then show ?thesis using moves_refl [OF I] by (auto simp: timer_active_def)
next
  case (Some m)
  show ?thesis
  proof (cases "m < 0")
    case True
    then show ?thesis using Some moves_refl [OF I] by (auto simp: timer_active_def)
  next
    case False
    then have m: "0 \<le> m" by simp
    show ?thesis
    proof (cases "duration_lists s m")
      case None
      then show ?thesis using Some m timer_insert_moves [OF I x m] by (auto simp: timer_active_def)
    next
      case l: (Some l)
      note Kl = tinvD(10) [OF I l]
      show ?thesis
      proof (cases "list_isEmpty l (tm_links s)")
        case True
        then show ?thesis using Some m l timer_insert_moves [OF I x m] by (auto simp: timer_active_def)
      next
        case False
        define a where "a = (idleStart s)(x := tm_clock s)"
        have b: "idleTimeout s = (idleTimeout s)(x := Some m)" using Some by (simp add: fun_upd_idem)
        obtain h where h: "timer_append l x (s\<lparr>idleStart := a, idleTimeout := idleTimeout s\<rparr>) =
              Some (s\<lparr>idleStart := a, idleTimeout := idleTimeout s, tm_links := h\<rparr>)"
          "moves cur T qs K s (q_append l x (q_remove x qs)) K (s\<lparr>idleStart := a, idleTimeout := idleTimeout s, tm_links := h\<rparr>)"
          by (rule moves_reappend [OF I x Kl a_def b])
        have "queued x m (tm_clock s) (q_append l x (q_remove x qs)) K (s\<lparr>idleStart := a, idleTimeout := idleTimeout s, tm_links := h\<rparr>)"
          by (rule queued_append [OF I Kl x(1)]) (simp add: a_def)
        moreover have "timer_active x s = Some (s\<lparr>idleStart := a, idleTimeout := idleTimeout s, tm_links := h\<rparr>)"
          using Some m l False h(1) by (simp add: timer_active_def a_def)
        ultimately show ?thesis using h(2) Some by fastforce
      qed
    qed
  qed
qed

text \<open>Starting a native timer that is handed to the program.\<close>

lemma moves_native:
  assumes I: "tinv qs K cur s" and k: "k = For_timer \<or> k = For_interval"
  defines "s1 \<equiv> snd (new_timer s)" and "t \<equiv> next_obj s"
  shows "moves cur T qs K s qs K (start_watcher t k d (s1\<lparr>onTimeout := (onTimeout s1)(t := True), held := (held s1)(t := True)\<rparr>))"
proof -
  let ?s = "start_watcher t k d (s1\<lparr>onTimeout := (onTimeout s1)(t := True), held := (held s1)(t := True)\<rparr>)"
  note d = s1_def t_def new_timer_def start_watcher_def
  have Kt: "K t = None"
    using tinvD(2,3) [OF I] objects_queue(2) [of qs t] unfolding t_def by (metis domD domIff less_irrefl)
  have "tinv qs K cur ?s"
  proof (rule tinvI)
    show "x < next_obj ?s" if "x \<in> objects qs \<or> native ?s x \<or> onTimeout ?s x \<or> held ?s x" for x
      using that tinvD(3) [OF I, of x] by (auto simp: d less_Suc_eq split: if_splits)
    show "\<not> held ?s l \<and> 0 \<le> m" if "K l = Some m" for l m
      using that tinvD(4,5) [OF I that] Kt by (auto simp: d)
    show "\<exists>e. watchers ?s l = Some (For_list m, e)" if "K l = Some m" "cur \<noteq> Some l" for l m
      using that tinvD(6) [OF I that] Kt by (auto simp: d)
    show "K w = Some m \<and> cur \<noteq> Some w" if "watchers ?s w = Some (For_list m, e)" for w m e
      using that tinvD(8) [OF I, of w m e] k by (auto simp: d split: if_splits)
    show "onTimeout ?s w \<and> held ?s w" if "watchers ?s w = Some (k', e)" "k' = For_timer \<or> k' = For_interval" for w k' e
      using that tinvD(9) [OF I, of w k' e] by (auto simp: d split: if_splits)
    show "native ?s w" if "watchers ?s w = Some (k', e)" for w k' e
      using that tinvD(7) [OF I, of w k' e] by (auto simp: d split: if_splits)
  qed (use tinvD(1,2,10-13) [OF I] in \<open>simp_all add: d\<close>)
  then show ?thesis by (rule moves_same) (auto simp: d later_def)
qed

text \<open>Making an object, with or without links to itself.\<close>

lemma moves_object:
  assumes I: "tinv qs K cur s"
  defines "t \<equiv> next_obj s"
  shows "moves cur T qs K s qs K (s\<lparr>next_obj := Suc t, idleTimeout := (idleTimeout s)(t := v),
      tm_links := list_init t (tm_links s), onTimeout := (onTimeout s)(t := True), held := (held s)(t := True)\<rparr>)"
    and "moves cur T qs K s qs K (s\<lparr>next_obj := Suc t, onTimeout := (onTimeout s)(t := True), held := (held s)(t := True)\<rparr>)"
proof -
  have out: "t \<notin> objects qs" using tinvD(3) [OF I, of t] by (auto simp: t_def)
  have n: "x \<noteq> t" if "qs l = Some q" "x \<in> set q" for l q x using objects_queue(1) [of qs, OF that] out by auto
  have Kt: "K t = None" using out tinvD(2) [OF I] objects_queue(2) [of qs t] by (metis domD domIff)
  have less: "x < Suc t" if "x \<in> objects qs \<or> native s x \<or> onTimeout s x \<or> held s x \<or> x = t" for x
    using that tinvD(3) [OF I, of x] by (auto simp: t_def)
  let ?s = "s\<lparr>next_obj := Suc t, idleTimeout := (idleTimeout s)(t := v),
      tm_links := list_init t (tm_links s), onTimeout := (onTimeout s)(t := True), held := (held s)(t := True)\<rparr>"
  have "tinv qs K cur ?s"
  proof (rule tinvI)
    show "lists_on (tm_links ?s) qs" using init_refines(1) [OF tinvD(1) [OF I] out] by simp
    show "x < next_obj ?s" if "x \<in> objects qs \<or> native ?s x \<or> onTimeout ?s x \<or> held ?s x" for x
      using that less [of x] by (auto split: if_splits)
    show "\<not> held ?s l \<and> 0 \<le> m" if "K l = Some m" for l m
      using that tinvD(4,5) [OF I that] Kt by auto
    show "idleTimeout ?s x = K l \<and> idleStart ?s x \<le> tm_clock ?s" if "qs l = Some q" "x \<in> set q" for l q x
      using tinvD(12) [OF I that] n [OF that] by simp
    show "onTimeout ?s w \<and> held ?s w" if "watchers ?s w = Some (k, e)" "k = For_timer \<or> k = For_interval" for w k e
      using tinvD(9) [OF I, of w k e] that by simp
  qed (use tinvD(2,6-8,10-11,13) [OF I] in simp_all)
  then show "moves cur T qs K s qs K ?s" by (rule moves_same) (auto simp: later_def t_def)
  let ?s = "s\<lparr>next_obj := Suc t, onTimeout := (onTimeout s)(t := True), held := (held s)(t := True)\<rparr>"
  have "tinv qs K cur ?s"
  proof (rule tinvI)
    show "x < next_obj ?s" if "x \<in> objects qs \<or> native ?s x \<or> onTimeout ?s x \<or> held ?s x" for x
      using that less [of x] by (auto split: if_splits)
    show "\<not> held ?s l \<and> 0 \<le> m" if "K l = Some m" for l m
      using that tinvD(4,5) [OF I that] Kt by auto
    show "onTimeout ?s w \<and> held ?s w" if "watchers ?s w = Some (k, e)" "k = For_timer \<or> k = For_interval" for w k e
      using tinvD(9) [OF I, of w k e] that by simp
  qed (use tinvD(1,2,6-8,10-13) [OF I] in simp_all)
  then show "moves cur T qs K s qs K ?s" by (rule moves_same) (auto simp: later_def t_def)
qed

text \<open>Taking the callback from an object the program holds, and closing its watcher.\<close>

lemma moves_closed:
  assumes I: "tinv qs K cur s" and t: "held s t" "t \<notin> T"
  shows "moves cur T qs K s qs K (close_watcher t (s\<lparr>onTimeout := (onTimeout s)(t := False)\<rparr>))" (is "moves _ _ _ _ _ _ _ ?s")
proof -
  have Kt: "K l \<noteq> None \<Longrightarrow> l \<noteq> t" for l using tinvD(4) [OF I, of t] t(1) by auto
  have "tinv qs K cur ?s"
  proof (rule tinvI)
    show "x < next_obj ?s" if "x \<in> objects qs \<or> native ?s x \<or> onTimeout ?s x \<or> held ?s x" for x
      using that tinvD(3) [OF I, of x] by (auto simp: close_watcher_def split: if_splits)
    show "\<exists>e. watchers ?s l = Some (For_list m, e)" if "K l = Some m" "cur \<noteq> Some l" for l m
      using that tinvD(6) [OF I that] Kt [of l] by (auto simp: close_watcher_def)
    show "K w = Some m \<and> cur \<noteq> Some w" if "watchers ?s w = Some (For_list m, e)" for w m e
      using that tinvD(8) [OF I, of w m e] by (auto simp: close_watcher_def split: if_splits)
    show "onTimeout ?s w \<and> held ?s w" if "watchers ?s w = Some (k, e)" "k = For_timer \<or> k = For_interval" for w k e
      using that tinvD(9) [OF I, of w k e] by (auto simp: close_watcher_def split: if_splits)
    show "native ?s w" if "watchers ?s w = Some (k, e)" for w k e
      using that tinvD(7) [OF I, of w k e] by (auto simp: close_watcher_def split: if_splits)
  qed (use tinvD(1,2,4,5,10-13) [OF I] in \<open>simp_all add: close_watcher_def\<close>)
  then show ?thesis using t(2) by (intro moves_same) (auto simp: later_def close_watcher_def)
qed

lemma held_object: "tinv qs K cur s \<Longrightarrow> held s x \<Longrightarrow> K x = None \<and> x < next_obj s"
  using tinvD(3,4) by (metis option.exhaust)

fun mentions :: "timer_call \<Rightarrow> nat \<Rightarrow> bool" where
  "mentions (Clear_timeout x) t = (x = t)" | "mentions (Clear_interval x) t = (x = t)"
| "mentions (Enroll x m) t = (x = t)" | "mentions (Unenroll x) t = (x = t)" | "mentions (Active x) t = (x = t)"
| "mentions _ t = False"

lemma clearTimeout_moves:
  assumes I: "tinv qs K cur s" and t: "held s t" "t \<notin> T"
  shows "\<exists>qs' K'. moves cur T qs K s qs' K' (clearTimeout t s)"
proof (cases "onTimeout s t")
  case False
  then show ?thesis using moves_refl [OF I] by (auto simp: clearTimeout_def)
next
  case True
  note m = moves_closed [OF I t]
  show ?thesis
  proof (cases "native s t")
    case True
    then show ?thesis using \<open>onTimeout s t\<close> m by (auto simp: clearTimeout_def)
  next
    case False
    then have "watchers s t = None" using tinvD(7) [OF I, of t] by (cases "watchers s t") auto
    then have e: "close_watcher t (s\<lparr>onTimeout := (onTimeout s)(t := False)\<rparr>) = s\<lparr>onTimeout := (onTimeout s)(t := False)\<rparr>"
      by (simp add: close_watcher_def fun_upd_idem)
    obtain qs' K' where "moves cur T qs K (s\<lparr>onTimeout := (onTimeout s)(t := False)\<rparr>) qs' K' (clearTimeout t s)"
      using unenroll_moves [OF moves_tinv [OF m [unfolded e]], of t T] held_object [OF I t(1)] t(2) False \<open>onTimeout s t\<close>
      by (auto simp: clearTimeout_def)
    then show ?thesis using moves_trans [OF m [unfolded e]] by blast
  qed
qed

lemma linked_object:
  assumes "tinv qs K cur s" and "idleNext (tm_links s) x = None"
  shows "x \<notin> objects qs"
proof
  assume "x \<in> objects qs"
  then obtain l q where q: "qs l = Some q" "x \<in> set (l # q)" by (auto simp: objects_def)
  have r: "linked (tm_links s) ((l # q) @ [l])"
    using lists_onD(1) [OF tinvD(1) [OF assms(1)] q(1)] by (simp add: ring_def)
  have "idleNext h x \<noteq> None" if "linked h xs" "x \<in> set (tl xs)" for h xs
    using that by (induction h xs rule: linked.induct) auto
  from this [OF r] show False using q(2) assms(2) by auto
qed

lemma enroll_moves:
  assumes I: "tinv qs K cur s" and x: "K x = None" "x \<notin> T" "x < next_obj s"
  shows "\<exists>qs' K'. moves cur T qs K s qs' K' (enroll x m s)"
proof -
  define s1 where "s1 = (if idleNext (tm_links s) x \<noteq> None then unenroll x s else s)"
  have "\<exists>qs1 K1. moves cur T qs K s qs1 K1 s1 \<and> x \<notin> objects qs1"
    using unenroll_moves [OF I x] linked_object [OF I, of x] moves_refl [OF I] by (auto simp: s1_def)
  then obtain qs1 K1 where m1: "moves cur T qs K s qs1 K1 s1" and out: "x \<notin> objects qs1" by blast
  note I1 = moves_tinv [OF m1]
  let ?s2 = "s1\<lparr>idleTimeout := (idleTimeout s1)(x := m), tm_links := list_init x (tm_links s1)\<rparr>"
  have n: "y \<noteq> x" if "qs1 l = Some q" "y \<in> set q" for l q y using objects_queue(1) [of qs1, OF that] out by auto
  have "tinv qs1 K1 cur ?s2"
  proof (rule tinvI)
    show "lists_on (tm_links ?s2) qs1" using init_refines(1) [OF tinvD(1) [OF I1] out] by simp
    show "idleTimeout ?s2 y = K1 l \<and> idleStart ?s2 y \<le> tm_clock ?s2" if "qs1 l = Some q" "y \<in> set q" for l q y
      using tinvD(12) [OF I1 that] n [OF that] by simp
    show "onTimeout ?s2 w \<and> held ?s2 w" if "watchers ?s2 w = Some (k, e)" "k = For_timer \<or> k = For_interval" for w k e
      using tinvD(9) [OF I1, of w k e] that by simp
  qed (use tinvD(2-8,10,11,13) [OF I1] in simp_all)
  then have "moves cur T qs1 K1 s1 qs1 K1 ?s2" using x(2) by (intro moves_same) (auto simp: later_def)
  then have "moves cur T qs K s qs1 K1 ?s2" by (rule moves_trans [OF m1])
  moreover have "enroll x m s = ?s2" by (simp add: enroll_def Let_def s1_def)
  ultimately show ?thesis by metis
qed

section \<open>Sequences of calls\<close>

text \<open>Letting time pass moves nothing; the items started before stay sorted.\<close>

lemma wait_moves:
  assumes I: "tinv qs K cur s"
  shows "moves cur T qs K s qs K (s\<lparr>tm_clock := tm_clock s + int d\<rparr>)"
proof (rule moves_same)
  let ?s = "s\<lparr>tm_clock := tm_clock s + int d\<rparr>"
  show "tinv qs K cur ?s"
  proof (rule tinvI)
    show "x < next_obj ?s" if "x \<in> objects qs \<or> native ?s x \<or> onTimeout ?s x \<or> held ?s x" for x
      using that tinvD(3) [OF I, of x] by simp
    show "\<not> held ?s l \<and> 0 \<le> m" if "K l = Some m" for l m using tinvD(4,5) [OF I that] by simp
    show "onTimeout ?s w \<and> held ?s w" if "watchers ?s w = Some (k, e)" "k = For_timer \<or> k = For_interval" for w k e
      using tinvD(9) [OF I, of w k e] that by simp
    show "idleTimeout ?s x = K l \<and> idleStart ?s x \<le> tm_clock ?s" if "qs l = Some q" "x \<in> set q" for l q x
      using tinvD(12) [OF I that] by simp
  qed (use tinvD(1,2,6-8,10,11,13) [OF I] in simp_all)
qed (simp_all add: later_def)

lemma clearInterval_moves:
  assumes I: "tinv qs K cur s" and t: "held s t" "t \<notin> T"
  shows "\<exists>qs' K'. moves cur T qs K s qs' K' (clearInterval t s)"
proof (cases "native s t")
  case True
  then show ?thesis using moves_closed [OF I t] unfolding clearInterval_def by auto
next
  case False
  then show ?thesis using moves_refl [OF I] unfolding clearInterval_def by auto
qed

lemma setInterval_moves:
  assumes "tinv qs K cur s"
  shows "\<exists>qs' K'. moves cur T qs K s qs' K' (setInterval r s)"
proof -
  have "setInterval r s = start_watcher (next_obj s) For_interval (case r of None \<Rightarrow> 0 | Some r \<Rightarrow> r)
      (snd (new_timer s)\<lparr>onTimeout := (onTimeout (snd (new_timer s)))(next_obj s := True),
         held := (held (snd (new_timer s)))(next_obj s := True)\<rparr>)"
    by (simp add: setInterval_def new_timer_def)
  then show ?thesis using moves_native [OF assms, of For_interval] by metis
qed

lemma setTimeout_moves:
  assumes I: "tinv qs K cur s" and T: "\<forall>t \<in> T. t < next_obj s"
  shows "\<exists>s' qs' K'. setTimeout a s = Some s' \<and> moves cur T qs K s qs' K' s' \<and>
    (\<forall>m. a = Some m \<and> 0 < m \<longrightarrow> queued (next_obj s) m (tm_clock s) qs' K' s')"
proof (cases "\<exists>m. a = Some m \<and> m \<le> 0")
  case True
  then have "setTimeout a s = Some (start_watcher (next_obj s) For_timer 0
      (snd (new_timer s)\<lparr>onTimeout := (onTimeout (snd (new_timer s)))(next_obj s := True),
         held := (held (snd (new_timer s)))(next_obj s := True)\<rparr>))"
    by (auto simp: setTimeout_def new_timer_def)
  then show ?thesis using moves_native [OF I, of For_timer T 0] True by fastforce
next
  case False
  define s1 where "s1 = s\<lparr>next_obj := Suc (next_obj s), idleTimeout := (idleTimeout s)(next_obj s := a),
      tm_links := list_init (next_obj s) (tm_links s), onTimeout := (onTimeout s)(next_obj s := True),
      held := (held s)(next_obj s := True)\<rparr>"
  have m1: "moves cur T qs K s qs K s1" unfolding s1_def by (rule moves_object(1) [OF I])
  have x: "next_obj s < next_obj s1" "next_obj s \<notin> T" "held s1 (next_obj s)" using T by (auto simp: s1_def)
  have Kx: "K (next_obj s) = None" using held_object [OF moves_tinv [OF m1] x(3)] by simp
  obtain s' qs' K' where a: "timer_active (next_obj s) s1 = Some s'" "moves cur T qs K s1 qs' K' s'"
    "\<forall>m. idleTimeout s1 (next_obj s) = Some m \<and> 0 \<le> m \<longrightarrow> queued (next_obj s) m (tm_clock s1) qs' K' s'"
    using timer_active_moves [OF moves_tinv [OF m1] Kx x(2,1)] by blast
  have "setTimeout a s = timer_active (next_obj s) s1"
    using False by (auto simp: setTimeout_def s1_def Let_def split: option.splits)
  moreover have "idleTimeout s1 (next_obj s) = a" "tm_clock s1 = tm_clock s" by (simp_all add: s1_def)
  ultimately have "setTimeout a s = Some s'" "\<forall>m. a = Some m \<and> 0 < m \<longrightarrow> queued (next_obj s) m (tm_clock s) qs' K' s'"
    using a(1,3) by simp_all
  then show ?thesis using moves_trans [OF m1 a(2)] by blast
qed

text \<open>Every call succeeds, keeps the invariant, and moves only the item it names.\<close>

lemma timer_call_moves:
  assumes I: "tinv qs K cur s" and c: "call_ok c s" and T: "\<forall>t \<in> T. t < next_obj s \<and> \<not> mentions c t"
  shows "\<exists>s' qs' K'. timer_call_step c s = Some s' \<and> moves cur T qs K s qs' K' s'"
proof (cases c)
  case (Set_timeout a)
  have "\<forall>t \<in> T. t < next_obj s" using T by blast
  then show ?thesis using setTimeout_moves [OF I, of T a] unfolding Set_timeout timer_call_step.simps by blast
next
  case (Clear_timeout x)
  then have "held s x" "x \<notin> T" using c T by auto
  then show ?thesis using clearTimeout_moves [OF I] unfolding Clear_timeout timer_call_step.simps by blast
next
  case (Set_interval r)
  then show ?thesis using setInterval_moves [OF I] unfolding Set_interval timer_call_step.simps by blast
next
  case (Clear_interval x)
  then have "held s x" "x \<notin> T" using c T by auto
  then show ?thesis using clearInterval_moves [OF I] unfolding Clear_interval timer_call_step.simps by blast
next
  case Make_object
  then show ?thesis using moves_object(2) [OF I] unfolding Make_object timer_call_step.simps by blast
next
  case (Enroll x m)
  then have "held s x" "x \<notin> T" using c T by auto
  then show ?thesis using enroll_moves [OF I] held_object [OF I] unfolding Enroll timer_call_step.simps by blast
next
  case (Unenroll x)
  then have "held s x" "x \<notin> T" using c T by auto
  then show ?thesis using unenroll_moves [OF I] held_object [OF I] unfolding Unenroll timer_call_step.simps by blast
next
  case (Active x)
  then have "held s x" "x \<notin> T" using c T by auto
  then show ?thesis using timer_active_moves [OF I] held_object [OF I] unfolding Active timer_call_step.simps by blast
next
  case (Wait d)
  then show ?thesis using wait_moves [OF I] unfolding Wait timer_call_step.simps by blast
qed

lemma timer_calls_moves:
  assumes "tinv qs K cur s" and "calls_ok cs s" and "\<forall>t \<in> T. t < next_obj s \<and> (\<forall>c \<in> set cs. \<not> mentions c t)"
  shows "\<exists>s' qs' K'. timer_calls_run cs s = Some s' \<and> moves cur T qs K s qs' K' s'"
  using assms
proof (induction cs arbitrary: qs K s)
  case Nil
  then show ?case using moves_refl by fastforce
next
  case (Cons c cs)
  obtain s1 qs1 K1 where s1: "timer_call_step c s = Some s1" "moves cur T qs K s qs1 K1 s1"
    using timer_call_moves [OF Cons.prems(1), of c T] Cons.prems(2,3) by auto
  then have "next_obj s \<le> next_obj s1" by (simp add: moves_def later_def)
  then have "\<forall>t \<in> T. t < next_obj s1 \<and> (\<forall>c \<in> set cs. \<not> mentions c t)" using Cons.prems(3) by fastforce
  then obtain s' qs' K' where "timer_calls_run cs s1 = Some s'" "moves cur T qs1 K1 s1 qs' K' s'"
    using Cons.IH [OF moves_tinv [OF s1(2)]] Cons.prems(2) s1(1) by auto
  then show ?case using s1 moves_trans [OF s1(2)] by fastforce
qed

end
