(* ===== verification/TimerRuns.thy ===== *)
theory TimerRuns
  imports Timers
begin

text \<open>
  Firing the watchers of \<open>src/lib/timers.js\<close> and runs of a program with timers: the loop over a list ends,
  a cleared timer is never called, a timer that is left alone is called once, when it is due.
\<close>

section \<open>Firing a watcher\<close>

text \<open>
  A callback makes calls on objects the program was given; \<open>T\<close> are objects that no callback names.
\<close>

definition proper :: "behaviour \<Rightarrow> nat set \<Rightarrow> bool" where
  "proper behave T \<longleftrightarrow>
     (\<forall>s x. held s x \<longrightarrow> calls_ok (behave s x) s \<and> (\<forall>c \<in> set (behave s x). \<forall>t \<in> T. \<not> mentions c t))"

definition all_held :: "timer_state \<Rightarrow> bool" where
  "all_held s \<longleftrightarrow> (\<forall>x. onTimeout s x \<longrightarrow> held s x)"

lemma later_held: "later s s' \<Longrightarrow> all_held s \<Longrightarrow> all_held s'"
  by (simp add: later_def all_held_def)

lemma calls_kept: "timer_call_step c s = Some s' \<Longrightarrow> calls s' = calls s"
  by (cases c) (auto simp: setTimeout_def clearTimeout_def setInterval_def clearInterval_def enroll_def unenroll_def
      timer_active_def timer_insert_def list_for_def timer_append_def new_timer_def start_watcher_def close_watcher_def
      Let_def split: if_splits option.splits prod.splits)

lemma calls_run_kept: "timer_calls_run cs s = Some s' \<Longrightarrow> calls s' = calls s"
  by (induction cs arbitrary: s) (auto simp: bind_eq_Some_conv dest: calls_kept)

lemma call_back_moves:
  assumes I: "tinv qs K cur s" and x: "onTimeout s x" "all_held s" and b: "proper behave T" and T: "\<forall>t \<in> T. t < next_obj s"
  obtains s' qs' K' where "call_back behave x s = Some s'" "moves cur T qs K s qs' K' s'"
    "calls s' = calls s @ [(x, idleStart s x, idleTimeout s x, tm_clock s)]"
proof -
  let ?s = "s\<lparr>calls := calls s @ [(x, idleStart s x, idleTimeout s x, tm_clock s)]\<rparr>"
  have "tinv qs K cur ?s"
  proof (rule tinvI)
    show "y < next_obj ?s" if "y \<in> objects qs \<or> native ?s y \<or> onTimeout ?s y \<or> held ?s y" for y
      using that tinvD(3) [OF I, of y] by simp
    show "\<not> held ?s l \<and> 0 \<le> m" if "K l = Some m" for l m using tinvD(4,5) [OF I that] by simp
    show "onTimeout ?s w \<and> held ?s w" if "watchers ?s w = Some (k, e)" "k = For_timer \<or> k = For_interval" for w k e
      using tinvD(9) [OF I, of w k e] that by simp
    show "idleTimeout ?s y = K l \<and> idleStart ?s y \<le> tm_clock ?s" if "qs l = Some q" "y \<in> set q" for l q y
      using tinvD(12) [OF I that] by simp
  qed (use tinvD(1,2,6-8,10,11,13) [OF I] in simp_all)
  then have m: "moves cur T qs K s qs K ?s" by (rule moves_same) (simp_all add: later_def)
  have h: "held ?s x" using x by (simp add: all_held_def)
  then have c: "calls_ok (behave ?s x) ?s" and n: "\<forall>c \<in> set (behave ?s x). \<forall>t \<in> T. \<not> mentions c t"
    using b unfolding proper_def by blast+
  have "\<forall>t \<in> T. t < next_obj ?s \<and> (\<forall>c \<in> set (behave ?s x). \<not> mentions c t)" using T n by simp
  then obtain s' qs' K' where r: "timer_calls_run (behave ?s x) ?s = Some s'" "moves cur T qs K ?s qs' K' s'"
    using timer_calls_moves [OF moves_tinv [OF m] c] by blast
  have "call_back behave x s = Some s'" using r(1) by (simp add: call_back_def Let_def)
  moreover have "calls s' = calls s @ [(x, idleStart s x, idleTimeout s x, tm_clock s)]" using calls_run_kept [OF r(1)] by simp
  ultimately show ?thesis using that moves_trans [OF m r(2)] by blast
qed

text \<open>
  What firing does to an item that no callback names: it stays as it was, or it was in the list \<open>l\<close>, is due
  at \<open>now\<close>, and is taken from the list and called if its callback is set.
\<close>

definition calls_of :: "nat \<Rightarrow> timer_state \<Rightarrow> (int \<times> jnum \<times> int) list" where
  "calls_of t s = map snd (filter (\<lambda>c. fst c = t) (calls s))"

definition expired :: "nat \<Rightarrow> int \<Rightarrow> int \<Rightarrow> nat \<Rightarrow> queues \<Rightarrow> timer_state \<Rightarrow> queues \<Rightarrow> timer_state \<Rightarrow> bool" where
  "expired l m now t qs s qs' s' \<longleftrightarrow>
     (\<exists>q. qs l = Some q \<and> t \<in> set q) \<and> m \<le> now - idleStart s t + 1 \<and>
     t \<notin> objects qs' \<and> onTimeout s' t = onTimeout s t \<and> idleStart s' t = idleStart s t \<and> idleTimeout s' t = idleTimeout s t \<and>
     (watchers s t = None \<longrightarrow> watchers s' t = None) \<and>
     (if onTimeout s t then \<exists>c \<ge> now. calls_of t s' = calls_of t s @ [(idleStart s t, idleTimeout s t, c)]
      else calls_of t s' = calls_of t s)"

definition item_left :: "nat \<Rightarrow> queues \<Rightarrow> timer_state \<Rightarrow> queues \<Rightarrow> timer_state \<Rightarrow> bool" where
  "item_left t qs s qs' s' \<longleftrightarrow> item_kept t qs s qs' s' \<and> calls_of t s' = calls_of t s"

lemma item_left_trans: "item_left t qs1 s1 qs2 s2 \<Longrightarrow> item_left t qs2 s2 qs3 s3 \<Longrightarrow> item_left t qs1 s1 qs3 s3"
  using item_kept_trans by (auto simp: item_left_def)

lemma held_in_list:
  assumes "tinv qs K cur s" and "held s t" and "t \<in> objects qs"
  obtains l q where "qs l = Some q" "t \<in> set q"
proof -
  have "K t = None" using held_object [OF assms(1,2)] by simp
  then have "qs t = None" using tinvD(2) [OF assms(1)] by (metis domIff)
  then show ?thesis using assms(3) that by (auto simp: objects_def)
qed

lemma one_list:
  assumes "tinv qs K cur s" and "qs l = Some q" "x \<in> set q" and "qs l' = Some q'" "x \<in> set q'"
  shows "l' = l"
  using lists_onD(2) [OF tinvD(1) [OF assms(1)] assms(4,2), of x] assms(3,5) by simp

lemma expired_after:
  assumes I: "tinv qs1 K1 cur1 s1" "tinv qs2 K2 cur2 s2" and h: "held s1 t"
    and k: "item_left t qs1 s1 qs2 s2" and e: "expired l m now t qs2 s2 qs3 s3"
  shows "expired l m now t qs1 s1 qs3 s3"
proof -
  obtain q2 where q2: "qs2 l = Some q2" "t \<in> set q2" using e by (auto simp: expired_def)
  then have "t \<in> objects qs1" using k objects_queue(1) [of qs2, OF q2] by (auto simp: item_left_def item_kept_def)
  then obtain l1 q1 where q1: "qs1 l1 = Some q1" "t \<in> set q1" by (rule held_in_list [OF I(1) h])
  then obtain q where "qs2 l1 = Some q" "t \<in> set q" using k unfolding item_left_def item_kept_def by blast
  then have "l1 = l" using one_list [OF I(2) q2] by blast
  then show ?thesis using q1 e k unfolding expired_def item_left_def item_kept_def by (simp split: if_splits)
qed

lemma expired_then_left:
  assumes "expired l m now t qs1 s1 qs2 s2" and "item_left t qs2 s2 qs3 s3"
  shows "expired l m now t qs1 s1 qs3 s3"
  using assms unfolding expired_def item_left_def item_kept_def by (simp split: if_splits)

text \<open>The end of the list and the wait for the next item.\<close>

lemma loop_end:
  assumes I: "tinv qs K (Some l) s" and l: "qs l = Some []" "K l = Some m"
  defines "s' \<equiv> (close_watcher l s)\<lparr>duration_lists := (duration_lists s)(m := None)\<rparr>"
  shows "tinv (qs(l := None)) (K(l := None)) None s'" and "later s s'"
    and "held s t \<Longrightarrow> item_left t qs s (qs(l := None)) s'"
proof -
  have o: "objects qs = insert l (objects (qs(l := None)))" by (rule objects_closed [where Q = qs, OF l(1)])
  note d = s'_def close_watcher_def
  show "tinv (qs(l := None)) (K(l := None)) None s'"
  proof (rule tinvI)
    show "lists_on (tm_links s') (qs(l := None))" using close_refines [OF tinvD(1) [OF I] l(1)] by (simp add: d)
    show "dom (K(l := None)) = dom (qs(l := None))" using tinvD(2) [OF I] by auto
    show "x < next_obj s'" if "x \<in> objects (qs(l := None)) \<or> native s' x \<or> onTimeout s' x \<or> held s' x" for x
      using that tinvD(3) [OF I, of x] by (auto simp: d o)
    show "\<exists>e. watchers s' k = Some (For_list n, e)" if "(K(l := None)) k = Some n" for k n
      using tinvD(6) [OF I, of k n] that by (auto simp: d split: if_splits)
    show "(K(l := None)) w = Some n \<and> None \<noteq> Some w" if "watchers s' w = Some (For_list n, e)" for w n e
      using that tinvD(8) [OF I, of w n e] by (auto simp: d split: if_splits)
    show "onTimeout s' w \<and> held s' w" if "watchers s' w = Some (k, e)" "k = For_timer \<or> k = For_interval" for w k e
      using that tinvD(9) [OF I, of w k e] by (auto simp: d split: if_splits)
    show "native s' w" if "watchers s' w = Some (k, e)" for w k e
      using that tinvD(7) [OF I, of w k e] by (auto simp: d split: if_splits)
    show "(K(l := None)) k = Some n" if "duration_lists s' n = Some k" for n k
      using that tinvD(10) [OF I, of n k] l(2) by (auto simp: d split: if_splits)
    show "idleTimeout s' x = (K(l := None)) k \<and> idleStart s' x \<le> tm_clock s'"
      if "(qs(l := None)) k = Some q" "x \<in> set q" for k q x
      using that tinvD(12) [OF I, of k q x] by (auto simp: d split: if_splits)
    show "sorted (map (idleStart s') q)" if "(qs(l := None)) k = Some q" for k q
      using that tinvD(11) [OF I, of k q] by (auto simp: d split: if_splits)
    show "\<not> held s' k \<and> 0 \<le> n" if "(K(l := None)) k = Some n" for k n
      using that tinvD(4,5) [OF I, of k n] by (auto simp: d split: if_splits)
  qed simp
  show "later s s'" by (simp add: later_def d)
  show "item_left t qs s (qs(l := None)) s'" if "held s t"
    using l(1) by (auto simp: item_left_def item_kept_def o d calls_of_def)
qed

lemma loop_wait:
  assumes I: "tinv qs K (Some l) s" and l: "K l = Some m" "native s l"
  shows "tinv qs K None (start_watcher l (For_list m) e s)" and "later s (start_watcher l (For_list m) e s)"
    and "held s t \<Longrightarrow> item_left t qs s qs (start_watcher l (For_list m) e s)"
proof -
  let ?s = "start_watcher l (For_list m) e s"
  show "tinv qs K None ?s"
  proof (rule tinvI)
    show "x < next_obj ?s" if "x \<in> objects qs \<or> native ?s x \<or> onTimeout ?s x \<or> held ?s x" for x
      using that tinvD(3) [OF I, of x] by (auto simp: start_watcher_def)
    show "\<exists>e. watchers ?s k = Some (For_list n, e)" if "K k = Some n" for k n
      using tinvD(6) [OF I that] that l by (auto simp: start_watcher_def)
    show "K w = Some n \<and> None \<noteq> Some w" if "watchers ?s w = Some (For_list n, e)" for w n e
      using that tinvD(8) [OF I, of w n e] l by (auto simp: start_watcher_def split: if_splits)
    show "onTimeout ?s w \<and> held ?s w" if "watchers ?s w = Some (k, e)" "k = For_timer \<or> k = For_interval" for w k e
      using that tinvD(9) [OF I, of w k e] by (auto simp: start_watcher_def split: if_splits)
    show "native ?s w" if "watchers ?s w = Some (k, e)" for w k e
      using that tinvD(7) [OF I, of w k e] l by (auto simp: start_watcher_def split: if_splits)
  qed (use tinvD(1,2,4,5,10-12) [OF I] in \<open>simp_all add: start_watcher_def\<close>)
  show "later s ?s" by (simp add: later_def start_watcher_def)
  have "t \<noteq> l" if "held s t" using tinvD(4) [OF I l(1)] that by auto
  then show "item_left t qs s qs ?s" if "held s t"
    using that by (auto simp: item_left_def item_kept_def start_watcher_def calls_of_def)
qed

text \<open>Taking the first item and calling it back.\<close>

definition loop_take :: "behaviour \<Rightarrow> nat \<Rightarrow> timer_state \<Rightarrow> timer_state option" where
  "loop_take behave x s =
     (let s1 = s\<lparr>tm_links := list_remove x (tm_links s)\<rparr> in if onTimeout s1 x then call_back behave x s1 else Some s1)"

lemma loop_step:
  assumes I: "tinv qs K (Some l) s" and l: "qs l = Some (x # q)" and due: "m \<le> now - idleStart s x + 1"
    and t: "now \<le> tm_clock s" and h: "all_held s" and b: "proper behave T" and T: "\<forall>t \<in> T. held s t"
  obtains s' qs' K' where "loop_take behave x s = Some s'" "tinv qs' K' (Some l) s'" "later s s'" "K' l = K l"
    "\<And>p y. qs' l = Some p \<Longrightarrow> y \<in> set p \<Longrightarrow> y \<in> set q \<and> idleStart s' y = idleStart s y \<or> tm_clock s \<le> idleStart s' y"
    "\<And>y. y \<in> T \<Longrightarrow> if y = x then expired l m now y qs s qs' s' else item_left y qs s qs' s'"
    "\<And>y. \<not> onTimeout s y \<Longrightarrow> calls_of y s' = calls_of y s"
proof -
  let ?s1 = "s\<lparr>tm_links := list_remove x (tm_links s)\<rparr>" and ?qs1 = "q_remove x qs"
  have qx: "qs x = None" using shift_refines(2) [OF tinvD(1) [OF I] l] .
  then have Kx: "K x = None" using tinvD(2) [OF I] by (metis domIff)
  have m1: "moves (Some l) (T - {x}) qs K s ?qs1 K ?s1" by (rule moves_remove [OF I Kx]) simp
  have out: "x \<notin> objects ?qs1" by (simp add: objects_remove [where Q = qs, OF qx])
  have Tn: "y < next_obj s" if "y \<in> T" for y using held_object [OF I] T that by blast
  have left1: "item_left y qs s ?qs1 ?s1" if "y \<in> T" "y \<noteq> x" for y
    using m1 that Tn [OF that(1)] by (auto simp: moves_def item_left_def calls_of_def)
  have q1: "set p \<subseteq> set q" if "?qs1 l = Some p" for p
    using that l by (auto simp: q_remove_def)
  show ?thesis
  proof (cases "onTimeout s x")
    case False
    have "loop_take behave x s = Some ?s1" using False by (simp add: loop_take_def)
    moreover have "if y = x then expired l m now y qs s ?qs1 ?s1 else item_left y qs s ?qs1 ?s1" if "y \<in> T" for y
      using left1 [OF that] out l due False by (auto simp: expired_def calls_of_def)
    moreover have "later s ?s1" by (simp add: later_def)
    ultimately show ?thesis using that [of ?s1 ?qs1 K] moves_tinv [OF m1] q1 by (force simp: calls_of_def)
  next
    case True
    have h1: "all_held ?s1" "onTimeout ?s1 x" using h True by (simp_all add: all_held_def)
    obtain s' qs' K' where c: "call_back behave x ?s1 = Some s'" "moves (Some l) T ?qs1 K ?s1 qs' K' s'"
      "calls s' = calls ?s1 @ [(x, idleStart ?s1 x, idleTimeout ?s1 x, tm_clock ?s1)]"
      using call_back_moves [OF moves_tinv [OF m1] h1(2,1) b] Tn by auto
    have calls: "calls_of y s' = (if y = x then calls_of y s @ [(idleStart s x, idleTimeout s x, tm_clock s)] else calls_of y s)" for y
      using c(3) by (simp add: calls_of_def)
    have k: "item_kept y ?qs1 ?s1 qs' s'" if "y \<in> T" for y using c(2) that Tn [OF that] by (simp add: moves_def)
    have "if y = x then expired l m now y qs s qs' s' else item_left y qs s qs' s'" if y: "y \<in> T" for y
    proof (cases "y = x")
      case True
      then show ?thesis using k [OF y] out l due t \<open>onTimeout s x\<close> calls [of x]
        by (auto simp: expired_def item_kept_def)
    next
      case False
      have "item_left y ?qs1 ?s1 qs' s'" using k [OF y] calls [of y] False by (simp add: item_left_def calls_of_def)
      then show ?thesis using item_left_trans [OF left1 [OF y False]] False by simp
    qed
    moreover have "y \<in> set q \<and> idleStart s' y = idleStart s y \<or> tm_clock s \<le> idleStart s' y"
      if "qs' l = Some p" "y \<in> set p" for p y
      using c(2) that q1 unfolding moves_def cur_kept_def by fastforce
    moreover have "later s s'" using m1 c(2) later_trans [of s ?s1 s'] by (simp add: moves_def)
    moreover have "K' l = K l" using c(2) by (simp add: moves_def)
    moreover have "loop_take behave x s = Some s'" using c(1) True by (simp add: loop_take_def)
    moreover have "calls_of y s' = calls_of y s" if "\<not> onTimeout s y" for y using calls [of y] that True by auto
    moreover note moves_tinv [OF c(2)]
    ultimately show ?thesis by - (rule that [of s' qs' K'], assumption+)
  qed
qed

lemma list_loop_Suc:
  assumes I: "tinv qs K cur s" and l: "qs l = Some q"
  shows "list_loop behave (Suc fuel) l m now s =
    (case q of [] \<Rightarrow> Some ((close_watcher l s)\<lparr>duration_lists := (duration_lists s)(m := None)\<rparr>)
     | x # _ \<Rightarrow> if now - idleStart s x + 1 < m then Some (start_watcher l (For_list m) (m - (now - idleStart s x)) s)
               else Option.bind (loop_take behave x s) (list_loop behave fuel l m now))"
  using ring_peek [OF lists_onD(1) [OF tinvD(1) [OF I] l]]
  by (simp add: loop_take_def Let_def split: list.splits)

lemma list_loop_keeps:
  assumes "list_loop behave fuel l m now s = Some s'" and "tinv qs K (Some l) s" and "K l = Some m" "native s l" "now \<le> tm_clock s"
    and "all_held s" "proper behave T" "\<forall>t \<in> T. held s t"
  shows "\<exists>qs' K'. tinv qs' K' None s' \<and> later s s' \<and>
    (\<forall>q x. qs' l = Some q \<longrightarrow> x \<in> set q \<longrightarrow> now - idleStart s' x + 1 < m) \<and>
    (\<forall>t \<in> T. item_left t qs s qs' s' \<or> expired l m now t qs s qs' s') \<and>
    (\<forall>t. \<not> onTimeout s t \<and> (t < next_obj s \<or> next_obj s' \<le> t) \<longrightarrow> calls_of t s' = calls_of t s)"
  using assms
proof (induction fuel arbitrary: qs K s)
  case (Suc fuel)
  note I = Suc.prems(2)
  obtain q where q: "qs l = Some q" using Suc.prems(3) tinvD(2) [OF I] by (metis domD domI)
  note step = list_loop_Suc [OF I q, of behave fuel m now]
  show ?case
  proof (cases q)
    case Nil
    then have "s' = (close_watcher l s)\<lparr>duration_lists := (duration_lists s)(m := None)\<rparr>"
      using Suc.prems(1) step by simp
    moreover have "qs l = Some []" using q Nil by simp
    note e = loop_end [OF I this Suc.prems(3)]
    moreover have "calls_of t ((close_watcher l s)\<lparr>duration_lists := (duration_lists s)(m := None)\<rparr>) = calls_of t s" for t
      by (simp add: calls_of_def close_watcher_def)
    ultimately show ?thesis using Suc.prems(8)
      by (intro exI [of _ "qs(l := None)"] exI [of _ "K(l := None)"]) (simp del: fun_upd_apply, simp)
  next
    case (Cons x p)
    show ?thesis
    proof (cases "now - idleStart s x + 1 < m")
      case True
      define s1 where "s1 = start_watcher l (For_list m) (m - (now - idleStart s x)) s"
      have "s' = s1" using Suc.prems(1) step Cons True by (simp add: s1_def)
      moreover note w = loop_wait [OF I Suc.prems(3,4), where e = "m - (now - idleStart s x)", folded s1_def]
      moreover have st: "idleStart s1 = idleStart s" "calls s1 = calls s" by (simp_all add: s1_def start_watcher_def)
      moreover have "now - idleStart s1 y + 1 < m" if "qs l = Some q'" "y \<in> set q'" for q' y
        using tinvD(11) [OF I q] that q Cons True by (fastforce simp: st)
      moreover have "calls_of t s1 = calls_of t s" for t by (simp add: calls_of_def st)
      ultimately show ?thesis using Suc.prems(8)
        by (intro exI [of _ qs] exI [of _ K]) blast
    next
      case False
      then have due: "m \<le> now - idleStart s x + 1" by simp
      have qx: "qs l = Some (x # p)" using q Cons by simp
      obtain s1 qs1 K1 where s1: "loop_take behave x s = Some s1" "tinv qs1 K1 (Some l) s1" "later s s1" "K1 l = K l"
        "\<And>y. y \<in> T \<Longrightarrow> if y = x then expired l m now y qs s qs1 s1 else item_left y qs s qs1 s1"
        "\<And>y. \<not> onTimeout s y \<Longrightarrow> calls_of y s1 = calls_of y s"
        using loop_step [OF I qx due Suc.prems(5,6,7,8)] by metis
      have "list_loop behave fuel l m now s1 = Some s'" using Suc.prems(1) step Cons False s1(1) by simp
      moreover have "native s1 l" "now \<le> tm_clock s1" "\<forall>t \<in> T. held s1 t"
        using s1(3) Suc.prems(4,5,8) by (auto simp: later_def)
      ultimately obtain qs' K' where ih: "tinv qs' K' None s'" "later s1 s'"
        "\<forall>q x. qs' l = Some q \<longrightarrow> x \<in> set q \<longrightarrow> now - idleStart s' x + 1 < m"
        "\<forall>t \<in> T. item_left t qs1 s1 qs' s' \<or> expired l m now t qs1 s1 qs' s'"
        "\<forall>t. \<not> onTimeout s1 t \<and> (t < next_obj s1 \<or> next_obj s' \<le> t) \<longrightarrow> calls_of t s' = calls_of t s1"
        using Suc.IH [OF _ s1(2)] s1(3,4) Suc.prems(3,7) later_held [OF s1(3) Suc.prems(6)] by auto
      have "item_left t qs s qs' s' \<or> expired l m now t qs s qs' s'" if t: "t \<in> T" for t
      proof (cases "t = x")
        case True
        then have e: "expired l m now t qs s qs1 s1" using s1(5) [OF t] by simp
        then have "\<not> expired l m now t qs1 s1 qs' s'" using objects_queue(1) [of qs1 l] by (auto simp: expired_def)
        then show ?thesis using ih(4) t expired_then_left [OF e] by blast
      next
        case False
        then have "item_left t qs s qs1 s1" using s1(5) [OF t] by simp
        then show ?thesis using ih(4) t item_left_trans expired_after [OF I s1(2)] Suc.prems(8) by blast
      qed
      moreover have "calls_of t s' = calls_of t s" if t: "\<not> onTimeout s t" "t < next_obj s \<or> next_obj s' \<le> t" for t
      proof -
        have n: "next_obj s \<le> next_obj s1" "next_obj s1 \<le> next_obj s'" using s1(3) ih(2) by (simp_all add: later_def)
        have "\<not> onTimeout s1 t"
        proof (cases "t < next_obj s")
          case True
          then show ?thesis using t(1) s1(3) unfolding later_def by blast
        next
          case False
          then have "\<not> t < next_obj s1" using t(2) n by simp
          then show ?thesis using tinvD(3) [OF s1(2), of t] by blast
        qed
        moreover have "t < next_obj s1 \<or> next_obj s' \<le> t" using t(2) n by auto
        ultimately have "\<not> onTimeout s1 t \<and> (t < next_obj s1 \<or> next_obj s' \<le> t)" by blast
        then show ?thesis using ih(5) s1(6) [OF t(1)] by simp
      qed
      ultimately show ?thesis using ih(1-3) later_trans [OF s1(3) ih(2)] by blast
    qed
  qed
qed simp

text \<open>A watcher that fires is stopped; that of a list is started again at the end of the loop.\<close>

lemma fired_stops:
  assumes I: "tinv qs K None s" and w: "watchers s w = Some (k, d)"
  shows "(\<And>m. k = For_list m \<Longrightarrow> tinv qs K (Some w) (close_watcher w s))"
    and "(k = For_timer \<or> k = For_interval) \<Longrightarrow> moves None {t. watchers s t = None} qs K s qs K (close_watcher w s)"
proof -
  let ?s = "close_watcher w s"
  have I': "tinv qs K cur ?s" if cur: "\<And>l. l = w \<Longrightarrow> K l \<noteq> None \<Longrightarrow> cur = Some l" "cur = None \<or> cur = Some w" "cur = Some w \<Longrightarrow> K w \<noteq> None" for cur
  proof (rule tinvI)
    show "x < next_obj ?s" if "x \<in> objects qs \<or> native ?s x \<or> onTimeout ?s x \<or> held ?s x" for x
      using that tinvD(3) [OF I, of x] by (auto simp: close_watcher_def)
    show "\<exists>d. watchers ?s l = Some (For_list n, d)" if "K l = Some n" "cur \<noteq> Some l" for l n
      using tinvD(6) [OF I, of l n] that cur(1) [of l] by (auto simp: close_watcher_def)
    show "K u = Some n \<and> cur \<noteq> Some u" if "watchers ?s u = Some (For_list n, d)" for u n d
      using that tinvD(8) [OF I, of u n d] cur(2) by (auto simp: close_watcher_def split: if_splits)
    show "onTimeout ?s u \<and> held ?s u" if "watchers ?s u = Some (k, d)" "k = For_timer \<or> k = For_interval" for u k d
      using that tinvD(9) [OF I, of u k d] by (auto simp: close_watcher_def split: if_splits)
    show "native ?s u" if "watchers ?s u = Some (k, d)" for u k d
      using that tinvD(7) [OF I, of u k d] by (auto simp: close_watcher_def split: if_splits)
    show "K c \<noteq> None" if "cur = Some c" for c using that cur(2,3) by auto
  qed (use tinvD(1,2,4,5,10-12) [OF I] in \<open>simp_all add: close_watcher_def\<close>)
  show "tinv qs K (Some w) ?s" if "k = For_list m" for m
    using tinvD(8) [OF I, of w m d] w that by (intro I') auto
  show "moves None {t. watchers s t = None} qs K s qs K ?s" if k: "k = For_timer \<or> k = For_interval"
  proof -
    have "K w = None"
    proof (rule ccontr)
      assume "K w \<noteq> None"
      then obtain m where m: "K w = Some m" by blast
      show False using tinvD(6) [OF I m] w k by auto
    qed
    then have "tinv qs K None ?s" by (intro I') auto
    then show ?thesis by (rule moves_same) (auto simp: later_def close_watcher_def)
  qed
qed

lemma fire_watcher_keeps:
  assumes f: "fire_watcher behave fuel w s = Some s'" and I: "tinv qs K None s" and h: "all_held s"
    and b: "proper behave T" and T: "\<forall>t \<in> T. held s t \<and> watchers s t = None"
  shows "\<exists>qs' K'. tinv qs' K' None s' \<and> later s s' \<and>
    (\<forall>t \<in> T. item_left t qs s qs' s' \<or>
       (\<exists>m d. watchers s w = Some (For_list m, d) \<and> expired w m (tm_clock s) t qs s qs' s')) \<and>
    (\<forall>m d q x. watchers s w = Some (For_list m, d) \<longrightarrow> qs' w = Some q \<longrightarrow> x \<in> set q \<longrightarrow> tm_clock s - idleStart s' x + 1 < m) \<and>
    (\<forall>t. \<not> onTimeout s t \<and> (t < next_obj s \<or> next_obj s' \<le> t) \<longrightarrow> calls_of t s' = calls_of t s)"
proof -
  obtain k d where w: "watchers s w = Some (k, d)" using f by (auto simp: fire_watcher_def split: option.splits)
  let ?s0 = "close_watcher w s"
  have st: "held ?s0 = held s" "onTimeout ?s0 = onTimeout s" "calls ?s0 = calls s" "tm_clock ?s0 = tm_clock s"
    "idleStart ?s0 = idleStart s" "idleTimeout ?s0 = idleTimeout s" "next_obj ?s0 = next_obj s" "native ?s0 = native s"
    "watchers ?s0 = (watchers s)(w := None)" by (simp_all add: close_watcher_def)
  have later0: "later s ?s0" by (simp add: later_def st)
  have h0: "all_held ?s0" using later_held [OF later0 h] .
  consider (list) m where "k = For_list m" | (single) "k = For_timer \<or> k = For_interval" by (cases k) auto
  then show ?thesis
  proof cases
    case list
    have "list_loop behave fuel w m (tm_clock s) ?s0 = Some s'" using f w list by (simp add: fire_watcher_def)
    moreover have I0: "tinv qs K (Some w) ?s0" using fired_stops(1) [OF I w list] .
    moreover have "K w = Some m" using tinvD(8) [OF I] w list by blast
    moreover have "native ?s0 w" "\<forall>t \<in> T. held ?s0 t" using tinvD(7) [OF I w] T by (simp_all add: st)
    ultimately obtain qs' K' where r: "tinv qs' K' None s'" "later ?s0 s'"
      "\<forall>q x. qs' w = Some q \<longrightarrow> x \<in> set q \<longrightarrow> tm_clock s - idleStart s' x + 1 < m"
      "\<forall>t \<in> T. item_left t qs ?s0 qs' s' \<or> expired w m (tm_clock s) t qs ?s0 qs' s'"
      "\<forall>t. \<not> onTimeout ?s0 t \<and> (t < next_obj ?s0 \<or> next_obj s' \<le> t) \<longrightarrow> calls_of t s' = calls_of t ?s0"
      using list_loop_keeps [OF _ I0, of behave fuel m "tm_clock s" s' T] h0 b by (auto simp: st)
    have eq: "calls_of t ?s0 = calls_of t s" for t by (simp add: calls_of_def st)
    have "watchers ?s0 t = None" if "t \<in> T" for t using T that by (simp add: st)
    then have "item_left t qs ?s0 qs' s' \<longleftrightarrow> item_left t qs s qs' s'"
      and "expired w m (tm_clock s) t qs ?s0 qs' s' \<longleftrightarrow> expired w m (tm_clock s) t qs s qs' s'" if "t \<in> T" for t
      using T that unfolding item_left_def item_kept_def expired_def eq st(1-6) by simp_all
    then have "item_left t qs s qs' s' \<or> expired w m (tm_clock s) t qs s qs' s'" if "t \<in> T" for t
      using r(4) that by blast
    moreover have "later s s'" by (rule later_trans [OF later0 r(2)])
    moreover have "\<forall>t. \<not> onTimeout s t \<and> (t < next_obj s \<or> next_obj s' \<le> t) \<longrightarrow> calls_of t s' = calls_of t s" using r(5) by (simp only: eq st)
    moreover have "\<forall>n e q x. watchers s w = Some (For_list n, e) \<longrightarrow> qs' w = Some q \<longrightarrow> x \<in> set q \<longrightarrow> tm_clock s - idleStart s' x + 1 < n"
      using r(3) w list by simp
    ultimately show ?thesis using r(1) w list by blast
  next
    case single
    note m0 = fired_stops(2) [OF I w single]
    have on: "onTimeout s w" using tinvD(9) [OF I w single] by simp
    have Tn: "\<forall>t \<in> T. t < next_obj s" using T held_object [OF I] by blast
    have nw: "t \<noteq> w" if "t \<in> T" for t using T that w by auto
    have le: "moves None T qs K s qs1 K1 s1 \<Longrightarrow> tinv qs1 K1 None s1 \<and> later s s1 \<and> (\<forall>t \<in> T. item_kept t qs s qs1 s1)" for qs1 K1 s1
      using Tn by (simp add: moves_def)
    have m0T: "moves None T qs K s qs K ?s0" using m0 T by (auto simp: moves_def)
    have "\<exists>qs' K'. moves None T qs K s qs' K' s' \<and> calls s' = calls s @ [(w, idleStart s w, idleTimeout s w, tm_clock s)]"
    proof (cases "k = For_interval")
      case True
      obtain s1 qs1 K1 where c: "call_back behave w s = Some s1" "moves None T qs K s qs1 K1 s1"
        "calls s1 = calls s @ [(w, idleStart s w, idleTimeout s w, tm_clock s)]"
        by (rule call_back_moves [OF I on h b Tn])
      then show ?thesis using f w True by (auto simp: fire_watcher_def)
    next
      case False
      then have k: "k = For_timer" using single by simp
      obtain s1 qs1 K1 where c: "call_back behave w ?s0 = Some s1" "moves None T qs K ?s0 qs1 K1 s1"
        "calls s1 = calls ?s0 @ [(w, idleStart ?s0 w, idleTimeout ?s0 w, tm_clock ?s0)]"
        by (rule call_back_moves [OF moves_tinv [OF m0] _ h0 b, of w]) (use on Tn in \<open>simp_all add: st\<close>)
      have s': "s' = close_watcher w s1" using f w k c(1) by (simp add: fire_watcher_def)
      have m1: "moves None T qs K s qs1 K1 s1" by (rule moves_trans [OF m0T c(2)])
      have "watchers s1 w = None \<or> (\<exists>k d. watchers s1 w = Some (k, d))" by (cases "watchers s1 w") auto
      moreover have "K1 w = None" using held_object [OF moves_tinv [OF m1], of w] le [OF m1] tinvD(9) [OF I w single]
        by (auto simp: later_def)
      ultimately have "moves None T qs1 K1 s1 qs1 K1 s'"
      proof (elim disjE exE)
        assume "watchers s1 w = None"
        then have "s' = s1" by (simp add: s' close_watcher_def fun_upd_idem)
        then show ?thesis using moves_refl [OF moves_tinv [OF m1]] by simp
      next
        fix k d assume v: "watchers s1 w = Some (k, d)" and K1: "K1 w = None"
        then have "k = For_timer \<or> k = For_interval" using tinvD(8) [OF moves_tinv [OF m1], of w _ d] by (cases k) auto
        then show ?thesis using fired_stops(2) [OF moves_tinv [OF m1] v] nw unfolding s'
          by (auto simp: moves_def item_kept_def close_watcher_def)
      qed
      moreover have "calls s' = calls s1" by (simp add: s' close_watcher_def)
      ultimately have "moves None T qs K s qs1 K1 s'" "calls s' = calls s @ [(w, idleStart s w, idleTimeout s w, tm_clock s)]"
        using moves_trans [OF m1] c(3) by (simp_all add: st)
      then show ?thesis by blast
    qed
    then obtain qs' K' where r: "moves None T qs K s qs' K' s'" "calls s' = calls s @ [(w, idleStart s w, idleTimeout s w, tm_clock s)]"
      by blast
    have "calls_of t s' = calls_of t s" if "t \<noteq> w" for t using r(2) that by (simp add: calls_of_def)
    moreover from this have "calls_of t s' = calls_of t s" if "\<not> onTimeout s t" for t using that on by metis
    ultimately show ?thesis using le [OF r(1)] nw w single by (intro exI [of _ qs'] exI [of _ K']) (auto simp: item_left_def)
  qed
qed

section \<open>The loop ends\<close>

text \<open>
  An item that a callback puts on the list starts at \<open>now\<close> or later and is not due: only the items that
  started before \<open>now\<close> are taken.  (Not so for a duration of at most one millisecond: an item is due one
  millisecond early.)
\<close>

lemma list_loop_returns:
  assumes "tinv qs K (Some l) s" and "qs l = Some q" "now \<le> tm_clock s" "2 \<le> m" "all_held s" "proper behave {}"
    and "card {x \<in> set q. idleStart s x < now} < fuel"
  shows "\<exists>s'. list_loop behave fuel l m now s = Some s'"
  using assms
proof (induction fuel arbitrary: qs K s q)
  case (Suc fuel)
  note I = Suc.prems(1)
  note step = list_loop_Suc [OF I Suc.prems(2), of behave fuel m now]
  show ?case
  proof (cases q)
    case (Cons x p)
    show ?thesis
    proof (cases "now - idleStart s x + 1 < m")
      case False
      then have due: "m \<le> now - idleStart s x + 1" by simp
      have qx: "qs l = Some (x # p)" using Suc.prems(2) Cons by simp
      obtain s1 qs1 K1 where s1: "loop_take behave x s = Some s1" "tinv qs1 K1 (Some l) s1" "later s s1" "K1 l = K l"
        "\<And>p' y. qs1 l = Some p' \<Longrightarrow> y \<in> set p' \<Longrightarrow> y \<in> set p \<and> idleStart s1 y = idleStart s y \<or> tm_clock s \<le> idleStart s1 y"
        using loop_step [OF I qx due Suc.prems(3,5,6)] by (metis empty_iff)
      have "K l \<noteq> None" using tinvD(13) [OF I] by simp
      then obtain p1 where p1: "qs1 l = Some p1" using s1(4) tinvD(2) [OF s1(2)] by (metis domD domI option.exhaust)
      have "distinct (x # p)" using lists_onD(1) [OF tinvD(1) [OF I] qx] by (simp add: ring_def)
      then have n: "x \<notin> set p" by simp
      have "{y \<in> set p1. idleStart s1 y < now} \<subseteq> {y \<in> set p. idleStart s y < now}"
        using s1(5) [OF p1] Suc.prems(3) by force
      also have "\<dots> \<subset> {y \<in> set q. idleStart s y < now}"
      proof (rule psubsetI)
        have "x \<in> {y \<in> set q. idleStart s y < now}" using due Suc.prems(4) Cons by simp
        then show "{y \<in> set p. idleStart s y < now} \<noteq> {y \<in> set q. idleStart s y < now}" using n by blast
      qed (use Cons in auto)
      finally have "card {y \<in> set p1. idleStart s1 y < now} < card {y \<in> set q. idleStart s y < now}"
        by (intro psubset_card_mono) auto
      then have "\<exists>s'. list_loop behave fuel l m now s1 = Some s'"
        using Suc.IH [OF s1(2) p1 _ Suc.prems(4) later_held [OF s1(3) Suc.prems(5)] Suc.prems(6)] Suc.prems(3,7) s1(3)
        by (simp add: later_def)
      then show ?thesis using step Cons False s1(1) by simp
    qed (use step Cons in simp)
  qed (use step in simp)
qed simp

lemma fire_returns:
  assumes I: "tinv qs K None s" and w: "watchers s w = Some (k, d)" and h: "all_held s" and b: "proper behave {}"
    and k: "\<And>m. k = For_list m \<Longrightarrow> 2 \<le> m"
  shows "\<exists>s'. fire_watcher behave (Suc (next_obj s)) w s = Some s'"
proof (cases k)
  case (For_list m)
  let ?s0 = "close_watcher w s"
  have I0: "tinv qs K (Some w) ?s0" using fired_stops(1) [OF I w For_list] .
  obtain q where q: "qs w = Some q" using tinvD(13,2) [OF I0] by (metis domD domIff)
  have "{x \<in> set q. idleStart ?s0 x < tm_clock s} \<subseteq> {..<next_obj s}"
    using objects_queue(1) [of qs, OF q] tinvD(3) [OF I] by auto
  then have "card {x \<in> set q. idleStart ?s0 x < tm_clock s} < Suc (next_obj s)"
    using card_mono [of "{..<next_obj s}"] by (metis card_lessThan finite_lessThan less_Suc_eq_le)
  moreover have "all_held ?s0" "tm_clock ?s0 = tm_clock s" using h by (simp_all add: all_held_def close_watcher_def)
  ultimately show ?thesis using list_loop_returns [OF I0 q _ k [OF For_list] _ b, of "tm_clock s"] w For_list
    by (simp add: fire_watcher_def del: list_loop.simps)
next
  case For_timer
  have "tinv qs K None (close_watcher w s)" using moves_tinv [OF fired_stops(2) [OF I w]] For_timer by simp
  moreover have "onTimeout (close_watcher w s) w" "all_held (close_watcher w s)"
    using tinvD(9) [OF I w] For_timer h by (simp_all add: close_watcher_def all_held_def)
  ultimately obtain s1 where "call_back behave w (close_watcher w s) = Some s1"
    using call_back_moves [OF _ _ _ b] by (metis empty_iff)
  then show ?thesis using w For_timer by (simp add: fire_watcher_def)
next
  case For_interval
  obtain s1 where "call_back behave w s = Some s1"
    using call_back_moves [OF I _ h b] tinvD(9) [OF I w] For_interval by (metis empty_iff)
  then show ?thesis using w For_interval by (simp add: fire_watcher_def)
qed

section \<open>Runs\<close>

text \<open>
  The program makes calls and the system fires watchers, in any order and at any time; the objects in
  \<open>A\<close> are left alone.
\<close>

inductive timer_run :: "behaviour \<Rightarrow> nat set \<Rightarrow> timer_state \<Rightarrow> timer_state \<Rightarrow> bool" for behave A where
  timer_stop: "timer_run behave A s s"
| timer_calls: "timer_run behave A s s1 \<Longrightarrow> calls_ok cs s1 \<Longrightarrow> \<forall>c \<in> set cs. \<forall>t \<in> A. \<not> mentions c t \<Longrightarrow>
    timer_calls_run cs s1 = Some s2 \<Longrightarrow> timer_run behave A s s2"
| timer_fire: "timer_run behave A s s1 \<Longrightarrow> fire_watcher behave fuel w s1 = Some s2 \<Longrightarrow> timer_run behave A s s2"

definition timer_ok :: "timer_state \<Rightarrow> bool" where
  "timer_ok s \<longleftrightarrow> (\<exists>qs K. tinv qs K None s) \<and> all_held s \<and> (\<forall>t \<ge> next_obj s. calls_of t s = [])"

text \<open>A timer that is set and left alone: waiting in a list, or called once.\<close>

definition waiting :: "nat \<Rightarrow> queues \<Rightarrow> timer_state \<Rightarrow> bool" where
  "waiting t qs s \<longleftrightarrow> onTimeout s t \<and> calls_of t s = [] \<and> (\<exists>l q. qs l = Some q \<and> t \<in> set q)"

definition called_once :: "nat \<Rightarrow> int \<Rightarrow> int \<Rightarrow> queues \<Rightarrow> timer_state \<Rightarrow> bool" where
  "called_once t m t0 qs s \<longleftrightarrow> t \<notin> objects qs \<and> (\<exists>c. calls_of t s = [(t0, Some m, c)] \<and> t0 + m - 1 \<le> c)"

definition timer_status :: "nat \<Rightarrow> int \<Rightarrow> int \<Rightarrow> queues \<Rightarrow> timer_state \<Rightarrow> bool" where
  "timer_status t m t0 qs s \<longleftrightarrow>
     held s t \<and> watchers s t = None \<and> idleStart s t = t0 \<and> idleTimeout s t = Some m \<and> (waiting t qs s \<or> called_once t m t0 qs s)"

lemma calls_of_kept: "timer_calls_run cs s = Some s' \<Longrightarrow> calls_of t s' = calls_of t s"
  by (simp add: calls_of_def calls_run_kept)

lemma status_left:
  assumes "timer_status t m t0 qs s" and "item_left t qs s qs' s'" and "later s s'"
  shows "timer_status t m t0 qs' s'"
proof -
  have k: "held s' t" "watchers s' t = None" "idleStart s' t = t0" "idleTimeout s' t = Some m" "onTimeout s' t = onTimeout s t"
    "calls_of t s' = calls_of t s" "t \<notin> objects qs \<Longrightarrow> t \<notin> objects qs'"
    using assms by (simp_all add: timer_status_def item_left_def item_kept_def later_def)
  have "waiting t qs' s'" if w: "waiting t qs s"
  proof -
    obtain l q where "qs l = Some q \<and> t \<in> set q" using w unfolding waiting_def by blast
    then have "\<exists>q'. qs' l = Some q' \<and> t \<in> set q'" using assms(2) unfolding item_left_def item_kept_def by blast
    then show ?thesis using w k unfolding waiting_def by auto
  qed
  moreover have "called_once t m t0 qs' s'" if "called_once t m t0 qs s" using that k by (simp add: called_once_def)
  ultimately show ?thesis using assms(1) k unfolding timer_status_def by blast
qed

lemma status_expired:
  assumes "timer_status t m t0 qs s" and "expired l n now t qs s qs' s'" and "later s s'" and "tinv qs K cur s" "K l = Some n"
  shows "timer_status t m t0 qs' s'" and "calls_of t s' \<noteq> []"
proof -
  obtain q where q: "qs l = Some q" "t \<in> set q" using assms(2) by (auto simp: expired_def)
  then have "n = m" using tinvD(12) [OF assms(4) q] assms(1,5) by (simp add: timer_status_def)
  moreover have "waiting t qs s"
    using objects_queue(1) [of qs, OF q] assms(1) by (auto simp: timer_status_def called_once_def)
  ultimately show "timer_status t m t0 qs' s'" "calls_of t s' \<noteq> []"
    using assms(1-3) by (auto simp: timer_status_def waiting_def called_once_def expired_def later_def)
qed

lemma ok_calls:
  assumes "timer_ok s" and "calls_ok cs s" and "timer_calls_run cs s = Some s'"
  shows "timer_ok s' \<and> later s s'"
proof -
  obtain qs K where I: "tinv qs K None s" using assms(1) by (auto simp: timer_ok_def)
  obtain qs' K' where "moves None {} qs K s qs' K' s'" using timer_calls_moves [OF I assms(2), of "{}"] assms(3) by auto
  then have m: "tinv qs' K' None s'" "later s s'" by (simp_all add: moves_def)
  then show ?thesis using assms(1) later_held [OF m(2)] calls_of_kept [OF assms(3)] by (auto simp: timer_ok_def later_def)
qed

lemma ok_fire:
  assumes "timer_ok s" and "proper behave {}" and "fire_watcher behave fuel w s = Some s'"
  shows "timer_ok s' \<and> later s s' \<and> (\<forall>t < next_obj s. \<not> onTimeout s t \<longrightarrow> calls_of t s' = calls_of t s)"
proof -
  obtain qs K where I: "tinv qs K None s" using assms(1) by (auto simp: timer_ok_def)
  obtain qs' K' where m: "tinv qs' K' None s'" "later s s'"
    "\<forall>t. \<not> onTimeout s t \<and> (t < next_obj s \<or> next_obj s' \<le> t) \<longrightarrow> calls_of t s' = calls_of t s"
    using fire_watcher_keeps [OF assms(3) I _ assms(2)] assms(1) by (auto simp: timer_ok_def)
  have "calls_of t s' = []" if "next_obj s' \<le> t" for t
  proof -
    have "next_obj s \<le> t" using that m(2) by (simp add: later_def)
    moreover from this have "\<not> onTimeout s t" using tinvD(3) [OF I, of t] by auto
    ultimately show ?thesis using m(3) that assms(1) by (simp add: timer_ok_def)
  qed
  then show ?thesis using m assms(1) later_held [OF m(2)] by (auto simp: timer_ok_def)
qed

lemma proper_none: "proper behave A \<Longrightarrow> proper behave {}"
  by (auto simp: proper_def)

lemma run_ok:
  "timer_run behave A s s' \<Longrightarrow> proper behave A \<Longrightarrow> timer_ok s \<Longrightarrow> timer_ok s' \<and> later s s'"
proof (induction rule: timer_run.induct)
  case (timer_calls s s1 cs s2)
  then show ?case using ok_calls [of s1 cs s2] later_trans [of s s1 s2] by blast
next
  case (timer_fire s s1 fuel w s2)
  then show ?case using ok_fire [OF _ proper_none, of s1 behave A fuel w s2] later_trans [of s s1 s2] by blast
qed simp

lemma init_ok: "timer_ok timers_init"
  using tinv_init by (auto simp: timer_ok_def all_held_def timers_init_def calls_of_def)

definition status_in :: "nat \<Rightarrow> int \<Rightarrow> int \<Rightarrow> timer_state \<Rightarrow> bool" where
  "status_in t m t0 s \<longleftrightarrow> (\<exists>qs K. tinv qs K None s \<and> timer_status t m t0 qs s)"

lemma status_calls:
  assumes "status_in t m t0 s" and c: "calls_ok cs s" "\<forall>c \<in> set cs. \<not> mentions c t" "timer_calls_run cs s = Some s'"
  shows "status_in t m t0 s'"
proof -
  obtain qs K where I: "tinv qs K None s" and st: "timer_status t m t0 qs s" using assms(1) by (auto simp: status_in_def)
  have t: "t < next_obj s" using st held_object [OF I] by (simp add: timer_status_def)
  then have "\<forall>x \<in> {t}. x < next_obj s \<and> (\<forall>c \<in> set cs. \<not> mentions c x)" using c(2) by simp
  then obtain qs' K' where m: "moves None {t} qs K s qs' K' s'" using timer_calls_moves [OF I c(1), of "{t}"] c(3) by auto
  then have "item_left t qs s qs' s'" "later s s'" using t calls_of_kept [OF c(3)] by (simp_all add: moves_def item_left_def)
  then show ?thesis using status_left [OF st] moves_tinv [OF m] by (auto simp: status_in_def)
qed

lemma status_fire:
  assumes "status_in t m t0 s" and h: "all_held s" "proper behave {t}" and f: "fire_watcher behave fuel w s = Some s'"
  shows "status_in t m t0 s'"
    and "watchers s w = Some (For_list m, d) \<Longrightarrow> t0 + m - 1 \<le> tm_clock s \<Longrightarrow>
      (\<exists>qs K q. tinv qs K None s \<and> timer_status t m t0 qs s \<and> qs w = Some q \<and> t \<in> set q) \<Longrightarrow> calls_of t s' \<noteq> []"
proof -
  have both: "tinv qs K None s \<Longrightarrow> timer_status t m t0 qs s \<Longrightarrow> status_in t m t0 s' \<and>
      (\<forall>d q. watchers s w = Some (For_list m, d) \<and> t0 + m - 1 \<le> tm_clock s \<and> qs w = Some q \<and> t \<in> set q \<longrightarrow> calls_of t s' \<noteq> [])" for qs K
  proof -
    assume I: "tinv qs K None s" and st: "timer_status t m t0 qs s"
    have T: "\<forall>x \<in> {t}. held s x \<and> watchers s x = None" using st by (simp add: timer_status_def)
    obtain qs' K' where r: "tinv qs' K' None s'" "later s s'"
      "item_left t qs s qs' s' \<or> (\<exists>n d. watchers s w = Some (For_list n, d) \<and> expired w n (tm_clock s) t qs s qs' s')"
      "\<forall>n d q x. watchers s w = Some (For_list n, d) \<longrightarrow> qs' w = Some q \<longrightarrow> x \<in> set q \<longrightarrow> tm_clock s - idleStart s' x + 1 < n"
      using fire_watcher_keeps [OF f I h(1,2) T] by auto
    from r(3) show ?thesis
    proof
      assume left: "item_left t qs s qs' s'"
      have "t0 + m - 1 \<le> tm_clock s \<Longrightarrow> False" if "watchers s w = Some (For_list m, d)" "qs w = Some q" "t \<in> set q" for d q
      proof -
        obtain q' where "qs' w = Some q'" "t \<in> set q'" using left \<open>qs w = Some q\<close> \<open>t \<in> set q\<close>
          unfolding item_left_def item_kept_def by blast
        then have "tm_clock s - idleStart s' t + 1 < m" using r(4) \<open>watchers s w = Some (For_list m, d)\<close> by blast
        moreover have "idleStart s' t = t0" using left st by (simp add: item_left_def item_kept_def timer_status_def)
        moreover assume "t0 + m - 1 \<le> tm_clock s"
        ultimately show False by simp
      qed
      then show ?thesis using status_left [OF st left r(2)] r(1) by (auto simp: status_in_def)
    next
      assume "\<exists>n d. watchers s w = Some (For_list n, d) \<and> expired w n (tm_clock s) t qs s qs' s'"
      then obtain n d where e: "watchers s w = Some (For_list n, d)" "expired w n (tm_clock s) t qs s qs' s'" by blast
      have "K w = Some n" using tinvD(8) [OF I e(1)] by simp
      note status_expired [OF st e(2) r(2) I this]
      then show ?thesis using r(1) by (auto simp: status_in_def)
    qed
  qed
  show "status_in t m t0 s'" using assms(1) both by (auto simp: status_in_def)
  show "calls_of t s' \<noteq> []" if "watchers s w = Some (For_list m, d)" "t0 + m - 1 \<le> tm_clock s"
    "\<exists>qs K q. tinv qs K None s \<and> timer_status t m t0 qs s \<and> qs w = Some q \<and> t \<in> set q"
    using that both by blast
qed

lemma status_run:
  "timer_run behave {t} s s' \<Longrightarrow> proper behave {t} \<Longrightarrow> timer_ok s \<Longrightarrow> status_in t m t0 s \<Longrightarrow> status_in t m t0 s'"
proof (induction rule: timer_run.induct)
  case (timer_calls s s1 cs s2)
  then show ?case using status_calls [of t m t0 s1 cs s2] by simp
next
  case (timer_fire s s1 fuel w s2)
  then show ?case using status_fire(1) [of t m t0 s1 behave fuel w s2] run_ok [of behave "{t}" s s1] by (simp add: timer_ok_def)
qed simp

lemma setTimeout_fields:
  assumes "setTimeout (Some m) s = Some s'" and "0 < m" and "watchers s (next_obj s) = None"
  defines "t \<equiv> next_obj s"
  shows "held s' t" "onTimeout s' t" "watchers s' t = None" "calls s' = calls s"
  using assms(1-3) by (auto simp: t_def setTimeout_def timer_active_def timer_insert_def list_for_def timer_append_def
      new_timer_def start_watcher_def Let_def split: if_splits option.splits prod.splits)

lemma setTimeout_status:
  assumes ok: "timer_ok s" and set: "setTimeout (Some m) s = Some s'" "0 < m"
  shows "timer_ok s'" and "status_in (next_obj s) m (tm_clock s) s'"
proof -
  have c: "timer_calls_run [Set_timeout (Some m)] s = Some s'" using set by simp
  show "timer_ok s'" using ok_calls [OF ok _ c] by (auto split: option.split)
  obtain qs K where I: "tinv qs K None s" using ok by (auto simp: timer_ok_def)
  obtain qs' K' where m: "moves None {} qs K s qs' K' s'" "queued (next_obj s) m (tm_clock s) qs' K' s'"
    using setTimeout_moves [OF I, of "{}" "Some m"] set by auto
  have "watchers s (next_obj s) = None"
  proof (rule ccontr)
    assume "watchers s (next_obj s) \<noteq> None"
    then obtain k d where "watchers s (next_obj s) = Some (k, d)" by auto
    then show False using tinvD(7) [OF I, of "next_obj s"] tinvD(3) [OF I, of "next_obj s"] by blast
  qed
  note f = setTimeout_fields [OF set this]
  have "calls_of (next_obj s) s' = []" using ok f(4) by (simp add: timer_ok_def calls_of_def)
  moreover obtain l q where q: "qs' l = Some q" "next_obj s \<in> set q" "K' l = Some m" using m(2) by (auto simp: queued_def)
  moreover have "idleTimeout s' (next_obj s) = Some m" using tinvD(12) [OF moves_tinv [OF m(1)] q(1,2)] q(3) by simp
  ultimately have "timer_status (next_obj s) m (tm_clock s) qs' s'"
    using f m(2) by (auto simp: timer_status_def waiting_def queued_def)
  then show "status_in (next_obj s) m (tm_clock s) s'" using moves_tinv [OF m(1)] by (auto simp: status_in_def)
qed

section \<open>Properties\<close>

text \<open>
  C25: A timer that was cleared is never called again: whatever the program and its callbacks do, and
  whenever watchers fire, the calls of its callback stay those before \<open>clearTimeout\<close> (or \<open>clearInterval\<close>,
  for a native timer).
\<close>

theorem cleared_timer_never_called:
  assumes "timer_run behave {} timers_init s" and "proper behave {}" and "held s t"
    and "s1 = clearTimeout t s \<or> native s t \<and> s1 = clearInterval t s" and "timer_run behave {} s1 s2"
  shows "calls_of t s2 = calls_of t s"
proof -
  have ok: "timer_ok s" using run_ok [OF assms(1,2) init_ok] by simp
  obtain c where c: "call_ok c s" "timer_call_step c s = Some s1" "\<not> onTimeout s1 t"
    using assms(3,4) that [of "Clear_timeout t"] that [of "Clear_interval t"]
    by (auto simp: clearTimeout_def clearInterval_def close_watcher_def unenroll_def Let_def split: option.splits)
  then have ok1: "timer_ok s1" "later s s1" and same: "calls_of t s1 = calls_of t s"
    using ok_calls [OF ok, of "[c]" s1] calls_of_kept [of "[c]" s s1 t] by (auto split: option.splits)
  have "t < next_obj s1" using ok assms(3) held_object ok1(2) unfolding timer_ok_def later_def by fastforce
  with assms(5) ok1(1) c(3) have "timer_ok s2 \<and> t < next_obj s2 \<and> \<not> onTimeout s2 t \<and> calls_of t s2 = calls_of t s1"
  proof (induction rule: timer_run.induct)
    case (timer_calls s s1 cs s2)
    then show ?case using ok_calls [of s1 cs s2] calls_of_kept [of cs s1 s2 t] unfolding later_def by auto
  next
    case (timer_fire s s1 fuel w s2)
    then show ?case using ok_fire [of s1 behave fuel w s2] assms(2) unfolding later_def by auto
  qed simp
  then show ?thesis using same by simp
qed

text \<open>
  C27: The loop over a list ends, whatever the callbacks do: for a duration of at least two milliseconds
  no more items are taken than there are objects, so that firing any watcher returns.
\<close>

theorem timer_loop_ends:
  assumes "timer_run behave {} timers_init s" and "proper behave {}" and "watchers s w = Some (k, d)"
    and "\<forall>m. k = For_list m \<longrightarrow> 2 \<le> m"
  shows "\<exists>s'. fire_watcher behave (Suc (next_obj s)) w s = Some s'"
proof -
  have "timer_ok s" using run_ok [OF assms(1,2) init_ok] by simp
  then show ?thesis using fire_returns [OF _ assms(3) _ assms(2)] assms(4) by (auto simp: timer_ok_def)
qed

text \<open>
  A timer set for \<open>m\<close> milliseconds and then left alone is called at most once, not earlier than \<open>m - 1\<close>
  milliseconds after it was set, with the start and duration it was given.
\<close>

theorem timer_called_at_most_once:
  assumes "timer_run behave {} timers_init s" and "proper behave {next_obj s}"
    and "setTimeout (Some m) s = Some s1" "0 < m" and "timer_run behave {next_obj s} s1 s2"
  shows "calls_of (next_obj s) s2 = [] \<or>
    (\<exists>c. calls_of (next_obj s) s2 = [(tm_clock s, Some m, c)] \<and> tm_clock s + m - 1 \<le> c)"
proof -
  have "timer_ok s" using run_ok [OF assms(1) proper_none [OF assms(2)] init_ok] by simp
  note st = setTimeout_status [OF this assms(3,4)]
  have "status_in (next_obj s) m (tm_clock s) s2" by (rule status_run [OF assms(5,2) st])
  then show ?thesis by (auto simp: status_in_def timer_status_def waiting_def called_once_def)
qed

text \<open>
  C26: A timer set for at least two milliseconds and left alone is called when its time has come: as long as it
  was not called the watcher of its list is active, and when the watcher fires at a time when the timer is
  due, the loop returns and has called it.
\<close>

theorem due_timer_called:
  assumes "timer_run behave {} timers_init s" and "proper behave {next_obj s}"
    and "setTimeout (Some m) s = Some s1" "2 \<le> m" and "timer_run behave {next_obj s} s1 s2"
    and "calls_of (next_obj s) s2 = []" and "tm_clock s + m - 1 \<le> tm_clock s2"
  shows "\<exists>w d s3. watchers s2 w = Some (For_list m, d) \<and>
    fire_watcher behave (Suc (next_obj s2)) w s2 = Some s3 \<and> calls_of (next_obj s) s3 \<noteq> []"
proof -
  have "timer_ok s" using run_ok [OF assms(1) proper_none [OF assms(2)] init_ok] by simp
  note st = setTimeout_status [OF this assms(3)]
  have "status_in (next_obj s) m (tm_clock s) s2" using status_run [OF assms(5,2)] st assms(4) by simp
  then obtain qs K where I: "tinv qs K None s2" and t: "timer_status (next_obj s) m (tm_clock s) qs s2"
    by (auto simp: status_in_def)
  then obtain w q where w: "qs w = Some q" "next_obj s \<in> set q"
    using assms(6) by (auto simp: timer_status_def waiting_def called_once_def)
  then have "K w = Some m" using tinvD(12) [OF I w] t by (simp add: timer_status_def)
  then obtain d where d: "watchers s2 w = Some (For_list m, d)" using tinvD(6) [OF I] by auto
  have h: "all_held s2" using run_ok [OF assms(5,2)] st(1) assms(4) by (simp add: timer_ok_def)
  obtain s3 where f: "fire_watcher behave (Suc (next_obj s2)) w s2 = Some s3"
    using fire_returns [OF I d h proper_none [OF assms(2)]] assms(4) by auto
  have "status_in (next_obj s) m (tm_clock s) s2" using I t by (auto simp: status_in_def)
  then have "calls_of (next_obj s) s3 \<noteq> []" using status_fire(2) [OF _ h assms(2) f d assms(7)] I t w by blast
  then show ?thesis using d f by blast
qed

section \<open>Concrete runs\<close>

definition after_calls :: "timer_call list \<Rightarrow> timer_state" where
  "after_calls cs = the (timer_calls_run cs timers_init)"

lemma run_calls:
  assumes "timer_calls_run cs s \<noteq> None" and "calls_ok cs s" and "\<forall>c \<in> set cs. \<forall>t \<in> A. \<not> mentions c t"
  shows "timer_run behave A s (the (timer_calls_run cs s))"
  using timer_calls [OF timer_stop assms(2,3)] assms(1) by auto

lemma run_fire:
  assumes "timer_run behave A s s1" and "fire_watcher behave fuel w s1 \<noteq> None"
  shows "timer_run behave A s (the (fire_watcher behave fuel w s1))"
  using timer_fire [OF assms(1)] assms(2) by auto

text \<open>A program that sets another timer in each callback.\<close>

definition set_again :: behaviour where
  "set_again s t = [Set_timeout (Some 5)]"

lemma proper_set_again: "proper set_again T"
  by (simp add: proper_def set_again_def split: option.split)

lemma two_timers: "timer_run set_again {} timers_init (after_calls [Set_timeout (Some 5), Set_timeout (Some 5)])"
  unfolding after_calls_def by (rule run_calls) (code_simp | simp)+

theorem cleared_timer_never_called_witness:
  "let s = after_calls [Set_timeout (Some 5), Set_timeout (Some 5)];
       s1 = the (timer_calls_run [Wait 9] (clearTimeout 0 s));
       s2 = the (fire_watcher set_again 9 1 s1)
   in calls_of 0 s2 = [] \<and> calls_of 2 s2 = [(0, Some 5, 9)]"
proof -
  let ?s = "after_calls [Set_timeout (Some 5), Set_timeout (Some 5)]"
  let ?s1 = "the (timer_calls_run [Wait 9] (clearTimeout 0 ?s))" and ?s2 = "the (fire_watcher set_again 9 1
    (the (timer_calls_run [Wait 9] (clearTimeout 0 ?s))))"
  have "timer_run set_again {} (clearTimeout 0 ?s) ?s1" by (rule run_calls) (code_simp | simp)+
  then have r: "timer_run set_again {} (clearTimeout 0 ?s) ?s2" by (rule run_fire) code_simp
  have "held ?s 0" "calls_of 0 ?s = []" "calls_of 2 ?s2 = [(0, Some 5, 9)]" by code_simp+
  then show ?thesis using cleared_timer_never_called [OF two_timers proper_set_again _ _ r, of 0] by (simp add: Let_def)
qed

theorem timer_loop_ends_witness:
  "\<exists>s'. fire_watcher set_again 4 1 (after_calls [Set_timeout (Some 5), Set_timeout (Some 5)]) = Some s'"
proof -
  have "watchers (after_calls [Set_timeout (Some 5), Set_timeout (Some 5)]) 1 = Some (For_list 5, 5)"
    "next_obj (after_calls [Set_timeout (Some 5), Set_timeout (Some 5)]) = 3" by code_simp+
  then show ?thesis using timer_loop_ends [OF two_timers proper_set_again, of 1 "For_list 5" 5] by simp
qed

lemma one_timer:
  "setTimeout (Some 5) timers_init = Some (after_calls [Set_timeout (Some 5)])"
  "timer_run set_again {0} (after_calls [Set_timeout (Some 5)]) (the (timer_calls_run [Wait 7] (after_calls [Set_timeout (Some 5)])))"
proof -
  have "setTimeout (Some 5) timers_init \<noteq> None" by code_simp
  then show "setTimeout (Some 5) timers_init = Some (after_calls [Set_timeout (Some 5)])" by (auto simp: after_calls_def)
  show "timer_run set_again {0} (after_calls [Set_timeout (Some 5)]) (the (timer_calls_run [Wait 7] (after_calls [Set_timeout (Some 5)])))"
    by (rule run_calls) (code_simp | simp)+
qed

theorem timer_called_at_most_once_witness:
  "\<exists>c \<ge> 4. calls_of 0 (the (fire_watcher set_again 9 1 (the (timer_calls_run [Wait 7] (after_calls [Set_timeout (Some 5)]))))) =
     [(0, Some 5, c)]"
proof -
  have n: "next_obj timers_init = 0" "tm_clock timers_init = 0" by code_simp+
  have r: "timer_run set_again {next_obj timers_init} (after_calls [Set_timeout (Some 5)])
      (the (fire_watcher set_again 9 1 (the (timer_calls_run [Wait 7] (after_calls [Set_timeout (Some 5)])))))"
    unfolding n by (rule run_fire [OF one_timer(2)]) code_simp
  have "calls_of 0 (the (fire_watcher set_again 9 1 (the (timer_calls_run [Wait 7] (after_calls [Set_timeout (Some 5)]))))) \<noteq> []"
    by code_simp
  then show ?thesis using timer_called_at_most_once [OF timer_stop proper_set_again one_timer(1) _ r] n by auto
qed

theorem due_timer_called_witness:
  "\<exists>w d s3. watchers (the (timer_calls_run [Wait 7] (after_calls [Set_timeout (Some 5)]))) w = Some (For_list 5, d) \<and>
     fire_watcher set_again 3 w (the (timer_calls_run [Wait 7] (after_calls [Set_timeout (Some 5)]))) = Some s3 \<and>
     calls_of 0 s3 \<noteq> []"
proof -
  let ?s = "the (timer_calls_run [Wait 7] (after_calls [Set_timeout (Some 5)]))"
  have n: "next_obj timers_init = 0" "tm_clock timers_init = 0" "next_obj ?s = 2" "calls_of 0 ?s = []" "tm_clock ?s = 7" by code_simp+
  show ?thesis using due_timer_called [OF timer_stop proper_set_again one_timer(1) _ one_timer(2) [folded n(1)]] n by simp
qed

text \<open>
  A callback that clears the last timer of its list and sets a new one: the end of the loop deletes the
  new list from \<open>lists\<close>, so that clearing the new timer no longer stops its watcher.
\<close>

definition renew :: behaviour where
  "renew s t = (if t = 0 then [Clear_timeout 2, Set_timeout (Some 5)] else [])"

theorem new_list_forgotten:
  "let s = the (fire_watcher renew 9 1 (after_calls [Set_timeout (Some 5), Set_timeout (Some 5), Wait 7]));
       s1 = clearTimeout 3 s
   in calls_of 0 s = [(0, Some 5, 7)] \<and> duration_lists s 5 = None \<and> watchers s1 4 = Some (For_list 5, 5) \<and>
      list_isEmpty 4 (tm_links s1)"
  by code_simp

end
