(* ===== verification/Events.thy ===== *)
theory Events
  imports JsString
begin

text \<open>
  Event emitters (\<open>src/lib/events.js\<close>).  Functions are numbers; what a listener does is a parameter, the
  operations it makes on the emitter, which may emit again.  Names that every object has (\<open>toString\<close>)
  are outside the model.  The specification keeps a list of listeners for every type of event.
\<close>

section \<open>State\<close>

text \<open>
  \<open>_events[type]\<close>: nothing, \<open>null\<close>, one function, or an array with its \<open>warned\<close> mark.  An \<open>_events\<close> that is
  not there behaves as an empty one.  \<open>ev_once\<close> tells of a function that \<open>once\<close> made the type and the
  listener it stands for; \<open>ev_log\<close> observes the calls and \<open>ev_warnings\<close> the messages on the console.
\<close>

datatype slot = Absent | Null | Fn nat | Arr "nat list" bool

datatype ev_arg = Type_arg jstring | Fn_arg nat | Arg nat

datatype ev_entry = Called nat "ev_arg list" | Fired nat

record emitter =
  ev_slots :: "jstring \<Rightarrow> slot"
  ev_max :: "jnum option"
  ev_once :: "nat \<Rightarrow> (jstring \<times> nat) option"
  ev_next :: nat
  ev_log :: "ev_entry list"
  ev_warnings :: "(jstring \<times> nat) list"

text \<open>What programs and listeners do; \<open>None\<close> as a listener is something that is no function.\<close>

datatype ev_op =
    Add_listener jstring "nat option" | Once_listener jstring "nat option" | Remove_listener jstring "nat option"
  | Remove_all "jstring option" | Get_listeners jstring | Set_max jnum | Emit jstring "ev_arg list" | Fail

datatype ev_out = Thrown | Done bool

type_synonym ev_behaviour = "nat \<Rightarrow> ev_arg list \<Rightarrow> ev_entry list \<Rightarrow> ev_op list"

section \<open>The code\<close>

definition upd_slot :: "jstring \<Rightarrow> slot \<Rightarrow> emitter \<Rightarrow> emitter" where
  "upd_slot type v s = s\<lparr>ev_slots := (ev_slots s)(type := v)\<rparr>"

text \<open>\<open>list[i] === listener || list[i].listener === listener\<close>\<close>

definition is_listener :: "(nat \<Rightarrow> (jstring \<times> nat) option) \<Rightarrow> nat \<Rightarrow> nat \<Rightarrow> bool" where
  "is_listener once f g \<longleftrightarrow> g = f \<or> (case once g of None \<Rightarrow> False | Some (_, l) \<Rightarrow> l = f)"

fun position :: "('a \<Rightarrow> bool) \<Rightarrow> 'a list \<Rightarrow> nat option" where
  "position P [] = None"
| "position P (x # xs) = (if P x then Some 0 else map_option Suc (position P xs))"

definition removeListener :: "jstring \<Rightarrow> nat \<Rightarrow> emitter \<Rightarrow> emitter" where
  "removeListener type f s =
     (case ev_slots s type of
        Arr list w \<Rightarrow>
          (case position (is_listener (ev_once s) f) list of
             None \<Rightarrow> s
           | Some i \<Rightarrow>
               (let list' = take i list @ drop (Suc i) list
                in upd_slot type (if list' = [] then Absent else Arr list' w) s))
      | Fn g \<Rightarrow> if is_listener (ev_once s) f g then upd_slot type Absent s else s
      | _ \<Rightarrow> s)"

definition removeAllListeners :: "jstring option \<Rightarrow> emitter \<Rightarrow> emitter" where
  "removeAllListeners type s =
     (case type of
        None \<Rightarrow> s\<lparr>ev_slots := \<lambda>_. Absent\<rparr>
      | Some t \<Rightarrow>
          if t \<noteq> [] \<and> ev_slots s t \<noteq> Absent \<and> ev_slots s t \<noteq> Null then upd_slot t Null s else s)"

definition ev_listeners :: "jstring \<Rightarrow> emitter \<Rightarrow> emitter" where
  "ev_listeners type s =
     (case ev_slots s type of
        Arr list w \<Rightarrow> s
      | Fn f \<Rightarrow> upd_slot type (Arr [f] False) s
      | _ \<Rightarrow> upd_slot type (Arr [] False) s)"

definition add_slot :: "jstring \<Rightarrow> nat \<Rightarrow> emitter \<Rightarrow> emitter" where
  "add_slot type f s =
     upd_slot type (case ev_slots s type of Arr list w \<Rightarrow> Arr (list @ [f]) w | Fn g \<Rightarrow> Arr [g, f] False | _ \<Rightarrow> Fn f) s"

definition check_leak :: "jstring \<Rightarrow> emitter \<Rightarrow> emitter" where
  "check_leak type s =
     (case ev_slots s type of
        Arr list False \<Rightarrow>
          (case (case ev_max s of None \<Rightarrow> Some 10 | Some n \<Rightarrow> n) of
             Some m \<Rightarrow>
               if m > 0 \<and> int (length list) > m
               then (upd_slot type (Arr list True) s)\<lparr>ev_warnings := ev_warnings s @ [(type, length list)]\<rparr> else s
           | None \<Rightarrow> s)
      | _ \<Rightarrow> s)"

definition no_handler :: "slot \<Rightarrow> bool" where
  "no_handler v \<longleftrightarrow> v = Absent \<or> v = Null \<or> (\<exists>w. v = Arr [] w)"

lemma no_handler_code [code]:
  "no_handler v = (case v of Absent \<Rightarrow> True | Null \<Rightarrow> True | Fn f \<Rightarrow> False | Arr list w \<Rightarrow> list = [])"
  by (auto simp: no_handler_def split: slot.splits)

text \<open>
  The calls.  The fuel bounds how deep listeners call each other; without enough of it the result is
  \<open>None\<close>.  An exception ends the emission and everything around it: \<open>ev_seq\<close> does one thing after the
  other, up to the first exception.
\<close>

type_synonym ev_res = "(ev_out \<times> emitter) option"

fun ev_then :: "(ev_out \<times> 's) option \<Rightarrow> ('s \<Rightarrow> (ev_out \<times> 's) option) \<Rightarrow> (ev_out \<times> 's) option" where
  "ev_then None k = None"
| "ev_then (Some (Thrown, s)) k = Some (Thrown, s)"
| "ev_then (Some (Done b, s)) k = k s"

fun ev_seq :: "('a \<Rightarrow> 's \<Rightarrow> (ev_out \<times> 's) option) \<Rightarrow> 'a list \<Rightarrow> 's \<Rightarrow> (ev_out \<times> 's) option" where
  "ev_seq f [] s = Some (Done True, s)"
| "ev_seq f (x # xs) s = ev_then (f x s) (ev_seq f xs)"

definition listener_of :: "(nat \<Rightarrow> (jstring \<times> nat) option) \<Rightarrow> nat \<Rightarrow> nat" where
  "listener_of once f = (case once f of None \<Rightarrow> f | Some (_, l) \<Rightarrow> l)"

function (sequential) ev_call :: "ev_behaviour \<Rightarrow> nat \<Rightarrow> nat \<Rightarrow> ev_arg list \<Rightarrow> emitter \<Rightarrow> ev_res"
  and ev_emit :: "ev_behaviour \<Rightarrow> nat \<Rightarrow> jstring \<Rightarrow> ev_arg list \<Rightarrow> emitter \<Rightarrow> ev_res"
  and addListener :: "ev_behaviour \<Rightarrow> nat \<Rightarrow> jstring \<Rightarrow> nat \<Rightarrow> emitter \<Rightarrow> ev_res"
  and ev_step :: "ev_behaviour \<Rightarrow> nat \<Rightarrow> ev_op \<Rightarrow> emitter \<Rightarrow> ev_res" where
  "ev_call behave 0 f args s = None"
| "ev_call behave (Suc n) f args s =
     (case ev_once s f of
        None \<Rightarrow>
          (let log = ev_log s @ [Called f args]
           in ev_seq (ev_step behave n) (behave f args log) (s\<lparr>ev_log := log\<rparr>))
      | Some (type, l) \<Rightarrow> ev_call behave n l args (removeListener type f (s\<lparr>ev_log := ev_log s @ [Fired f]\<rparr>)))"
| "ev_emit behave 0 type args s = None"
| "ev_emit behave (Suc n) type args s =
     (if type = S ''error'' \<and> no_handler (ev_slots s type) then Some (Thrown, s)
      else
        (case ev_slots s type of
           Fn f \<Rightarrow> ev_then (ev_call behave n f args s) (\<lambda>s1. Some (Done True, s1))
         | Arr fs w \<Rightarrow> ev_seq (\<lambda>f. ev_call behave n f args) fs s
         | _ \<Rightarrow> Some (Done False, s)))"
| "addListener behave 0 type f s = None"
| "addListener behave (Suc n) type f s =
     ev_then (ev_emit behave n (S ''newListener'') [Type_arg type, Fn_arg (listener_of (ev_once s) f)] s)
       (\<lambda>s1. Some (Done True, check_leak type (add_slot type f s1)))"
| "ev_step behave 0 op s = None"
| "ev_step behave (Suc n) op s =
     (case op of
        Add_listener type None \<Rightarrow> Some (Thrown, s)
      | Add_listener type (Some f) \<Rightarrow> addListener behave n type f s
      | Once_listener type None \<Rightarrow> Some (Thrown, s)
      | Once_listener type (Some f) \<Rightarrow>
          addListener behave n type (ev_next s)
            (s\<lparr>ev_once := (ev_once s)(ev_next s \<mapsto> (type, f)), ev_next := Suc (ev_next s)\<rparr>)
      | Remove_listener type None \<Rightarrow> Some (Thrown, s)
      | Remove_listener type (Some f) \<Rightarrow> Some (Done True, removeListener type f s)
      | Remove_all type \<Rightarrow> Some (Done True, removeAllListeners type s)
      | Get_listeners type \<Rightarrow> Some (Done True, ev_listeners type s)
      | Set_max m \<Rightarrow> Some (Done True, s\<lparr>ev_max := Some m\<rparr>)
      | Emit type args \<Rightarrow> ev_emit behave n type args s
      | Fail \<Rightarrow> Some (Thrown, s))"
  by pat_completeness auto
termination
  by (relation "measure (case_sum (case_sum (\<lambda>(_, n, _). n) (\<lambda>(_, n, _). n)) (case_sum (\<lambda>(_, n, _). n) (\<lambda>(_, n, _). n)))")
    simp_all

definition ev_run :: "ev_behaviour \<Rightarrow> nat \<Rightarrow> ev_op list \<Rightarrow> emitter \<Rightarrow> ev_res" where
  "ev_run behave n = ev_seq (ev_step behave n)"

definition ev_init :: "nat \<Rightarrow> emitter" where
  "ev_init base =
     \<lparr>ev_slots = \<lambda>_. Absent, ev_max = None, ev_once = \<lambda>_. None, ev_next = base, ev_log = [], ev_warnings = []\<rparr>"

section \<open>The specification\<close>

record spec_emitter =
  sp_lists :: "jstring \<Rightarrow> nat list"
  sp_once :: "nat \<Rightarrow> (jstring \<times> nat) option"
  sp_next :: nat
  sp_log :: "ev_entry list"

fun remove_first :: "('a \<Rightarrow> bool) \<Rightarrow> 'a list \<Rightarrow> 'a list" where
  "remove_first P [] = []"
| "remove_first P (x # xs) = (if P x then xs else x # remove_first P xs)"

definition sp_upd :: "jstring \<Rightarrow> (nat list \<Rightarrow> nat list) \<Rightarrow> spec_emitter \<Rightarrow> spec_emitter" where
  "sp_upd type g s = s\<lparr>sp_lists := (sp_lists s)(type := g (sp_lists s type))\<rparr>"

definition sp_remove :: "jstring \<Rightarrow> nat \<Rightarrow> spec_emitter \<Rightarrow> spec_emitter" where
  "sp_remove type f s = sp_upd type (remove_first (is_listener (sp_once s) f)) s"

definition sp_remove_all :: "jstring option \<Rightarrow> spec_emitter \<Rightarrow> spec_emitter" where
  "sp_remove_all type s =
     (case type of None \<Rightarrow> s\<lparr>sp_lists := \<lambda>_. []\<rparr> | Some t \<Rightarrow> if t \<noteq> [] then sp_upd t (\<lambda>_. []) s else s)"

type_synonym sp_res = "(ev_out \<times> spec_emitter) option"

function (sequential) sp_call :: "ev_behaviour \<Rightarrow> nat \<Rightarrow> nat \<Rightarrow> ev_arg list \<Rightarrow> spec_emitter \<Rightarrow> sp_res"
  and sp_emit :: "ev_behaviour \<Rightarrow> nat \<Rightarrow> jstring \<Rightarrow> ev_arg list \<Rightarrow> spec_emitter \<Rightarrow> sp_res"
  and sp_add :: "ev_behaviour \<Rightarrow> nat \<Rightarrow> jstring \<Rightarrow> nat \<Rightarrow> spec_emitter \<Rightarrow> sp_res"
  and sp_step :: "ev_behaviour \<Rightarrow> nat \<Rightarrow> ev_op \<Rightarrow> spec_emitter \<Rightarrow> sp_res" where
  "sp_call behave 0 f args s = None"
| "sp_call behave (Suc n) f args s =
     (case sp_once s f of
        None \<Rightarrow>
          (let log = sp_log s @ [Called f args]
           in ev_seq (sp_step behave n) (behave f args log) (s\<lparr>sp_log := log\<rparr>))
      | Some (type, l) \<Rightarrow> sp_call behave n l args (sp_remove type f (s\<lparr>sp_log := sp_log s @ [Fired f]\<rparr>)))"
| "sp_emit behave 0 type args s = None"
| "sp_emit behave (Suc n) type args s =
     (if type = S ''error'' \<and> sp_lists s type = [] then Some (Thrown, s)
      else ev_seq (\<lambda>f. sp_call behave n f args) (sp_lists s type) s)"
| "sp_add behave 0 type f s = None"
| "sp_add behave (Suc n) type f s =
     ev_then (sp_emit behave n (S ''newListener'') [Type_arg type, Fn_arg (listener_of (sp_once s) f)] s)
       (\<lambda>s1. Some (Done True, sp_upd type (\<lambda>l. l @ [f]) s1))"
| "sp_step behave 0 op s = None"
| "sp_step behave (Suc n) op s =
     (case op of
        Add_listener type (Some f) \<Rightarrow> sp_add behave n type f s
      | Once_listener type (Some f) \<Rightarrow>
          sp_add behave n type (sp_next s)
            (s\<lparr>sp_once := (sp_once s)(sp_next s \<mapsto> (type, f)), sp_next := Suc (sp_next s)\<rparr>)
      | Remove_listener type (Some f) \<Rightarrow> Some (Done True, sp_remove type f s)
      | Remove_all type \<Rightarrow> Some (Done True, sp_remove_all type s)
      | Get_listeners type \<Rightarrow> Some (Done True, s)
      | Set_max m \<Rightarrow> Some (Done True, s)
      | Emit type args \<Rightarrow> sp_emit behave n type args s
      | _ \<Rightarrow> Some (Thrown, s))"
  by pat_completeness auto
termination
  by (relation "measure (case_sum (case_sum (\<lambda>(_, n, _). n) (\<lambda>(_, n, _). n)) (case_sum (\<lambda>(_, n, _). n) (\<lambda>(_, n, _). n)))")
    simp_all

definition sp_init :: "nat \<Rightarrow> spec_emitter" where
  "sp_init base = \<lparr>sp_lists = \<lambda>_. [], sp_once = \<lambda>_. None, sp_next = base, sp_log = []\<rparr>"

section \<open>The code refines it\<close>

definition slot_list :: "slot \<Rightarrow> nat list" where
  "slot_list v = (case v of Absent \<Rightarrow> [] | Null \<Rightarrow> [] | Fn f \<Rightarrow> [f] | Arr fs w \<Rightarrow> fs)"

definition abs_em :: "emitter \<Rightarrow> spec_emitter" where
  "abs_em s = \<lparr>sp_lists = \<lambda>t. slot_list (ev_slots s t), sp_once = ev_once s, sp_next = ev_next s, sp_log = ev_log s\<rparr>"

text \<open>Of a result: the abstract state and whether it is an exception.\<close>

definition abs_res :: "ev_res \<Rightarrow> sp_res" where
  "abs_res = map_option (\<lambda>(r, s). (case r of Thrown \<Rightarrow> Thrown | Done _ \<Rightarrow> Done True, abs_em s))"

lemma abs_res_simps [simp]:
  "abs_res None = None" "abs_res (Some (Thrown, s)) = Some (Thrown, abs_em s)" "abs_res (Some (Done b, s)) = Some (Done True, abs_em s)"
  by (simp_all add: abs_res_def)

lemma abs_em_simps [simp]:
  "sp_lists (abs_em s) t = slot_list (ev_slots s t)" "sp_once (abs_em s) = ev_once s" "sp_next (abs_em s) = ev_next s"
  "sp_log (abs_em s) = ev_log s" "abs_em (s\<lparr>ev_log := l\<rparr>) = (abs_em s)\<lparr>sp_log := l\<rparr>" "abs_em (s\<lparr>ev_max := m\<rparr>) = abs_em s"
  "abs_em (s\<lparr>ev_once := onc, ev_next := k\<rparr>) = (abs_em s)\<lparr>sp_once := onc, sp_next := k\<rparr>"
  by (simp_all add: abs_em_def)

lemma abs_then:
  assumes "\<And>s1. abs_res (k s1) = k' (abs_em s1)"
  shows "abs_res (ev_then r k) = ev_then (abs_res r) k'"
proof (cases r)
  case (Some x)
  obtain out s where "x = (out, s)" by (cases x)
  then show ?thesis using Some assms by (cases out) simp_all
qed simp

lemma abs_seq:
  assumes "\<And>x s. abs_res (f x s) = g x (abs_em s)"
  shows "abs_res (ev_seq f xs s) = ev_seq g xs (abs_em s)"
proof (induction xs arbitrary: s)
  case (Cons x xs)
  have "abs_res (ev_seq f (x # xs) s) = ev_then (abs_res (f x s)) (ev_seq g xs)"
    unfolding ev_seq.simps by (rule abs_then) (rule Cons.IH)
  then show ?case by (simp add: assms)
qed simp

lemma abs_upd: "abs_em (upd_slot t v s) = sp_upd t (\<lambda>_. slot_list v) (abs_em s)"
  by (auto simp: abs_em_def upd_slot_def sp_upd_def fun_eq_iff)

lemma sp_upd_same: "g (sp_lists s t) = sp_lists s t \<Longrightarrow> sp_upd t g s = s"
  by (simp add: sp_upd_def fun_upd_idem)

lemma sp_upd_cong: "g (sp_lists s t) = h (sp_lists s t) \<Longrightarrow> sp_upd t g s = sp_upd t h s"
  by (simp add: sp_upd_def)

lemma remove_position:
  "remove_first P xs = (case position P xs of None \<Rightarrow> xs | Some i \<Rightarrow> take i xs @ drop (Suc i) xs)"
  by (induction xs) (auto split: option.splits)

lemma abs_remove: "abs_em (removeListener t f s) = sp_remove t f (abs_em s)"
proof (cases "ev_slots s t")
  case (Arr fs w)
  show ?thesis
  proof (cases "position (is_listener (ev_once s) f) fs")
    case None
    then show ?thesis using Arr
      by (simp add: removeListener_def sp_remove_def sp_upd_same slot_list_def remove_position)
  next
    case (Some i)
    have "slot_list (if xs = [] then Absent else Arr xs w) = xs" for xs by (simp add: slot_list_def)
    then have "abs_em (removeListener t f s) = sp_upd t (\<lambda>_. take i fs @ drop (Suc i) fs) (abs_em s)"
      using Arr Some by (simp add: removeListener_def abs_upd Let_def del: append_is_Nil_conv)
    also have "\<dots> = sp_remove t f (abs_em s)"
      unfolding sp_remove_def using Arr Some by (intro sp_upd_cong) (simp add: slot_list_def remove_position)
    finally show ?thesis .
  qed
qed (auto simp: removeListener_def sp_remove_def sp_upd_same slot_list_def abs_upd intro!: sp_upd_cong)

lemma abs_remove_all: "abs_em (removeAllListeners t s) = sp_remove_all t (abs_em s)"
proof (cases t)
  case (Some t')
  show ?thesis
    by (auto simp: Some removeAllListeners_def sp_remove_all_def abs_upd slot_list_def sp_upd_same)
qed (simp add: removeAllListeners_def sp_remove_all_def abs_em_def slot_list_def)

lemma abs_listeners: "abs_em (ev_listeners t s) = abs_em s"
  by (cases "ev_slots s t") (simp_all add: ev_listeners_def abs_upd sp_upd_same slot_list_def)

lemma abs_add_slot: "abs_em (add_slot t f s) = sp_upd t (\<lambda>l. l @ [f]) (abs_em s)"
  unfolding add_slot_def abs_upd by (intro sp_upd_cong) (cases "ev_slots s t"; simp add: slot_list_def)

lemma abs_check_leak: "abs_em (check_leak t s) = abs_em s"
proof -
  have w: "abs_em (x\<lparr>ev_warnings := y\<rparr>) = abs_em x" for x y by (simp add: abs_em_def)
  have "abs_em (upd_slot t (Arr fs True) s) = abs_em s" if "ev_slots s t = Arr fs False" for fs
    using that by (simp add: abs_upd sp_upd_same slot_list_def)
  then show ?thesis by (auto simp: check_leak_def w split: slot.split bool.split option.split)
qed

lemma no_handler_list: "no_handler v \<longleftrightarrow> slot_list v = []"
  by (auto simp: no_handler_code slot_list_def split: slot.splits)

lemma code_refines:
  "abs_res (ev_call behave n f args s) = sp_call behave n f args (abs_em s)"
  "abs_res (ev_emit behave n type args s) = sp_emit behave n type args (abs_em s)"
  "abs_res (addListener behave n type f s) = sp_add behave n type f (abs_em s)"
  "abs_res (ev_step behave n op s) = sp_step behave n op (abs_em s)"
proof (induction n arbitrary: f args s type op)
  case (Suc n)
  { case 1
    show ?case
      by (simp add: Suc abs_seq [where g = "sp_step behave n"] abs_remove Let_def split: option.split)
  next
    case 2
    have "(\<lambda>s1. Some (Done True, s1)) = ev_seq (\<lambda>f. sp_call behave n f args) []" by (rule ext) simp
    then have then_seq: "ev_then (sp_call behave n f args s') (\<lambda>s1. Some (Done True, s1)) = ev_seq (\<lambda>f. sp_call behave n f args) [f] s'" for f s'
      by simp
    have "abs_res (ev_then (ev_call behave n f args s) (\<lambda>s1. Some (Done True, s1))) = ev_seq (\<lambda>f. sp_call behave n f args) [f] (abs_em s)" for f
      unfolding then_seq [symmetric] Suc(1) [symmetric] by (rule abs_then) simp
    moreover note seq = abs_seq [where g = "\<lambda>f. sp_call behave n f args", OF Suc(1)]
    ultimately show ?case
      by (cases "ev_slots s type"; cases "type = S ''error''")
        (simp_all add: no_handler_list slot_list_def seq del: ev_seq.simps(2))
  next
    case 3
    show ?case
      using abs_then [of "\<lambda>s1. Some (Done True, check_leak type (add_slot type f s1))" "\<lambda>s1. Some (Done True, sp_upd type (\<lambda>l. l @ [f]) s1)"]
      by (simp add: Suc abs_check_leak abs_add_slot)
  next
    case 4
    show ?case
      by (simp add: Suc abs_remove abs_remove_all abs_listeners split: ev_op.split option.split)
  }
qed simp_all

lemma abs_init: "abs_em (ev_init base) = sp_init base"
  by (simp add: abs_em_def ev_init_def sp_init_def slot_list_def)

text \<open>
  C31: The three ways to store listeners (none, one function, an array) and the marks on them are not seen:
  any program with any listeners, which may add, remove and emit while events are emitted, makes on the
  emitter the calls and gets the exceptions it gets when every type of event has a plain list.
\<close>

theorem emitter_is_lists:
  "abs_res (ev_run behave n ops (ev_init base)) = ev_seq (sp_step behave n) ops (sp_init base)"
  using abs_seq [of "ev_step behave n" "sp_step behave n", OF code_refines(4)] by (simp add: ev_run_def abs_init)

end
