(* ===== verification/OnceListeners.thy ===== *)
theory OnceListeners
  imports Events
begin

text \<open>
  Listeners registered with \<open>once\<close> (\<open>src/lib/events.js\<close>): called at most once as long as no listener emits
  the same type again, and what happens when one does.  The proofs are about the lists of the
  specification, which the code refines.
\<close>

section \<open>Listeners for one event\<close>

text \<open>
  Functions below \<open>base\<close> are those of the program, the others are made by \<open>once\<close>.  \<open>own\<close>: a function made
  by \<open>once\<close> is only registered for its type.  \<open>fired\<close> counts its calls, \<open>listed\<close> how often it is registered.
\<close>

definition own :: "nat \<Rightarrow> spec_emitter \<Rightarrow> bool" where
  "own base s \<longleftrightarrow> base \<le> sp_next s \<and>
     (\<forall>h t f. sp_once s h = Some (t, f) \<longrightarrow> base \<le> h \<and> h < sp_next s \<and> f < base) \<and>
     (\<forall>t. \<forall>x \<in> set (sp_lists s t). x < base \<or> (\<exists>f. sp_once s x = Some (t, f)))"

definition fired :: "nat \<Rightarrow> spec_emitter \<Rightarrow> nat" where
  "fired h s = length (filter (\<lambda>e. e = Fired h) (sp_log s))"

definition listed :: "nat \<Rightarrow> jstring \<Rightarrow> spec_emitter \<Rightarrow> nat" where
  "listed h t s = count_list (sp_lists s t) h"

text \<open>Operations that name functions of the program only, and do not emit \<open>ty\<close>.\<close>

fun plain_op :: "nat \<Rightarrow> ev_op \<Rightarrow> bool" where
  "plain_op base (Add_listener t (Some f)) \<longleftrightarrow> f < base"
| "plain_op base (Once_listener t (Some f)) \<longleftrightarrow> f < base"
| "plain_op base (Remove_listener t (Some f)) \<longleftrightarrow> f < base"
| "plain_op base op \<longleftrightarrow> True"

definition emits :: "jstring \<Rightarrow> ev_op \<Rightarrow> bool" where
  "emits ty op \<longleftrightarrow> (\<exists>args. op = Emit ty args)"

text \<open>
  What holds after something that does not emit \<open>ty\<close>: of the listeners made for it by \<open>once\<close> none was
  called, and none but those in \<open>X\<close> was added, apart from new ones.
\<close>

definition keeps :: "jstring \<Rightarrow> nat set \<Rightarrow> spec_emitter \<Rightarrow> spec_emitter \<Rightarrow> bool" where
  "keeps ty X s s' \<longleftrightarrow> sp_next s \<le> sp_next s' \<and> (\<forall>h < sp_next s. sp_once s' h = sp_once s h) \<and>
     (\<forall>h f. h < sp_next s \<and> sp_once s h = Some (ty, f) \<longrightarrow>
        fired h s' = fired h s \<and> (h \<notin> X \<longrightarrow> listed h ty s' \<le> listed h ty s)) \<and>
     (\<forall>h \<ge> sp_next s. (sp_next s' \<le> h \<longrightarrow> fired h s' = fired h s) \<and>
        (\<forall>f. sp_once s' h = Some (ty, f) \<longrightarrow> fired h s' = fired h s \<and> listed h ty s' \<le> 1))"

definition once_inv :: "nat \<Rightarrow> jstring \<Rightarrow> spec_emitter \<Rightarrow> bool" where
  "once_inv base ty s \<longleftrightarrow> own base s \<and> (\<forall>h f. sp_once s h = Some (ty, f) \<longrightarrow> fired h s + listed h ty s \<le> 1) \<and>
     (\<forall>h \<ge> sp_next s. fired h s = 0)"

lemma ownD:
  assumes "own base s"
  shows "sp_once s h = Some (t, f) \<Longrightarrow> base \<le> h \<and> h < sp_next s \<and> f < base"
    and "x \<in> set (sp_lists s t) \<Longrightarrow> x < base \<or> (\<exists>f. sp_once s x = Some (t, f))" and "base \<le> sp_next s"
  using assms unfolding own_def by blast+

lemma once_keeps_refl [simp]: "own base s \<Longrightarrow> keeps ty X s s"
  using ownD(1) [of base s] by (fastforce simp: keeps_def)

lemma once_keeps_trans:
  assumes "keeps ty {} s1 s2" and "keeps ty {} s2 s3"
  shows "keeps ty {} s1 s3"
proof -
  have n: "sp_next s1 \<le> sp_next s2" "sp_next s2 \<le> sp_next s3" using assms by (simp_all add: keeps_def)
  have "fired h s3 = fired h s1 \<and> listed h ty s3 \<le> listed h ty s1" if "h < sp_next s1" "sp_once s1 h = Some (ty, f)" for h f
    using assms that n unfolding keeps_def by (metis empty_iff le_trans order_less_le_trans)
  moreover have "sp_once s3 h = sp_once s1 h" if "h < sp_next s1" for h
    using assms that n unfolding keeps_def by (metis order_less_le_trans)
  moreover have "fired h s3 = fired h s1" if "sp_next s1 \<le> h" "sp_next s3 \<le> h" for h
    using assms that n unfolding keeps_def by (metis le_trans)
  moreover have "fired h s3 = fired h s1 \<and> listed h ty s3 \<le> 1" if h: "sp_next s1 \<le> h" "sp_once s3 h = Some (ty, f)" for h f
  proof (cases "h < sp_next s2")
    case True
    then have o2: "sp_once s2 h = Some (ty, f)" using assms(2) h(2) by (simp add: keeps_def)
    then have "fired h s2 = fired h s1 \<and> listed h ty s2 \<le> 1" using assms(1) h(1) by (simp add: keeps_def)
    moreover have "fired h s3 = fired h s2 \<and> listed h ty s3 \<le> listed h ty s2" using assms(2) True o2 by (simp add: keeps_def)
    ultimately show ?thesis by simp
  next
    case False
    then show ?thesis using assms h unfolding keeps_def by (metis linorder_not_less)
  qed
  ultimately show ?thesis using n by (simp add: keeps_def)
qed

lemma keeps_inv:
  assumes "once_inv base ty s" and "keeps ty {} s s'" and "own base s'"
  shows "once_inv base ty s'"
proof -
  have "fired h s' + listed h ty s' \<le> 1" if o: "sp_once s' h = Some (ty, f)" for h f
  proof (cases "h < sp_next s")
    case True
    then have "sp_once s h = Some (ty, f)" using assms(2) o by (simp add: keeps_def)
    moreover from this True have "fired h s' = fired h s \<and> listed h ty s' \<le> listed h ty s" using assms(2) by (simp add: keeps_def)
    moreover have "fired h s + listed h ty s \<le> 1" using assms(1) calculation(1) by (auto simp: once_inv_def)
    ultimately show ?thesis by simp
  next
    case False
    then have "fired h s = 0" "fired h s' = fired h s \<and> listed h ty s' \<le> 1" using assms(1,2) o by (auto simp: once_inv_def keeps_def)
    then show ?thesis by simp
  qed
  moreover have "fired h s' = 0" if "sp_next s' \<le> h" for h
    using assms(1,2) that by (auto simp: once_inv_def keeps_def)
  ultimately show ?thesis using assms(3) by (simp add: once_inv_def)
qed

lemma then_Some:
  assumes "ev_then r k = Some (out, s')"
  obtains "r = Some (Thrown, s')" "out = Thrown" | b s1 where "r = Some (Done b, s1)" "k s1 = Some (out, s')"
proof (cases r)
  case None
  then show ?thesis using assms by simp
next
  case (Some x)
  then show ?thesis using assms that by (cases x; cases "fst x") auto
qed

lemma keeps_seq:
  assumes "\<And>x s out s'. own base s \<Longrightarrow> ok x s \<Longrightarrow> f x s = Some (out, s') \<Longrightarrow> own base s' \<and> keeps ty {} s s'"
    and "\<And>x s s'. ok x s \<Longrightarrow> own base s \<Longrightarrow> keeps ty {} s s' \<Longrightarrow> ok x s'"
  shows "own base s \<Longrightarrow> \<forall>x \<in> set xs. ok x s \<Longrightarrow> ev_seq f xs s = Some (out, s') \<Longrightarrow> own base s' \<and> keeps ty {} s s'"
proof (induction xs arbitrary: s)
  case (Cons x xs)
  from Cons.prems(3) have "ev_then (f x s) (ev_seq f xs) = Some (out, s')" by simp
  then show ?case
  proof (cases rule: then_Some)
    case 1
    then show ?thesis using assms(1) [OF Cons.prems(1)] Cons.prems(2) by auto
  next
    case (2 b s1)
    have k: "own base s1 \<and> keeps ty {} s s1" using assms(1) [OF Cons.prems(1) _ 2(1)] Cons.prems(2) by simp
    then have "\<forall>x \<in> set xs. ok x s1" using assms(2) Cons.prems(1,2) by auto
    then show ?thesis using Cons.IH [of s1] k 2(2) once_keeps_trans by blast
  qed
qed simp

subsection \<open>Single changes\<close>

lemma remove_first_subset: "set (remove_first P xs) \<subseteq> set xs"
  by (induction xs) auto

lemma count_remove_first: "count_list (remove_first P xs) x \<le> count_list xs x"
  by (induction xs) auto

lemma sp_upd_fields [simp]:
  "sp_once (sp_upd t g s) = sp_once s" "sp_next (sp_upd t g s) = sp_next s" "fired h (sp_upd t g s) = fired h s"
  "sp_log (sp_upd t g s) = sp_log s" "sp_lists (sp_upd t g s) = (sp_lists s)(t := g (sp_lists s t))"
  by (simp_all add: sp_upd_def fired_def)

lemma upd_keeps:
  assumes "own base s" and "set (g (sp_lists s t)) \<subseteq> set (sp_lists s t)" and "\<And>h. count_list (g (sp_lists s t)) h \<le> count_list (sp_lists s t) h"
  shows "own base (sp_upd t g s) \<and> keeps ty {} s (sp_upd t g s)"
proof
  show "own base (sp_upd t g s)" using assms(1,2) unfolding own_def by (simp add: subset_iff)
  show "keeps ty {} s (sp_upd t g s)"
    using assms(3) ownD(1) [OF assms(1)] by (fastforce simp: keeps_def listed_def)
qed

lemma remove_keeps: "own base s \<Longrightarrow> own base (sp_remove t f s) \<and> keeps ty {} s (sp_remove t f s)"
  unfolding sp_remove_def by (rule upd_keeps) (simp_all add: remove_first_subset count_remove_first)

lemma remove_all_keeps: "own base s \<Longrightarrow> own base (sp_remove_all t s) \<and> keeps ty {} s (sp_remove_all t s)"
proof (cases t)
  case None
  assume o: "own base s"
  have "own base (s\<lparr>sp_lists := \<lambda>_. []\<rparr>)" using o by (auto simp: own_def)
  moreover have "keeps ty {} s (s\<lparr>sp_lists := \<lambda>_. []\<rparr>)"
    using ownD(1) [OF o] by (fastforce simp: keeps_def listed_def fired_def)
  ultimately show ?thesis using None by (simp add: sp_remove_all_def)
next
  case (Some t')
  assume "own base s"
  then show ?thesis using Some upd_keeps [of base s "\<lambda>_. []" t' ty] by (simp add: sp_remove_all_def)
qed

lemma log_keeps:
  assumes o: "own base s" and e: "\<And>h f. e = Fired h \<Longrightarrow> h < sp_next s \<and> sp_once s h \<noteq> Some (ty, f)"
  shows "own base (s\<lparr>sp_log := sp_log s @ [e]\<rparr>) \<and> keeps ty {} s (s\<lparr>sp_log := sp_log s @ [e]\<rparr>)"
proof
  show "own base (s\<lparr>sp_log := sp_log s @ [e]\<rparr>)" using o by (simp add: own_def)
  have "fired h (s\<lparr>sp_log := sp_log s @ [e]\<rparr>) = fired h s" if "h \<ge> sp_next s \<or> sp_once s h = Some (ty, f)" for h f
    using e [of h f] that by (auto simp: fired_def)
  then show "keeps ty {} s (s\<lparr>sp_log := sp_log s @ [e]\<rparr>)"
    using ownD(1) [OF o] by (fastforce simp: keeps_def listed_def)
qed

subsection \<open>Nothing that does not emit the type calls its listeners\<close>

definition plain_behaviour :: "nat \<Rightarrow> jstring \<Rightarrow> ev_behaviour \<Rightarrow> bool" where
  "plain_behaviour base ty behave \<longleftrightarrow>
     (\<forall>f args log. \<forall>op \<in> set (behave f args log). plain_op base op \<and> \<not> emits ty op)"

text \<open>A function that is no listener made by \<open>once\<close> for \<open>ty\<close>, registered for \<open>t\<close>.\<close>

definition other :: "nat \<Rightarrow> jstring \<Rightarrow> nat \<Rightarrow> spec_emitter \<Rightarrow> bool" where
  "other base t x s \<longleftrightarrow> x < base \<or> (\<exists>l. sp_once s x = Some (t, l))"

lemma other_keeps: "other base t x s \<Longrightarrow> own base s \<Longrightarrow> keeps ty {} s s' \<Longrightarrow> other base t x s'"
  using ownD(1) [of base s x t] by (fastforce simp: other_def keeps_def)

lemma own_base: "own base s \<Longrightarrow> x < base \<Longrightarrow> sp_once s x = None"
  using ownD(1) [of base s x] by (cases "sp_once s x") force+

lemma add_keeps:
  assumes o: "own base s" and f: "other base t f s" and g: "t = ty \<Longrightarrow> base \<le> f \<Longrightarrow> f \<in> X"
  shows "own base (sp_upd t (\<lambda>l. l @ [f]) s) \<and> keeps ty X s (sp_upd t (\<lambda>l. l @ [f]) s)"
proof
  show "own base (sp_upd t (\<lambda>l. l @ [f]) s)" using o f by (auto simp: own_def other_def)
  have "listed h ty (sp_upd t (\<lambda>l. l @ [f]) s) \<le> listed h ty s" if "sp_once s h = Some (ty, l)" "h \<notin> X" for h l
    using ownD(1) [OF o that(1)] that(2) g by (auto simp: listed_def)
  then show "keeps ty X s (sp_upd t (\<lambda>l. l @ [f]) s)"
    using ownD(1) [OF o] by (fastforce simp: keeps_def)
qed

lemma keeps_trans_X:
  assumes "keeps ty {} s1 s2" and "keeps ty X s2 s3" and "\<And>h f. sp_once s3 h = Some (ty, f) \<Longrightarrow> h < sp_next s2" and "sp_next s3 = sp_next s2"
    and X: "\<forall>h \<in> X. h < sp_next s1"
  shows "keeps ty X s1 s3"
proof -
  have n: "sp_next s1 \<le> sp_next s2" using assms(1) by (simp add: keeps_def)
  have "fired h s3 = fired h s1 \<and> (h \<notin> X \<longrightarrow> listed h ty s3 \<le> listed h ty s1)" if "h < sp_next s1" "sp_once s1 h = Some (ty, f)" for h f
    using assms(1,2) that n unfolding keeps_def by (metis empty_iff le_trans order_less_le_trans)
  moreover have "sp_once s3 h = sp_once s1 h" if "h < sp_next s1" for h
    using assms(1,2) that n unfolding keeps_def by (metis order_less_le_trans)
  moreover have "fired h s3 = fired h s1" if "sp_next s1 \<le> h" "sp_next s3 \<le> h" for h
    using assms(1,2,4) that n unfolding keeps_def by (metis le_trans)
  moreover have "fired h s3 = fired h s1 \<and> listed h ty s3 \<le> 1" if h: "sp_next s1 \<le> h" "sp_once s3 h = Some (ty, f)" for h f
  proof -
    have l: "h < sp_next s2" using assms(3) h(2) .
    then have o2: "sp_once s2 h = Some (ty, f)" using assms(2) h(2) by (simp add: keeps_def)
    then have "fired h s2 = fired h s1 \<and> listed h ty s2 \<le> 1" using assms(1) h(1) by (simp add: keeps_def)
    moreover have "h \<notin> X" using X h(1) by auto
    then have "fired h s3 = fired h s2 \<and> listed h ty s3 \<le> listed h ty s2" using assms(2) l o2 by (simp add: keeps_def)
    ultimately show ?thesis by simp
  qed
  ultimately show ?thesis using n assms(4) by (simp add: keeps_def)
qed

text \<open>A function made by \<open>once\<close> and not yet registered.\<close>

lemma new_once:
  fixes t :: jstring
  assumes o: "own base s" and f: "f < base"
  defines "s1 \<equiv> s\<lparr>sp_once := (sp_once s)(sp_next s \<mapsto> (t, f)), sp_next := Suc (sp_next s)\<rparr>"
  shows "own base s1" and "sp_once s1 (sp_next s) = Some (t, f)" and "listed (sp_next s) t' s1 = 0" and "fired h s1 = fired h s"
    and "sp_next s < sp_next s1"
proof -
  have no: "sp_next s \<notin> set (sp_lists s t')" for t'
  proof
    assume "sp_next s \<in> set (sp_lists s t')"
    then have "sp_next s < base \<or> (\<exists>f. sp_once s (sp_next s) = Some (t', f))" by (rule ownD(2) [OF o])
    then show False using ownD(1) [OF o, of "sp_next s"] ownD(3) [OF o] by auto
  qed
  then show "listed (sp_next s) t' s1 = 0" by (simp add: s1_def listed_def count_notin)
  show "own base s1"
    unfolding own_def
  proof (intro conjI allI impI ballI)
    fix t' x assume "x \<in> set (sp_lists s1 t')"
    then have x: "x \<in> set (sp_lists s t')" by (simp add: s1_def)
    then have "x \<noteq> sp_next s" using no by auto
    then show "x < base \<or> (\<exists>f. sp_once s1 x = Some (t', f))" using ownD(2) [OF o x] by (simp add: s1_def)
  qed (use ownD(1,3) [OF o] f in \<open>auto simp: s1_def less_Suc_eq split: if_splits\<close>)
qed (simp_all add: s1_def fired_def)

lemma once_keeps:
  fixes t :: jstring
  assumes o: "own base s" and f: "f < base"
  defines "s1 \<equiv> s\<lparr>sp_once := (sp_once s)(sp_next s \<mapsto> (t, f)), sp_next := Suc (sp_next s)\<rparr>"
  assumes k: "keeps ty {sp_next s} s1 s'" and l: "t = ty \<Longrightarrow> listed (sp_next s) ty s' \<le> 1"
  shows "keeps ty {} s s'"
proof -
  have n: "sp_next s1 = Suc (sp_next s)" by (simp add: s1_def)
  note new = new_once [OF o f, where t = t, folded s1_def]
  have "sp_once s1 h = sp_once s h \<and> listed h ty s1 = listed h ty s \<and> fired h s1 = fired h s" if "h \<noteq> sp_next s" for h
    using that by (simp add: s1_def listed_def fired_def)
  note old = this
  have "sp_once s' h = sp_once s h" if "h < sp_next s" for h
    using k n that old [of h] unfolding keeps_def by simp
  moreover have "fired h s' = fired h s \<and> listed h ty s' \<le> listed h ty s" if "h < sp_next s" "sp_once s h = Some (ty, g)" for h g
  proof -
    have "h < sp_next s1" "sp_once s1 h = Some (ty, g)" "h \<notin> {sp_next s}" using that n old [of h] by auto
    then have "fired h s' = fired h s1 \<and> listed h ty s' \<le> listed h ty s1" using k unfolding keeps_def by blast
    then show ?thesis using old [of h] that by simp
  qed
  moreover have "fired h s' = fired h s" if "sp_next s \<le> h" "sp_next s' \<le> h" for h
    using k n that old [of h] unfolding keeps_def by (cases "h = sp_next s") auto
  moreover have "fired h s' = fired h s \<and> listed h ty s' \<le> 1" if "sp_next s \<le> h" "sp_once s' h = Some (ty, g)" for h g
  proof (cases "h = sp_next s")
    case True
    then have "sp_once s1 h = Some (ty, g)" using k n that(2) by (simp add: keeps_def)
    moreover from this have "t = ty" using new(2) True by simp
    ultimately have "fired h s' = fired h s1" using k n True by (simp add: keeps_def)
    then show ?thesis using l [OF \<open>t = ty\<close>] True new(4) by simp
  next
    case False
    then show ?thesis using k n that old [of h] unfolding keeps_def by auto
  qed
  moreover have "sp_next s \<le> sp_next s'" using k n by (simp add: keeps_def)
  ultimately show ?thesis by (simp add: keeps_def)
qed

lemma keeps_more: "keeps ty {} s s' \<Longrightarrow> keeps ty X s s'"
  by (simp add: keeps_def)

lemma keeps_listed:
  assumes "own base s" and "other base t f s" and "keeps ty {} s s'" and "sp_once s f \<noteq> None" "t = ty"
  shows "listed f ty s' \<le> listed f ty s"
proof -
  obtain t' l where o: "sp_once s f = Some (t', l)" using assms(4) by auto
  then have "base \<le> f" "f < sp_next s" using ownD(1) [OF assms(1) o] by auto
  then show ?thesis using assms(2,3,5) o by (auto simp: other_def keeps_def)
qed

lemma quiet:
  assumes b: "plain_behaviour base ty behave" and ty: "ty \<noteq> S ''newListener''"
  shows "own base s \<Longrightarrow> other base t f s \<Longrightarrow> t \<noteq> ty \<or> f < base \<Longrightarrow> sp_call behave n f args s = Some (out, s') \<Longrightarrow> own base s' \<and> keeps ty {} s s'"
    and "own base s \<Longrightarrow> t \<noteq> ty \<Longrightarrow> sp_emit behave n t args s = Some (out, s') \<Longrightarrow> own base s' \<and> keeps ty {} s s'"
    and "own base s \<Longrightarrow> other base t f s \<Longrightarrow> sp_add behave n t f s = Some (out, s') \<Longrightarrow>
      own base s' \<and> keeps ty (if f < base then {} else {f}) s s' \<and> (sp_once s f \<noteq> None \<longrightarrow> t = ty \<longrightarrow> listed f ty s' \<le> Suc (listed f ty s))"
    and "own base s \<Longrightarrow> plain_op base op \<Longrightarrow> \<not> emits ty op \<Longrightarrow> sp_step behave n op s = Some (out, s') \<Longrightarrow> own base s' \<and> keeps ty {} s s'"
proof (induction n arbitrary: s t f args op out s')
  case (Suc n)
  note call = Suc(1) and emit = Suc(2) and add = Suc(3) and step = Suc(4)
  { case 1
    have steps: "own base s' \<and> keeps ty {} s s'" if "own base s" "ev_seq (sp_step behave n) (behave f args lg) s = Some (out, s')" for s lg
    proof (rule keeps_seq [where ok = "\<lambda>op s. plain_op base op \<and> \<not> emits ty op", OF _ _ that(1) _ that(2)])
      show "own base s' \<and> keeps ty {} s s'"
        if "own base s" "plain_op base op \<and> \<not> emits ty op" "sp_step behave n op s = Some (out, s')" for op s out s'
        using step that by blast
      show "\<forall>op \<in> set (behave f args lg). plain_op base op \<and> \<not> emits ty op" using b by (simp add: plain_behaviour_def)
    qed
    show ?case
    proof (cases "sp_once s f")
      case None
      let ?s = "s\<lparr>sp_log := sp_log s @ [Called f args]\<rparr>"
      have k: "own base ?s \<and> keeps ty {} s ?s" by (rule log_keeps [OF 1(1)]) simp
      then have "own base s' \<and> keeps ty {} ?s s'" using steps [of ?s] 1(4) None by (simp add: Let_def)
      then show ?thesis using k once_keeps_trans by blast
    next
      case (Some tl)
      obtain t' l where tl: "tl = (t', l)" by (cases tl)
      have fb: "base \<le> f" "l < base" "f < sp_next s" using ownD(1) [OF 1(1)] Some tl by auto
      then have "t' = t" "t \<noteq> ty" using 1(2,3) Some tl by (auto simp: other_def)
      then have k1: "own base (s\<lparr>sp_log := sp_log s @ [Fired f]\<rparr>) \<and> keeps ty {} s (s\<lparr>sp_log := sp_log s @ [Fired f]\<rparr>)" (is "own base ?s1 \<and> _")
        using Some tl fb(3) by (intro log_keeps [OF 1(1)]) auto
      then have k2: "own base (sp_remove t' f ?s1) \<and> keeps ty {} ?s1 (sp_remove t' f ?s1)" using remove_keeps by blast
      have "sp_call behave n l args (sp_remove t' f ?s1) = Some (out, s')" using 1(4) Some tl by simp
      then have "own base s' \<and> keeps ty {} (sp_remove t' f ?s1) s'"
        using call [of "sp_remove t' f ?s1" t l] k2 fb(2) by (auto simp: other_def)
      then show ?thesis using k1 k2 once_keeps_trans by blast
    qed
  next
    case 2
    show ?case
    proof (cases "t = S ''error'' \<and> sp_lists s t = []")
      case False
      then have "ev_seq (\<lambda>f. sp_call behave n f args) (sp_lists s t) s = Some (out, s')" using 2(3) by (auto split: if_splits)
      then show ?thesis
      proof (rule keeps_seq [where ok = "other base t", OF _ _ 2(1), rotated 3])
        show "own base s' \<and> keeps ty {} s s'"
          if "own base s" "other base t x s" "sp_call behave n x args s = Some (out, s')" for x s out s'
          using call [OF that(1,2) _ that(3)] 2(2) by blast
        show "other base t x s'" if "other base t x s" "own base s" "keeps ty {} s s'" for x s s'
          using other_keeps that by blast
        show "\<forall>x \<in> set (sp_lists s t). other base t x s" using ownD(2) [OF 2(1)] by (auto simp: other_def)
      qed
    next
      case True
      then have "t = S ''error''" "sp_lists s (S ''error'') = []" by auto
      then have "s' = s" using 2(3) by simp
      then show ?thesis using 2(1) by simp
    qed
  next
    case 3
    have "ev_then (sp_emit behave n (S ''newListener'') [Type_arg t, Fn_arg (listener_of (sp_once s) f)] s)
        (\<lambda>s1. Some (Done True, sp_upd t (\<lambda>l. l @ [f]) s1)) = Some (out, s')" using 3(3) by simp
    then show ?case
    proof (cases rule: then_Some)
      case 1
      have k: "own base s' \<and> keeps ty {} s s'" using emit [OF 3(1) ty [symmetric] 1(1)] .
      then show ?thesis using keeps_listed [OF 3(1,2)] keeps_more by fastforce
    next
      case (2 x s1)
      have k: "own base s1 \<and> keeps ty {} s s1" using emit [OF 3(1) ty [symmetric] 2(1)] .
      have f1: "other base t f s1" using other_keeps [OF 3(2,1)] k by blast
      have s': "s' = sp_upd t (\<lambda>l. l @ [f]) s1" using 2(2) by simp
      let ?X = "if f < base then {} else {f}"
      have a: "own base s' \<and> keeps ty ?X s1 s'" unfolding s' using k by (intro add_keeps [OF _ f1]) auto
      have X: "\<forall>h \<in> ?X. h < sp_next s" using 3(2) ownD(1) [OF 3(1)] by (auto simp: other_def)
      have new: "h < sp_next s1" if "sp_once s' h = Some (ty, g)" for h g
        using ownD(1) [of base s1 h ty g] k that by (simp add: s')
      have "keeps ty ?X s s'"
        by (rule keeps_trans_X [OF _ _ new _ X]) (use k a s' in simp_all)
      moreover have "listed f ty s' \<le> Suc (listed f ty s1)" by (auto simp: s' listed_def)
      ultimately show ?thesis using a keeps_listed [OF 3(1,2)] k by fastforce
    qed
  next
    case 4
    show ?case
    proof (cases op)
      case (Add_listener t g)
      then show ?thesis
      proof (cases g)
        case (Some f)
        then have "f < base" "sp_add behave n t f s = Some (out, s')" using 4 Add_listener by simp_all
        then show ?thesis using add [OF 4(1), of t f] by (simp add: other_def)
      qed (use 4 Add_listener in simp)
    next
      case (Once_listener t g)
      then show ?thesis
      proof (cases g)
        case (Some f)
        let ?s = "s\<lparr>sp_once := (sp_once s)(sp_next s \<mapsto> (t, f)), sp_next := Suc (sp_next s)\<rparr>"
        have f: "f < base" "sp_add behave n t (sp_next s) ?s = Some (out, s')" using 4 Once_listener Some by simp_all
        note new = new_once [OF 4(1) f(1), where t = t]
        have "own base s' \<and> keeps ty (if sp_next s < base then {} else {sp_next s}) ?s s' \<and>
            (sp_once ?s (sp_next s) \<noteq> None \<longrightarrow> t = ty \<longrightarrow> listed (sp_next s) ty s' \<le> Suc (listed (sp_next s) ty ?s))"
          using add [OF new(1) _ f(2)] new(2) by (simp add: other_def)
        moreover have "\<not> sp_next s < base" using ownD(3) [OF 4(1)] by simp
        ultimately have "own base s'" "keeps ty {sp_next s} ?s s'" "t = ty \<Longrightarrow> listed (sp_next s) ty s' \<le> 1"
          using new(3) [of ty] by simp_all
        then show ?thesis using once_keeps [OF 4(1) f(1)] by blast
      qed (use 4 Once_listener in simp)
    next
      case (Remove_listener t g)
      then show ?thesis using 4 remove_keeps [of base s t _ ty] by (cases g) auto
    next
      case (Remove_all t)
      then show ?thesis using 4 remove_all_keeps [of base s t ty] by auto
    next
      case (Emit t args)
      then show ?thesis using 4 emit [OF 4(1)] by (auto simp: emits_def)
    qed (use 4 in simp_all)
  }
qed simp_all

subsection \<open>Emitting the type\<close>

lemma other_less: "own base s \<Longrightarrow> other base t x s \<Longrightarrow> x < sp_next s"
  using ownD(1,3) [of base s] by (fastforce simp: other_def)

lemma other_once:
  assumes "own base s" and "other base t x s" and "sp_once s x \<noteq> None"
  obtains l where "sp_once s x = Some (t, l)"
proof -
  obtain v where v: "sp_once s x = Some v" using assms(3) by blast
  then have "base \<le> x" using ownD(1) [OF assms(1), of x "fst v" "snd v"] by simp
  then show ?thesis using assms(2) that by (auto simp: other_def)
qed

text \<open>The call of one listener of a snapshot.\<close>

lemma remove_first_self:
  "(\<And>y. y \<in> set xs \<Longrightarrow> P y \<longleftrightarrow> y = x) \<Longrightarrow> count_list (remove_first P xs) x = count_list xs x - 1"
proof (induction xs)
  case (Cons y xs)
  then show ?case by (cases "y = x") auto
qed simp

lemma call_listener:
  assumes b: "plain_behaviour base ty behave" "ty \<noteq> S ''newListener''" and I: "once_inv base ty s" and x: "other base ty x s"
    and one: "sp_once s x \<noteq> None \<longrightarrow> fired x s = 0" and c: "sp_call behave n x args s = Some (out, s')"
  shows "once_inv base ty s' \<and> sp_next s \<le> sp_next s' \<and> (\<forall>h < sp_next s. sp_once s' h = sp_once s h) \<and>
    (\<forall>h f. sp_once s h = Some (ty, f) \<and> h \<noteq> x \<longrightarrow> fired h s' = fired h s)"
proof -
  have o: "own base s" using I by (simp add: once_inv_def)
  show ?thesis
  proof (cases "sp_once s x")
    case None
    then have "x < base" using x by (simp add: other_def)
    then have k: "own base s' \<and> keeps ty {} s s'" using quiet(1) [OF b o x _ c] by blast
    then show ?thesis using keeps_inv [OF I] ownD(1) [OF o] by (auto simp: keeps_def)
  next
    case (Some tl)
    obtain l where l: "sp_once s x = Some (ty, l)" by (rule other_once [OF o x]) (use Some in simp)
    have lx: "base \<le> x" "x < sp_next s" "l < base" using ownD(1) [OF o l] by auto
    obtain m where n: "n = Suc m" using c by (cases n) auto
    let ?s1 = "s\<lparr>sp_log := sp_log s @ [Fired x]\<rparr>"
    let ?s2 = "sp_remove ty x ?s1"
    have c2: "sp_call behave m l args ?s2 = Some (out, s')" using c l n by simp
    have "own base ?s1" using o by (simp add: own_def)
    then have o2: "own base ?s2" using remove_keeps by blast
    have only: "is_listener (sp_once ?s1) x y \<longleftrightarrow> y = x" for y
      using ownD(1) [OF o, of y] lx(1) by (fastforce simp: is_listener_def split: option.splits)
    have f: "fired h ?s2 = (if h = x then 1 else fired h s)" for h
      using one l by (simp add: sp_remove_def) (simp add: fired_def)
    have le: "listed h ty ?s2 \<le> listed h ty s" for h
      by (simp add: sp_remove_def listed_def count_remove_first)
    have "fired x s + listed x ty s \<le> 1" using I l by (auto simp: once_inv_def)
    moreover have "listed x ty ?s2 = listed x ty s - 1"
      using only by (simp add: sp_remove_def listed_def remove_first_self)
    ultimately have lis: "listed x ty ?s2 = 0" by simp
    have "fired h ?s2 + listed h ty ?s2 \<le> 1" if "sp_once ?s2 h = Some (ty, g)" for h g
    proof (cases "h = x")
      case False
      have "fired h s + listed h ty s \<le> 1" using I that by (auto simp: once_inv_def sp_remove_def)
      then show ?thesis using le [of h] f [of h] False by simp
    qed (use f lis in simp)
    moreover have "fired h ?s2 = 0" if "sp_next ?s2 \<le> h" for h
      using f [of h] I lx(2) that by (auto simp: once_inv_def sp_remove_def)
    ultimately have I2: "once_inv base ty ?s2" using o2 by (simp add: once_inv_def)
    have "other base ty l ?s2" using lx(3) by (simp add: other_def)
    then have k: "own base s' \<and> keeps ty {} ?s2 s'" using quiet(1) [OF b o2 _ _ c2] lx(3) by blast
    have e: "sp_once ?s2 = sp_once s" "sp_next ?s2 = sp_next s" by (simp_all add: sp_remove_def)
    have "fired h s' = fired h s" if "sp_once s h = Some (ty, g)" "h \<noteq> x" for h g
    proof -
      have "fired h s' = fired h ?s2" using k that ownD(1) [OF o that(1)] unfolding keeps_def e by blast
      then show ?thesis using f [of h] that(2) by simp
    qed
    then show ?thesis using keeps_inv [OF I2] k unfolding keeps_def e by blast
  qed
qed

lemma snapshot_inv:
  assumes b: "plain_behaviour base ty behave" "ty \<noteq> S ''newListener''"
  shows "once_inv base ty s \<Longrightarrow> \<forall>x \<in> set fs. other base ty x s \<Longrightarrow>
    \<forall>h f. sp_once s h = Some (ty, f) \<longrightarrow> fired h s + count_list fs h \<le> 1 \<Longrightarrow>
    ev_seq (\<lambda>f. sp_call behave n f args) fs s = Some (out, s') \<Longrightarrow> once_inv base ty s'"
proof (induction fs arbitrary: s)
  case (Cons x fs)
  note I = Cons.prems(1)
  have o: "own base s" using I by (simp add: once_inv_def)
  have x: "other base ty x s" using Cons.prems(2) by simp
  have one: "sp_once s x \<noteq> None \<longrightarrow> fired x s = 0 \<and> count_list fs x = 0"
  proof
    assume "sp_once s x \<noteq> None"
    then obtain l where "sp_once s x = Some (ty, l)" by (rule other_once [OF o x])
    then have "fired x s + count_list (x # fs) x \<le> 1" using Cons.prems(3) by blast
    then show "fired x s = 0 \<and> count_list fs x = 0" by simp
  qed
  from Cons.prems(4) have "ev_then (sp_call behave n x args s) (ev_seq (\<lambda>f. sp_call behave n f args) fs) = Some (out, s')" by simp
  then show ?case
  proof (cases rule: then_Some)
    case 1
    then show ?thesis using call_listener [OF b I x _ 1(1)] one by blast
  next
    case (2 y s1)
    have k: "once_inv base ty s1 \<and> sp_next s \<le> sp_next s1 \<and> (\<forall>h < sp_next s. sp_once s1 h = sp_once s h) \<and>
        (\<forall>h f. sp_once s h = Some (ty, f) \<and> h \<noteq> x \<longrightarrow> fired h s1 = fired h s)"
      using call_listener [OF b I x _ 2(1)] one by blast
    have less: "z < sp_next s" if "z \<in> set fs" for z using other_less [OF o, of ty z] Cons.prems(2) that by simp
    have "other base ty z s1" if z: "z \<in> set fs" for z
      using Cons.prems(2) k less [OF z] z by (auto simp: other_def)
    moreover have "fired h s1 + count_list fs h \<le> 1" if h: "sp_once s1 h = Some (ty, f)" for h f
    proof (cases "h < sp_next s \<and> h \<noteq> x")
      case True
      then have "sp_once s h = Some (ty, f)" using k h by simp
      then have "fired h s + count_list (x # fs) h \<le> 1" "fired h s1 = fired h s" using Cons.prems(3) k True by blast+
      then show ?thesis using True by simp
    next
      case False
      have "fired h s1 \<le> 1" using k h by (fastforce simp: once_inv_def)
      moreover have "count_list fs h = 0"
      proof (cases "h = x")
        case True
        then have "sp_once s x \<noteq> None" using k h other_less [OF o x] by auto
        then show ?thesis using one True by simp
      next
        case False
        then have "h \<notin> set fs" using less \<open>\<not> (h < sp_next s \<and> h \<noteq> x)\<close> by auto
        then show ?thesis by (simp add: count_notin)
      qed
      ultimately show ?thesis by simp
    qed
    ultimately show ?thesis using Cons.IH [of s1] k 2(2) by blast
  qed
qed simp

lemma step_inv:
  assumes b: "plain_behaviour base ty behave" "ty \<noteq> S ''newListener''" and I: "once_inv base ty s"
    and op: "plain_op base op" "sp_step behave n op s = Some (out, s')"
  shows "once_inv base ty s'"
proof (cases "emits ty op")
  case False
  have "own base s' \<and> keeps ty {} s s'" using quiet(4) [OF b _ op(1) False op(2)] I by (simp add: once_inv_def)
  then show ?thesis using keeps_inv [OF I] by blast
next
  case True
  then obtain args where e: "op = Emit ty args" by (auto simp: emits_def)
  obtain m where n: "n = Suc m" using op(2) by (cases n) auto
  have em: "sp_emit behave m ty args s = Some (out, s')" using op(2) e n by simp
  then obtain k where k: "m = Suc k" by (cases m) auto
  show ?thesis
  proof (cases "ty = S ''error'' \<and> sp_lists s ty = []")
    case True
    then have "ty = S ''error''" "sp_lists s (S ''error'') = []" by auto
    then have "s' = s" using em k by simp
    then show ?thesis using I by simp
  next
    case False
    then have "ev_seq (\<lambda>f. sp_call behave k f args) (sp_lists s ty) s = Some (out, s')" using em k by (auto split: if_splits)
    moreover have "\<forall>x \<in> set (sp_lists s ty). other base ty x s"
      using ownD(2) [of base s _ ty] I by (auto simp: other_def once_inv_def)
    moreover have "\<forall>h f. sp_once s h = Some (ty, f) \<longrightarrow> fired h s + count_list (sp_lists s ty) h \<le> 1"
      using I by (auto simp: once_inv_def listed_def)
    ultimately show ?thesis using snapshot_inv [OF b I] by blast
  qed
qed

lemma run_inv:
  assumes b: "plain_behaviour base ty behave" "ty \<noteq> S ''newListener''"
  shows "once_inv base ty s \<Longrightarrow> \<forall>op \<in> set ops. plain_op base op \<Longrightarrow> ev_seq (sp_step behave n) ops s = Some (out, s') \<Longrightarrow> once_inv base ty s'"
proof (induction ops arbitrary: s)
  case (Cons op ops)
  from Cons.prems(3) have "ev_then (sp_step behave n op s) (ev_seq (sp_step behave n) ops) = Some (out, s')" by simp
  then show ?case
  proof (cases rule: then_Some)
    case 1
    then show ?thesis using step_inv [OF b Cons.prems(1) _ 1(1)] Cons.prems(2) by simp
  next
    case (2 x s1)
    then show ?thesis using step_inv [OF b Cons.prems(1) _ 2(1)] Cons.IH [of s1] Cons.prems(2) by simp
  qed
qed simp

text \<open>
  C30: A listener registered with \<open>once\<close> is called at most once, whatever the program and the listeners do
  with the emitter, as long as no listener emits the same type again (and the type is not
  \<open>newListener\<close>, which adding a listener emits).
\<close>

theorem once_called_at_most_once:
  assumes "ev_run behave n ops (ev_init base) = Some (out, s)" and "\<forall>op \<in> set ops. plain_op base op"
    and "plain_behaviour base ty behave" "ty \<noteq> S ''newListener''" and "ev_once s h = Some (ty, l)"
  shows "length (filter (\<lambda>e. e = Fired h) (ev_log s)) \<le> 1"
proof -
  have "own base (sp_init base)" by (simp add: own_def sp_init_def)
  then have init: "once_inv base ty (sp_init base)" by (simp add: once_inv_def sp_init_def fired_def)
  have "ev_seq (sp_step behave n) ops (sp_init base) = abs_res (Some (out, s))"
    using abs_seq [of "ev_step behave n" "sp_step behave n", OF code_refines(4), of ops "ev_init base"] assms(1)
    unfolding ev_run_def abs_init by simp
  then obtain out' where "ev_seq (sp_step behave n) ops (sp_init base) = Some (out', abs_em s)"
    by (cases out) simp_all
  then have "once_inv base ty (abs_em s)" using run_inv [OF assms(3,4) init assms(2)] by blast
  then have "fired h (abs_em s) \<le> 1" using assms(5) by (fastforce simp: once_inv_def)
  then show ?thesis by (simp add: fired_def)
qed

definition renewing :: ev_behaviour where
  "renewing f args log = (if f = 0 then [Remove_listener (S ''e'') (Some 0), Once_listener (S ''e'') (Some 1)] else [])"

theorem once_called_at_most_once_witness:
  "let r = ev_run renewing 9 [Add_listener (S ''e'') (Some 0), Once_listener (S ''e'') (Some 1), Emit (S ''e'') [], Emit (S ''e'') []] (ev_init 2)
   in ev_log (snd (the r)) = [Called 0 [], Fired 2, Called 1 [], Fired 3, Called 1 []] \<and>
      length (filter (\<lambda>e. e = Fired 2) (ev_log (snd (the r)))) \<le> 1"
proof -
  let ?ops = "[Add_listener (S ''e'') (Some 0), Once_listener (S ''e'') (Some 1), Emit (S ''e'') [], Emit (S ''e'') []]"
  let ?r = "ev_run renewing 9 ?ops (ev_init 2)"
  have log: "?r \<noteq> None" "ev_log (snd (the ?r)) = [Called 0 [], Fired 2, Called 1 [], Fired 3, Called 1 []]"
    "ev_once (snd (the ?r)) 2 = Some (S ''e'', 1)" by code_simp+
  then have r: "?r = Some (fst (the ?r), snd (the ?r))" by simp
  have "plain_behaviour 2 (S ''e'') renewing" by (simp add: plain_behaviour_def renewing_def emits_def)
  moreover have "S ''e'' \<noteq> S ''newListener''" by (simp add: js_eval)
  ultimately have "length (filter (\<lambda>e. e = Fired 2) (ev_log (snd (the ?r)))) \<le> 1"
    by (intro once_called_at_most_once [OF r _ _ _ log(3)]) simp_all
  then show ?thesis using log(2) by (simp add: Let_def)
qed

text \<open>
  When a listener emits its type again, a listener registered with \<open>once\<close> after it is called twice: the outer
  emission still has it in the copy of the list it works off.
\<close>

definition echo :: ev_behaviour where
  "echo f args log = (if f = 0 \<and> length log = 1 then [Emit (S ''e'') []] else [])"

theorem once_called_twice:
  "ev_log (snd (the (ev_run echo 9 [Add_listener (S ''e'') (Some 0), Once_listener (S ''e'') (Some 1), Emit (S ''e'') []] (ev_init 2)))) =
     [Called 0 [], Called 0 [], Fired 2, Called 1 [], Fired 2, Called 1 []]"
  by code_simp

text \<open>Asking for the listeners of a type stores an empty array, for which \<open>emit\<close> says that there was a listener.\<close>

theorem listeners_changes_emit:
  "map_option fst (ev_step renewing 9 (Emit (S ''e'') []) (ev_init 2)) = Some (Done False)"
  "map_option fst (ev_step renewing 9 (Emit (S ''e'') []) (ev_listeners (S ''e'') (ev_init 2))) = Some (Done True)"
  by code_simp+

end
