(* ===== verification/Utf8.thy ===== *)
theory Utf8
  imports JsString
begin

text \<open>
  Text as bytes: the UTF-8 encoding of a code point, its one or two UTF-16 units, and reading both
  back.  What the native \<open>toString\<close> of a buffer does with text that is not well formed is not fixed here:
  the locale \<open>text_reader\<close> says what the components rely on, and \<open>utf8_text\<close> is one function that does it.
\<close>

section \<open>Code points\<close>

definition is_point :: "nat \<Rightarrow> bool" where
  "is_point p \<longleftrightarrow> p < 0x110000 \<and> \<not> (0xD800 \<le> p \<and> p < 0xE000)"

definition point_bytes :: "nat \<Rightarrow> nat list" where
  "point_bytes p =
     (if p < 0x80 then [p]
      else if p < 0x800 then [192 + p div 64, 128 + p mod 64]
      else if p < 0x10000 then [224 + p div 4096, 128 + p div 64 mod 64, 128 + p mod 64]
      else [240 + p div 262144, 128 + p div 4096 mod 64, 128 + p div 64 mod 64, 128 + p mod 64])"

definition point_units :: "nat \<Rightarrow> jstring" where
  "point_units p =
     (if p < 0x10000 then [p] else [0xD800 + (p - 0x10000) div 1024, 0xDC00 + (p - 0x10000) mod 1024])"

definition text_bytes :: "nat list \<Rightarrow> nat list" where
  "text_bytes ps = concat (map point_bytes ps)"

definition text_units :: "nat list \<Rightarrow> jstring" where
  "text_units ps = concat (map point_units ps)"

text \<open>The length a first byte announces; 0 for a byte that starts no character.\<close>

definition lead_len :: "nat \<Rightarrow> nat" where
  "lead_len b =
     (if b < 128 then 1 else if b div 32 = 6 then 2 else if b div 16 = 14 then 3 else if b div 8 = 30 then 4 else 0)"

definition is_tail :: "nat \<Rightarrow> bool" where
  "is_tail b \<longleftrightarrow> b div 64 = 2"

lemma lead_len_tail: "is_tail b \<Longrightarrow> lead_len b = 0"
  by (auto simp: is_tail_def lead_len_def)

lemma tail_byte: "is_tail (128 + n mod 64)" for n :: nat
  by (simp add: is_tail_def)

lemma point_cases:
  "is_point p \<Longrightarrow> p < 0x80 \<or> (0x80 \<le> p \<and> p < 0x800) \<or> (0x800 \<le> p \<and> p < 0x10000) \<or> (0x10000 \<le> p \<and> p < 0x110000)"
  unfolding is_point_def by arith

text \<open>The shape of an encoded code point.\<close>

lemma point_bytes_shape:
  assumes "is_point p"
  obtains b cs where "point_bytes p = b # cs" "lead_len b = Suc (length cs)" "\<forall>c \<in> set cs. is_tail c" "length cs \<le> 3"
proof -
  consider "p < 0x80" | "0x80 \<le> p" "p < 0x800" | "0x800 \<le> p" "p < 0x10000" | "0x10000 \<le> p" "p < 0x110000"
    using point_cases [OF assms] by blast
  then show ?thesis
  proof cases
    case 2
    have "(192 + p div 64) div 32 = 6" using 2 by simp
    then show ?thesis using 2 that [of "192 + p div 64" "[128 + p mod 64]"]
      by (simp add: point_bytes_def lead_len_def tail_byte)
  next
    case 3
    have "(224 + p div 4096) div 16 = 14" using 3 by simp
    moreover have "(224 + p div 4096) div 32 \<noteq> 6" by simp
    ultimately show ?thesis using 3 that [of "224 + p div 4096" "[128 + p div 64 mod 64, 128 + p mod 64]"]
      by (simp add: point_bytes_def lead_len_def tail_byte)
  next
    case 4
    have "(240 + p div 262144) div 8 = 30" using 4 by simp
    moreover have "(240 + p div 262144) div 32 \<noteq> 6" "(240 + p div 262144) div 16 \<noteq> 14" by simp_all
    ultimately show ?thesis
      using 4 that [of "240 + p div 262144" "[128 + p div 4096 mod 64, 128 + p div 64 mod 64, 128 + p mod 64]"]
      by (simp add: point_bytes_def lead_len_def tail_byte)
  qed (use that [of p "[]"] in \<open>simp add: point_bytes_def lead_len_def\<close>)
qed

lemma point_bytes_less: "is_point p \<Longrightarrow> b \<in> set (point_bytes p) \<Longrightarrow> b < 256"
  by (auto simp: point_bytes_def is_point_def split: if_splits)

lemma point_bytes_ne [simp]: "point_bytes p \<noteq> []"
  by (simp add: point_bytes_def)

section \<open>Reading bytes\<close>

text \<open>The code point at the start of the bytes, if there is a well formed one.\<close>

definition point_of :: "nat list \<Rightarrow> nat" where
  "point_of bs =
     (case bs of
        [b] \<Rightarrow> b
      | [b, c] \<Rightarrow> (b - 192) * 64 + (c - 128)
      | [b, c, d] \<Rightarrow> (b - 224) * 4096 + (c - 128) * 64 + (d - 128)
      | [b, c, d, e] \<Rightarrow> (b - 240) * 262144 + (c - 128) * 4096 + (d - 128) * 64 + (e - 128)
      | _ \<Rightarrow> 0)"

definition well_formed :: "nat list \<Rightarrow> bool" where
  "well_formed bs \<longleftrightarrow> is_point (point_of bs) \<and> point_bytes (point_of bs) = bs"

fun utf8_text :: "nat list \<Rightarrow> jstring" where
  "utf8_text [] = []"
| "utf8_text (b # bs) =
     (let n = lead_len b; c = take n (b # bs) in
      if n > 0 \<and> well_formed c then point_units (point_of c) @ utf8_text (drop (n - 1) bs)
      else 0xFFFD # utf8_text bs)"

declare utf8_text.simps(2) [simp del]

lemma mix:
  "(x * 64 + y) * 64 + z = x * 4096 + y * 64 + z"
  "(x * 4096 + y * 64 + v) * 64 + z = x * 262144 + y * 4096 + v * 64 + z" for x y z v :: nat
  by simp_all

lemma point_of_bytes:
  assumes "is_point p"
  shows "point_of (point_bytes p) = p"
proof -
  consider "p < 0x80" | "0x80 \<le> p" "p < 0x800" | "0x800 \<le> p" "p < 0x10000" | "0x10000 \<le> p" "p < 0x110000"
    using point_cases [OF assms] by blast
  then show ?thesis
  proof cases
    case 2
    then have "point_of (point_bytes p) = p div 64 * 64 + p mod 64" by (simp add: point_bytes_def point_of_def)
    then show ?thesis by simp
  next
    case 3
    then have "point_of (point_bytes p) = p div 4096 * 4096 + p div 64 mod 64 * 64 + p mod 64"
      by (simp add: point_bytes_def point_of_def)
    moreover have "p div 4096 = p div 64 div 64" by (simp add: div_mult2_eq)
    ultimately have "point_of (point_bytes p) = (p div 64 div 64 * 64 + p div 64 mod 64) * 64 + p mod 64" by (simp only: mix)
    then show ?thesis by (simp only: div_mult_mod_eq)
  next
    case 4
    then have "point_of (point_bytes p) =
        p div 262144 * 262144 + p div 4096 mod 64 * 4096 + p div 64 mod 64 * 64 + p mod 64"
      by (simp add: point_bytes_def point_of_def)
    moreover have "p div 4096 = p div 64 div 64" "p div 262144 = p div 64 div 64 div 64" by (simp_all add: div_mult2_eq)
    ultimately have "point_of (point_bytes p) =
        ((p div 64 div 64 div 64 * 64 + p div 64 div 64 mod 64) * 64 + p div 64 mod 64) * 64 + p mod 64"
      by (simp only: mix)
    then show ?thesis by (simp only: div_mult_mod_eq)
  qed (simp add: point_bytes_def point_of_def)
qed

lemma well_formed_bytes: "is_point p \<Longrightarrow> well_formed (point_bytes p)"
  by (simp add: well_formed_def point_of_bytes)

lemma utf8_text_point:
  assumes "is_point p"
  shows "utf8_text (point_bytes p @ bs) = point_units p @ utf8_text bs"
proof -
  obtain b cs where s: "point_bytes p = b # cs" "lead_len b = Suc (length cs)" by (rule point_bytes_shape [OF assms])
  then have "take (lead_len b) (b # cs @ bs) = point_bytes p" by simp
  then show ?thesis
    using s well_formed_bytes [OF assms] point_of_bytes [OF assms] by (simp add: utf8_text.simps(2) Let_def)
qed

text \<open>What the components rely on when they turn bytes into text: well formed text is read as it was written.\<close>

locale text_reader =
  fixes to_text :: "nat list \<Rightarrow> jstring"
  assumes to_text_Nil: "to_text [] = []"
    and to_text_point: "is_point p \<Longrightarrow> to_text (point_bytes p @ bs) = point_units p @ to_text bs"
begin

lemma to_text_text: "\<forall>p \<in> set ps. is_point p \<Longrightarrow> to_text (text_bytes ps @ bs) = text_units ps @ to_text bs"
  by (induction ps) (simp_all add: text_bytes_def text_units_def to_text_point)

lemma to_text_all: "\<forall>p \<in> set ps. is_point p \<Longrightarrow> to_text (text_bytes ps) = text_units ps"
  using to_text_text [of ps "[]"] by (simp add: to_text_Nil)

end

interpretation utf8: text_reader utf8_text
  by unfold_locales (simp_all add: utf8_text_point)

section \<open>Splitting text\<close>

lemma text_bytes_simps [simp]:
  "text_bytes [] = []" "text_bytes (p # ps) = point_bytes p @ text_bytes ps"
  "text_bytes (ps @ qs) = text_bytes ps @ text_bytes qs"
  by (simp_all add: text_bytes_def)

lemma text_units_simps [simp]:
  "text_units [] = []" "text_units (p # ps) = point_units p @ text_units ps"
  "text_units (ps @ qs) = text_units ps @ text_units qs"
  by (simp_all add: text_units_def)

text \<open>A cut goes between two characters or through one.\<close>

definition char_part :: "nat list \<Rightarrow> nat list \<Rightarrow> bool" where
  "char_part b ps \<longleftrightarrow> b = [] \<or> (\<exists>p qs r. ps = p # qs \<and> point_bytes p = b @ r \<and> r \<noteq> [])"

lemma text_cut:
  "c @ r = text_bytes ps \<Longrightarrow> \<exists>as bs b. ps = as @ bs \<and> c = text_bytes as @ b \<and> b @ r = text_bytes bs \<and> char_part b bs"
proof (induction ps arbitrary: c)
  case Nil
  then have "c = []" by simp
  then show ?case by (intro exI [of _ "[]"]) (use Nil in \<open>simp add: char_part_def\<close>)
next
  case (Cons p ps)
  then consider c' where "c = point_bytes p @ c'" "c' @ r = text_bytes ps" | d where "point_bytes p = c @ d" "r = d @ text_bytes ps" "d \<noteq> []"
    by (fastforce simp: append_eq_append_conv2)
  then show ?case
  proof cases
    case 1
    obtain as bs b where "ps = as @ bs \<and> c' = text_bytes as @ b \<and> b @ r = text_bytes bs \<and> char_part b bs"
      using Cons.IH [OF 1(2)] by blast
    then show ?thesis using 1(1) by (intro exI [of _ "p # as"] exI [of _ bs] exI [of _ b]) simp
  next
    case 2
    then show ?thesis
      by (intro exI [of _ "[]"] exI [of _ "p # ps"] exI [of _ c]) (auto simp: char_part_def)
  qed
qed

text \<open>No byte of a text announces more bytes than the text has from there.\<close>

lemma lead_inside:
  "\<forall>p \<in> set ps. is_point p \<Longrightarrow> i < length (text_bytes ps) \<Longrightarrow> i + lead_len (text_bytes ps ! i) \<le> length (text_bytes ps)"
proof (induction ps arbitrary: i)
  case (Cons p ps)
  obtain b cs where s: "point_bytes p = b # cs" "lead_len b = Suc (length cs)" "\<forall>c \<in> set cs. is_tail c"
    by (rule point_bytes_shape [of p]) (use Cons.prems(1) in auto)
  show ?case
  proof (cases "i < length (point_bytes p)")
    case True
    show ?thesis
    proof (cases i)
      case (Suc j)
      then have "text_bytes (p # ps) ! i = cs ! j" "cs ! j \<in> set cs" using True s(1) by (simp_all add: nth_append)
      then show ?thesis using s(3) lead_len_tail [of "cs ! j"] Cons.prems(2) by simp
    qed (use s in simp)
  next
    case False
    then have "text_bytes (p # ps) ! i = text_bytes ps ! (i - length (point_bytes p))" by (simp add: nth_append)
    moreover have "i - length (point_bytes p) + lead_len (text_bytes ps ! (i - length (point_bytes p))) \<le> length (text_bytes ps)"
      using Cons.prems False by (intro Cons.IH) auto
    ultimately show ?thesis using False by simp
  qed
qed simp

end
