(* ===== verification/StringDecoder.thy ===== *)
theory StringDecoder
  imports Utf8
begin

text \<open>
  Decoding a stream of text (\<open>src/lib/string_decoder.js\<close>): chunks may end inside a character, whose
  bytes are kept until the rest of them arrives.  \<open>toString\<close> of a buffer is the parameter \<open>to_text\<close>, and
  \<open>to_text_as\<close> for the other encodings.
\<close>

section \<open>The code\<close>

record string_decoder =
  encoding :: jstring
  charBuffer :: "nat list"
  charReceived :: nat
  charLength :: nat

text \<open>\<open>replace(/[-_]/, '')\<close> removes the first of these characters only.\<close>

definition drop_dash :: "jstring \<Rightarrow> jstring" where
  "drop_dash s = takeWhile (\<lambda>c. c \<noteq> 45 \<and> c \<noteq> 95) s @ drop 1 (dropWhile (\<lambda>c. c \<noteq> 45 \<and> c \<noteq> 95) s)"

definition new_decoder :: "jstring \<Rightarrow> string_decoder" where
  "new_decoder enc =
     \<lparr>encoding = drop_dash (toLowerCase (if enc = [] then S ''utf8'' else enc)),
      charBuffer = [0, 0, 0, 0], charReceived = 0, charLength = 0\<rparr>"

text \<open>\<open>buffer.copy\<close> into another buffer, which keeps its size.\<close>

definition copy_into :: "nat list \<Rightarrow> nat \<Rightarrow> nat list \<Rightarrow> nat list" where
  "copy_into buf at bs = take (length buf) (take at buf @ bs @ drop (at + length bs) buf)"

text \<open>The search for a first byte among the last \<open>i\<close> bytes: its distance from the end and the length it announces.\<close>

fun find_lead :: "nat list \<Rightarrow> nat \<Rightarrow> nat \<times> nat" where
  "find_lead buf 0 = (0, 0)"
| "find_lead buf (Suc j) =
     (let i = Suc j; c = buf ! (length buf - i) in
      if i = 1 \<and> drop_bit 5 c = 0x06 then (i, 2)
      else if i \<le> 2 \<and> drop_bit 4 c = 0x0E then (i, 3)
      else if i \<le> 3 \<and> drop_bit 3 c = 0x1E then (i, 4)
      else find_lead buf j)"

text \<open>The part of \<open>write\<close> after a split character has been completed.\<close>

definition write_rest :: "(nat list \<Rightarrow> jstring) \<Rightarrow> jstring \<Rightarrow> nat list \<Rightarrow> string_decoder \<Rightarrow> jstring \<times> string_decoder" where
  "write_rest to_text charStr buffer d =
     (let (i, n) = find_lead buffer (if length buffer \<ge> 3 then 3 else length buffer) in
      if n = 0 then (charStr @ to_text buffer, d)
      else
        (let k = length buffer - i;
             d' = d\<lparr>charLength := n, charBuffer := copy_into (charBuffer d) 0 (drop k buffer), charReceived := i\<rparr>
         in if k > 0 then (charStr @ to_text (take k buffer), d') else (charStr, d')))"

definition sd_write :: "(jstring \<Rightarrow> nat list \<Rightarrow> jstring) \<Rightarrow> nat list \<Rightarrow> string_decoder \<Rightarrow> jstring \<times> string_decoder" where
  "sd_write to_text_as buffer d =
     (let to_text = to_text_as (S ''utf8'') in
      if encoding d \<noteq> S ''utf8'' then (to_text_as (encoding d) buffer, d)
      else if charLength d = 0 then write_rest to_text [] buffer d
      else
        (let need = charLength d - charReceived d;
             i = (if length buffer \<ge> need then need else length buffer);
             d1 = d\<lparr>charBuffer := copy_into (charBuffer d) (charReceived d) (take i buffer), charReceived := charReceived d + i\<rparr>
         in if charReceived d1 < charLength d1 then ([], d1)
            else
              (let charStr = to_text (take (charLength d1) (charBuffer d1));
                   d2 = d1\<lparr>charReceived := 0, charLength := 0\<rparr>
               in if i = length buffer then (charStr, d2) else write_rest to_text charStr (drop i buffer) d2)))"

fun sd_writes :: "(jstring \<Rightarrow> nat list \<Rightarrow> jstring) \<Rightarrow> nat list list \<Rightarrow> string_decoder \<Rightarrow> jstring \<times> string_decoder" where
  "sd_writes to_text_as [] d = ([], d)"
| "sd_writes to_text_as (c # cs) d =
     (let (t, d1) = sd_write to_text_as c d; (ts, d2) = sd_writes to_text_as cs d1 in (t @ ts, d2))"

section \<open>The search for the last first byte\<close>

lemma lead_tests:
  "drop_bit 5 c = (6::nat) \<longleftrightarrow> lead_len c = 2" "drop_bit 4 c = (14::nat) \<longleftrightarrow> lead_len c = 3" "drop_bit 3 c = (30::nat) \<longleftrightarrow> lead_len c = 4"
proof -
  have "c div 16 = 14 \<Longrightarrow> c div 32 = 7" "c div 8 = 30 \<Longrightarrow> c div 32 = 7" "c div 8 = 30 \<Longrightarrow> c div 16 = 15"
    "c < 128 \<Longrightarrow> c div 32 \<noteq> 6" "c < 128 \<Longrightarrow> c div 16 \<noteq> 14" "c < 128 \<Longrightarrow> c div 8 \<noteq> 30" by linarith+
  then show "drop_bit 5 c = (6::nat) \<longleftrightarrow> lead_len c = 2" "drop_bit 4 c = (14::nat) \<longleftrightarrow> lead_len c = 3"
    "drop_bit 3 c = (30::nat) \<longleftrightarrow> lead_len c = 4"
    by (auto simp: lead_len_def drop_bit_eq_div)
qed

lemma lead_len_cases: "lead_len c = 0 \<or> lead_len c = 1 \<or> lead_len c = 2 \<or> lead_len c = 3 \<or> lead_len c = 4"
  by (simp add: lead_len_def)

lemma find_lead_simp:
  assumes "j < 3"
  shows "find_lead buf (Suc j) =
     (if lead_len (buf ! (length buf - Suc j)) > Suc j then (Suc j, lead_len (buf ! (length buf - Suc j))) else find_lead buf j)"
proof -
  have "j = 0 \<or> j = 1 \<or> j = 2" using assms by arith
  then show ?thesis using lead_len_cases [of "buf ! (length buf - Suc j)"]
    unfolding find_lead.simps Let_def lead_tests by (elim disjE) simp_all
qed

declare find_lead.simps(2) [simp del]

lemma find_lead_none:
  "j \<le> 3 \<Longrightarrow> j \<le> length buf \<Longrightarrow> \<forall>i < length buf. i + lead_len (buf ! i) \<le> length buf \<Longrightarrow> find_lead buf j = (0, 0)"
proof (induction j)
  case (Suc j)
  have "length buf - Suc j < length buf" using Suc.prems(2) by simp
  then have "length buf - Suc j + lead_len (buf ! (length buf - Suc j)) \<le> length buf" using Suc.prems(3) by blast
  then show ?case using Suc by (simp add: find_lead_simp)
qed simp

lemma find_lead_char:
  assumes "\<forall>i < length a. i + lead_len (a ! i) \<le> length a" and "lead_len b > Suc (length cs)"
  shows "Suc (length cs) \<le> j \<Longrightarrow> j \<le> 3 \<Longrightarrow> j \<le> length (a @ b # cs) \<Longrightarrow>
    find_lead (a @ b # cs) j = (Suc (length cs), lead_len b)"
proof (induction j)
  case (Suc j)
  show ?case
  proof (cases "j = length cs")
    case True
    then show ?thesis using Suc.prems assms(2) by (simp add: find_lead_simp nth_append)
  next
    case False
    then have n: "length (a @ b # cs) - Suc j = length a - (j - length cs)" "length a - (j - length cs) < length a"
      using Suc.prems by auto
    then have "lead_len (a ! (length a - (j - length cs))) \<le> j - length cs" using assms(1) by fastforce
    moreover have "(a @ b # cs) ! (length (a @ b # cs) - Suc j) = a ! (length a - (j - length cs))"
      unfolding n(1) nth_append by (simp only: n(2) if_True)
    ultimately have "\<not> lead_len ((a @ b # cs) ! (length (a @ b # cs) - Suc j)) > Suc j" by simp
    then show ?thesis using Suc False by (simp add: find_lead_simp)
  qed
qed simp

section \<open>Chunks\<close>

text \<open>The decoder holds the bytes \<open>p\<close>, the beginning of a character.\<close>

definition holds :: "string_decoder \<Rightarrow> nat list \<Rightarrow> bool" where
  "holds d p \<longleftrightarrow> encoding d = S ''utf8'' \<and> length (charBuffer d) = 4 \<and>
     (if p = [] then charLength d = 0 \<and> charReceived d = 0
      else charReceived d = length p \<and> take (length p) (charBuffer d) = p \<and> charLength d = lead_len (hd p) \<and> length p < charLength d)"

lemma copy_into_start: "length bs \<le> length buf \<Longrightarrow> take (length bs) (copy_into buf 0 bs) = bs"
  by (simp add: copy_into_def)

lemma length_copy_into [simp]: "at \<le> length buf \<Longrightarrow> length (copy_into buf at bs) = length buf"
  by (simp add: copy_into_def)

lemma take_copy_into: "at + length bs \<le> length buf \<Longrightarrow> take (at + length bs) (copy_into buf at bs) = take at buf @ bs"
  by (simp add: copy_into_def)

lemma char_part_lead:
  assumes "\<forall>p \<in> set ps. is_point p" and "char_part q ps" "q \<noteq> []"
  obtains b cs where "q = b # cs" "length q < lead_len b" "lead_len b \<le> 4"
proof -
  obtain p ps' r where p: "ps = p # ps'" "point_bytes p = q @ r" "r \<noteq> []" using assms(2,3) by (auto simp: char_part_def)
  obtain b cs where s: "point_bytes p = b # cs" "lead_len b = Suc (length cs)" "length cs \<le> 3"
    by (rule point_bytes_shape [of p]) (use assms(1) p(1) in auto)
  obtain q' where q: "q = b # q'" using s(1) p(2) assms(3) by (cases q) auto
  then have "cs = q' @ r" using s(1) p(2) by simp
  then have "length cs = length q' + length r" by simp
  moreover have "length r \<noteq> 0" using p(3) by simp
  ultimately show ?thesis using that [of b q'] q s(2,3) by simp
qed

lemma ex4I: "P a b c d \<Longrightarrow> \<exists>a b c d. P a b c d"
  by blast

context text_reader begin

text \<open>With nothing held, the complete characters are decoded and the rest is held.\<close>

lemma write_rest_text:
  assumes "\<forall>p \<in> set (as @ bs). is_point p" and "char_part q bs" and "holds d []"
  shows "\<exists>d'. write_rest to_text s (text_bytes as @ q) d = (s @ text_units as, d') \<and> holds d' q"
proof (cases "q = []")
  case True
  have "find_lead (text_bytes as) (if length (text_bytes as) \<ge> 3 then 3 else length (text_bytes as)) = (0, 0)"
    using lead_inside [of as] assms(1) by (intro find_lead_none) auto
  then show ?thesis using True assms by (simp add: write_rest_def to_text_all)
next
  case False
  obtain b cs where q: "q = b # cs" "length q < lead_len b" "lead_len b \<le> 4"
    by (rule char_part_lead [OF _ assms(2) False]) (use assms(1) in auto)
  let ?buf = "text_bytes as @ q"
  have f: "find_lead ?buf (if length ?buf \<ge> 3 then 3 else length ?buf) = (length q, lead_len b)"
    using find_lead_char [of "text_bytes as" cs b "if length ?buf \<ge> 3 then 3 else length ?buf"] lead_inside [of as] assms(1) q by auto
  then have w: "write_rest to_text s ?buf d = (s @ text_units as,
      d\<lparr>charLength := lead_len b, charBuffer := copy_into (charBuffer d) 0 q, charReceived := length q\<rparr>)"
    using q(2) assms(1) to_text_all [of as] unfolding write_rest_def f by (auto simp: to_text_Nil Let_def)
  have "length q \<le> length (charBuffer d)" using q assms(3) by (simp add: holds_def)
  then have "take (length q) (copy_into (charBuffer d) 0 q) = q" by (rule copy_into_start)
  then show ?thesis using w q assms(3) by (auto simp: holds_def)
qed

lemma write_text:
  assumes T: "to_text_as (S ''utf8'') = to_text" and d: "holds d q" and ps: "\<forall>p \<in> set ps. is_point p"
    and c: "q @ c @ r = text_bytes ps" "char_part q ps"
  shows "\<exists>as bs q' d'. ps = as @ bs \<and> sd_write to_text_as c d = (text_units as, d') \<and> holds d' q' \<and>
    q' @ r = text_bytes bs \<and> char_part q' bs"
proof (cases "q = []")
  case True
  obtain as bs b where s: "ps = as @ bs" "c = text_bytes as @ b" "b @ r = text_bytes bs" "char_part b bs"
    using text_cut [of c r ps] c(1) True by auto
  obtain d' where "write_rest to_text [] c d = (text_units as, d')" "holds d' b"
    using write_rest_text [of as bs b d "[]"] ps s d True by auto
  moreover from this have "sd_write to_text_as c d = (text_units as, d')" using T d True by (simp add: sd_write_def holds_def)
  ultimately show ?thesis using s by blast
next
  case False
  obtain b cs where q: "q = b # cs" "length q < lead_len b" "lead_len b \<le> 4" by (rule char_part_lead [OF ps c(2) False])
  obtain p ps' x where p: "ps = p # ps'" "point_bytes p = q @ x" "x \<noteq> []" using c(2) False by (auto simp: char_part_def)
  have n: "length (point_bytes p) = lead_len b"
    by (rule point_bytes_shape [of p]) (use ps p q in auto)
  have h: "encoding d = S ''utf8''" "length (charBuffer d) = 4" "charReceived d = length q" "take (length q) (charBuffer d) = q"
    "charLength d = lead_len b" using d q by (auto simp: holds_def)
  have need: "lead_len b - length q = length x" using n p(2) by simp
  have cr: "c @ r = x @ text_bytes ps'" using c(1) p by simp
  show ?thesis
  proof (cases "length x \<le> length c")
    case False
    then obtain y where y: "x = c @ y" "y \<noteq> []" using cr by (fastforce simp: append_eq_append_conv2)
    let ?d = "d\<lparr>charBuffer := copy_into (charBuffer d) (length q) c, charReceived := length q + length c\<rparr>"
    have l: "length q + length c < lead_len b" using n p(2) y by (cases y) auto
    have w: "sd_write to_text_as c d = ([], ?d)" using h need False l by (simp add: sd_write_def Let_def)
    have "take (length q + length c) (copy_into (charBuffer d) (length q) c) = q @ c"
      using take_copy_into [of "length q" c "charBuffer d"] h l q(3) by simp
    then have "holds ?d (q @ c)" using h q l by (auto simp: holds_def)
    moreover have "char_part (q @ c) ps" using p y by (auto simp: char_part_def)
    ultimately show ?thesis using w c(1)
      by (intro ex4I [where a = "[]" and b = ps and c = "q @ c" and d = ?d]) simp
  next
    case True
    then obtain c' where c': "c = x @ c'" "c' @ r = text_bytes ps'" using cr by (fastforce simp: append_eq_append_conv2)
    let ?d = "d\<lparr>charBuffer := copy_into (charBuffer d) (length q) x, charReceived := 0, charLength := 0\<rparr>"
    have d0: "holds ?d []" using h q by (auto simp: holds_def)
    have full: "length q + length x = lead_len b" using n p(2) by simp
    then have "take (lead_len b) (copy_into (charBuffer d) (length q) x) = point_bytes p"
      using take_copy_into [of "length q" x "charBuffer d"] h q(3) p(2) by simp
    moreover have "to_text (point_bytes p) = point_units p" using to_text_all [of "[p]"] ps p(1) by simp
    ultimately have w: "sd_write to_text_as c d =
        (if c' = [] then (point_units p, ?d) else write_rest to_text (point_units p) c' ?d)"
      using h q(2) full need T c' p(3) by (simp add: sd_write_def Let_def)
    obtain as bs b' where s: "ps' = as @ bs" "c' = text_bytes as @ b'" "b' @ r = text_bytes bs" "char_part b' bs"
      using text_cut [OF c'(2)] by blast
    show ?thesis
    proof (cases "c' = []")
      case True
      then show ?thesis using w d0 p(1) c'(2)
        by (intro ex4I [where a = "[p]" and b = ps' and c = "[]" and d = ?d]) (simp add: char_part_def)
    next
      case False
      obtain d' where "write_rest to_text (point_units p) c' ?d = (point_units p @ text_units as, d')" "holds d' b'"
        using write_rest_text [of as bs b' ?d "point_units p"] ps s p(1) d0 by auto
      moreover from w False have "sd_write to_text_as c d = write_rest to_text (point_units p) c' ?d" by simp
      ultimately show ?thesis using s p(1)
        by (intro ex4I [where a = "p # as" and b = bs and c = b' and d = d']) simp
    qed
  qed
qed

lemma writes_text:
  assumes T: "to_text_as (S ''utf8'') = to_text"
  shows "holds d q \<Longrightarrow> \<forall>p \<in> set ps. is_point p \<Longrightarrow> q @ concat cs @ r = text_bytes ps \<Longrightarrow> char_part q ps \<Longrightarrow>
    \<exists>as bs q' d'. ps = as @ bs \<and> sd_writes to_text_as cs d = (text_units as, d') \<and> holds d' q' \<and>
      q' @ r = text_bytes bs \<and> char_part q' bs"
proof (induction cs arbitrary: d q ps)
  case Nil
  then show ?case by (intro ex4I [where a = "[]" and b = ps and c = q and d = d]) simp
next
  case (Cons c cs)
  obtain as bs q1 d1 where 1: "ps = as @ bs" "sd_write to_text_as c d = (text_units as, d1)" "holds d1 q1"
    "q1 @ concat cs @ r = text_bytes bs" "char_part q1 bs"
    using write_text [where to_text_as = to_text_as and c = c and r = "concat cs @ r", OF T Cons.prems(1,2)] Cons.prems(3,4) by auto
  obtain as' bs' q' d' where 2: "bs = as' @ bs'" "sd_writes to_text_as cs d1 = (text_units as', d')" "holds d' q'"
    "q' @ r = text_bytes bs'" "char_part q' bs'"
    using Cons.IH [OF 1(3) _ 1(4,5)] Cons.prems(2) 1(1) by auto
  show ?case using 1(1,2) 2
    by (intro ex4I [where a = "as @ as'" and b = bs' and c = q' and d = d']) simp
qed

end

section \<open>Properties\<close>

text \<open>
  C32: A decoder of UTF-8 gives the same text however the bytes are cut into chunks: after any number of
  chunks it has given exactly the characters that are complete, and keeps the bytes of the one that is
  not; when all bytes have arrived it has given the whole text.
\<close>

theorem decoded_text_independent_of_chunks:
  assumes "text_reader (to_text_as (S ''utf8''))" and "encoding (new_decoder enc) = S ''utf8''"
    and "\<forall>p \<in> set ps. is_point p" and "concat chunks @ rest = text_bytes ps"
  shows "\<exists>as bs b. ps = as @ bs \<and> concat chunks = text_bytes as @ b \<and> char_part b bs \<and>
    fst (sd_writes to_text_as chunks (new_decoder enc)) = text_units as \<and> (rest = [] \<longrightarrow> as = ps)"
proof -
  have "holds (new_decoder enc) []" using assms(2) by (simp add: holds_def new_decoder_def)
  then obtain as bs b d where w: "ps = as @ bs" "sd_writes to_text_as chunks (new_decoder enc) = (text_units as, d)"
    "b @ rest = text_bytes bs" "char_part b bs"
    using text_reader.writes_text [where to_text_as = to_text_as and d = "new_decoder enc" and q = "[]" and ps = ps and cs = chunks and r = rest, OF assms(1) refl] assms(3,4)
    by (auto simp: char_part_def)
  have "concat chunks @ rest = (text_bytes as @ b) @ rest" using assms(4) w(1,3) by simp
  then have c: "concat chunks = text_bytes as @ b" by simp
  have "as = ps" if "rest = []"
  proof (cases bs)
    case (Cons p qs)
    then have b: "b = point_bytes p @ text_bytes qs" using that w(3) by simp
    then obtain r where r: "point_bytes p = b @ r" "r \<noteq> []" using w(4) Cons by (auto simp: char_part_def)
    have "length (point_bytes p) \<le> length b" using b by simp
    moreover have "length b < length (point_bytes p)" using r by simp
    ultimately show ?thesis by simp
  qed (use w(1) in simp)
  then show ?thesis using w c fst_conv by metis
qed

definition sample_points :: "nat list" where
  "sample_points = [0x65, 0xE9, 0x20AC, 0x1F3B8]"

theorem decoded_text_independent_of_chunks_witness:
  "fst (sd_writes (\<lambda>_. utf8_text) [[0x65, 0xC3], [0xA9, 0xE2, 0x82], [], [0xAC, 0xF0, 0x9F], [0x8E], [0xB8]] (new_decoder (S ''UTF-8''))) =
     [0x65, 0xE9, 0x20AC, 0xD83C, 0xDFB8]"
proof -
  have e: "encoding (new_decoder (S ''UTF-8'')) = S ''utf8''"
    by (simp add: new_decoder_def drop_dash_def toLowerCase_def lower1_def js_eval)
  have t:
    "\<forall>p \<in> set sample_points. is_point p" "text_units sample_points = [0x65, 0xE9, 0x20AC, 0xD83C, 0xDFB8]"
    "concat [[0x65, 0xC3], [0xA9, 0xE2, 0x82], [], [0xAC, 0xF0, 0x9F], [0x8E], [0xB8]] @ [] = text_bytes sample_points"
    by (simp_all add: sample_points_def is_point_def text_units_def text_bytes_def point_units_def point_bytes_def)
  show ?thesis
    using decoded_text_independent_of_chunks [of "\<lambda>_. utf8_text", OF utf8.text_reader_axioms e t(1,3)]
    unfolding t(2) [symmetric] by blast
qed

end
