(* ===== verification/Uri.thy ===== *)
theory Uri
  imports Utf8
begin

text \<open>
  \<open>encodeURIComponent\<close> and \<open>decodeURIComponent\<close> of the JavaScript library, as the language defines them,
  on strings of UTF-16 units; \<open>None\<close> is a \<open>URIError\<close>.
\<close>

section \<open>Strings as code points\<close>

definition is_high :: "nat \<Rightarrow> bool" where "is_high c \<longleftrightarrow> 0xD800 \<le> c \<and> c < 0xDC00"
definition is_low :: "nat \<Rightarrow> bool" where "is_low c \<longleftrightarrow> 0xDC00 \<le> c \<and> c < 0xE000"

fun str_points :: "jstring \<Rightarrow> nat list option" where
  "str_points [] = Some []"
| "str_points (c # s) =
     (if is_low c then None
      else if is_high c then
        (case s of
           [] \<Rightarrow> None
         | d # s' \<Rightarrow>
             if is_low d then map_option ((#) ((c - 0xD800) * 1024 + (d - 0xDC00) + 0x10000)) (str_points s') else None)
      else map_option ((#) c) (str_points s))"

definition units :: "jstring \<Rightarrow> bool" where
  "units s \<longleftrightarrow> (\<forall>c \<in> set s. c < 65536)"

lemma str_points_units:
  "units s \<Longrightarrow> str_points s = Some ps \<Longrightarrow> text_units ps = s \<and> (\<forall>p \<in> set ps. is_point p)"
proof (induction s arbitrary: ps rule: str_points.induct)
  case (2 c s)
  show ?case
  proof (cases "is_high c")
    case True
    then obtain d s' where s: "s = d # s'" "is_low d" using 2 by (auto split: if_splits list.splits)
    then obtain qs where qs: "str_points s' = Some qs" "ps = ((c - 0xD800) * 1024 + (d - 0xDC00) + 0x10000) # qs"
      using 2 True by (auto simp: is_low_def is_high_def split: if_splits)
    have "text_units qs = s' \<and> (\<forall>p \<in> set qs. is_point p)"
      using 2 s True qs by (auto simp: is_low_def is_high_def units_def)
    moreover define v where "v = (c - 0xD800) * 1024 + (d - 0xDC00)"
    have lt: "d - 0xDC00 < 1024" "c - 0xD800 < 1024" using True s(2) by (auto simp: is_high_def is_low_def)
    then have v: "v div 1024 = c - 0xD800" "v mod 1024 = d - 0xDC00" "v < 0x100000" unfolding v_def by simp_all
    then have "point_units (v + 0x10000) = [c, d]"
      using True s(2) by (simp add: point_units_def is_high_def is_low_def)
    moreover have "is_point (v + 0x10000)" using v by (simp add: is_point_def)
    ultimately show ?thesis using qs s by (simp add: v_def)
  next
    case False
    then obtain qs where qs: "str_points s = Some qs" "ps = c # qs" "\<not> is_low c"
      using 2 by (auto split: if_splits)
    moreover from this have "text_units qs = s \<and> (\<forall>p \<in> set qs. is_point p)"
      using 2 False by (auto simp: units_def)
    moreover have "c < 65536" using 2 by (simp add: units_def)
    ultimately show ?thesis using False by (auto simp: point_units_def is_point_def is_high_def is_low_def)
  qed
qed (simp add: units_def)

section \<open>Escaping\<close>

definition unreserved :: "nat \<Rightarrow> bool" where
  "unreserved c \<longleftrightarrow> (65 \<le> c \<and> c \<le> 90) \<or> (97 \<le> c \<and> c \<le> 122) \<or> (48 \<le> c \<and> c \<le> 57) \<or>
     c \<in> {33, 39, 40, 41, 42, 45, 46, 95, 126}"

definition hex_char :: "nat \<Rightarrow> nat" where
  "hex_char d = (if d < 10 then 48 + d else 55 + d)"

definition hex_val :: "nat \<Rightarrow> nat option" where
  "hex_val c =
     (if 48 \<le> c \<and> c \<le> 57 then Some (c - 48) else if 97 \<le> c \<and> c \<le> 102 then Some (c - 87)
      else if 65 \<le> c \<and> c \<le> 70 then Some (c - 55) else None)"

definition pct :: "nat \<Rightarrow> jstring" where
  "pct b = [37, hex_char (b div 16), hex_char (b mod 16)]"

definition encode_point :: "nat \<Rightarrow> jstring" where
  "encode_point p = (if unreserved p then [p] else concat (map pct (point_bytes p)))"

definition encodeURIComponent :: "jstring \<Rightarrow> jstring option" where
  "encodeURIComponent s = map_option (\<lambda>ps. concat (map encode_point ps)) (str_points s)"

text \<open>\<open>n\<close> octets, each written with a percent sign.\<close>

fun read_octets :: "nat \<Rightarrow> jstring \<Rightarrow> (nat list \<times> jstring) option" where
  "read_octets 0 s = Some ([], s)"
| "read_octets (Suc n) (c # a # b # s) =
     (case (hex_val a, hex_val b) of
        (Some x, Some y) \<Rightarrow> if c = 37 then map_option (\<lambda>(bs, r). ((16 * x + y) # bs, r)) (read_octets n s) else None
      | _ \<Rightarrow> None)"
| "read_octets (Suc n) s = None"

lemma read_octets_length: "read_octets n s = Some (bs, r) \<Longrightarrow> length r \<le> length s \<and> length bs = n"
  by (induction n s arbitrary: bs r rule: read_octets.induct) (fastforce split: option.splits if_splits)+

function decodeURIComponent :: "jstring \<Rightarrow> jstring option" where
  "decodeURIComponent [] = Some []"
| "decodeURIComponent (c # s) =
     (if c \<noteq> 37 then map_option ((#) c) (decodeURIComponent s)
      else
        (case read_octets 1 (c # s) of
           None \<Rightarrow> None
         | Some (b, _) \<Rightarrow>
             if lead_len (hd b) = 0 then None
             else
               (case read_octets (lead_len (hd b) - 1) (drop 2 s) of
                  None \<Rightarrow> None
                | Some (bs, r) \<Rightarrow>
                    if well_formed (b @ bs) then map_option ((@) (point_units (point_of (b @ bs)))) (decodeURIComponent r)
                    else None)))"
  by pat_completeness auto
termination
proof (relation "measure length")
  fix c s bs bs' r and p p' :: "nat list \<times> jstring"
  assume "read_octets (lead_len (hd bs) - 1) (drop 2 s) = Some p'" "(bs', r) = p'"
  then have "length r \<le> length s" using read_octets_length [of _ "drop 2 s" bs' r] by fastforce
  then show "(r, c # s) \<in> measure length" by simp
qed simp_all

declare decodeURIComponent.simps(2) [simp del]

lemma hex_val_char: "d < 16 \<Longrightarrow> hex_val (hex_char d) = Some d"
  by (auto simp: hex_val_def hex_char_def)

lemma read_pct: "\<forall>b \<in> set bs. b < 256 \<Longrightarrow> read_octets (length bs) (concat (map pct bs) @ r) = Some (bs, r)"
proof (induction bs)
  case (Cons b bs)
  have "b div 16 < 16" "b mod 16 < 16" using Cons.prems by auto
  then show ?case using Cons by (simp add: pct_def hex_val_char)
qed simp

lemma decode_encoded_point:
  assumes "is_point p"
  shows "decodeURIComponent (encode_point p @ r) = map_option ((@) (point_units p)) (decodeURIComponent r)"
proof (cases "unreserved p")
  case True
  then have "p \<noteq> 37" "p < 65536" by (auto simp: unreserved_def)
  moreover have "(@) [p] = (#) p" by (rule ext) simp
  ultimately show ?thesis using True by (simp add: encode_point_def decodeURIComponent.simps(2) point_units_def)
next
  case False
  obtain b cs where s: "point_bytes p = b # cs" "lead_len b = Suc (length cs)" by (rule point_bytes_shape [OF assms])
  have l: "\<forall>x \<in> set (b # cs). x < 256" using point_bytes_less [OF assms] s(1) by simp
  let ?s = "concat (map pct cs) @ r"
  have e: "encode_point p @ r = pct b @ ?s" using False s(1) by (simp add: encode_point_def)
  have "read_octets 1 (pct b @ ?s) = Some ([b], ?s)" using read_pct [of "[b]" ?s] l by simp
  moreover have "read_octets (length cs) ?s = Some (cs, r)" using read_pct [of cs r] l by simp
  moreover have "well_formed (b # cs)" "point_of (b # cs) = p"
    using well_formed_bytes [OF assms] point_of_bytes [OF assms] s(1) by simp_all
  ultimately show ?thesis unfolding e using s(2)
    by (simp add: pct_def decodeURIComponent.simps(2))
qed

lemma decode_encoded:
  assumes "units s" and "encodeURIComponent s = Some e"
  shows "decodeURIComponent e = Some s"
proof -
  obtain ps where ps: "str_points s = Some ps" "e = concat (map encode_point ps)"
    using assms(2) by (auto simp: encodeURIComponent_def)
  note p = str_points_units [OF assms(1) ps(1)]
  have "\<forall>p \<in> set ps. is_point p \<Longrightarrow> decodeURIComponent (concat (map encode_point ps)) = Some (text_units ps)"
    by (induction ps) (simp_all add: decode_encoded_point)
  then show ?thesis using p ps(2) by simp
qed

lemma hex_char_unreserved: "d < 16 \<Longrightarrow> unreserved (hex_char d)"
  by (simp add: hex_char_def unreserved_def)

lemma encoded_chars:
  assumes "units s" "encodeURIComponent s = Some e" and "c \<in> set e"
  shows "unreserved c \<or> c = 37"
proof -
  obtain ps where ps: "str_points s = Some ps" "e = concat (map encode_point ps)"
    using assms(2) by (auto simp: encodeURIComponent_def)
  then obtain p where p: "p \<in> set ps" "c \<in> set (encode_point p)" using assms(3) by auto
  have "is_point p" using str_points_units [OF assms(1) ps(1)] p(1) by blast
  show ?thesis
  proof (cases "unreserved p")
    case False
    then obtain b where b: "b \<in> set (point_bytes p)" "c \<in> set (pct b)" using p(2) by (auto simp: encode_point_def)
    then have "b < 256" using point_bytes_less [OF \<open>is_point p\<close>] by blast
    then have "b div 16 < 16" "b mod 16 < 16" by auto
    then show ?thesis using b(2) hex_char_unreserved [of "b div 16"] hex_char_unreserved [of "b mod 16"] by (auto simp: pct_def)
  qed (use p(2) in \<open>auto simp: encode_point_def\<close>)
qed

end
