(* ===== verification/QueryString.thy ===== *)
theory QueryString
  imports Uri
begin

text \<open>
  Query strings (\<open>src/lib/querystring.js\<close>): writing an object as a query string, reading one, and the
  tolerant decoder of percent signs, a state machine that fills a buffer.  An object is the list of its
  keys and values in their order; the key \<open>__proto__\<close>, which is not a plain property, is outside the model.
  \<open>toString\<close> of a buffer is the parameter \<open>to_text\<close>.
\<close>

section \<open>Decoding percent signs\<close>

datatype unescape_state = UE_CHAR | UE_HEX0 | UE_HEX1

record unescaper =
  ue_state :: unescape_state
  ue_out :: "nat list"
  ue_index :: nat
  ue_n :: nat
  ue_hexchar :: "nat option"

text \<open>\<open>out[outIndex++] = c\<close>: a byte, nothing past the end; \<open>NaN\<close> (read past the end of the string) is stored as 0.\<close>

definition ue_put :: "nat option \<Rightarrow> unescaper \<Rightarrow> unescaper" where
  "ue_put c u =
     u\<lparr>ue_out := list_update (ue_out u) (ue_index u) (case c of None \<Rightarrow> 0 | Some c \<Rightarrow> c mod 256), ue_index := Suc (ue_index u)\<rparr>"

definition hex_digit :: "nat option \<Rightarrow> nat option" where
  "hex_digit c = Option.bind c hex_val"

definition unescape_step :: "bool \<Rightarrow> nat option \<Rightarrow> unescaper \<Rightarrow> unescaper" where
  "unescape_step decodeSpaces c u =
     (case ue_state u of
        UE_CHAR \<Rightarrow>
          if c = Some 37 then u\<lparr>ue_n := 0, ue_state := UE_HEX0\<rparr>
          else ue_put (if c = Some 43 \<and> decodeSpaces then Some 32 else c) u
      | UE_HEX0 \<Rightarrow>
          (let u1 = u\<lparr>ue_state := UE_HEX1, ue_hexchar := c\<rparr> in
           case hex_digit c of
             Some x \<Rightarrow> u1\<lparr>ue_n := x\<rparr>
           | None \<Rightarrow> (ue_put c (ue_put (Some 37) u1))\<lparr>ue_state := UE_CHAR\<rparr>)
      | UE_HEX1 \<Rightarrow>
          (let u1 = u\<lparr>ue_state := UE_CHAR\<rparr> in
           case hex_digit c of
             Some m \<Rightarrow> ue_put (Some (16 * ue_n u1 + m)) u1
           | None \<Rightarrow> ue_put c (ue_put (ue_hexchar u1) (ue_put (Some 37) u1))))"

definition unescapeBuffer :: "jstring \<Rightarrow> bool \<Rightarrow> nat list" where
  "unescapeBuffer s decodeSpaces =
     (let u = fold (unescape_step decodeSpaces) (map Some s @ [None])
            \<lparr>ue_state = UE_CHAR, ue_out = replicate (length s) 0, ue_index = 0, ue_n = 0, ue_hexchar = None\<rparr>
      in take (ue_index u - 1) (ue_out u))"

definition qs_unescape :: "(nat list \<Rightarrow> jstring) \<Rightarrow> jstring \<Rightarrow> bool \<Rightarrow> jstring" where
  "qs_unescape to_text s decodeSpaces = to_text (unescapeBuffer s decodeSpaces)"

section \<open>Writing\<close>

text \<open>A value of an object: a string, a truth value, a number (its text, if it is finite) or anything else.\<close>

datatype qprim = PStr jstring | PBool bool | PNum "jstring option" | POther

datatype qval = One qprim | Many "qprim list"

datatype qobj = Obj "(jstring \<times> qval) list" | Prim qprim

definition stringifyPrimitive :: "qprim \<Rightarrow> jstring" where
  "stringifyPrimitive v =
     (case v of
        PStr s \<Rightarrow> s
      | PBool b \<Rightarrow> if b then S ''true'' else S ''false''
      | PNum t \<Rightarrow> (case t of Some t \<Rightarrow> t | None \<Rightarrow> [])
      | POther \<Rightarrow> [])"

definition or_default :: "jstring \<Rightarrow> jstring \<Rightarrow> jstring" where
  "or_default s d = (if s = [] then d else s)"

definition qs_pair :: "jstring \<Rightarrow> jstring \<Rightarrow> jstring \<Rightarrow> jstring option" where
  "qs_pair eq k v =
     Option.bind (encodeURIComponent k) (\<lambda>ek. map_option (\<lambda>ev. ek @ eq @ ev) (encodeURIComponent v))"

definition qs_entry :: "jstring \<Rightarrow> jstring \<Rightarrow> jstring \<times> qval \<Rightarrow> jstring option" where
  "qs_entry sep eq kv =
     (case snd kv of
        Many vs \<Rightarrow> map_option (join sep) (those (map (\<lambda>v. qs_pair eq (fst kv) (stringifyPrimitive v)) vs))
      | One v \<Rightarrow> qs_pair eq (fst kv) (stringifyPrimitive v))"

definition qs_stringify :: "qobj \<Rightarrow> jstring \<Rightarrow> jstring \<Rightarrow> jstring \<Rightarrow> jstring option" where
  "qs_stringify obj sep0 eq0 nm =
     (let sep = or_default sep0 [38]; eq = or_default eq0 [61] in
      case obj of
        Obj kvs \<Rightarrow> map_option (join sep) (those (map (qs_entry sep eq) kvs))
      | Prim v \<Rightarrow> if nm = [] then Some [] else qs_pair eq nm (stringifyPrimitive v))"

section \<open>Reading\<close>

definition starts_with :: "jstring \<Rightarrow> jstring \<Rightarrow> bool" where
  "starts_with p s \<longleftrightarrow> take (length p) s = p"

text \<open>\<open>split\<close> with a string that is not empty, and \<open>indexOf\<close>.\<close>

function split_str :: "jstring \<Rightarrow> jstring \<Rightarrow> jstring list" where
  "split_str sep [] = [[]]"
| "split_str sep (c # s) =
     (if sep \<noteq> [] \<and> starts_with sep (c # s) then [] # split_str sep (drop (length sep) (c # s))
      else (case split_str sep s of [] \<Rightarrow> [[c]] | p # ps \<Rightarrow> (c # p) # ps))"
  by pat_completeness auto
termination by (relation "measure (\<lambda>(sep, s). length s)") (auto simp: length_greater_0_conv)

declare split_str.simps(2) [simp del]

fun index_of :: "jstring \<Rightarrow> jstring \<Rightarrow> nat option" where
  "index_of p [] = (if p = [] then Some 0 else None)"
| "index_of p (c # s) = (if starts_with p (c # s) then Some 0 else map_option Suc (index_of p s))"

datatype qres = RStr jstring | RArr "jstring list"

type_synonym qdict = "(jstring \<times> qres) list"

definition qres_add :: "jstring \<Rightarrow> qres \<Rightarrow> qres" where
  "qres_add v r = (case r of RStr w \<Rightarrow> RArr [w, v] | RArr ws \<Rightarrow> RArr (ws @ [v]))"

definition qdict_add :: "jstring \<times> jstring \<Rightarrow> qdict \<Rightarrow> qdict" where
  "qdict_add kv obj =
     (if map_of obj (fst kv) = None then obj @ [(fst kv, RStr (snd kv))]
      else map (\<lambda>(k, r). (k, if k = fst kv then qres_add (snd kv) r else r)) obj)"

text \<open>
  One \<open>key=value\<close> of \<open>parse\<close>.  The key is what stands before \<open>eq\<close>, the value what comes one character
  after the place where \<open>eq\<close> was found; if it was not found there is no key and the whole is the value.
\<close>

definition parse_pair :: "(nat list \<Rightarrow> jstring) \<Rightarrow> jstring \<Rightarrow> jstring \<Rightarrow> jstring \<times> jstring" where
  "parse_pair to_text eq p =
     (let x = concat (map (\<lambda>c. if c = 43 then [37, 50, 48] else [c]) p);
          kstr = (case index_of eq x of None \<Rightarrow> [] | Some i \<Rightarrow> take i x);
          vstr = (case index_of eq x of None \<Rightarrow> x | Some i \<Rightarrow> drop (Suc i) x)
      in case (decodeURIComponent kstr, decodeURIComponent vstr) of
           (Some k, Some v) \<Rightarrow> (k, v)
         | _ \<Rightarrow> (qs_unescape to_text kstr True, qs_unescape to_text vstr True))"

text \<open>\<open>options.maxKeys\<close> is \<open>None\<close> when it is not a number.\<close>

definition qs_parse :: "(nat list \<Rightarrow> jstring) \<Rightarrow> jstring \<Rightarrow> jstring \<Rightarrow> jstring \<Rightarrow> int option \<Rightarrow> qdict" where
  "qs_parse to_text qs sep0 eq0 maxKeys0 =
     (let sep = or_default sep0 [38]; eq = or_default eq0 [61];
          maxKeys = (case maxKeys0 of None \<Rightarrow> 1000 | Some m \<Rightarrow> m)
      in if qs = [] then []
         else
           (let parts = split_str sep qs; parts' = (if maxKeys > 0 then take (nat maxKeys) parts else parts)
            in fold (\<lambda>p obj. qdict_add (parse_pair to_text eq p) obj) parts' []))"

section \<open>The state machine is percent decoding\<close>

text \<open>What the state machine does from one escape to the next.\<close>

fun unescape_steps :: "bool \<Rightarrow> jstring \<Rightarrow> nat list" where
  "unescape_steps sp [] = []"
| "unescape_steps sp (c # s) =
     (if c \<noteq> 37 then (if c = 43 \<and> sp then 32 else c mod 256) # unescape_steps sp s
      else
        (case s of
           [] \<Rightarrow> [37]
         | a # s1 \<Rightarrow>
             (case hex_val a of
                None \<Rightarrow> 37 # a mod 256 # unescape_steps sp s1
              | Some x \<Rightarrow>
                  (case s1 of
                     [] \<Rightarrow> [37, a mod 256]
                   | b # s2 \<Rightarrow>
                       (case hex_val b of
                          Some y \<Rightarrow> (16 * x + y) # unescape_steps sp s2
                        | None \<Rightarrow> 37 # a mod 256 # b mod 256 # unescape_steps sp s2)))))"

lemma take_Suc_update: "k < length xs \<Longrightarrow> take (Suc k) (xs[k := x]) = take k xs @ [x]"
  by (simp add: take_Suc_conv_app_nth)

definition ue_done :: "unescaper \<Rightarrow> nat list" where
  "ue_done u = take (ue_index u) (ue_out u)"

lemma ue_put_simps [simp]:
  "ue_state (ue_put c u) = ue_state u" "ue_index (ue_put c u) = Suc (ue_index u)" "length (ue_out (ue_put c u)) = length (ue_out u)"
  "ue_n (ue_put c u) = ue_n u" "ue_hexchar (ue_put c u) = ue_hexchar u"
  by (simp_all add: ue_put_def)

lemma ue_put_done:
  "ue_index u < length (ue_out u) \<Longrightarrow> ue_done (ue_put c u) = ue_done u @ [case c of None \<Rightarrow> 0 | Some c \<Rightarrow> c mod 256]"
  by (simp add: ue_put_def ue_done_def take_Suc_update)

lemma hex_val_less: "hex_val c = Some x \<Longrightarrow> x < 16"
  by (auto simp: hex_val_def split: if_splits)

lemma put_last: "k = ue_index u \<Longrightarrow> take k (ue_out (ue_put c u)) = ue_done u"
  by (simp add: ue_put_def ue_done_def)

lemma ue_done_upd [simp]:
  "ue_done (u\<lparr>ue_state := st\<rparr>) = ue_done u" "ue_done (u\<lparr>ue_hexchar := h\<rparr>) = ue_done u" "ue_done (u\<lparr>ue_n := n\<rparr>) = ue_done u"
  by (simp_all add: ue_done_def)

lemma unescape_loop:
  "ue_state u = UE_CHAR \<Longrightarrow> ue_index u + length s \<le> length (ue_out u) \<Longrightarrow>
   (let u' = fold (unescape_step sp) (map Some s @ [None]) u in take (ue_index u' - 1) (ue_out u')) = ue_done u @ unescape_steps sp s"
proof (induction sp s arbitrary: u rule: unescape_steps.induct)
  case (1 sp)
  then show ?case by (simp add: unescape_step_def put_last)
next
  case (2 sp c s)
  show ?case
  proof (cases "c = 37")
    case False
    then show ?thesis using 2 by (simp add: unescape_step_def ue_put_done)
  next
    case c: True
    let ?u = "u\<lparr>ue_n := 0, ue_state := UE_HEX0\<rparr>"
    have step: "unescape_step sp (Some c) u = ?u" using 2 c by (simp add: unescape_step_def)
    show ?thesis
    proof (cases s)
      case Nil
      then show ?thesis using 2 c step
        by (simp add: unescape_step_def hex_digit_def put_last ue_put_done)
    next
      case a: (Cons a s1)
      show ?thesis
      proof (cases "hex_val a")
        case None
        then show ?thesis using 2 c a step
          by (simp add: unescape_step_def hex_digit_def ue_put_done)
      next
        case x: (Some x)
        show ?thesis
        proof (cases s1)
          case Nil
          then show ?thesis using 2 c a x step
            by (simp add: unescape_step_def hex_digit_def put_last ue_put_done)
        next
          case b: (Cons b s2)
          show ?thesis
          proof (cases "hex_val b")
            case None
            then show ?thesis using 2 c a x b step
              by (simp add: unescape_step_def hex_digit_def ue_put_done)
          next
            case (Some y)
            have "16 * x + y < 256" using hex_val_less [OF x] hex_val_less [OF Some] by simp
            then show ?thesis using 2 c a x b Some step
              by (simp add: unescape_step_def hex_digit_def ue_put_done)
          qed
        qed
      qed
    qed
  qed
qed

text \<open>
  Percent decoding: a percent sign with two hexadecimal digits is a byte, any other percent sign stands for itself, and
  so does every other character, but for a plus that means a space.
\<close>

fun percent_decode :: "bool \<Rightarrow> jstring \<Rightarrow> nat list" where
  "percent_decode sp [] = []"
| "percent_decode sp (c # s) =
     (if c = 37 \<and> 2 \<le> length s \<and> hex_val (s ! 0) \<noteq> None \<and> hex_val (s ! 1) \<noteq> None
      then (16 * the (hex_val (s ! 0)) + the (hex_val (s ! 1))) # percent_decode sp (drop 2 s)
      else (if c = 43 \<and> sp then 32 else c mod 256) # percent_decode sp s)"

text \<open>
  The texts in which no character with a meaning follows a percent sign, directly or after one hexadecimal digit.  The
  state machine takes such a character as it is.
\<close>

fun escapes_apart :: "bool \<Rightarrow> jstring \<Rightarrow> bool" where
  "escapes_apart sp [] = True"
| "escapes_apart sp (c # s) =
     ((c = 37 \<longrightarrow> (case s of
         [] \<Rightarrow> True
       | a # t \<Rightarrow> a \<noteq> 37 \<and> (a = 43 \<longrightarrow> \<not> sp) \<and>
           (hex_val a \<noteq> None \<and> t \<noteq> [] \<longrightarrow> hd t \<noteq> 37 \<and> (hd t = 43 \<longrightarrow> \<not> sp)))) \<and>
      escapes_apart sp s)"

lemma hex_val_sign [simp]: "hex_val 37 = None" "hex_val 43 = None"
  by (simp_all add: hex_val_def)

lemma steps_decode: "escapes_apart sp s \<Longrightarrow> unescape_steps sp s = percent_decode sp s"
proof (induction sp s rule: unescape_steps.induct)
  case (2 sp c s)
  show ?case
  proof (cases "c = 37")
    case False
    then show ?thesis using 2 by simp
  next
    case c: True
    show ?thesis
    proof (cases s)
      case Nil
      then show ?thesis using c by simp
    next
      case a: (Cons a s1)
      show ?thesis
      proof (cases "hex_val a")
        case None
        then show ?thesis using 2 c a by auto
      next
        case x: (Some x)
        then have na: "a \<noteq> 37" "a \<noteq> 43" by auto
        show ?thesis
        proof (cases s1)
          case Nil
          then show ?thesis using c a x na by simp
        next
          case b: (Cons b s2)
          have e: "escapes_apart sp s2" using 2 a b by simp
          show ?thesis
          proof (cases "hex_val b")
            case None
            then show ?thesis using 2 c a b x na e by auto
          next
            case (Some y)
            then show ?thesis using 2 c a b x e by simp
          qed
        qed
      qed
    qed
  qed
qed simp

lemma unescape_is_steps: "unescapeBuffer s decodeSpaces = unescape_steps decodeSpaces s"
  using unescape_loop [where s = s and sp = decodeSpaces and u = "\<lparr>ue_state = UE_CHAR, ue_out = replicate (length s) 0, ue_index = 0, ue_n = 0, ue_hexchar = None\<rparr>"]
  by (simp add: unescapeBuffer_def ue_done_def del: fold_append)

text \<open>
  C34: The state machine of \<open>unescapeBuffer\<close>, which writes into a buffer as long as the string and cuts off what it
  wrote for the character past the end, is percent decoding, on every text in which no percent sign (and, when it
  means a space, no plus) follows a percent sign directly or after one hexadecimal digit.
\<close>

theorem unescape_is_percent_decoding:
  assumes "escapes_apart decodeSpaces s"
  shows "unescapeBuffer s decodeSpaces = percent_decode decodeSpaces s"
  using assms by (simp add: unescape_is_steps steps_decode)

theorem unescape_is_percent_decoding_witness:
  "escapes_apart True (S ''a+b%4z%C3%a9%'') \<and> unescapeBuffer (S ''a+b%4z%C3%a9%'') True = [97, 32, 98, 37, 52, 122, 195, 169, 37]"
proof -
  have e: "escapes_apart True (S ''a+b%4z%C3%a9%'')" by (simp add: js_eval hex_val_def)
  show ?thesis using unescape_is_percent_decoding [OF e] e by (simp add: js_eval hex_val_def)
qed

text \<open>After a percent sign that is no escape the next one is not looked at: an escape that follows is left as it is.\<close>

lemma escape_after_percent:
  "unescapeBuffer (S ''%%41'') False = S ''%%41''" "percent_decode False (S ''%%41'') = S ''%A''"
  by (simp_all add: unescape_is_steps js_eval hex_val_def)

section \<open>Reading what was written\<close>

definition sound :: "jstring \<Rightarrow> bool" where
  "sound s \<longleftrightarrow> units s \<and> str_points s \<noteq> None"

definition qval_list :: "qval \<Rightarrow> jstring list" where
  "qval_list q = (case q of One v \<Rightarrow> [stringifyPrimitive v] | Many vs \<Rightarrow> map stringifyPrimitive vs)"

definition qs_pairs :: "(jstring \<times> qval) list \<Rightarrow> (jstring \<times> jstring) list" where
  "qs_pairs kvs = concat (map (\<lambda>(k, q). map (Pair k) (qval_list q)) kvs)"

definition qres_of :: "qval \<Rightarrow> qres" where
  "qres_of q = (case qval_list q of [v] \<Rightarrow> RStr v | vs \<Rightarrow> RArr vs)"

lemma split_str_single: "a \<notin> set p \<Longrightarrow> split_str (a # t) p = [p]"
  by (induction p) (auto simp: split_str.simps(2) starts_with_def)

lemma split_str_append: "a \<notin> set p \<Longrightarrow> split_str (a # t) (p @ (a # t) @ s) = p # split_str (a # t) s"
  by (induction p) (auto simp: split_str.simps(2) starts_with_def)

lemma split_str_join:
  "ps \<noteq> [] \<Longrightarrow> \<forall>p \<in> set ps. a \<notin> set p \<Longrightarrow> split_str (a # t) (join (a # t) ps) = ps"
proof (induction ps)
  case (Cons p ps)
  then show ?case using split_str_append [of a p t] by (cases ps) (simp_all add: split_str_single)
qed simp

lemma index_of_first: "b \<notin> set k \<Longrightarrow> index_of [b] (k @ b # v) = Some (length k)"
  by (induction k) (simp_all add: starts_with_def)

lemma parse_pair_written:
  assumes "sound k" "sound v" and "qs_pair [b] k v = Some p" and b: "b \<noteq> 37" "b \<noteq> 43" "\<not> unreserved b"
  shows "parse_pair to_text [b] p = (k, v)" and "c \<in> set p \<Longrightarrow> c = b \<or> c = 37 \<or> unreserved c"
proof -
  obtain ek ev where e: "encodeURIComponent k = Some ek" "encodeURIComponent v = Some ev" "p = ek @ b # ev"
    using assms(3) by (auto simp: qs_pair_def bind_eq_Some_conv)
  have u: "units k" "units v" using assms(1,2) by (simp_all add: sound_def)
  note ck = encoded_chars [OF u(1) e(1)] and cv = encoded_chars [OF u(2) e(2)]
  then show "c \<in> set p \<Longrightarrow> c = b \<or> c = 37 \<or> unreserved c" using e(3) by auto
  have "\<not> unreserved 43" by (simp add: unreserved_def)
  then have no: "43 \<notin> set p" using ck cv e(3) b(2) by fastforce
  have "concat (map (\<lambda>c. if c = 43 then [37, 50, 48] else [c]) p) = p"
    using no by (induction p) auto
  moreover have "index_of [b] p = Some (length ek)" using ck b e(3) by (auto intro: index_of_first)
  ultimately show "parse_pair to_text [b] p = (k, v)"
    using decode_encoded [OF u(1) e(1)] decode_encoded [OF u(2) e(2)] e(3)
    by (simp add: parse_pair_def)
qed

lemma those_map: "\<forall>x \<in> set xs. f x = Some (g x) \<Longrightarrow> those (map f xs) = Some (map g xs)"
  by (induction xs) simp_all

lemma join_join: "\<forall>ps \<in> set pss. ps \<noteq> [] \<Longrightarrow> join sep (map (join sep) pss) = join sep (concat pss)"
proof (induction pss)
  case (Cons ps pss)
  have app: "join sep (xs @ ys) = join sep xs @ sep @ join sep ys" if "xs \<noteq> []" "ys \<noteq> []" for xs ys
    using that by (induction sep xs rule: join.induct) (auto simp: neq_Nil_conv)
  show ?case
  proof (cases pss)
    case (Cons qs qss)
    then have "concat pss \<noteq> []" using Cons.prems by simp
    then show ?thesis using app [of ps "concat pss"] Cons.prems Cons.IH Cons by simp
  qed simp
qed simp

lemma qdict_add_last:
  "k \<notin> fst ` set obj \<Longrightarrow> qdict_add (k, v) (obj @ [(k, r)]) = obj @ [(k, qres_add v r)]"
proof -
  assume n: "k \<notin> fst ` set obj"
  then have "map (\<lambda>(k', r). (k', if k' = k then qres_add v r else r)) obj = obj" by (induction obj) auto
  moreover have "map_of (obj @ [(k, r)]) k \<noteq> None" by (simp add: map_of_eq_None_iff)
  ultimately show ?thesis unfolding qdict_add_def fst_conv snd_conv by simp
qed

lemma qdict_add_key:
  assumes "k \<notin> fst ` set obj" and "vs \<noteq> []"
  shows "fold qdict_add (map (Pair k) vs) obj = obj @ [(k, case vs of [v] \<Rightarrow> RStr v | vs \<Rightarrow> RArr vs)]"
proof -
  obtain v ws where vs: "vs = v # ws" using assms(2) by (cases vs) auto
  have first: "qdict_add (k, v) obj = obj @ [(k, RStr v)]" using assms(1) by (simp add: qdict_add_def map_of_eq_None_iff)
  have arr: "fold qdict_add (map (Pair k) us) (obj @ [(k, RArr xs)]) = obj @ [(k, RArr (xs @ us))]" for us xs
    by (induction us arbitrary: xs) (simp_all add: qdict_add_last [OF assms(1)] qres_add_def)
  show ?thesis
    using first arr [of "tl ws" "[v, hd ws]"] by (cases ws) (simp_all add: vs qdict_add_last [OF assms(1)] qres_add_def)
qed

lemma qdict_add_pairs:
  "distinct (map fst kvs) \<Longrightarrow> fst ` set kvs \<inter> fst ` set obj = {} \<Longrightarrow> \<forall>kv \<in> set kvs. qval_list (snd kv) \<noteq> [] \<Longrightarrow>
   fold qdict_add (qs_pairs kvs) obj = obj @ map (\<lambda>(k, q). (k, qres_of q)) kvs"
proof (induction kvs arbitrary: obj)
  case (Cons kq kvs)
  obtain k q where kq: "kq = (k, q)" by (cases kq)
  have "fold qdict_add (map (Pair k) (qval_list q)) obj = obj @ [(k, qres_of q)]"
    using qdict_add_key [of k obj "qval_list q"] Cons.prems kq by (auto simp: qres_of_def)
  then show ?case using Cons.IH [of "obj @ [(k, qres_of q)]"] Cons.prems kq by (auto simp: qs_pairs_def)
qed (simp add: qs_pairs_def)

text \<open>The text of one pair, and of all pairs.\<close>

definition pair_text :: "nat \<Rightarrow> jstring \<Rightarrow> jstring \<Rightarrow> jstring" where
  "pair_text b k v = the (qs_pair [b] k v)"

lemma pair_text: "sound k \<Longrightarrow> sound v \<Longrightarrow> qs_pair [b] k v = Some (pair_text b k v)"
  by (auto simp: sound_def pair_text_def qs_pair_def encodeURIComponent_def)

definition pair_texts :: "nat \<Rightarrow> (jstring \<times> jstring) list \<Rightarrow> jstring list" where
  "pair_texts b = map (\<lambda>(k, v). pair_text b k v)"

text \<open>Keys and texts are well formed, and no array is empty: \<open>stringify\<close> writes nothing for it but the separators.\<close>

definition sound_obj :: "(jstring \<times> qval) list \<Rightarrow> bool" where
  "sound_obj kvs \<longleftrightarrow> (\<forall>(k, q) \<in> set kvs. sound k \<and> qval_list q \<noteq> [] \<and> (\<forall>v \<in> set (qval_list q). sound v))"

lemma sound_pairs: "sound_obj kvs \<Longrightarrow> (k, v) \<in> set (qs_pairs kvs) \<Longrightarrow> sound k \<and> sound v"
  by (fastforce simp: sound_obj_def qs_pairs_def)

lemma entry_text:
  assumes "sound_obj kvs" and "kq \<in> set kvs"
  shows "qs_entry sep [b] kq = Some (join sep (map (pair_text b (fst kq)) (qval_list (snd kq))))"
proof -
  obtain k q where kq: "kq = (k, q)" by (cases kq)
  then have s: "sound k" "\<forall>v \<in> set (qval_list q). sound v" using assms by (auto simp: sound_obj_def)
  show ?thesis
  proof (cases q)
    case (Many vs)
    have "those (map (\<lambda>v. qs_pair [b] k (stringifyPrimitive v)) vs) = Some (map (\<lambda>v. pair_text b k (stringifyPrimitive v)) vs)"
      using s Many by (intro those_map) (auto simp: qval_list_def pair_text)
    then show ?thesis using Many kq by (simp add: qs_entry_def qval_list_def comp_def)
  next
    case (One v)
    then show ?thesis using s kq by (simp add: qs_entry_def qval_list_def pair_text)
  qed
qed

lemma stringify_text:
  assumes "sound_obj kvs" and "or_default sep0 [38] = sep" "or_default eq0 [61] = [b]"
  shows "qs_stringify (Obj kvs) sep0 eq0 nm = Some (join sep (pair_texts b (qs_pairs kvs)))"
proof -
  let ?g = "\<lambda>kq. map (pair_text b (fst kq)) (qval_list (snd kq))"
  have "those (map (qs_entry sep [b]) kvs) = Some (map (\<lambda>kq. join sep (?g kq)) kvs)"
    using entry_text [OF assms(1)] by (intro those_map) blast
  also have "map (\<lambda>kq. join sep (?g kq)) kvs = map (join sep) (map ?g kvs)" by simp
  finally have t: "those (map (qs_entry sep [b]) kvs) = Some (map (join sep) (map ?g kvs))" .
  have "\<forall>ps \<in> set (map ?g kvs). ps \<noteq> []" using assms(1) by (auto simp: sound_obj_def)
  then have "map_option (join sep) (those (map (qs_entry sep [b]) kvs)) = Some (join sep (concat (map ?g kvs)))"
    unfolding t by (simp only: option.map join_join)
  moreover have "concat (map ?g kvs) = pair_texts b (qs_pairs kvs)"
    unfolding qs_pairs_def pair_texts_def by (induction kvs) auto
  ultimately show ?thesis using assms(2,3) by (simp add: qs_stringify_def)
qed

lemma parse_pairs:
  assumes "\<And>k v. (k, v) \<in> set kv \<Longrightarrow> sound k \<and> sound v" and "b \<noteq> 37" "b \<noteq> 43" "\<not> unreserved b"
  shows "fold (\<lambda>p. qdict_add (parse_pair to_text [b] p)) (pair_texts b kv) obj = fold qdict_add kv obj"
  using assms(1)
proof (induction kv arbitrary: obj)
  case (Cons x kv)
  obtain k v where x: "x = (k, v)" by (cases x)
  have s: "sound k" "sound v" using Cons.prems [of k v] x by simp_all
  have "parse_pair to_text [b] (pair_text b k v) = (k, v)"
    by (rule parse_pair_written(1) [OF s pair_text [OF s] assms(2-4)])
  moreover have "fold (\<lambda>p. qdict_add (parse_pair to_text [b] p)) (pair_texts b kv) o' = fold qdict_add kv o'" for o'
    using Cons.prems by (intro Cons.IH) (meson list.set_intros(2))
  ultimately show ?case using x by (simp add: pair_texts_def)
qed (simp add: pair_texts_def)

lemma parse_text:
  assumes s: "\<And>k v. (k, v) \<in> set kv \<Longrightarrow> sound k \<and> sound v"
    and sep: "or_default sep0 [38] = a # t" "a \<noteq> 37" "\<not> unreserved a"
    and eq: "or_default eq0 [61] = [b]" "b \<noteq> 37" "b \<noteq> 43" "\<not> unreserved b" "a \<noteq> b"
    and keys: "maxKeys = Some 0 \<or> maxKeys = None \<and> length kv \<le> 1000"
  shows "qs_parse to_text (join (a # t) (pair_texts b kv)) sep0 eq0 maxKeys = fold qdict_add kv []"
proof (cases "kv = []")
  case True
  then show ?thesis by (simp add: qs_parse_def pair_texts_def)
next
  case False
  then have ne: "pair_texts b kv \<noteq> []" by (simp add: pair_texts_def)
  have p: "a \<notin> set p \<and> p \<noteq> []" if "p \<in> set (pair_texts b kv)" for p
  proof -
    obtain k v where p: "(k, v) \<in> set kv" "p = pair_text b k v" using \<open>p \<in> set (pair_texts b kv)\<close> by (auto simp: pair_texts_def)
    have kv: "sound k" "sound v" using s [OF p(1)] by simp_all
    have "p \<noteq> []" using pair_text [OF kv, of b] p(2) by (auto simp: qs_pair_def bind_eq_Some_conv)
    then show ?thesis
      using parse_pair_written(2) [OF kv pair_text [OF kv] eq(2-4), of a] p(2) sep(2,3) eq(5) by blast
  qed
  then have "join (a # t) (pair_texts b kv) \<noteq> []" using ne by (cases "pair_texts b kv"; cases "tl (pair_texts b kv)") auto
  moreover have "split_str (a # t) (join (a # t) (pair_texts b kv)) = pair_texts b kv" using ne p by (intro split_str_join) auto
  moreover have "(case maxKeys of None \<Rightarrow> 1000 | Some m \<Rightarrow> m) > 0 \<Longrightarrow>
      take (nat (case maxKeys of None \<Rightarrow> 1000 | Some m \<Rightarrow> m)) (pair_texts b kv) = pair_texts b kv"
    using keys by (auto simp: pair_texts_def)
  ultimately show ?thesis using sep(1) eq(1) parse_pairs [OF s eq(2-4)]
    by (simp add: qs_parse_def Let_def)
qed

text \<open>
  C33: What \<open>stringify\<close> writes, \<open>parse\<close> reads: an object whose keys and texts are well formed and whose arrays are not
  empty comes back with every value as a string, an array of one as that string, and other arrays as arrays of strings in
  their order, for any separator that starts with a reserved character and any other single character
  (no plus sign) between key and value, as long as there are not more pairs than \<open>maxKeys\<close>.
\<close>

theorem query_string_roundtrip:
  assumes "distinct (map fst kvs)" and "sound_obj kvs"
    and "or_default sep0 [38] = a # t" "a \<noteq> 37" "\<not> unreserved a"
    and "or_default eq0 [61] = [b]" "b \<noteq> 37" "b \<noteq> 43" "\<not> unreserved b" "a \<noteq> b"
    and "maxKeys = Some 0 \<or> maxKeys = None \<and> length (qs_pairs kvs) \<le> 1000"
  shows "\<exists>qs. qs_stringify (Obj kvs) sep0 eq0 nm = Some qs \<and>
    qs_parse to_text qs sep0 eq0 maxKeys = map (\<lambda>(k, q). (k, qres_of q)) kvs"
proof -
  have "fold qdict_add (qs_pairs kvs) [] = map (\<lambda>(k, q). (k, qres_of q)) kvs"
    using qdict_add_pairs [OF assms(1), of "[]"] assms(2) by (fastforce simp: sound_obj_def)
  then show ?thesis
    using stringify_text [OF assms(2,3,6)] parse_text [OF sound_pairs [OF assms(2)] assms(3-11)] by simp
qed

text \<open>\<open>{name: ['a&b', 'c'], u: true}\<close>; the answer of \<open>toString\<close> is not asked for.\<close>

theorem query_string_roundtrip_witness:
  "\<exists>qs. qs_stringify (Obj [(S ''n'', Many [PStr (S ''a&b''), PStr (S ''c'')]), (S ''u'', One (PBool True))]) [] [] [] = Some qs \<and>
     qs_parse utf8_text qs [] [] None = [(S ''n'', RArr [S ''a&b'', S ''c'']), (S ''u'', RStr (S ''true''))]"
proof -
  let ?kvs = "[(S ''n'', Many [PStr (S ''a&b''), PStr (S ''c'')]), (S ''u'', One (PBool True))]"
  have "distinct (map fst ?kvs)" "sound_obj ?kvs" "length (qs_pairs ?kvs) \<le> 1000"
    by (simp_all add: js_eval sound_obj_def sound_def units_def qval_list_def stringifyPrimitive_def is_low_def is_high_def qs_pairs_def)
  then have "\<exists>qs. qs_stringify (Obj ?kvs) [] [] [] = Some qs \<and> qs_parse utf8_text qs [] [] None = map (\<lambda>(k, q). (k, qres_of q)) ?kvs"
    by (intro query_string_roundtrip [where a = 38 and b = 61 and t = "[]"]) (simp_all add: or_default_def unreserved_def)
  then show ?thesis by (simp add: qres_of_def qval_list_def stringifyPrimitive_def)
qed

text \<open>An empty array alone is lost; beside another key it comes back as a key and a value without characters.\<close>

lemma empty_array:
  "qs_stringify (Obj [(S ''a'', Many [])]) [] [] [] = Some []" "qs_parse to_text [] [] [] None = []"
  "qs_stringify (Obj [(S ''a'', Many []), (S ''b'', One (PStr (S ''c'')))]) [] [] [] = Some (S ''&b=c'')"
  "qs_parse to_text (S ''&b=c'') [] [] None = [([], RStr []), (S ''b'', RStr (S ''c''))]"
  by (simp_all add: js_eval qs_stringify_def qs_entry_def qs_pair_def encodeURIComponent_def encode_point_def unreserved_def
      is_low_def is_high_def stringifyPrimitive_def or_default_def qs_parse_def split_str.simps(2) starts_with_def
      parse_pair_def decodeURIComponent.simps(2) qdict_add_def)

lemma sample_pairs:
  "split_str [38] (S ''baz=qux&corge'') = [S ''baz=qux'', S ''corge'']"
  "parse_pair to_text [61] (S ''corge'') = ([], S ''corge'')"
  "parse_pair to_text [61] (S ''baz=qux'') = (S ''baz'', S ''qux'')"
  "parse_pair to_text (S '':='') (S ''foo:=bar'') = (S ''foo'', S ''=bar'')"
  by (simp_all add: js_eval split_str.simps(2) starts_with_def parse_pair_def decodeURIComponent.simps(2))

text \<open>
  A parameter without a value has no key: the documentation of \<open>parse\<close> gives \<open>corge: ''\<close> for \<open>corge\<close>.  And
  of a separator of two characters between key and value the second stays in the value.
\<close>

theorem parameter_without_value:
  "qs_parse to_text (S ''baz=qux&corge'') [] [] None = [(S ''baz'', RStr (S ''qux'')), ([], RStr (S ''corge''))]"
  "qs_parse to_text (S ''foo:=bar'') [] (S '':='') None = [(S ''foo'', RStr (S ''=bar''))]"
proof -
  have ne: "S ''baz=qux&corge'' \<noteq> []" "S ''baz'' \<noteq> []" "S ''foo:=bar'' \<noteq> []" "S '':='' \<noteq> []" by (simp_all add: js_eval)
  then show "qs_parse to_text (S ''baz=qux&corge'') [] [] None = [(S ''baz'', RStr (S ''qux'')), ([], RStr (S ''corge''))]"
    by (simp add: qs_parse_def or_default_def sample_pairs qdict_add_def)
  have "split_str [38] (S ''foo:=bar'') = [S ''foo:=bar'']"
    by (rule split_str_single) (simp add: js_eval)
  then show "qs_parse to_text (S ''foo:=bar'') [] (S '':='') None = [(S ''foo'', RStr (S ''=bar''))]"
    using ne by (simp add: qs_parse_def or_default_def sample_pairs qdict_add_def)
qed

end
