(* ===== verification/BufferNumbers.thy ===== *)
theory BufferNumbers
  imports JsString
begin

text \<open>
  Reading and writing integers in a buffer (\<open>src/lib/buffer.js\<close>): 8, 16 and 32 bits, with and without
  sign, in both byte orders.  A buffer is its list of bytes.  An offset that is not given is \<open>None\<close>, as is a
  value; offsets and values are whole numbers or \<open>NaN\<close>.  Floating-point numbers are not modelled.
\<close>

section \<open>Bytes\<close>

text \<open>\<open>buffer[offset + k]\<close>, read and assigned; \<open>undefined\<close> and no effect outside the buffer.\<close>

definition byte_at :: "nat list \<Rightarrow> int option \<Rightarrow> nat \<Rightarrow> jnum" where
  "byte_at buf offset k =
     (case offset of
        None \<Rightarrow> None
      | Some i \<Rightarrow> if 0 \<le> i + int k \<and> i + int k < int (length buf) then Some (int (buf ! nat (i + int k))) else None)"

definition set_byte :: "nat list \<Rightarrow> int option \<Rightarrow> nat \<Rightarrow> jnum \<Rightarrow> nat list" where
  "set_byte buf offset k v =
     (case offset of
        None \<Rightarrow> buf
      | Some i \<Rightarrow> if 0 \<le> i + int k then buf[nat (i + int k) := to_byte v] else buf)"

text \<open>The operator \<open>>>>\<close>.\<close>

definition jushr :: "jnum \<Rightarrow> nat \<Rightarrow> int" where
  "jushr x k = drop_bit k (take_bit 32 (num_int32 x))"

definition jor :: "int \<Rightarrow> int \<Rightarrow> int" where
  "jor a b = to_int32 a OR to_int32 b"

definition assert_ok :: "bool \<Rightarrow> string \<Rightarrow> 'a res \<Rightarrow> 'a res" where
  "assert_ok c msg r = (if c then r else Inl (Throw (S msg)))"

section \<open>Unsigned\<close>

text \<open>\<open>offset + n < buffer.length\<close>\<close>

definition in_length :: "nat list \<Rightarrow> int option \<Rightarrow> nat \<Rightarrow> bool" where
  "in_length buf offset n \<longleftrightarrow> (case offset of None \<Rightarrow> False | Some i \<Rightarrow> i + int n < int (length buf))"

definition read_check :: "nat list \<Rightarrow> int option \<Rightarrow> nat \<Rightarrow> bool \<Rightarrow> 'a res \<Rightarrow> 'a res" where
  "read_check buf offset n noAssert r =
     (if noAssert then r
      else assert_ok (offset \<noteq> None) ''missing offset''
             (assert_ok (in_length buf offset n) ''Trying to read beyond buffer length'' r))"

definition readUInt8 :: "nat list \<Rightarrow> int option \<Rightarrow> bool \<Rightarrow> jnum res" where
  "readUInt8 buf offset noAssert = read_check buf offset 0 noAssert (Inr (byte_at buf offset 0))"

definition readUInt16 :: "nat list \<Rightarrow> int option \<Rightarrow> bool \<Rightarrow> bool \<Rightarrow> int res" where
  "readUInt16 buf offset isBigEndian noAssert =
     read_check buf offset 1 noAssert
       (Inr (if isBigEndian
             then jor (jshl (byte_at buf offset 0) 8) (num_int32 (byte_at buf offset 1))
             else jor (num_int32 (byte_at buf offset 0)) (jshl (byte_at buf offset 1) 8)))"

definition readUInt32 :: "nat list \<Rightarrow> int option \<Rightarrow> bool \<Rightarrow> bool \<Rightarrow> int res" where
  "readUInt32 buf offset isBigEndian noAssert =
     read_check buf offset 3 noAssert
       (Inr (if isBigEndian
             then jor (jor (jshl (byte_at buf offset 1) 16) (jshl (byte_at buf offset 2) 8)) (num_int32 (byte_at buf offset 3))
                    + jushr (Some (jshl (byte_at buf offset 0) 24)) 0
             else jor (jor (jshl (byte_at buf offset 2) 16) (jshl (byte_at buf offset 1) 8)) (num_int32 (byte_at buf offset 0))
                    + jushr (Some (jshl (byte_at buf offset 3) 24)) 0))"

definition verifuint :: "jnum \<Rightarrow> int \<Rightarrow> 'a res \<Rightarrow> 'a res" where
  "verifuint value m r =
     assert_ok (case value of None \<Rightarrow> False | Some v \<Rightarrow> v \<ge> 0) ''specified a negative value for writing an unsigned value''
       (assert_ok (case value of None \<Rightarrow> False | Some v \<Rightarrow> v \<le> m) ''value is larger than maximum value for type'' r)"

definition write_check :: "string \<Rightarrow> nat list \<Rightarrow> jnum option \<Rightarrow> int option \<Rightarrow> nat \<Rightarrow> 'a res \<Rightarrow> 'a res" where
  "write_check msg buf value offset n r =
     assert_ok (value \<noteq> None) ''missing value''
       (assert_ok (offset \<noteq> None) ''missing offset'' (assert_ok (in_length buf offset n) msg r))"

definition num_arg :: "jnum option \<Rightarrow> jnum" where
  "num_arg value = (case value of None \<Rightarrow> None | Some v \<Rightarrow> v)"

definition writeUInt8 :: "nat list \<Rightarrow> jnum option \<Rightarrow> int option \<Rightarrow> bool \<Rightarrow> nat list res" where
  "writeUInt8 buf value offset noAssert =
     (let r = Inr (set_byte buf offset 0 (num_arg value)) in
      if noAssert then r
      else write_check ''trying to write beyond buffer length'' buf value offset 0 (verifuint (num_arg value) 0xff r))"

definition writeUInt16 :: "nat list \<Rightarrow> jnum option \<Rightarrow> int option \<Rightarrow> bool \<Rightarrow> bool \<Rightarrow> nat list res" where
  "writeUInt16 buf value offset isBigEndian noAssert =
     (let hi = Some (jushr (Some (jand (num_arg value) 0xff00)) 8); lo = Some (jand (num_arg value) 0x00ff);
          r = Inr (if isBigEndian then set_byte (set_byte buf offset 0 hi) offset 1 lo
                   else set_byte (set_byte buf offset 1 hi) offset 0 lo)
      in if noAssert then r
         else write_check ''trying to write beyond buffer length'' buf value offset 1 (verifuint (num_arg value) 0xffff r))"

definition writeUInt32 :: "nat list \<Rightarrow> jnum option \<Rightarrow> int option \<Rightarrow> bool \<Rightarrow> bool \<Rightarrow> nat list res" where
  "writeUInt32 buf value offset isBigEndian noAssert =
     (let byte = \<lambda>k. Some (jand (Some (jushr (num_arg value) k)) 0xff); b0 = Some (jand (num_arg value) 0xff);
          r = Inr (if isBigEndian
                   then set_byte (set_byte (set_byte (set_byte buf offset 0 (byte 24)) offset 1 (byte 16)) offset 2 (byte 8)) offset 3 b0
                   else set_byte (set_byte (set_byte (set_byte buf offset 3 (byte 24)) offset 2 (byte 16)) offset 1 (byte 8)) offset 0 b0)
      in if noAssert then r
         else write_check ''trying to write beyond buffer length'' buf value offset 3 (verifuint (num_arg value) 0xffffffff r))"

section \<open>Signed\<close>

definition readInt8 :: "nat list \<Rightarrow> int option \<Rightarrow> bool \<Rightarrow> jnum res" where
  "readInt8 buf offset noAssert =
     read_check buf offset 0 noAssert
       (Inr (let b = byte_at buf offset 0 in
             if jand b 0x80 = 0 then b else map_option (\<lambda>b. (0xff - b + 1) * - 1) b))"

definition readInt16 :: "nat list \<Rightarrow> int option \<Rightarrow> bool \<Rightarrow> bool \<Rightarrow> int res" where
  "readInt16 buf offset isBigEndian noAssert =
     read_check buf offset 1 noAssert
       (case readUInt16 buf offset isBigEndian noAssert of
          Inl e \<Rightarrow> Inl e
        | Inr val \<Rightarrow> Inr (if jand (Some val) 0x8000 = 0 then val else (0xffff - val + 1) * - 1))"

definition readInt32 :: "nat list \<Rightarrow> int option \<Rightarrow> bool \<Rightarrow> bool \<Rightarrow> int res" where
  "readInt32 buf offset isBigEndian noAssert =
     read_check buf offset 3 noAssert
       (case readUInt32 buf offset isBigEndian noAssert of
          Inl e \<Rightarrow> Inl e
        | Inr val \<Rightarrow> Inr (if jand (Some val) (to_int32 0x80000000) = 0 then val else (0xffffffff - val + 1) * - 1))"

definition verifsint :: "jnum \<Rightarrow> int \<Rightarrow> int \<Rightarrow> 'a res \<Rightarrow> 'a res" where
  "verifsint value mx mn r =
     assert_ok (case value of None \<Rightarrow> False | Some v \<Rightarrow> v \<le> mx) ''value larger than maximum allowed value''
       (assert_ok (case value of None \<Rightarrow> False | Some v \<Rightarrow> v \<ge> mn) ''value smaller than minimum allowed value'' r)"

text \<open>\<open>value >= 0 ? value : max + value + 1\<close>, where no value and \<open>NaN\<close> are not \<open>>= 0\<close> (\<open>null\<close> is, as 0).\<close>

definition unsigned_arg :: "jnum \<Rightarrow> int \<Rightarrow> jnum" where
  "unsigned_arg value m = map_option (\<lambda>v. if v \<ge> 0 then v else m + v + 1) value"

definition signed_check :: "nat list \<Rightarrow> jnum option \<Rightarrow> int option \<Rightarrow> nat \<Rightarrow> bool \<Rightarrow> int \<Rightarrow> int \<Rightarrow> 'a res \<Rightarrow> 'a res" where
  "signed_check buf value offset n noAssert mx mn r =
     (if noAssert then r
      else write_check ''Trying to write beyond buffer length'' buf value offset n (verifsint (num_arg value) mx mn r))"

definition writeInt8 :: "nat list \<Rightarrow> jnum option \<Rightarrow> int option \<Rightarrow> bool \<Rightarrow> nat list res" where
  "writeInt8 buf value offset noAssert =
     signed_check buf value offset 0 noAssert 0x7f (- 0x80)
       (writeUInt8 buf (Some (unsigned_arg (num_arg value) 0xff)) offset noAssert)"

definition writeInt16 :: "nat list \<Rightarrow> jnum option \<Rightarrow> int option \<Rightarrow> bool \<Rightarrow> bool \<Rightarrow> nat list res" where
  "writeInt16 buf value offset isBigEndian noAssert =
     signed_check buf value offset 1 noAssert 0x7fff (- 0x8000)
       (writeUInt16 buf (Some (unsigned_arg (num_arg value) 0xffff)) offset isBigEndian noAssert)"

definition writeInt32 :: "nat list \<Rightarrow> jnum option \<Rightarrow> int option \<Rightarrow> bool \<Rightarrow> bool \<Rightarrow> nat list res" where
  "writeInt32 buf value offset isBigEndian noAssert =
     signed_check buf value offset 3 noAssert 0x7fffffff (- 0x80000000)
       (writeUInt32 buf (Some (unsigned_arg (num_arg value) 0xffffffff)) offset isBigEndian noAssert)"

section \<open>The methods\<close>

datatype num_kind = UInt8 | Int8 | UInt16 bool | Int16 bool | UInt32 bool | Int32 bool

definition read_num :: "num_kind \<Rightarrow> nat list \<Rightarrow> int option \<Rightarrow> bool \<Rightarrow> jnum res" where
  "read_num k buf offset noAssert =
     (case k of
        UInt8 \<Rightarrow> readUInt8 buf offset noAssert
      | Int8 \<Rightarrow> readInt8 buf offset noAssert
      | UInt16 be \<Rightarrow> map_sum id Some (readUInt16 buf offset be noAssert)
      | Int16 be \<Rightarrow> map_sum id Some (readInt16 buf offset be noAssert)
      | UInt32 be \<Rightarrow> map_sum id Some (readUInt32 buf offset be noAssert)
      | Int32 be \<Rightarrow> map_sum id Some (readInt32 buf offset be noAssert))"

definition write_num :: "num_kind \<Rightarrow> nat list \<Rightarrow> jnum option \<Rightarrow> int option \<Rightarrow> bool \<Rightarrow> nat list res" where
  "write_num k buf value offset noAssert =
     (case k of
        UInt8 \<Rightarrow> writeUInt8 buf value offset noAssert
      | Int8 \<Rightarrow> writeInt8 buf value offset noAssert
      | UInt16 be \<Rightarrow> writeUInt16 buf value offset be noAssert
      | Int16 be \<Rightarrow> writeInt16 buf value offset be noAssert
      | UInt32 be \<Rightarrow> writeUInt32 buf value offset be noAssert
      | Int32 be \<Rightarrow> writeInt32 buf value offset be noAssert)"

section \<open>What the numbers are\<close>

definition num_size :: "num_kind \<Rightarrow> nat" where
  "num_size k = (case k of UInt8 \<Rightarrow> 1 | Int8 \<Rightarrow> 1 | UInt16 _ \<Rightarrow> 2 | Int16 _ \<Rightarrow> 2 | UInt32 _ \<Rightarrow> 4 | Int32 _ \<Rightarrow> 4)"

definition num_signed :: "num_kind \<Rightarrow> bool" where
  "num_signed k = (case k of UInt8 \<Rightarrow> False | Int8 \<Rightarrow> True | UInt16 _ \<Rightarrow> False | Int16 _ \<Rightarrow> True | UInt32 _ \<Rightarrow> False | Int32 _ \<Rightarrow> True)"

definition num_big :: "num_kind \<Rightarrow> bool" where
  "num_big k = (case k of UInt8 \<Rightarrow> True | Int8 \<Rightarrow> True | UInt16 b \<Rightarrow> b | Int16 b \<Rightarrow> b | UInt32 b \<Rightarrow> b | Int32 b \<Rightarrow> b)"

definition num_range :: "num_kind \<Rightarrow> int \<Rightarrow> bool" where
  "num_range k v \<longleftrightarrow>
     (let w = 8 * num_size k in if num_signed k then - (2 ^ (w - 1)) \<le> v \<and> v < 2 ^ (w - 1) else 0 \<le> v \<and> v < 2 ^ w)"

text \<open>The bytes of a number, and the number of the bytes: two's complement, most significant byte first.\<close>

fun be_bytes :: "nat \<Rightarrow> int \<Rightarrow> nat list" where
  "be_bytes 0 v = []"
| "be_bytes (Suc n) v = be_bytes n (v div 256) @ [nat (v mod 256)]"

definition be_value :: "nat list \<Rightarrow> int" where
  "be_value bs = foldl (\<lambda>v b. v * 256 + int b) 0 bs"

definition num_bytes :: "num_kind \<Rightarrow> int \<Rightarrow> nat list" where
  "num_bytes k v = (let bs = be_bytes (num_size k) v in if num_big k then bs else rev bs)"

definition num_value :: "num_kind \<Rightarrow> nat list \<Rightarrow> int" where
  "num_value k bs =
     (let u = be_value (if num_big k then bs else rev bs)
      in if num_signed k then signed_take_bit (8 * num_size k - 1) u else u)"

lemma length_be_bytes [simp]: "length (be_bytes n v) = n"
  by (induction n arbitrary: v) simp_all

lemma be_value_bytes: "be_value (be_bytes n v) = v mod 2 ^ (8 * n)"
proof (induction n arbitrary: v)
  case (Suc n)
  have "be_value (be_bytes (Suc n) v) = (v div 256 mod 2 ^ (8 * n)) * 256 + v mod 256"
    using Suc by (simp add: be_value_def)
  also have "\<dots> = v mod (256 * 2 ^ (8 * n))" using zmod_zmult2_eq [of "2 ^ (8 * n)" v 256] by simp
  finally show ?case by (simp add: power_add)
qed (simp add: be_value_def)

lemma num_value_bytes:
  assumes "num_range k v"
  shows "num_value k (num_bytes k v) = v"
proof -
  have n: "num_size k = 1 \<or> num_size k = 2 \<or> num_size k = 4" by (simp add: num_size_def split: num_kind.split)
  have u: "be_value (if num_big k then num_bytes k v else rev (num_bytes k v)) = take_bit (8 * num_size k) v"
    by (simp add: num_bytes_def be_value_bytes take_bit_eq_mod Let_def)
  show ?thesis
  proof (cases "num_signed k")
    case True
    have "signed_take_bit (8 * num_size k - 1) (take_bit (8 * num_size k) v) = signed_take_bit (8 * num_size k - 1) v"
      using n by (auto simp: signed_take_bit_take_bit)
    also have "\<dots> = v" using assms True by (intro signed_take_bit_int_eq_self) (simp_all add: num_range_def Let_def)
    finally show ?thesis using True u by (simp add: num_value_def Let_def)
  next
    case False
    then have "take_bit (8 * num_size k) v = v" using assms by (simp add: num_range_def Let_def take_bit_int_eq_self_iff)
    then show ?thesis using False u by (simp add: num_value_def Let_def)
  qed
qed

section \<open>The operators on bytes\<close>

lemma to_int32_nonneg: "0 \<le> v \<Longrightarrow> v \<le> 2147483647 \<Longrightarrow> to_int32 v = v"
  by (rule to_int32_small) simp_all

lemma jor_add:
  assumes "0 \<le> x" "0 \<le> b" "b < 2 ^ n" "x * 2 ^ n + b \<le> 2147483647"
  shows "jor (x * 2 ^ n) b = x * 2 ^ n + b"
proof -
  have "0 \<le> x * 2 ^ n" using assms(1) by simp
  moreover from this have "x * 2 ^ n \<le> 2147483647" "b \<le> 2147483647" using assms(2,4) by linarith+
  ultimately have "to_int32 (x * 2 ^ n) = x * 2 ^ n" "to_int32 b = b"
    using assms(2) by (auto intro!: to_int32_nonneg)
  moreover have "b OR x * 2 ^ n = b + x * 2 ^ n"
    using concat_bit_eq [of n b x] assms by (simp add: concat_bit_def push_bit_eq_mult take_bit_int_eq_self)
  ultimately show ?thesis by (simp add: jor_def or.commute)
qed

lemma take_int32: "n \<le> 32 \<Longrightarrow> take_bit n (to_int32 v) = take_bit n v"
  unfolding to_int32_def by (simp add: take_bit_signed_take_bit)

lemma and_255: "x AND 255 = take_bit 8 x" for x :: int
  by (simp add: take_bit_eq_mask mask_eq_exp_minus_1)

lemma low_byte: "jand (Some v) 0xff = take_bit 8 v"
  by (simp add: jand_def and_255 take_int32)

lemma high_byte: "jushr (Some (jand (Some v) 0xff00)) 8 = take_bit 8 (drop_bit 8 v)"
proof -
  let ?x = "to_int32 v AND 0xff00"
  have x: "0 \<le> ?x" "?x \<le> 0xff00" by (simp_all add: AND_upper2)
  have "to_int32 ?x = ?x" using x by (intro to_int32_nonneg) linarith+
  moreover have "take_bit 32 ?x = ?x" using x by (intro take_bit_int_eq_self) simp_all
  ultimately have "jushr (Some (jand (Some v) 0xff00)) 8 = drop_bit 8 (to_int32 v) AND 255"
    by (simp add: jushr_def jand_def drop_bit_and del: take_bit_and)
  also have "\<dots> = drop_bit 8 (take_bit 16 (to_int32 v))" by (simp add: and_255 take_bit_drop_bit)
  finally show ?thesis by (simp add: take_int32 take_bit_drop_bit)
qed

lemma shifted_byte: "n \<le> 24 \<Longrightarrow> jushr (Some v) n mod 256 = v div 2 ^ n mod 256"
proof -
  assume "n \<le> 24"
  then have "take_bit 8 (jushr (Some v) n) = take_bit 8 (drop_bit n v)"
    by (simp add: jushr_def take_int32 take_bit_drop_bit)
  then show ?thesis by (simp add: take_bit_eq_mod drop_bit_eq_div)
qed

lemma to_byte_take: "to_byte (Some (take_bit 8 x)) = nat (x mod 256)"
  by (simp add: to_byte_def take_bit_eq_mod)

lemma shl_byte:
  "b < 256 \<Longrightarrow> jshl (Some (int b)) 8 = int b * 2 ^ 8"
  "b < 256 \<Longrightarrow> jshl (Some (int b)) 16 = int b * 2 ^ 16"
  "b < 256 \<Longrightarrow> jushr (Some (jshl (Some (int b)) 24)) 0 = int b * 2 ^ 24"
proof -
  assume b: "b < 256"
  show "jshl (Some (int b)) 8 = int b * 2 ^ 8" "jshl (Some (int b)) 16 = int b * 2 ^ 16"
    using b by (simp_all add: jshl_def to_int32_small push_bit_eq_mult)
  have "take_bit 32 (int b * 2 ^ 24) = int b * 2 ^ 24" using b by (simp add: take_bit_int_eq_self_iff)
  then show "jushr (Some (jshl (Some (int b)) 24)) 0 = int b * 2 ^ 24"
    using b by (simp add: jushr_def jshl_def take_int32 push_bit_eq_mult to_int32_small)
qed

text \<open>Two and four bytes put together.\<close>

lemma or_two: "a < 256 \<Longrightarrow> b < 256 \<Longrightarrow> jor (jshl (Some (int a)) 8) (num_int32 (Some (int b))) = int a * 256 + int b"
  using jor_add [of "int a" "int b" 8] by (simp add: shl_byte to_int32_small)

lemma or_two_swap: "a < 256 \<Longrightarrow> b < 256 \<Longrightarrow> jor (num_int32 (Some (int b))) (jshl (Some (int a)) 8) = int a * 256 + int b"
  using or_two [of a b] by (simp add: jor_def or.commute)

lemma or_four:
  assumes "a < 256" "b < 256" "c < 256" "d < 256"
  shows "jor (jor (jshl (Some (int b)) 16) (jshl (Some (int c)) 8)) (num_int32 (Some (int d))) + jushr (Some (jshl (Some (int a)) 24)) 0 =
    ((int a * 256 + int b) * 256 + int c) * 256 + int d"
proof -
  have "jor (int b * 2 ^ 16) (int c * 2 ^ 8) = int b * 2 ^ 16 + int c * 2 ^ 8"
    using jor_add [of "int b" "int c * 2 ^ 8" 16] assms by simp
  moreover have "jor ((int b * 2 ^ 8 + int c) * 2 ^ 8) (int d) = (int b * 2 ^ 8 + int c) * 2 ^ 8 + int d"
    using jor_add [of "int b * 2 ^ 8 + int c" "int d" 8] assms by simp
  ultimately show ?thesis using assms by (simp add: shl_byte to_int32_small algebra_simps)
qed

section \<open>Reading\<close>

lemma byte_at_in: "0 \<le> i \<Longrightarrow> i + int k < int (length buf) \<Longrightarrow> byte_at buf (Some i) k = Some (int (buf ! (nat i + k)))"
  by (simp add: byte_at_def nat_add_distrib)

lemma take_drop_bytes:
  assumes "0 \<le> i" and "i + int n \<le> int (length buf)"
  shows "take n (drop (nat i) buf) = map (\<lambda>k. buf ! (nat i + k)) [0..<n]"
  using assms by (intro nth_equalityI) simp_all

lemma sign_test:
  assumes "0 \<le> u" "u < 2 ^ Suc n" "n \<le> 31"
  shows "(if jand (Some u) (to_int32 (2 ^ n)) = 0 then u else (2 ^ Suc n - 1 - u + 1) * - 1) = signed_take_bit n u"
proof -
  have b: "bit (to_int32 x) m = bit x m" if "m \<le> 31" for x m
    using that by (simp add: to_int32_def bit_signed_take_bit_iff min_def)
  have "jand (Some u) (to_int32 (2 ^ n)) = 0 \<longleftrightarrow> \<not> bit u n"
  proof
    assume "jand (Some u) (to_int32 (2 ^ n)) = 0"
    then have "\<not> bit (to_int32 u AND to_int32 (2 ^ n)) n" by (simp add: jand_def)
    then show "\<not> bit u n" using assms(3) b [of n] by (simp add: bit_and_iff bit_exp_iff)
  next
    assume u: "\<not> bit u n"
    show "jand (Some u) (to_int32 (2 ^ n)) = 0"
    proof (rule bit_eqI)
      fix m
      have "\<not> bit (to_int32 u AND to_int32 (2 ^ n)) m"
        using u assms(3) by (auto simp: to_int32_def bit_and_iff bit_signed_take_bit_iff bit_exp_iff min_def)
      then show "bit (jand (Some u) (to_int32 (2 ^ n))) m = bit 0 m" by (simp add: jand_def)
    qed
  qed
  moreover have "signed_take_bit n u = (if bit u n then u - 2 ^ Suc n else u)"
  proof -
    have "take_bit (Suc n) u = u" using assms by (simp add: take_bit_int_eq_self_iff)
    then show ?thesis using signed_take_bit_eq_take_bit_minus [of n u] by simp
  qed
  ultimately show ?thesis by simp
qed

lemma unsigned_of_signed:
  assumes "0 \<le> u" "u < 2 ^ Suc n" "n \<le> 31"
  shows "(if jand (Some u) (to_int32 (2 ^ n)) = 0 then u else (2 ^ Suc n - u) * - 1) = signed_take_bit n u"
  using sign_test [OF assms] by (auto split: if_splits)

lemma be_value_simps [simp]:
  "be_value [a] = int a"
  "be_value [a, b] = int a * 256 + int b"
  "be_value [a, b, c, d] = ((int a * 256 + int b) * 256 + int c) * 256 + int d"
  by (simp_all add: be_value_def)

lemma cells_one: "Suc n \<le> length buf \<Longrightarrow> take 1 (drop n buf) = [buf ! n]"
  by (simp add: take_Suc_conv_app_nth)

lemma cells_two: "n + 2 \<le> length buf \<Longrightarrow> take 2 (drop n buf) = [buf ! n, buf ! (n + 1)]"
  by (simp add: numeral_2_eq_2 take_Suc_conv_app_nth)

lemma cells_four:
  "n + 4 \<le> length buf \<Longrightarrow> take 4 (drop n buf) = [buf ! n, buf ! (n + 1), buf ! (n + 2), buf ! (n + 3)]"
  by (simp add: numeral_eq_Suc take_Suc_conv_app_nth)

lemma in_length_read: "i + int (Suc n) \<le> int (length buf) \<Longrightarrow> read_check buf (Some i) n na r = r"
  by (simp add: read_check_def assert_ok_def in_length_def)

lemma readUInt16_value:
  assumes "0 \<le> i" "i + 2 \<le> int (length buf)" "\<forall>b \<in> set buf. b < 256"
  shows "readUInt16 buf (Some i) be na = Inr (num_value (UInt16 be) (take 2 (drop (nat i) buf)))"
proof -
  have "nat i + 2 \<le> length buf" using assms by linarith
  then show ?thesis
    using assms
    by (simp add: readUInt16_def in_length_read byte_at_in or_two or_two_swap num_value_def num_signed_def num_big_def cells_two
        del: num_int32.simps)
qed

lemma readUInt32_value:
  assumes "0 \<le> i" "i + 4 \<le> int (length buf)" "\<forall>b \<in> set buf. b < 256"
  shows "readUInt32 buf (Some i) be na = Inr (num_value (UInt32 be) (take 4 (drop (nat i) buf)))"
proof -
  have "nat i + 4 \<le> length buf" using assms by linarith
  then show ?thesis
    using assms
    by (simp add: readUInt32_def in_length_read byte_at_in or_four num_value_def num_signed_def num_big_def cells_four
        del: num_int32.simps)
qed

lemma be_value_bound: "\<forall>b \<in> set bs. b < 256 \<Longrightarrow> 0 \<le> be_value bs \<and> be_value bs < 2 ^ (8 * length bs)"
proof (induction bs rule: rev_induct)
  case (snoc b bs)
  then have "be_value bs + 1 \<le> 2 ^ (8 * length bs)" "b < 256" "0 \<le> be_value bs" by auto
  then show ?case by (simp add: be_value_def power_add)
qed (simp add: be_value_def)

lemma num_value_unsigned:
  assumes "\<forall>b \<in> set bs. b < 256" "num_size k = length bs" "\<not> num_signed k"
  shows "0 \<le> num_value k bs \<and> num_value k bs < 2 ^ (8 * num_size k)"
proof -
  have "\<forall>b \<in> set (if num_big k then bs else rev bs). b < 256" using assms(1) by simp
  from be_value_bound [OF this] show ?thesis using assms(2,3) by (simp add: num_value_def Let_def split: if_splits)
qed

lemma num_value_signed:
  "num_value (Int8) bs = signed_take_bit 7 (num_value UInt8 bs)"
  "num_value (Int16 be) bs = signed_take_bit 15 (num_value (UInt16 be) bs)"
  "num_value (Int32 be) bs = signed_take_bit 31 (num_value (UInt32 be) bs)"
  by (simp_all add: num_value_def num_signed_def num_big_def num_size_def Let_def)

lemma signed_read:
  assumes "\<forall>b \<in> set bs. b < 256" "num_size k = length bs" "\<not> num_signed k" "8 * num_size k = Suc n" "n \<le> 31"
    and "u = num_value k bs"
  shows "(if jand (Some u) (to_int32 (2 ^ n)) = 0 then u else (2 ^ Suc n - u) * - 1) = signed_take_bit n u"
  using num_value_unsigned [OF assms(1-3)] unsigned_of_signed [of u n] assms(4-6) by (simp del: power_Suc)

text \<open>Reading in the buffer gives the number of the bytes read.\<close>

lemma read_num_value:
  assumes "0 \<le> i" "i + int (num_size k) \<le> int (length buf)" "\<forall>b \<in> set buf. b < 256"
  shows "read_num k buf (Some i) na = Inr (Some (num_value k (take (num_size k) (drop (nat i) buf))))"
proof -
  let ?bs = "take (num_size k) (drop (nat i) buf)"
  have bs: "\<forall>b \<in> set ?bs. b < 256" using assms(3) by (meson in_set_dropD in_set_takeD)
  have len: "length ?bs = num_size k" using assms by simp
  have one: "buf ! nat i < 256" "take 1 (drop (nat i) buf) = [buf ! nat i]" if "num_size k = 1"
    using assms that cells_one [of "nat i" buf] by simp_all
  have t: "to_int32 (2 ^ 7) = 0x80" "to_int32 (2 ^ 15) = 0x8000" by (simp_all add: to_int32_nonneg)
  show ?thesis
  proof (cases k)
    case UInt8
    then show ?thesis using assms one
      by (simp add: read_num_def readUInt8_def in_length_read byte_at_in num_size_def num_value_def num_signed_def num_big_def)
  next
    case Int8
    then have "num_value UInt8 ?bs = int (buf ! nat i)"
      using one by (simp add: num_size_def num_value_def num_signed_def num_big_def)
    with Int8 show ?thesis using assms one unsigned_of_signed [of "int (buf ! nat i)" 7] t
      by (simp add: read_num_def readInt8_def in_length_read byte_at_in num_value_signed num_size_def num_signed_def Let_def
        split: if_splits)
  next
    case (UInt16 be)
    then show ?thesis using assms by (simp add: read_num_def readUInt16_value num_size_def)
  next
    case (Int16 be)
    then show ?thesis using assms signed_read [of ?bs "UInt16 be" 15] len bs t
      by (simp add: read_num_def readInt16_def in_length_read readUInt16_value num_value_signed num_size_def num_signed_def split: if_splits)
  next
    case (UInt32 be)
    then show ?thesis using assms by (simp add: read_num_def readUInt32_value num_size_def)
  next
    case (Int32 be)
    then show ?thesis using assms signed_read [of ?bs "UInt32 be" 31] len bs
      by (simp add: read_num_def readInt32_def in_length_read readUInt32_value num_value_signed num_size_def num_signed_def split: if_splits)
  qed
qed

section \<open>Writing\<close>

lemma be_bytes_mod: "be_bytes n (v + 2 ^ (8 * n)) = be_bytes n v"
proof (induction n arbitrary: v)
  case (Suc n)
  have "(2::int) ^ (8 * Suc n) = 256 * 2 ^ (8 * n)" by (simp add: power_add)
  moreover have "(v + 256 * 2 ^ (8 * n)) div 256 = v div 256 + 2 ^ (8 * n)" by simp
  ultimately show ?case using Suc by (simp only: be_bytes.simps) simp
qed simp

lemma be_bytes_simps [simp]:
  "be_bytes 1 v = [nat (v mod 256)]"
  "be_bytes 2 v = [nat (v div 256 mod 256), nat (v mod 256)]"
  "be_bytes 4 v = [nat (v div 16777216 mod 256), nat (v div 65536 mod 256), nat (v div 256 mod 256), nat (v mod 256)]"
  by (simp_all add: eval_nat_numeral zdiv_zmult2_eq [symmetric])

lemma write_one: "n + 1 \<le> length buf \<Longrightarrow> buf[n := a] = take n buf @ [a] @ drop (n + 1) buf"
  by (simp add: upd_conv_take_nth_drop)

lemma four_cells:
  "n + 2 \<le> length buf \<Longrightarrow> drop n buf = buf ! n # buf ! (n + 1) # drop (n + 2) buf"
  "n + 4 \<le> length buf \<Longrightarrow> drop n buf = buf ! n # buf ! (n + 1) # buf ! (n + 2) # buf ! (n + 3) # drop (n + 4) buf"
  by (simp_all add: Cons_nth_drop_Suc eval_nat_numeral)

lemma write_two: "n + 2 \<le> length buf \<Longrightarrow> buf[n := a, n + 1 := b] = take n buf @ [a, b] @ drop (n + 2) buf"
  using arg_cong [OF four_cells(1), of n buf "\<lambda>d. (take n buf @ d)[n := a, n + 1 := b]"]
  by (simp add: list_update_append)

lemma write_four:
  "n + 4 \<le> length buf \<Longrightarrow>
   buf[n := a, n + 1 := b, n + 2 := c, n + 3 := d] = take n buf @ [a, b, c, d] @ drop (n + 4) buf"
  using arg_cong [OF four_cells(2), of n buf "\<lambda>ds. (take n buf @ ds)[n := a, n + 1 := b, n + 2 := c, n + 3 := d]"]
  by (simp add: list_update_append eval_nat_numeral)

lemma unsigned_arg_bytes: "be_bytes n (case unsigned_arg (Some v) (2 ^ (8 * n) - 1) of Some w \<Rightarrow> w) = be_bytes n v"
  using be_bytes_mod [of n v] by (simp add: unsigned_arg_def add.commute)

lemma set_byte_in: "0 \<le> i \<Longrightarrow> set_byte buf (Some i) k v = buf[nat i + k := to_byte v]"
  by (simp add: set_byte_def nat_add_distrib)

lemmas written_bytes = low_byte high_byte shifted_byte to_byte_take drop_bit_eq_div

lemma write_uint_bytes:
  assumes "0 \<le> i" "i + int (num_size k) \<le> int (length buf)" "\<not> num_signed k"
  shows "write_num k buf (Some (Some v)) (Some i) True =
    Inr (take (nat i) buf @ num_bytes k v @ drop (nat i + num_size k) buf)"
proof (cases k)
  case UInt8
  then show ?thesis using assms write_one [of "nat i" buf]
    by (simp add: write_num_def writeUInt8_def num_arg_def set_byte_in to_byte_def num_bytes_def num_size_def num_big_def)
next
  case (UInt16 be)
  then have "nat i + 2 \<le> length buf" using assms by (simp add: num_size_def)
  note w = write_two [OF this]
  show ?thesis using UInt16 assms w list_update_swap [of "nat i" "nat i + 1" buf]
    by (simp add: write_num_def writeUInt16_def num_arg_def set_byte_in num_bytes_def num_size_def num_big_def written_bytes Let_def)
next
  case (UInt32 be)
  then have l: "nat i + 4 \<le> length buf" using assms by (simp add: num_size_def)
  note w = write_four [OF l]
  have swap: "buf[nat i + 3 := a, nat i + 2 := b, nat i + 1 := c, nat i := d] =
      buf[nat i := d, nat i + 1 := c, nat i + 2 := b, nat i + 3 := a]" for a b c d
    using l by (intro nth_equalityI) (auto simp: nth_list_update)
  show ?thesis using UInt32 assms w swap
    by (simp add: write_num_def writeUInt32_def num_arg_def set_byte_in num_bytes_def num_size_def num_big_def written_bytes Let_def)
qed (use assms in \<open>simp_all add: num_signed_def\<close>)

text \<open>
  Writing puts the bytes of the number in place, whether it is checked or not; with the checks it does so
  exactly when the arguments are there, the number is in its range and it fits into the buffer.
\<close>

lemma writeInt_unchecked:
  "write_num Int8 buf (Some (Some v)) offset True = write_num UInt8 buf (Some (unsigned_arg (Some v) 0xff)) offset True"
  "write_num (Int16 be) buf (Some (Some v)) offset True =
     write_num (UInt16 be) buf (Some (unsigned_arg (Some v) 0xffff)) offset True"
  "write_num (Int32 be) buf (Some (Some v)) offset True =
     write_num (UInt32 be) buf (Some (unsigned_arg (Some v) 0xffffffff)) offset True"
  by (simp_all add: write_num_def writeInt8_def writeInt16_def writeInt32_def signed_check_def num_arg_def)

definition unsigned_kind :: "num_kind \<Rightarrow> num_kind" where
  "unsigned_kind k = (case k of Int8 \<Rightarrow> UInt8 | Int16 be \<Rightarrow> UInt16 be | Int32 be \<Rightarrow> UInt32 be | _ \<Rightarrow> k)"

lemma unsigned_kind [simp]:
  "num_size (unsigned_kind k) = num_size k" "\<not> num_signed (unsigned_kind k)" "num_big (unsigned_kind k) = num_big k"
  by (simp_all add: unsigned_kind_def num_size_def num_signed_def num_big_def split: num_kind.split)

lemma writeInt_unsigned:
  "\<exists>w. write_num k buf (Some (Some v)) offset True = write_num (unsigned_kind k) buf (Some (Some w)) offset True
     \<and> num_bytes (unsigned_kind k) w = num_bytes k v"
proof (cases "num_signed k")
  case True
  let ?w = "the (unsigned_arg (Some v) (2 ^ (8 * num_size k) - 1))"
  have "write_num k buf (Some (Some v)) offset True = write_num (unsigned_kind k) buf (Some (Some ?w)) offset True"
    using True
    by (cases k) (simp_all add: num_signed_def writeInt_unchecked unsigned_kind_def num_size_def unsigned_arg_def)
  moreover have "num_bytes (unsigned_kind k) ?w = num_bytes k v"
    using unsigned_arg_bytes [of "num_size k" v] by (simp add: num_bytes_def unsigned_arg_def)
  ultimately show ?thesis by blast
next
  case False
  then have "unsigned_kind k = k" by (simp add: unsigned_kind_def num_signed_def split: num_kind.splits)
  then show ?thesis by auto
qed

lemma write_num_bytes:
  assumes "0 \<le> i" "i + int (num_size k) \<le> int (length buf)"
  shows "write_num k buf (Some (Some v)) (Some i) True =
    Inr (take (nat i) buf @ num_bytes k v @ drop (nat i + num_size k) buf)"
  using writeInt_unsigned [of k buf v "Some i"] assms write_uint_bytes [of i "unsigned_kind k" buf] by auto

definition accepted :: "num_kind \<Rightarrow> nat list \<Rightarrow> jnum option \<Rightarrow> int option \<Rightarrow> bool" where
  "accepted k buf x offset \<longleftrightarrow>
     (case (x, offset) of
        (Some (Some v), Some i) \<Rightarrow> num_range k v \<and> i + int (num_size k) \<le> int (length buf)
      | _ \<Rightarrow> False)"

lemma assert_ok_cases: "assert_ok c msg r = (if c then r else assert_ok False msg r)"
  by (simp add: assert_ok_def)

lemma write_checks:
  assumes "\<not> num_signed k"
  shows "write_num k buf x offset False =
     (if accepted k buf x offset then write_num k buf x offset True
      else write_check ''trying to write beyond buffer length'' buf x offset (num_size k - 1)
        (verifuint (num_arg x) (2 ^ (8 * num_size k) - 1) (Inr buf)))"
  using assms
  by (cases k)
    (auto simp: accepted_def num_signed_def num_size_def num_range_def write_num_def writeUInt8_def writeUInt16_def
      writeUInt32_def write_check_def verifuint_def assert_ok_def in_length_def num_arg_def Let_def
      split: option.splits)

lemma refused_unsigned:
  "\<not> num_signed k \<Longrightarrow> \<not> accepted k buf x offset \<Longrightarrow>
   \<exists>e. write_check ''trying to write beyond buffer length'' buf x offset (num_size k - 1)
     (verifuint (num_arg x) (2 ^ (8 * num_size k) - 1) (Inr buf)) = Inl e"
  by (cases k)
    (auto simp: accepted_def num_signed_def num_size_def num_range_def write_check_def verifuint_def assert_ok_def
      in_length_def num_arg_def split: option.splits)

lemma refused_signed:
  assumes "num_signed k" "\<not> accepted k buf x offset"
  shows "\<exists>e. write_num k buf x offset False = Inl e"
  using assms
  by (cases k)
    (auto simp: accepted_def num_signed_def num_size_def num_range_def write_num_def writeInt8_def writeInt16_def
      writeInt32_def signed_check_def write_check_def verifsint_def assert_ok_def in_length_def num_arg_def
      split: option.splits)

lemma accepted_unsigned:
  assumes "num_signed k" "accepted k buf (Some (Some v)) offset"
  shows "accepted (unsigned_kind k) buf (Some (unsigned_arg (Some v) (2 ^ (8 * num_size k) - 1))) offset"
  using assms
  by (cases k)
    (auto simp: accepted_def num_signed_def num_size_def num_range_def unsigned_kind_def unsigned_arg_def split: option.splits)

lemma signed_accepted:
  assumes "num_signed k" "accepted k buf (Some (Some v)) offset"
  shows "write_num k buf (Some (Some v)) offset False =
    write_num (unsigned_kind k) buf (Some (unsigned_arg (Some v) (2 ^ (8 * num_size k) - 1))) offset False"
  using assms
  by (cases k)
    (auto simp: accepted_def num_signed_def num_size_def num_range_def write_num_def writeInt8_def writeInt16_def
      writeInt32_def signed_check_def write_check_def verifsint_def assert_ok_def in_length_def num_arg_def
      unsigned_kind_def split: option.splits)

lemma checked_write:
  "accepted k buf x offset \<Longrightarrow> write_num k buf x offset False = write_num k buf x offset True"
proof (cases "num_signed k")
  case True
  assume a: "accepted k buf x offset"
  then obtain v where x: "x = Some (Some v)" by (auto simp: accepted_def split: option.splits)
  note acc = accepted_unsigned [OF True a [unfolded x]]
  have "write_num k buf x offset True =
      write_num (unsigned_kind k) buf (Some (unsigned_arg (Some v) (2 ^ (8 * num_size k) - 1))) offset True"
    using True x by (cases k) (simp_all add: num_signed_def writeInt_unchecked unsigned_kind_def num_size_def)
  with acc show ?thesis using signed_accepted [OF True a [unfolded x]] x
    by (simp add: write_checks [OF unsigned_kind(2)])
qed (simp add: write_checks)

lemma refused: "\<not> accepted k buf x offset \<Longrightarrow> \<exists>e. write_num k buf x offset False = Inl e"
  using refused_unsigned [of k buf x offset] refused_signed [of k buf x offset] by (cases "num_signed k") (auto simp: write_checks)

lemma unchecked_writes: "\<exists>buf'. write_num k buf x offset True = Inr buf'"
  by (cases k) (simp_all add: write_num_def writeUInt8_def writeUInt16_def writeUInt32_def writeInt8_def writeInt16_def
    writeInt32_def signed_check_def Let_def)

text \<open>
  C35: A checked write of an integer into a buffer (\<open>buf.writeUInt8\<close> to \<open>buf.writeInt32BE\<close>) throws
  exactly when the value or the offset is not given, the value is not a number in the range of the type, or the
  bytes do not end in the buffer; otherwise it does what the unchecked write does.
\<close>

theorem checked_write_throws:
  "case write_num k buf x offset False of
     Inl e \<Rightarrow> \<not> accepted k buf x offset
   | Inr buf' \<Rightarrow> accepted k buf x offset \<and> write_num k buf x offset True = Inr buf'"
  using checked_write [of k buf x offset] refused [of k buf x offset] unchecked_writes [of k buf x offset]
  by (cases "accepted k buf x offset") auto

text \<open>The test of the offset is only one of its end: a negative offset passes it, and nothing is written.\<close>

lemma negative_offset_not_refused:
  "i < 0 \<Longrightarrow> buf \<noteq> [] \<Longrightarrow> num_range UInt8 v \<Longrightarrow>
   write_num UInt8 buf (Some (Some v)) (Some i) False = Inr buf \<and> read_num UInt8 buf (Some i) False = Inr None"
  by (auto simp: write_num_def read_num_def writeUInt8_def readUInt8_def read_check_def write_check_def verifuint_def
    assert_ok_def in_length_def num_arg_def num_range_def num_size_def num_signed_def set_byte_def byte_at_def)

text \<open>
  C36: An integer in the range of its type, written at an offset where it fits (in either byte order, with or without
  the checks), leaves the other bytes of the buffer as they were and is what the read of the same type gives there.
\<close>

theorem integer_roundtrip:
  assumes "0 \<le> i" and "i + int (num_size k) \<le> int (length buf)" and "num_range k v"
    and "\<forall>b \<in> set buf. b < 256"
  shows "\<exists>buf'. write_num k buf (Some (Some v)) (Some i) noAssert = Inr buf' \<and>
    read_num k buf' (Some i) noAssert' = Inr (Some v) \<and>
    length buf' = length buf \<and> (\<forall>b \<in> set buf'. b < 256) \<and>
    take (nat i) buf' = take (nat i) buf \<and> drop (nat i + num_size k) buf' = drop (nat i + num_size k) buf"
proof -
  let ?buf = "take (nat i) buf @ num_bytes k v @ drop (nat i + num_size k) buf"
  have n: "nat i + num_size k \<le> length buf" using assms(1,2) by linarith
  have len: "length (num_bytes k v) = num_size k" by (simp add: num_bytes_def Let_def)
  have "accepted k buf (Some (Some v)) (Some i)" using assms by (simp add: accepted_def)
  then have w: "write_num k buf (Some (Some v)) (Some i) noAssert = Inr ?buf"
    using write_num_bytes [OF assms(1,2), of v] checked_write [of k buf "Some (Some v)" "Some i"] by (cases noAssert) simp_all
  have "b < 256" if "b \<in> set (be_bytes m u)" for b m u
    using that by (induction m arbitrary: u) (auto simp: nat_less_iff)
  then have "\<forall>b \<in> set (num_bytes k v). b < 256" by (auto simp: num_bytes_def Let_def)
  then have b: "\<forall>b \<in> set ?buf. b < 256" using assms(4) by (auto dest: in_set_takeD in_set_dropD)
  have "read_num k ?buf (Some i) noAssert' = Inr (Some v)"
    using read_num_value [of i k ?buf noAssert'] assms n len b num_value_bytes [OF assms(3)] by simp
  with w b n len show ?thesis by simp
qed

theorem integer_roundtrip_witness:
  "\<exists>buf'. write_num (Int16 False) [1, 2, 3, 4] (Some (Some (- 2))) (Some 1) False = Inr buf' \<and>
    read_num (Int16 False) buf' (Some 1) False = Inr (Some (- 2)) \<and>
    length buf' = 4 \<and> (\<forall>b \<in> set buf'. b < 256) \<and> take 1 buf' = [1] \<and> drop 3 buf' = [4]"
  using integer_roundtrip [of 1 "Int16 False" "[1, 2, 3, 4]" "- 2" False False]
  by (simp add: num_size_def num_range_def num_signed_def eval_nat_numeral)

end
