(* ===== verification/BufferPool.thy ===== *)
theory BufferPool
  imports JsString
begin

text \<open>
  Buffers (\<open>src/lib/buffer.js\<close>): their memory and the operations on it.  A small buffer is a window of a
  block of 8192 bytes that it shares with others, the pool; a bigger one and every slice are windows of
  blocks as well.  The state holds the blocks (the \<open>SlowBuffer\<close>s) with their bytes.  What a new block holds
  and the encodings other than hexadecimal, which the runtime provides, are parameters.
\<close>

section \<open>Blocks\<close>

datatype native = Utf8 | Ascii | Binary | Base64 | Ucs2

text \<open>
  Of an encoding: \<open>byteLength\<close>, the bytes of a text that fit into so many bytes, and the text of bytes.
\<close>

record codec =
  byteLength :: "jstring \<Rightarrow> nat"
  encode :: "jstring \<Rightarrow> nat \<Rightarrow> nat list"
  decode :: "nat list \<Rightarrow> jstring"

record runtime =
  codecs :: "native \<Rightarrow> codec"
  fresh :: "nat \<Rightarrow> nat \<Rightarrow> nat"

record blocks =
  slabs :: "nat list list"
  pool :: "nat option"
  pool_used :: nat

record buf =
  b_parent :: nat
  b_offset :: int
  b_length :: nat

definition poolSize :: nat where
  "poolSize = 8 * 1024"

definition blocks_init :: blocks where
  "blocks_init = \<lparr>slabs = [], pool = None, pool_used = 0\<rparr>"

text \<open>\<open>new SlowBuffer(n)\<close>, and a byte of a block read and assigned.\<close>

definition new_slab :: "runtime \<Rightarrow> nat \<Rightarrow> blocks \<Rightarrow> nat \<times> blocks" where
  "new_slab rt n s =
     (length (slabs s), s\<lparr>slabs := slabs s @ [map (\<lambda>i. fresh rt (length (slabs s)) i mod 256) [0..<n]]\<rparr>)"

definition peek :: "blocks \<Rightarrow> nat \<Rightarrow> int \<Rightarrow> jnum" where
  "peek s p i = (if 0 \<le> i \<and> i < int (length (slabs s ! p)) then Some (int (slabs s ! p ! nat i)) else None)"

definition poke :: "nat \<Rightarrow> int \<Rightarrow> jnum \<Rightarrow> blocks \<Rightarrow> blocks" where
  "poke p i v s = (if 0 \<le> i then s\<lparr>slabs := (slabs s)[p := (slabs s ! p)[nat i := to_byte v]]\<rparr> else s)"

fun poke_all :: "nat \<Rightarrow> int \<Rightarrow> jnum list \<Rightarrow> blocks \<Rightarrow> blocks" where
  "poke_all p i [] s = s"
| "poke_all p i (v # vs) s = poke_all p (i + 1) vs (poke p i v s)"

text \<open>The bytes of a block from one index to before another.\<close>

definition slab_bytes :: "blocks \<Rightarrow> nat \<Rightarrow> nat \<Rightarrow> nat \<Rightarrow> nat list" where
  "slab_bytes s p i j = take (j - i) (drop i (slabs s ! p))"

section \<open>Texts\<close>

definition toHex :: "nat \<Rightarrow> jstring" where
  "toHex n = (if n < 16 then 48 # digits_of 16 n else digits_of 16 n)"

text \<open>\<open>hexSlice\<close> of a block; it takes a 0 or negative end for one that is not given.\<close>

definition hexSlice :: "blocks \<Rightarrow> nat \<Rightarrow> int \<Rightarrow> int \<Rightarrow> jstring" where
  "hexSlice s p start end =
     (let len = length (slabs s ! p);
          i = (if start < 0 then 0 else nat start);
          j = (if end = 0 \<or> end < 0 \<or> end > int len then len else nat end)
      in concat (map toHex (slab_bytes s p i j)))"

definition native_slice :: "runtime \<Rightarrow> native \<Rightarrow> blocks \<Rightarrow> nat \<Rightarrow> int \<Rightarrow> int \<Rightarrow> jstring res" where
  "native_slice rt c s p start end =
     (if start < 0 \<or> end < 0 then Inl TypeError
      else if start > end then Inl (Throw (S ''Must have start <= end''))
      else if end > int (length (slabs s ! p)) then Inl (Throw (S ''end cannot be longer than parent.length''))
      else Inr (decode (codecs rt c) (slab_bytes s p (nat start) (nat end))))"

text \<open>
  \<open>hexWrite\<close> of a block: pairs of digits are read with \<open>parseInt\<close>, until one is no number.  A length that is
  not given, 0 or \<open>NaN\<close> is the rest of the block.
\<close>

fun hex_loop :: "nat \<Rightarrow> nat \<Rightarrow> nat \<Rightarrow> int \<Rightarrow> jstring \<Rightarrow> blocks \<Rightarrow> bool \<times> blocks" where
  "hex_loop 0 i p offset string s = (True, s)"
| "hex_loop (Suc n) i p offset string s =
     (case parse_int (Some 16) (take 2 (drop (i * 2) string)) of
        None \<Rightarrow> (False, s)
      | Some byte \<Rightarrow> hex_loop n (Suc i) p offset string (poke p (offset + int i) (Some byte) s))"

definition hexWrite :: "nat \<Rightarrow> jstring \<Rightarrow> int \<Rightarrow> jnum \<Rightarrow> blocks \<Rightarrow> int res \<times> blocks" where
  "hexWrite p string offset lim s =
     (let remaining = int (length (slabs s ! p)) - offset;
          n = (case lim of None \<Rightarrow> remaining | Some l \<Rightarrow> if l = 0 then remaining else min l remaining);
          m = min n (int (length string div 2))
      in if odd (length string) then (Inl (Throw (S ''Invalid hex string'')), s)
         else let (ok, s') = hex_loop (nat m) 0 p offset string s
              in (if ok then Inr (int (nat m)) else Inl (Throw (S ''Invalid hex string'')), s'))"

text \<open>
  The writing of the runtime: it stays in the block; a negative length is a large one, as unsigned number.
\<close>

definition native_write :: "runtime \<Rightarrow> native \<Rightarrow> nat \<Rightarrow> jstring \<Rightarrow> int \<Rightarrow> jnum \<Rightarrow> blocks \<Rightarrow> int res \<times> blocks" where
  "native_write rt c p string offset lim s =
     (let len = int (length (slabs s ! p)); l = take_bit 32 (num_int32 lim)
      in if string = [] \<or> (c = Base64 \<and> (l = 0 \<or> offset = len)) then (Inr 0, s)
         else if offset < 0 \<or> offset \<ge> len then (Inl TypeError, s)
         else let bs = encode (codecs rt c) string (nat (min l (len - offset)))
              in (Inr (int (length bs)), poke_all p offset (map (\<lambda>b. Some (int b)) bs) s))"

text \<open>The arguments of \<open>write\<close> after the text: numbers, names of encodings, or not given.\<close>

datatype warg = Undef | Num int | Enc jstring

definition arg_num :: "warg \<Rightarrow> jnum" where
  "arg_num a = (case a of Num n \<Rightarrow> Some n | _ \<Rightarrow> None)"

definition isFinite :: "warg \<Rightarrow> bool" where
  "isFinite a = (case a of Num _ \<Rightarrow> True | _ \<Rightarrow> False)"

definition falsy_arg :: "warg \<Rightarrow> bool" where
  "falsy_arg a = (case a of Undef \<Rightarrow> True | Num n \<Rightarrow> n = 0 | Enc e \<Rightarrow> e = [])"

definition write_args :: "warg \<Rightarrow> warg \<Rightarrow> warg \<Rightarrow> warg \<times> warg \<times> warg" where
  "write_args offset lim encoding =
     (if isFinite offset then if isFinite lim then (offset, lim, encoding) else (offset, Undef, lim)
      else (lim, encoding, offset))"

definition encoding_name :: "warg \<Rightarrow> jstring" where
  "encoding_name a =
     (if falsy_arg a then S ''utf8''
      else case a of Undef \<Rightarrow> S ''utf8'' | Num n \<Rightarrow> int_to_string 10 n | Enc e \<Rightarrow> toLowerCase e)"

datatype encoding = Hex | Native native | Unknown

definition encoding_of :: "jstring \<Rightarrow> encoding" where
  "encoding_of e =
     (if e = S ''hex'' then Hex
      else if e = S ''utf8'' \<or> e = S ''utf-8'' then Native Utf8
      else if e = S ''ascii'' then Native Ascii
      else if e = S ''binary'' then Native Binary
      else if e = S ''base64'' then Native Base64
      else if e = S ''ucs2'' \<or> e = S ''ucs-2'' then Native Ucs2
      else Unknown)"

definition unknown_encoding :: "'a res" where
  "unknown_encoding = Inl (Throw (S ''Unknown encoding''))"

definition buf_write :: "runtime \<Rightarrow> buf \<Rightarrow> jstring \<Rightarrow> warg \<Rightarrow> warg \<Rightarrow> warg \<Rightarrow> blocks \<Rightarrow> int res \<times> blocks" where
  "buf_write rt b string a1 a2 a3 s =
     (let (o', l', e') = write_args a1 a2 a3;
          offset = (case arg_num o' of None \<Rightarrow> 0 | Some v \<Rightarrow> v);
          remaining = int (b_length b) - offset;
          lim = (if falsy_arg l' then Some remaining else map_option (\<lambda>v. min v remaining) (arg_num l'))
      in case encoding_of (encoding_name e') of
           Hex \<Rightarrow> hexWrite (b_parent b) string (b_offset b + offset) lim s
         | Native c \<Rightarrow> native_write rt c (b_parent b) string (b_offset b + offset) lim s
         | Unknown \<Rightarrow> (unknown_encoding, s))"

definition buf_toString :: "runtime \<Rightarrow> buf \<Rightarrow> warg \<Rightarrow> int option \<Rightarrow> int option \<Rightarrow> blocks \<Rightarrow> jstring res" where
  "buf_toString rt b encoding start end s =
     (let len = int (b_length b);
          i = (case start of None \<Rightarrow> 0 | Some v \<Rightarrow> if v < 0 then 0 else if v > len then len else v) + b_offset b;
          j = (case end of None \<Rightarrow> len | Some v \<Rightarrow> if v > len then len else if v < 0 then 0 else v) + b_offset b
      in case encoding_of (encoding_name encoding) of
           Hex \<Rightarrow> Inr (hexSlice s (b_parent b) i j)
         | Native c \<Rightarrow> native_slice rt c s (b_parent b) i j
         | Unknown \<Rightarrow> unknown_encoding)"

section \<open>Making buffers\<close>

definition coerce :: "jnum \<Rightarrow> nat" where
  "coerce x = nat (num_int32 x)"

definition allocPool :: "runtime \<Rightarrow> blocks \<Rightarrow> blocks" where
  "allocPool rt s = (let (p, s') = new_slab rt poolSize s in s'\<lparr>pool := Some p, pool_used := 0\<rparr>)"

definition pool_of :: "runtime \<Rightarrow> nat \<Rightarrow> blocks \<Rightarrow> nat \<times> blocks" where
  "pool_of rt n s =
     (case pool s of
        Some p \<Rightarrow> if poolSize - pool_used s < n then (length (slabs s), allocPool rt s) else (p, s)
      | None \<Rightarrow> (length (slabs s), allocPool rt s))"

definition alloc :: "runtime \<Rightarrow> nat \<Rightarrow> blocks \<Rightarrow> buf \<times> blocks" where
  "alloc rt n s =
     (if n > poolSize
      then let (p, s') = new_slab rt n s in (\<lparr>b_parent = p, b_offset = 0, b_length = n\<rparr>, s')
      else let (p, s') = pool_of rt n s
           in (\<lparr>b_parent = p, b_offset = int (pool_used s'), b_length = n\<rparr>, s'\<lparr>pool_used := pool_used s' + n\<rparr>))"

text \<open>\<open>subject[i]\<close> of an array of numbers or of a buffer, \<open>i\<close> below its length.\<close>

datatype subject = Count jnum | Array "jnum list" | Copy_of buf | Text jstring warg | No_subject

definition byte_length :: "runtime \<Rightarrow> jstring \<Rightarrow> warg \<Rightarrow> nat" where
  "byte_length rt string e =
     (case encoding_of (case e of Enc e \<Rightarrow> toLowerCase e | _ \<Rightarrow> S ''utf8'') of
        Hex \<Rightarrow> length string div 2
      | Native c \<Rightarrow> byteLength (codecs rt c) string
      | Unknown \<Rightarrow> byteLength (codecs rt Utf8) string)"

definition window :: "blocks \<Rightarrow> buf \<Rightarrow> jnum list" where
  "window s b = map (\<lambda>i. peek s (b_parent b) (b_offset b + int i)) [0..<b_length b]"

definition fill_new :: "runtime \<Rightarrow> jnum list \<Rightarrow> blocks \<Rightarrow> buf \<times> blocks" where
  "fill_new rt vs s =
     (let (b, s') = alloc rt (coerce (Some (int (length vs)))) s
      in (b, poke_all (b_parent b) (b_offset b) (take (b_length b) vs) s'))"

definition new_buffer :: "runtime \<Rightarrow> subject \<Rightarrow> blocks \<Rightarrow> buf res \<times> blocks" where
  "new_buffer rt x s =
     (case x of
        Count n \<Rightarrow> (let (b, s') = alloc rt (coerce n) s in (Inr b, s'))
      | Array vs \<Rightarrow> (let (b, s') = fill_new rt vs s in (Inr b, s'))
      | Copy_of src \<Rightarrow> (let (b, s') = fill_new rt (window s src) s in (Inr b, s'))
      | Text string e \<Rightarrow>
          (let (b, s1) = alloc rt (byte_length rt string e) s
           in case buf_write rt b string (Num 0) e Undef s1 of
                (Inl err, s2) \<Rightarrow> (Inl err, s2)
              | (Inr n, s2) \<Rightarrow> (Inr (b\<lparr>b_length := nat n\<rparr>), s2))
      | No_subject \<Rightarrow> (Inl (Throw (S ''First argument needs to be a number, array or string.'')), s))"

definition buf_slice :: "buf \<Rightarrow> int \<Rightarrow> int option \<Rightarrow> buf res" where
  "buf_slice b start end0 =
     (let end = (case end0 of None \<Rightarrow> int (b_length b) | Some e \<Rightarrow> e) in
      if end > int (b_length b) then Inl (Throw (S ''oob''))
      else if start > end then Inl (Throw (S ''oob''))
      else Inr \<lparr>b_parent = b_parent b, b_offset = start + b_offset b, b_length = coerce (Some (end - start))\<rparr>)"

section \<open>Reading and writing\<close>

definition buf_get :: "buf \<Rightarrow> int \<Rightarrow> blocks \<Rightarrow> jnum res" where
  "buf_get b i s =
     (if i < 0 \<or> i \<ge> int (b_length b) then Inl (Throw (S ''oob'')) else Inr (peek s (b_parent b) (b_offset b + i)))"

definition buf_set :: "buf \<Rightarrow> int \<Rightarrow> jnum \<Rightarrow> blocks \<Rightarrow> jnum res \<times> blocks" where
  "buf_set b i v s =
     (if i < 0 \<or> i \<ge> int (b_length b) then (Inl (Throw (S ''oob'')), s)
      else (Inr v, poke (b_parent b) (b_offset b + i) v s))"

text \<open>\<open>x || d\<close> for an optional number.\<close>

definition or_else :: "int option \<Rightarrow> int \<Rightarrow> int" where
  "or_else x d = (case x of None \<Rightarrow> d | Some v \<Rightarrow> if v = 0 then d else v)"

datatype fill_value = Fill_num jnum | Fill_text jstring

definition fill_code :: "fill_value \<Rightarrow> jnum" where
  "fill_code v =
     (case v of
        Fill_num None \<Rightarrow> Some 0
      | Fill_num (Some n) \<Rightarrow> Some n
      | Fill_text [] \<Rightarrow> Some 0
      | Fill_text (c # _) \<Rightarrow> Some (int c))"

definition native_fill :: "nat \<Rightarrow> int \<Rightarrow> int \<Rightarrow> int \<Rightarrow> blocks \<Rightarrow> unit res \<times> blocks" where
  "native_fill p v start end s =
     (if to_int32 v \<noteq> v then (Inl (Throw (S ''value is not a number'')), s)
      else if start < 0 \<or> end < 0 then (Inl TypeError, s)
      else if start > end then (Inl (Throw (S ''Must have start <= end'')), s)
      else if end > int (length (slabs s ! p)) then (Inl (Throw (S ''end cannot be longer than parent.length'')), s)
      else (Inr (), poke_all p start (replicate (nat (end - start)) (Some v)) s))"

definition buf_fill :: "buf \<Rightarrow> fill_value \<Rightarrow> int option \<Rightarrow> int option \<Rightarrow> blocks \<Rightarrow> unit res \<times> blocks" where
  "buf_fill b x start0 end0 s =
     (let start = or_else start0 0; end = or_else end0 (int (b_length b)); len = int (b_length b) in
      case fill_code x of
        None \<Rightarrow> (Inl (Throw (S ''value is not a number'')), s)
      | Some v \<Rightarrow>
          if end < start then (Inl (Throw (S ''end < start'')), s)
          else if end = start \<or> len = 0 then (Inr (), s)
          else if start < 0 \<or> start \<ge> len then (Inl (Throw (S ''start out of bounds'')), s)
          else if end < 0 \<or> end > len then (Inl (Throw (S ''end out of bounds'')), s)
          else native_fill (b_parent b) v (start + b_offset b) (end + b_offset b) s)"

text \<open>The copying of the runtime (a \<open>memmove\<close>), and the \<open>copy\<close> of a buffer, which adds the offsets.\<close>

definition native_copy :: "nat \<Rightarrow> nat \<Rightarrow> int \<Rightarrow> int \<Rightarrow> int \<Rightarrow> blocks \<Rightarrow> int res \<times> blocks" where
  "native_copy p t tstart start end s =
     (let slen = int (length (slabs s ! p)); tlen = int (length (slabs s ! t)) in
      if end < start then (Inl (Throw (S ''sourceEnd < sourceStart'')), s)
      else if end = start then (Inr 0, s)
      else if tstart < 0 \<or> tstart \<ge> tlen then (Inl (Throw (S ''targetStart out of bounds'')), s)
      else if start < 0 \<or> start \<ge> slen then (Inl (Throw (S ''sourceStart out of bounds'')), s)
      else if end < 0 \<or> end > slen then (Inl (Throw (S ''sourceEnd out of bounds'')), s)
      else let n = min (min (end - start) (tlen - tstart)) (slen - start)
           in (Inr n, poke_all t tstart (map (\<lambda>b. Some (int b)) (slab_bytes s p (nat start) (nat (start + n)))) s))"

definition buffer_copy ::
    "buf \<Rightarrow> buf \<Rightarrow> int option \<Rightarrow> int option \<Rightarrow> int option \<Rightarrow> blocks \<Rightarrow> int res \<times> blocks" where
  "buffer_copy b target tstart0 start0 end0 s =
     (let start = or_else start0 0; end = or_else end0 (int (b_length b)); tstart = or_else tstart0 0;
          len = int (b_length b); tlen = int (b_length target) in
      if end < start then (Inl (Throw (S ''sourceEnd < sourceStart'')), s)
      else if end = start then (Inr 0, s)
      else if tlen = 0 \<or> len = 0 then (Inr 0, s)
      else if tstart < 0 \<or> tstart \<ge> tlen then (Inl (Throw (S ''targetStart out of bounds'')), s)
      else if start < 0 \<or> start \<ge> len then (Inl (Throw (S ''sourceStart out of bounds'')), s)
      else if end < 0 \<or> end > len then (Inl (Throw (S ''sourceEnd out of bounds'')), s)
      else let end = (if end > len then len else end);
               end = (if tlen - tstart < end - start then tlen - tstart + start else end)
           in native_copy (b_parent b) (b_parent target) (tstart + b_offset target)
                (start + b_offset b) (end + b_offset b) s)"

text \<open>
  \<open>concat\<close>: whatever is no buffer is made one; then all are copied behind each other.  The list is emptied on the
  way, which the caller sees who passed an array.
\<close>

datatype item = Buf buf | Other subject

fun all_buffers :: "runtime \<Rightarrow> item list \<Rightarrow> blocks \<Rightarrow> buf list res \<times> blocks" where
  "all_buffers rt [] s = (Inr [], s)"
| "all_buffers rt (x # xs) s =
     (case (case x of Buf b \<Rightarrow> (Inr b, s) | Other y \<Rightarrow> new_buffer rt y s) of
        (Inl e, s1) \<Rightarrow> (Inl e, s1)
      | (Inr b, s1) \<Rightarrow>
          (case all_buffers rt xs s1 of
             (Inl e, s2) \<Rightarrow> (Inl e, s2)
           | (Inr bs, s2) \<Rightarrow> (Inr (b # bs), s2)))"

fun copy_buffers :: "buf list \<Rightarrow> buf \<Rightarrow> int \<Rightarrow> blocks \<Rightarrow> unit res \<times> blocks" where
  "copy_buffers [] target index s = (Inr (), s)"
| "copy_buffers (b # bs) target index s =
     (case buffer_copy b target (Some index) (Some 0) (Some (int (b_length b))) s of
        (Inl e, s1) \<Rightarrow> (Inl e, s1)
      | (Inr _, s1) \<Rightarrow> copy_buffers bs target (index + int (b_length b)) s1)"

definition buf_concat :: "runtime \<Rightarrow> item list \<Rightarrow> blocks \<Rightarrow> (buf \<times> item option list) res \<times> blocks" where
  "buf_concat rt xs s =
     (case all_buffers rt xs s of
        (Inl e, s1) \<Rightarrow> (Inl e, s1)
      | (Inr bs, s1) \<Rightarrow>
          (let (b, s2) = alloc rt (coerce (Some (int (sum_list (map b_length bs))))) s1
           in case copy_buffers bs b 0 s2 of
                (Inl e, s3) \<Rightarrow> (Inl e, s3)
              | (Inr _, s3) \<Rightarrow> (Inr (b, map (\<lambda>_. None) xs), s3)))"

end
