(* ===== verification/BufferViews.thy ===== *)
theory BufferViews
  imports BufferPool
begin

text \<open>
  What the memory of \<open>BufferPool\<close> promises: that it looks as if every buffer that is made had an array of its
  own, and a slice were a window of the array of its buffer.  The specification has arrays and windows only;
  every run of operations gives the same results on it, as long as the operations stay clear of the cases in
  which the code looks at the place in the block instead of the place in the buffer; these are shown at the end.
\<close>

section \<open>Operations on buffers\<close>

text \<open>Buffers are named by the number of buffers made before.\<close>

datatype buf_op =
    New_count jnum
  | New_array "jnum list"
  | New_copy nat
  | New_text jstring warg
  | Slice nat int "int option"
  | Get nat int
  | Set nat int jnum
  | Fill nat fill_value "int option" "int option"
  | Copy nat nat "int option" "int option" "int option"
  | Write nat jstring warg warg warg
  | ToString nat warg "int option" "int option"
  | Concat "nat list"

datatype buf_out = Made nat | Threw js_error | Value jnum | Done int | Shown jstring

definition made :: "buf res \<times> blocks \<Rightarrow> buf list \<Rightarrow> buf_out \<times> blocks \<times> buf list" where
  "made r bs = (case r of (Inl e, s) \<Rightarrow> (Threw e, s, bs) | (Inr b, s) \<Rightarrow> (Made (b_length b), s, bs @ [b]))"

definition gave :: "('a \<Rightarrow> buf_out) \<Rightarrow> 'a res \<times> blocks \<Rightarrow> buf list \<Rightarrow> buf_out \<times> blocks \<times> buf list" where
  "gave f r bs = (case r of (Inl e, s) \<Rightarrow> (Threw e, s, bs) | (Inr x, s) \<Rightarrow> (f x, s, bs))"

definition buf_step :: "runtime \<Rightarrow> buf_op \<Rightarrow> blocks \<times> buf list \<Rightarrow> buf_out \<times> blocks \<times> buf list" where
  "buf_step rt x sb =
     (let s = fst sb; bs = snd sb in
      case x of
        New_count n \<Rightarrow> made (new_buffer rt (Count n) s) bs
      | New_array vs \<Rightarrow> made (new_buffer rt (Array vs) s) bs
      | New_copy h \<Rightarrow> made (new_buffer rt (Copy_of (bs ! h)) s) bs
      | New_text string e \<Rightarrow> made (new_buffer rt (Text string e) s) bs
      | Slice h start end \<Rightarrow> made (buf_slice (bs ! h) start end, s) bs
      | Get h i \<Rightarrow> gave Value (buf_get (bs ! h) i s, s) bs
      | Set h i v \<Rightarrow> gave Value (buf_set (bs ! h) i v s) bs
      | Fill h v start end \<Rightarrow> gave (\<lambda>_. Done 0) (buf_fill (bs ! h) v start end s) bs
      | Copy h t tstart start end \<Rightarrow> gave Done (buffer_copy (bs ! h) (bs ! t) tstart start end s) bs
      | Write h string a1 a2 a3 \<Rightarrow> gave Done (buf_write rt (bs ! h) string a1 a2 a3 s) bs
      | ToString h e start end \<Rightarrow> gave Shown (buf_toString rt (bs ! h) e start end s, s) bs
      | Concat hs \<Rightarrow> made (case buf_concat rt (map (\<lambda>h. Buf (bs ! h)) hs) s of (r, s') \<Rightarrow> (map_sum id fst r, s')) bs)"

fun buf_run :: "runtime \<Rightarrow> buf_op list \<Rightarrow> blocks \<times> buf list \<Rightarrow> buf_out list \<times> blocks \<times> buf list" where
  "buf_run rt [] sb = ([], sb)"
| "buf_run rt (x # xs) sb = (let (out, sb1) = buf_step rt x sb; (outs, sb2) = buf_run rt xs sb1 in (out # outs, sb2))"

section \<open>Arrays and windows\<close>

definition overwrite :: "'a list \<Rightarrow> nat \<Rightarrow> 'a list \<Rightarrow> 'a list" where
  "overwrite xs i ys = take i xs @ ys @ drop (i + length ys) xs"

definition segment :: "'a list \<Rightarrow> nat \<Rightarrow> nat \<Rightarrow> 'a list" where
  "segment xs i j = take (j - i) (drop i xs)"

text \<open>A buffer is a window: the number of its array, where it starts there and how long it is.\<close>

record arrays =
  a_arrays :: "nat list list"
  a_bufs :: "(nat \<times> nat \<times> nat) list"

definition a_init :: arrays where
  "a_init = \<lparr>a_arrays = [], a_bufs = []\<rparr>"

definition view :: "arrays \<Rightarrow> nat \<Rightarrow> nat list" where
  "view a h = (case a_bufs a ! h of (k, i, n) \<Rightarrow> segment (a_arrays a ! k) i (i + n))"

definition put :: "nat \<Rightarrow> nat \<Rightarrow> nat list \<Rightarrow> arrays \<Rightarrow> arrays" where
  "put h j ys a =
     (case a_bufs a ! h of
        (k, i, n) \<Rightarrow> a\<lparr>a_arrays := (a_arrays a)[k := overwrite (a_arrays a ! k) (i + j) ys]\<rparr>)"

definition new_array :: "nat list \<Rightarrow> nat \<Rightarrow> arrays \<Rightarrow> buf_out \<times> arrays" where
  "new_array xs n a = (Made n, \<lparr>a_arrays = a_arrays a @ [xs], a_bufs = a_bufs a @ [(length (a_arrays a), 0, n)]\<rparr>)"

text \<open>The bytes a text becomes where at most \<open>n\<close> fit, and what is returned.\<close>

definition hex_values :: "jstring \<Rightarrow> nat \<Rightarrow> jnum list" where
  "hex_values string m = map (\<lambda>i. parse_int (Some 16) (take 2 (drop (i * 2) string))) [0..<m]"

definition written_text :: "runtime \<Rightarrow> encoding \<Rightarrow> jstring \<Rightarrow> nat \<Rightarrow> int res \<times> nat list" where
  "written_text rt e string n =
     (case e of
        Hex \<Rightarrow>
          (if odd (length string) then (Inl (Throw (S ''Invalid hex string'')), [])
           else let vs = hex_values string (min n (length string div 2)); good = takeWhile (\<lambda>v. v \<noteq> None) vs
                in (if good = vs then Inr (int (length vs)) else Inl (Throw (S ''Invalid hex string'')), map to_byte good))
      | Native c \<Rightarrow>
          (if string = [] \<or> n = 0 then (Inr 0, [])
           else let bs = encode (codecs rt c) string n in (Inr (int (length bs)), map (\<lambda>b. b mod 256) bs))
      | Unknown \<Rightarrow> (unknown_encoding, []))"

definition bytes_text :: "runtime \<Rightarrow> encoding \<Rightarrow> nat list \<Rightarrow> nat \<Rightarrow> nat \<Rightarrow> jstring res" where
  "bytes_text rt e xs i j =
     (case e of
        Hex \<Rightarrow> Inr (concat (map toHex (segment xs i j)))
      | Native c \<Rightarrow> (if i > j then Inl (Throw (S ''Must have start <= end'')) else Inr (decode (codecs rt c) (segment xs i j)))
      | Unknown \<Rightarrow> unknown_encoding)"

text \<open>The start of a write, and how many bytes may be written there.\<close>

definition write_start :: "warg \<Rightarrow> warg \<Rightarrow> warg \<Rightarrow> int" where
  "write_start a1 a2 a3 = (case arg_num (fst (write_args a1 a2 a3)) of None \<Rightarrow> 0 | Some v \<Rightarrow> v)"

definition write_room :: "nat \<Rightarrow> warg \<Rightarrow> warg \<Rightarrow> warg \<Rightarrow> nat" where
  "write_room n a1 a2 a3 =
     (let remaining = int n - write_start a1 a2 a3
      in nat (case fst (snd (write_args a1 a2 a3)) of Num l \<Rightarrow> if l = 0 then remaining else min l remaining | _ \<Rightarrow> remaining))"

definition clamp :: "int \<Rightarrow> nat \<Rightarrow> nat" where
  "clamp v n = (if v < 0 then 0 else if v > int n then n else nat v)"

definition a_len :: "arrays \<Rightarrow> nat \<Rightarrow> nat" where
  "a_len a h = snd (snd (a_bufs a ! h))"

definition a_made_text :: "runtime \<Rightarrow> (nat \<Rightarrow> nat) \<Rightarrow> jstring \<Rightarrow> warg \<Rightarrow> arrays \<Rightarrow> buf_out \<times> arrays" where
  "a_made_text rt ini string e a =
     (let n = byte_length rt string e;
          (r, ys) = written_text rt (encoding_of (encoding_name (snd (snd (write_args (Num 0) e Undef)))))
            string (write_room n (Num 0) e Undef)
      in case r of
           Inl err \<Rightarrow> (Threw err, a)
         | Inr m \<Rightarrow> new_array (overwrite (map ini [0..<n]) 0 ys) (length ys) a)"

definition a_slice :: "nat \<Rightarrow> int \<Rightarrow> int option \<Rightarrow> arrays \<Rightarrow> buf_out \<times> arrays" where
  "a_slice h start end0 a =
     (let (k, i, n) = a_bufs a ! h; end = (case end0 of None \<Rightarrow> int n | Some e \<Rightarrow> e)
      in if end > int n \<or> start > end then (Threw (Throw (S ''oob'')), a)
         else (Made (nat (end - start)), a\<lparr>a_bufs := a_bufs a @ [(k, i + nat start, nat (end - start))]\<rparr>))"

definition a_fill :: "nat \<Rightarrow> fill_value \<Rightarrow> int option \<Rightarrow> int option \<Rightarrow> arrays \<Rightarrow> buf_out \<times> arrays" where
  "a_fill h x start0 end0 a =
     (let n = int (a_len a h); start = or_else start0 0; end = or_else end0 n; v = the (fill_code x)
      in if end < start then (Threw (Throw (S ''end < start'')), a)
         else if end = start \<or> n = 0 then (Done 0, a)
         else if start < 0 \<or> start \<ge> n then (Threw (Throw (S ''start out of bounds'')), a)
         else if end > n then (Threw (Throw (S ''end out of bounds'')), a)
         else if to_int32 v \<noteq> v then (Threw (Throw (S ''value is not a number'')), a)
         else (Done 0, put h (nat start) (replicate (nat (end - start)) (nat (v mod 256))) a))"

definition a_copy :: "nat \<Rightarrow> nat \<Rightarrow> int option \<Rightarrow> int option \<Rightarrow> int option \<Rightarrow> arrays \<Rightarrow> buf_out \<times> arrays" where
  "a_copy h t tstart0 start0 end0 a =
     (let n = int (a_len a h); m = int (a_len a t); start = or_else start0 0; end = or_else end0 n; tstart = or_else tstart0 0
      in if end < start then (Threw (Throw (S ''sourceEnd < sourceStart'')), a)
         else if end = start \<or> m = 0 \<or> n = 0 then (Done 0, a)
         else if tstart < 0 \<or> tstart \<ge> m then (Threw (Throw (S ''targetStart out of bounds'')), a)
         else if start < 0 \<or> start \<ge> n then (Threw (Throw (S ''sourceStart out of bounds'')), a)
         else if end > n then (Threw (Throw (S ''sourceEnd out of bounds'')), a)
         else let c = min (end - start) (m - tstart)
              in (Done c, put t (nat tstart) (segment (view a h) (nat start) (nat (start + c))) a))"

definition arrays_step :: "runtime \<Rightarrow> (nat \<Rightarrow> nat) \<Rightarrow> buf_op \<Rightarrow> arrays \<Rightarrow> buf_out \<times> arrays" where
  "arrays_step rt ini x a =
     (case x of
        New_count n \<Rightarrow> new_array (map ini [0..<coerce n]) (coerce n) a
      | New_array vs \<Rightarrow> (let n = coerce (Some (int (length vs))) in new_array (map to_byte (take n vs)) n a)
      | New_copy h \<Rightarrow> new_array (view a h) (a_len a h) a
      | New_text string e \<Rightarrow> a_made_text rt ini string e a
      | Slice h start end \<Rightarrow> a_slice h start end a
      | Get h i \<Rightarrow> (if i < 0 \<or> i \<ge> int (a_len a h) then (Threw (Throw (S ''oob'')), a) else (Value (Some (int (view a h ! nat i))), a))
      | Set h i v \<Rightarrow> (if i < 0 \<or> i \<ge> int (a_len a h) then (Threw (Throw (S ''oob'')), a) else (Value v, put h (nat i) [to_byte v] a))
      | Fill h v start end \<Rightarrow> a_fill h v start end a
      | Copy h t tstart start end \<Rightarrow> a_copy h t tstart start end a
      | Write h string a1 a2 a3 \<Rightarrow>
          (let (r, ys) = written_text rt (encoding_of (encoding_name (snd (snd (write_args a1 a2 a3))))) string
                           (write_room (a_len a h) a1 a2 a3)
           in (case r of Inl e \<Rightarrow> Threw e | Inr m \<Rightarrow> Done m, put h (nat (write_start a1 a2 a3)) ys a))
      | ToString h e start end \<Rightarrow>
          (let n = a_len a h
           in (case bytes_text rt (encoding_of (encoding_name e)) (view a h)
                      (case start of None \<Rightarrow> 0 | Some v \<Rightarrow> clamp v n) (case end of None \<Rightarrow> n | Some v \<Rightarrow> clamp v n) of
                 Inl err \<Rightarrow> Threw err | Inr t \<Rightarrow> Shown t, a))
      | Concat hs \<Rightarrow> new_array (concat (map (view a) hs)) (sum_list (map (a_len a) hs)) a)"

fun arrays_run :: "runtime \<Rightarrow> (nat \<Rightarrow> nat) list \<Rightarrow> buf_op list \<Rightarrow> arrays \<Rightarrow> buf_out list \<times> arrays" where
  "arrays_run rt (ini # inis) (x # xs) a =
     (let (out, a1) = arrays_step rt ini x a; (outs, a2) = arrays_run rt inis xs a1 in (out # outs, a2))"
| "arrays_run rt _ _ a = ([], a)"

text \<open>
  The cases left out: a slice with a negative start; a write that does not start in the buffer or has a negative
  length; the hexadecimal text of an empty segment at the start; and sizes beyond 31 bits.
\<close>

definition buf_safe :: "runtime \<Rightarrow> nat list \<Rightarrow> buf_op \<Rightarrow> bool" where
  "buf_safe rt lens x =
     (let ok = \<lambda>h. h < length lens in
      case x of
        New_count n \<Rightarrow> True
      | New_array vs \<Rightarrow> True
      | New_copy h \<Rightarrow> ok h
      | New_text string e \<Rightarrow> byte_length rt string e < 2 ^ 31 \<and> (case e of Num l \<Rightarrow> l \<ge> 0 | _ \<Rightarrow> True)
      | Slice h start end \<Rightarrow> ok h \<and> start \<ge> 0
      | Get h i \<Rightarrow> ok h
      | Set h i v \<Rightarrow> ok h
      | Fill h v start end \<Rightarrow> ok h
      | Copy h t tstart start end \<Rightarrow> ok h \<and> ok t
      | Write h string a1 a2 a3 \<Rightarrow>
          ok h \<and> 0 \<le> write_start a1 a2 a3 \<and> write_start a1 a2 a3 < int (lens ! h) \<and>
          (case fst (snd (write_args a1 a2 a3)) of Undef \<Rightarrow> True | Num l \<Rightarrow> l \<ge> 0 | Enc e \<Rightarrow> e = [])
      | ToString h e start end \<Rightarrow>
          ok h \<and> (encoding_of (encoding_name e) = Hex \<longrightarrow> 0 < lens ! h \<and> (case end of None \<Rightarrow> True | Some v \<Rightarrow> v > 0))
      | Concat hs \<Rightarrow> (\<forall>h \<in> set hs. ok h) \<and> sum_list (map ((!) lens) hs) < 2 ^ 31)"

fun safe_run :: "runtime \<Rightarrow> buf_op list \<Rightarrow> blocks \<times> buf list \<Rightarrow> bool" where
  "safe_run rt [] sb = True"
| "safe_run rt (x # xs) sb \<longleftrightarrow> buf_safe rt (map b_length (snd sb)) x \<and> safe_run rt xs (snd (buf_step rt x sb))"

text \<open>What is assumed of the encodings: they keep to the room they are given, and announce some for a text.\<close>

definition codec_ok :: "runtime \<Rightarrow> bool" where
  "codec_ok rt \<longleftrightarrow>
     (\<forall>c string n. length (encode (codecs rt c) string n) \<le> n) \<and>
     (\<forall>c string. c \<noteq> Base64 \<longrightarrow> string \<noteq> [] \<longrightarrow> 0 < byteLength (codecs rt c) string)"

section \<open>Lists\<close>

lemma length_overwrite [simp]: "i + length ys \<le> length xs \<Longrightarrow> length (overwrite xs i ys) = length xs"
  by (simp add: overwrite_def)

lemma nth_overwrite:
  "i + length ys \<le> length xs \<Longrightarrow> m < length xs \<Longrightarrow>
   overwrite xs i ys ! m = (if i \<le> m \<and> m < i + length ys then ys ! (m - i) else xs ! m)"
  by (auto simp: overwrite_def nth_append min_def)

lemma overwrite_Nil [simp]: "overwrite xs i [] = xs"
  by (simp add: overwrite_def)

lemma overwrite_snoc:
  assumes "i + length (ys @ [y]) \<le> length xs"
  shows "overwrite xs i (ys @ [y]) = (overwrite xs i ys)[i + length ys := y]"
  using assms by (intro nth_equalityI) (auto simp: nth_overwrite nth_list_update nth_append)

lemma overwrite_Cons:
  assumes "i + length (y # ys) \<le> length xs"
  shows "overwrite xs i (y # ys) = overwrite (xs[i := y]) (Suc i) ys"
  using assms by (intro nth_equalityI) (auto simp: nth_overwrite nth_list_update nth_Cons')

lemma length_part [simp]: "j \<le> length xs \<Longrightarrow> length (segment xs i j) = j - i"
  by (simp add: segment_def)

lemma nth_part [simp]: "j \<le> length xs \<Longrightarrow> m < j - i \<Longrightarrow> segment xs i j ! m = xs ! (i + m)"
  by (simp add: segment_def)

lemma slab_bytes_part: "slab_bytes s p i j = segment (slabs s ! p) i j"
  by (simp add: slab_bytes_def segment_def)

definition write_slab :: "nat \<Rightarrow> nat \<Rightarrow> nat list \<Rightarrow> blocks \<Rightarrow> blocks" where
  "write_slab p i ys s = s\<lparr>slabs := (slabs s)[p := overwrite (slabs s ! p) i ys]\<rparr>"

lemma write_slab_simps [simp]: "pool (write_slab p i ys s) = pool s" "pool_used (write_slab p i ys s) = pool_used s"
  by (simp_all add: write_slab_def)

lemma poke_all_write:
  "p < length (slabs s) \<Longrightarrow> i + length vs \<le> length (slabs s ! p) \<Longrightarrow>
   poke_all p (int i) vs s = write_slab p i (map to_byte vs) s"
proof (induction vs arbitrary: i s)
  case Nil
  then show ?case by (simp add: write_slab_def)
next
  case (Cons v vs)
  let ?s = "poke p (int i) v s"
  have "poke_all p (int (Suc i)) vs ?s = write_slab p (Suc i) (map to_byte vs) ?s"
    using Cons.prems by (intro Cons.IH) (simp_all add: poke_def)
  moreover have "write_slab p (Suc i) (map to_byte vs) ?s = write_slab p i (map to_byte (v # vs)) s"
    using Cons.prems overwrite_Cons [of i "to_byte v" "map to_byte vs" "slabs s ! p"]
    by (simp add: write_slab_def poke_def)
  ultimately show ?case by (simp add: add.commute)
qed

lemma bytes_to_byte: "bytes (map to_byte vs)"
  by (auto simp: bytes_def to_byte_def nat_less_iff split: option.split)

section \<open>The relation\<close>

text \<open>An array lies in a block from some index on; a buffer is a window of its array.\<close>

definition placed :: "blocks \<Rightarrow> nat \<times> nat \<Rightarrow> nat list \<Rightarrow> bool" where
  "placed s h xs \<longleftrightarrow>
     fst h < length (slabs s) \<and> snd h + length xs \<le> length (slabs s ! fst h) \<and>
     (\<forall>m < length xs. slabs s ! fst h ! (snd h + m) = xs ! m)"

definition win :: "(nat \<times> nat) list \<Rightarrow> arrays \<Rightarrow> buf \<Rightarrow> nat \<times> nat \<times> nat \<Rightarrow> bool" where
  "win hs a b w \<longleftrightarrow>
     (case w of (k, i, n) \<Rightarrow>
        k < length hs \<and> b_parent b = fst (hs ! k) \<and> b_offset b = int (snd (hs ! k) + i) \<and> b_length b = n \<and>
        i + n \<le> length (a_arrays a ! k) \<and> n < 2 ^ 31)"

definition pool_ok :: "blocks \<Rightarrow> (nat \<times> nat) list \<Rightarrow> arrays \<Rightarrow> bool" where
  "pool_ok s hs a \<longleftrightarrow>
     (case pool s of
        None \<Rightarrow> True
      | Some p \<Rightarrow>
          p < length (slabs s) \<and> length (slabs s ! p) = poolSize \<and> pool_used s \<le> poolSize \<and>
          (\<forall>k < length hs. fst (hs ! k) = p \<longrightarrow> snd (hs ! k) + length (a_arrays a ! k) \<le> pool_used s))"

definition sim :: "(nat \<times> nat) list \<Rightarrow> blocks \<Rightarrow> buf list \<Rightarrow> arrays \<Rightarrow> bool" where
  "sim hs s bs a \<longleftrightarrow>
     length hs = length (a_arrays a) \<and>
     (\<forall>k < length hs. placed s (hs ! k) (a_arrays a ! k)) \<and>
     (\<forall>k < length hs. \<forall>j < k. fst (hs ! j) = fst (hs ! k) \<longrightarrow> snd (hs ! j) + length (a_arrays a ! j) \<le> snd (hs ! k)) \<and>
     list_all2 (win hs a) bs (a_bufs a) \<and> pool_ok s hs a \<and> (\<forall>xs \<in> set (slabs s). bytes xs)"

lemma sim_disjoint:
  assumes "sim hs s bs a" "k < length hs" "j < length hs" "j \<noteq> k" "fst (hs ! j) = fst (hs ! k)"
  shows "snd (hs ! j) + length (a_arrays a ! j) \<le> snd (hs ! k) \<or> snd (hs ! k) + length (a_arrays a ! k) \<le> snd (hs ! j)"
  using assms by (cases "j < k") (auto simp: sim_def not_less)

lemma sim_write:
  assumes sim: "sim hs s bs a" and k: "k < length hs" and j: "j + length ys \<le> length (a_arrays a ! k)" and ys: "bytes ys"
  shows "sim hs (write_slab (fst (hs ! k)) (snd (hs ! k) + j) ys s) bs
    (a\<lparr>a_arrays := (a_arrays a)[k := overwrite (a_arrays a ! k) j ys]\<rparr>)"
proof -
  let ?p = "fst (hs ! k)" and ?i = "snd (hs ! k) + j"
  let ?s = "write_slab ?p ?i ys s" and ?a = "a\<lparr>a_arrays := (a_arrays a)[k := overwrite (a_arrays a ! k) j ys]\<rparr>"
  have n: "length hs = length (a_arrays a)" using sim by (simp add: sim_def)
  have pk: "placed s (hs ! m) (a_arrays a ! m)" if "m < length hs" for m using sim that by (simp add: sim_def)
  have fit: "?p < length (slabs s)" "?i + length ys \<le> length (slabs s ! ?p)"
    using pk [OF k] j by (auto simp: placed_def)
  have len: "length (a_arrays ?a ! m) = length (a_arrays a ! m)" if "m < length hs" for m
    using that n j by (cases "m = k") simp_all
  have lens: "length (slabs ?s) = length (slabs s)" "\<And>p. length (slabs ?s ! p) = length (slabs s ! p)"
    using fit by (auto simp: write_slab_def nth_list_update)
  have "placed ?s (hs ! m) (a_arrays ?a ! m)" if m: "m < length hs" for m
  proof (cases "m = k")
    case True
    then show ?thesis using pk [OF k] j n k fit
      by (auto simp: placed_def write_slab_def nth_overwrite)
  next
    case False
    have "slabs ?s ! fst (hs ! m) ! (snd (hs ! m) + x) = a_arrays a ! m ! x" if x: "x < length (a_arrays a ! m)" for x
    proof (cases "fst (hs ! m) = ?p")
      case True
      have "\<not> (?i \<le> snd (hs ! m) + x \<and> snd (hs ! m) + x < ?i + length ys)"
        using sim_disjoint [OF sim k m False True] x j by linarith
      moreover have "snd (hs ! m) + x < length (slabs s ! ?p)" using pk [OF m] True x by (auto simp: placed_def)
      ultimately show ?thesis using pk [OF m] True x fit by (auto simp: placed_def write_slab_def nth_overwrite)
    next
      case False
      then show ?thesis using pk [OF m] x by (simp add: placed_def write_slab_def)
    qed
    then show ?thesis using pk [OF m] False lens by (simp add: placed_def)
  qed
  moreover have "list_all2 (win hs ?a) bs (a_bufs ?a)"
    using sim len by (auto simp: sim_def win_def elim!: list_all2_mono)
  moreover have "pool_ok ?s hs ?a"
    using sim len lens by (auto simp: sim_def pool_ok_def split: option.splits)
  moreover have "bytes xs" if "xs \<in> set (slabs ?s)" for xs
  proof -
    have "bytes (slabs s ! ?p)" using sim fit by (simp add: sim_def)
    then have "bytes (overwrite (slabs s ! ?p) ?i ys)"
      using ys by (auto simp: bytes_def overwrite_def dest: in_set_takeD in_set_dropD)
    then show ?thesis using that sim by (auto simp: write_slab_def sim_def dest!: set_update_subset_insert [THEN subsetD])
  qed
  ultimately show ?thesis using sim len by (simp add: sim_def)
qed

lemma sim_new_slab:
  assumes "sim hs s bs a" "pool s' = pool s" "pool_used s' = pool_used s" "slabs s' = slabs s @ [x]" "bytes x"
  shows "sim hs s' bs a"
  using assms by (auto simp: sim_def placed_def pool_ok_def nth_append split: option.splits)

lemma sim_allocPool:
  assumes "sim hs s bs a"
  shows "sim hs (allocPool rt s) bs a"
  using assms by (auto simp: sim_def placed_def pool_ok_def nth_append allocPool_def new_slab_def Let_def bytes_def)

lemma win_append:
  "win hs a b w \<Longrightarrow> length hs = length (a_arrays a) \<Longrightarrow>
   win (hs @ [h]) \<lparr>a_arrays = a_arrays a @ [x], a_bufs = ws\<rparr> b w"
  by (auto simp: win_def nth_append split: prod.splits)

text \<open>A new array, its place behind all arrays in its block.\<close>

lemma sim_extend:
  assumes sim: "sim hs s bs a" and n: "n < 2 ^ 31"
    and fit: "p < length (slabs s)" "base + n \<le> length (slabs s ! p)"
    and free: "\<forall>k < length hs. fst (hs ! k) = p \<longrightarrow> snd (hs ! k) + length (a_arrays a ! k) \<le> base"
    and used: "case pool s of None \<Rightarrow> True | Some q \<Rightarrow> if q = p then base + n \<le> used \<and> base \<le> used \<and> used \<le> poolSize else used = pool_used s"
  shows "sim (hs @ [(p, base)]) (s\<lparr>pool_used := used\<rparr>) (bs @ [\<lparr>b_parent = p, b_offset = int base, b_length = n\<rparr>])
    (snd (new_array (segment (slabs s ! p) base (base + n)) n a))"
proof -
  let ?a = "snd (new_array (segment (slabs s ! p) base (base + n)) n a)"
  have l: "length hs = length (a_arrays a)" using sim by (simp add: sim_def)
  have wins: "list_all2 (win (hs @ [(p, base)]) ?a) bs (a_bufs a)"
    using sim by (auto simp: sim_def new_array_def l win_append elim!: list_all2_mono)
  have "win (hs @ [(p, base)]) ?a \<lparr>b_parent = p, b_offset = int base, b_length = n\<rparr> (length (a_arrays a), 0, n)"
    using n fit l by (simp add: win_def new_array_def nth_append)
  with wins have "list_all2 (win (hs @ [(p, base)]) ?a) (bs @ [\<lparr>b_parent = p, b_offset = int base, b_length = n\<rparr>]) (a_bufs ?a)"
    by (simp add: new_array_def list_all2_appendI)
  moreover have "pool_ok (s\<lparr>pool_used := used\<rparr>) (hs @ [(p, base)]) ?a"
    using sim used fit free l
    by (fastforce simp: sim_def pool_ok_def new_array_def nth_append less_Suc_eq split: option.splits if_splits)
  moreover have "placed (s\<lparr>pool_used := used\<rparr>) ((hs @ [(p, base)]) ! k) (a_arrays ?a ! k)" if "k < length (hs @ [(p, base)])" for k
    using sim fit l that by (auto simp: sim_def placed_def new_array_def nth_append)
  moreover have "snd ((hs @ [(p, base)]) ! j) + length (a_arrays ?a ! j) \<le> snd ((hs @ [(p, base)]) ! k)"
    if "k < length (hs @ [(p, base)])" "j < k" "fst ((hs @ [(p, base)]) ! j) = fst ((hs @ [(p, base)]) ! k)" for k j
    using sim free l that by (auto simp: sim_def new_array_def nth_append less_Suc_eq)
  ultimately show ?thesis using sim by (simp add: sim_def l new_array_def)
qed

lemma sim_alloc:
  assumes sim: "sim hs s bs a" and n: "n < 2 ^ 31" and b: "alloc rt n s = (b, s')"
  shows "\<exists>h ini. sim (hs @ [h]) s' (bs @ [b]) (snd (new_array (map ini [0..<n]) n a)) \<and> b_length b = n"
proof -
  have out: "fst (hs ! k) \<noteq> length (slabs s)" if "k < length hs" for k
    using sim that by (auto simp: sim_def placed_def)
  have ini: "\<exists>ini. segment xs i (i + n) = map ini [0..<n]" if "i + n \<le> length xs" for xs :: "nat list" and i
    using that by (intro exI [of _ "\<lambda>m. xs ! (i + m)"] nth_equalityI) simp_all
  show ?thesis
  proof (cases "n > poolSize")
    case True
    let ?s = "snd (new_slab rt n s)"
    have "sim hs ?s bs a" by (rule sim_new_slab [OF sim]) (auto simp: new_slab_def bytes_def)
    moreover have "case pool ?s of None \<Rightarrow> True | Some q \<Rightarrow> q \<noteq> length (slabs s)"
      using sim by (auto simp: new_slab_def sim_def pool_ok_def split: option.splits)
    moreover have "length (slabs s) < length (slabs ?s)" "0 + n \<le> length (slabs ?s ! length (slabs s))"
      by (simp_all add: new_slab_def)
    ultimately have "sim (hs @ [(length (slabs s), 0)]) (?s\<lparr>pool_used := pool_used ?s\<rparr>)
        (bs @ [\<lparr>b_parent = length (slabs s), b_offset = int 0, b_length = n\<rparr>])
        (snd (new_array (segment (slabs ?s ! length (slabs s)) 0 (0 + n)) n a))"
      using n out by (intro sim_extend) (auto split: option.splits)
    moreover have "b = \<lparr>b_parent = length (slabs s), b_offset = 0, b_length = n\<rparr>" "s' = ?s\<lparr>pool_used := pool_used ?s\<rparr>"
      using b True by (auto simp: alloc_def new_slab_def)
    moreover obtain ini' where "segment (slabs ?s ! length (slabs s)) 0 (0 + n) = map ini' [0..<n]"
      using ini [of 0 "slabs ?s ! length (slabs s)"] by (auto simp: new_slab_def)
    ultimately have "sim (hs @ [(length (slabs s), 0)]) s' (bs @ [b]) (snd (new_array (map ini' [0..<n]) n a))" by simp
    then show ?thesis using \<open>b = _\<close> by auto
  next
    case False
    obtain p s1 where ps: "pool_of rt n s = (p, s1)" by (cases "pool_of rt n s")
    have u: "pool s = Some q \<Longrightarrow> pool_used s \<le> poolSize" for q using sim by (simp add: sim_def pool_ok_def)
    have sim1: "sim hs s1 bs a" and pool: "pool s1 = Some p" "pool_used s1 + n \<le> poolSize"
      using ps sim sim_allocPool [OF sim, of rt] False u
      by (auto simp: pool_of_def allocPool_def new_slab_def Let_def poolSize_def split: option.splits if_splits)
    have p: "p < length (slabs s1)" "length (slabs s1 ! p) = poolSize"
      and free: "\<forall>k < length hs. fst (hs ! k) = p \<longrightarrow> snd (hs ! k) + length (a_arrays a ! k) \<le> pool_used s1"
      using sim1 pool by (auto simp: sim_def pool_ok_def)
    have "sim (hs @ [(p, pool_used s1)]) (s1\<lparr>pool_used := pool_used s1 + n\<rparr>)
        (bs @ [\<lparr>b_parent = p, b_offset = int (pool_used s1), b_length = n\<rparr>])
        (snd (new_array (segment (slabs s1 ! p) (pool_used s1) (pool_used s1 + n)) n a))"
      using n p pool free by (intro sim_extend [OF sim1]) auto
    moreover have "b = \<lparr>b_parent = p, b_offset = int (pool_used s1), b_length = n\<rparr>" "s' = s1\<lparr>pool_used := pool_used s1 + n\<rparr>"
      using b False ps by (auto simp: alloc_def)
    moreover obtain ini' where "segment (slabs s1 ! p) (pool_used s1) (pool_used s1 + n) = map ini' [0..<n]"
      using ini [of "pool_used s1" "slabs s1 ! p"] p pool by auto
    ultimately have "sim (hs @ [(p, pool_used s1)]) s' (bs @ [b]) (snd (new_array (map ini' [0..<n]) n a))" by simp
    then show ?thesis using \<open>b = _\<close> by auto
  qed
qed

lemma sim_forget:
  assumes "sim (hs @ [h]) s bs' \<lparr>a_arrays = a_arrays a @ [x], a_bufs = ws\<rparr>" and "sim hs s0 bs a"
  shows "sim hs s bs a"
proof -
  have l: "length hs = length (a_arrays a)" using assms(2) by (simp add: sim_def)
  have "placed s (hs ! k) (a_arrays a ! k)" if "k < length hs" for k
    using assms(1) that l unfolding sim_def by (auto simp: nth_append dest: spec [of _ k])
  moreover have "snd (hs ! j) + length (a_arrays a ! j) \<le> snd (hs ! k)"
    if "k < length hs" "j < k" "fst (hs ! j) = fst (hs ! k)" for k j
    using assms(2) that by (simp add: sim_def)
  moreover have "pool_ok s hs a"
    using assms(1) l by (auto simp: sim_def pool_ok_def nth_append less_Suc_eq split: option.splits)
  ultimately show ?thesis using assms by (simp add: sim_def)
qed

section \<open>Reading a window\<close>

lemma sim_buf:
  assumes "sim hs s bs a" "h < length bs"
  obtains k i n where "a_bufs a ! h = (k, i, n)" "k < length hs" "b_parent (bs ! h) = fst (hs ! k)"
    "b_offset (bs ! h) = int (snd (hs ! k) + i)" "b_length (bs ! h) = n" "i + n \<le> length (a_arrays a ! k)" "n < 2 ^ 31"
    "fst (hs ! k) < length (slabs s)" "snd (hs ! k) + length (a_arrays a ! k) \<le> length (slabs s ! fst (hs ! k))"
    "\<forall>m < length (a_arrays a ! k). slabs s ! fst (hs ! k) ! (snd (hs ! k) + m) = a_arrays a ! k ! m"
proof -
  have w: "win hs a (bs ! h) (a_bufs a ! h)" using assms by (auto simp: sim_def list_all2_conv_all_nth)
  obtain k i n where kin: "a_bufs a ! h = (k, i, n)" by (cases "a_bufs a ! h")
  then have "k < length hs" using w by (simp add: win_def)
  then have "placed s (hs ! k) (a_arrays a ! k)" using assms by (simp add: sim_def)
  then show thesis using that [OF kin] w kin by (simp add: win_def placed_def)
qed

lemma sim_len: "sim hs s bs a \<Longrightarrow> map b_length bs = map (a_len a) [0..<length bs]"
proof (rule nth_equalityI)
  fix h
  assume "sim hs s bs a" "h < length (map b_length bs)"
  moreover from this obtain k i n where "a_bufs a ! h = (k, i, n)" "b_length (bs ! h) = n" by (auto elim: sim_buf [of hs s bs a h])
  ultimately show "map b_length bs ! h = map (a_len a) [0..<length bs] ! h" by (simp add: a_len_def)
qed simp

lemma sim_length: "sim hs s bs a \<Longrightarrow> h < length bs \<Longrightarrow> b_length (bs ! h) = a_len a h"
  using sim_len [of hs s bs a] by (metis add.left_neutral length_map nth_map nth_upt)

lemma length_view: "sim hs s bs a \<Longrightarrow> h < length bs \<Longrightarrow> length (view a h) = a_len a h"
  by (erule (1) sim_buf) (simp add: view_def a_len_def)

lemma sim_part:
  assumes "sim hs s bs a" "h < length bs" "y \<le> a_len a h"
  shows "slab_bytes s (b_parent (bs ! h)) (nat (b_offset (bs ! h)) + x) (nat (b_offset (bs ! h)) + y) = segment (view a h) x y"
proof -
  obtain k i n where w: "a_bufs a ! h = (k, i, n)" "b_parent (bs ! h) = fst (hs ! k)"
    "b_offset (bs ! h) = int (snd (hs ! k) + i)" "i + n \<le> length (a_arrays a ! k)"
    "snd (hs ! k) + length (a_arrays a ! k) \<le> length (slabs s ! fst (hs ! k))"
    "\<forall>m < length (a_arrays a ! k). slabs s ! fst (hs ! k) ! (snd (hs ! k) + m) = a_arrays a ! k ! m"
    using assms by (auto elim: sim_buf [of hs s bs a h])
  then show ?thesis using assms(3)
    by (intro nth_equalityI) (auto simp: slab_bytes_part view_def a_len_def add.assoc nat_int_add)
qed

lemma sim_peek:
  assumes "sim hs s bs a" "h < length bs" "x < a_len a h"
  shows "peek s (b_parent (bs ! h)) (b_offset (bs ! h) + int x) = Some (int (view a h ! x))"
proof -
  obtain k i n where w: "a_bufs a ! h = (k, i, n)" "b_parent (bs ! h) = fst (hs ! k)"
    "b_offset (bs ! h) = int (snd (hs ! k) + i)" "i + n \<le> length (a_arrays a ! k)"
    "snd (hs ! k) + length (a_arrays a ! k) \<le> length (slabs s ! fst (hs ! k))"
    "\<forall>m < length (a_arrays a ! k). slabs s ! fst (hs ! k) ! (snd (hs ! k) + m) = a_arrays a ! k ! m"
    using assms by (auto elim: sim_buf [of hs s bs a h])
  have "int (snd (hs ! k) + i) + int x = int (snd (hs ! k) + (i + x))" by simp
  then show ?thesis using w assms(3)
    by (simp only: peek_def nat_int) (auto simp: view_def a_len_def add.assoc)
qed

lemma sim_window: "sim hs s bs a \<Longrightarrow> h < length bs \<Longrightarrow> window s (bs ! h) = map (\<lambda>b. Some (int b)) (view a h)"
  by (rule nth_equalityI) (simp_all add: window_def length_view sim_length sim_peek)

text \<open>Writing in a window.\<close>

lemma sim_poke:
  assumes "sim hs s bs a" "h < length bs" "j + length vs \<le> a_len a h"
  shows "sim hs (poke_all (b_parent (bs ! h)) (b_offset (bs ! h) + int j) vs s) bs (put h j (map to_byte vs) a)"
proof -
  obtain k i n where w: "a_bufs a ! h = (k, i, n)" "k < length hs" "b_parent (bs ! h) = fst (hs ! k)"
    "b_offset (bs ! h) = int (snd (hs ! k) + i)" "i + n \<le> length (a_arrays a ! k)" "fst (hs ! k) < length (slabs s)"
    "snd (hs ! k) + length (a_arrays a ! k) \<le> length (slabs s ! fst (hs ! k))"
    using assms by (auto elim: sim_buf [of hs s bs a h])
  have off: "b_offset (bs ! h) + int j = int (snd (hs ! k) + (i + j))" using w by simp
  have "poke_all (b_parent (bs ! h)) (b_offset (bs ! h) + int j) vs s =
      write_slab (fst (hs ! k)) (snd (hs ! k) + (i + j)) (map to_byte vs) s"
    unfolding off w(3) using w assms(3) by (intro poke_all_write) (simp_all add: a_len_def)
  then show ?thesis
    using sim_write [OF assms(1) w(2), of "i + j" "map to_byte vs"] w assms(3) by (simp add: put_def a_len_def bytes_to_byte)
qed

lemma bytes_view: "sim hs s bs a \<Longrightarrow> h < length bs \<Longrightarrow> bytes (view a h)"
proof -
  assume sim: "sim hs s bs a" and h: "h < length bs"
  then obtain k i n where w: "a_bufs a ! h = (k, i, n)" "i + n \<le> length (a_arrays a ! k)" "fst (hs ! k) < length (slabs s)"
    "snd (hs ! k) + length (a_arrays a ! k) \<le> length (slabs s ! fst (hs ! k))"
    "\<forall>m < length (a_arrays a ! k). slabs s ! fst (hs ! k) ! (snd (hs ! k) + m) = a_arrays a ! k ! m"
    by (auto elim: sim_buf [of hs s bs a h])
  have b: "bytes (slabs s ! fst (hs ! k))" using sim w by (simp add: sim_def)
  have "segment (a_arrays a ! k) i (i + n) ! m < 256" if "m < n" for m
  proof -
    have "a_arrays a ! k ! (i + m) = slabs s ! fst (hs ! k) ! (snd (hs ! k) + (i + m))" using w that by simp
    also have "\<dots> < 256" using b w that by (intro bytes_nth) simp_all
    finally show ?thesis using w that by simp
  qed
  then show ?thesis using w by (auto simp: bytes_def view_def in_set_conv_nth)
qed

section \<open>One operation\<close>

definition agrees :: "buf_out \<times> blocks \<times> buf list \<Rightarrow> ((nat \<Rightarrow> nat) \<Rightarrow> buf_out \<times> arrays) \<Rightarrow> bool" where
  "agrees r f \<longleftrightarrow> (\<exists>ini hs. fst r = fst (f ini) \<and> sim hs (fst (snd r)) (snd (snd r)) (snd (f ini)))"

lemma agreesI: "fst r = fst (f ini) \<Longrightarrow> sim hs (fst (snd r)) (snd (snd r)) (snd (f ini)) \<Longrightarrow> agrees r f"
  unfolding agrees_def by blast

lemma coerce_less: "coerce x < 2 ^ 31"
proof -
  have "num_int32 x < 2 ^ 31" using signed_take_bit_int_less_exp [of 31] by (cases x) (simp_all add: to_int32_def)
  then show ?thesis by (simp add: coerce_def)
qed

lemma coerce_small: "n < 2 ^ 31 \<Longrightarrow> coerce (Some (int n)) = n"
  by (simp add: coerce_def to_int32_small)

lemma coerce_le: "coerce (Some (int n)) \<le> n"
proof (cases "n < 2 ^ 31")
  case False
  then show ?thesis using coerce_less [of "Some (int n)"] by simp
qed (simp add: coerce_small)

lemma overwrite_all: "length ys = length xs \<Longrightarrow> overwrite xs 0 ys = ys"
  by (simp add: overwrite_def)

lemma a_bufs_length: "sim hs s bs a \<Longrightarrow> length (a_bufs a) = length bs"
  by (auto simp: sim_def dest: list_all2_lengthD)

lemma new_array_simps:
  assumes "sim hs s bs a"
  shows "fst (new_array xs n a) = Made n"
    and "a_bufs (snd (new_array xs n a)) ! length bs = (length (a_arrays a), 0, n)"
    and "a_len (snd (new_array xs n a)) (length bs) = n"
    and "put (length bs) 0 ys (snd (new_array xs n a)) = snd (new_array (overwrite xs 0 ys) n a)"
  using a_bufs_length [OF assms] by (simp_all add: new_array_def put_def a_len_def nth_append)

lemma sim_fill_new:
  assumes sim: "sim hs s bs a" and b: "fill_new rt vs s = (b, s')" and n: "n = coerce (Some (int (length vs)))"
  shows "\<exists>hs'. sim hs' s' (bs @ [b]) (snd (new_array (map to_byte (take n vs)) n a)) \<and> b_length b = n"
proof -
  obtain s1 where a1: "alloc rt n s = (b, s1)" using b n by (auto simp: fill_new_def split: prod.splits)
  with sim_alloc [OF sim _ a1] coerce_less n obtain h ini
    where s1: "sim (hs @ [h]) s1 (bs @ [b]) (snd (new_array (map ini [0..<n]) n a))" and l: "b_length b = n" by blast
  have le: "length (take n vs) = n" using n coerce_le [of "length vs"] by simp
  have "sim (hs @ [h]) (poke_all (b_parent b) (b_offset b) (take n vs) s1) (bs @ [b])
      (put (length bs) 0 (map to_byte (take n vs)) (snd (new_array (map ini [0..<n]) n a)))"
    using sim_poke [OF s1, of "length bs" 0 "take n vs"] le by (simp add: new_array_simps [OF sim])
  moreover have "s' = poke_all (b_parent b) (b_offset b) (take n vs) s1"
    using b n a1 l by (auto simp: fill_new_def)
  ultimately have "sim (hs @ [h]) s' (bs @ [b]) (snd (new_array (map to_byte (take n vs)) n a))"
    using le by (simp add: new_array_simps [OF sim] overwrite_all)
  then show ?thesis using l by blast
qed

lemma step_new_count:
  assumes "sim hs s bs a"
  shows "agrees (buf_step rt (New_count n) (s, bs)) (\<lambda>ini. arrays_step rt ini (New_count n) a)"
proof -
  obtain b s' where b: "alloc rt (coerce n) s = (b, s')" by fastforce
  from sim_alloc [OF assms coerce_less b] show ?thesis
    by (auto simp: buf_step_def new_buffer_def made_def b arrays_step_def new_array_simps [OF assms] intro: agreesI)
qed

lemma step_new_array:
  assumes "sim hs s bs a"
  shows "agrees (buf_step rt (New_array vs) (s, bs)) (\<lambda>ini. arrays_step rt ini (New_array vs) a)"
proof -
  obtain b s' where b: "fill_new rt vs s = (b, s')" by fastforce
  from sim_fill_new [OF assms b refl] show ?thesis
    by (auto simp: buf_step_def new_buffer_def made_def b arrays_step_def new_array_simps [OF assms] Let_def intro!: agreesI)
qed

lemma bytes_back: "bytes xs \<Longrightarrow> map to_byte (map (\<lambda>b. Some (int b)) xs) = xs"
  by (induction xs) (simp_all add: to_byte_def nat_mod_distrib)

lemma step_new_copy:
  assumes "sim hs s bs a" "h < length bs"
  shows "agrees (buf_step rt (New_copy h) (s, bs)) (\<lambda>ini. arrays_step rt ini (New_copy h) a)"
proof -
  let ?vs = "map (\<lambda>b. Some (int b)) (view a h)"
  obtain b s' where b: "fill_new rt ?vs s = (b, s')" by fastforce
  have "a_len a h < 2 ^ 31" using assms by (auto elim: sim_buf [of hs s bs a h] simp: a_len_def)
  then have n: "a_len a h = coerce (Some (int (length ?vs)))" using length_view [OF assms] by (simp add: coerce_small)
  from sim_fill_new [OF assms(1) b n] obtain hs' where "sim hs' s' (bs @ [b]) (snd (new_array (view a h) (a_len a h) a))" "b_length b = a_len a h"
    using bytes_back [OF bytes_view [OF assms]] length_view [OF assms] by auto
  then show ?thesis
    by (auto simp: buf_step_def new_buffer_def made_def sim_window [OF assms] b arrays_step_def new_array_simps [OF assms(1)] intro!: agreesI)
qed

lemma sim_add_window:
  "sim hs s bs a \<Longrightarrow> win hs a b w \<Longrightarrow> sim hs s (bs @ [b]) (a\<lparr>a_bufs := a_bufs a @ [w]\<rparr>)"
  by (auto simp: sim_def win_def pool_ok_def intro!: list_all2_appendI elim!: list_all2_mono split: option.splits)

lemma step_slice:
  assumes "sim hs s bs a" "h < length bs" "0 \<le> start"
  shows "agrees (buf_step rt (Slice h start end) (s, bs)) (\<lambda>ini. arrays_step rt ini (Slice h start end) a)"
proof -
  obtain k i n where w: "a_bufs a ! h = (k, i, n)" "k < length hs" "b_parent (bs ! h) = fst (hs ! k)"
    "b_offset (bs ! h) = int (snd (hs ! k) + i)" "b_length (bs ! h) = n" "i + n \<le> length (a_arrays a ! k)" "n < 2 ^ 31"
    using assms by (auto elim: sim_buf [of hs s bs a h])
  let ?e = "case end of None \<Rightarrow> int n | Some e \<Rightarrow> e"
  show ?thesis
  proof (cases "?e > int n \<or> start > ?e")
    case True
    then show ?thesis using assms w
      by (intro agreesI [where hs = hs]) (auto simp: buf_step_def made_def buf_slice_def arrays_step_def a_slice_def Let_def)
  next
    case False
    then have e: "\<not> ?e > int n" "start \<le> ?e" by auto
    then have "nat (?e - start) < 2 ^ 31" using w(7) assms(3) by linarith
    then have c: "coerce (Some (?e - start)) = nat (?e - start)"
      using coerce_small [of "nat (?e - start)"] e by simp
    let ?b = "\<lparr>b_parent = fst (hs ! k), b_offset = start + int (snd (hs ! k) + i), b_length = nat (?e - start)\<rparr>"
    have "win hs a ?b (k, i + nat start, nat (?e - start))"
      using False w assms(3) by (simp add: win_def) linarith
    from sim_add_window [OF assms(1) this] show ?thesis using False w c
      by (cases "end"; intro agreesI [where hs = hs];
        simp add: buf_step_def made_def buf_slice_def arrays_step_def a_slice_def Let_def)
  qed
qed

lemma step_get:
  assumes "sim hs s bs a" "h < length bs"
  shows "agrees (buf_step rt (Get h i) (s, bs)) (\<lambda>ini. arrays_step rt ini (Get h i) a)"
  using assms sim_peek [OF assms, of "nat i"]
  by (intro agreesI [where hs = hs]) (auto simp: buf_step_def gave_def buf_get_def arrays_step_def sim_length)

lemma step_set:
  assumes "sim hs s bs a" "h < length bs"
  shows "agrees (buf_step rt (Set h i v) (s, bs)) (\<lambda>ini. arrays_step rt ini (Set h i v) a)"
  using assms sim_poke [OF assms, of "nat i" "[v]"]
  by (intro agreesI [where hs = hs]) (auto simp: buf_step_def gave_def buf_set_def arrays_step_def sim_length)

lemma fill_code_some: "\<exists>v. fill_code x = Some v"
  by (auto simp: fill_code_def split: fill_value.split option.split list.split)

lemma step_fill:
  assumes "sim hs s bs a" "h < length bs"
  shows "agrees (buf_step rt (Fill h x start0 end0) (s, bs)) (\<lambda>ini. arrays_step rt ini (Fill h x start0 end0) a)"
proof -
  obtain v where v: "fill_code x = Some v" using fill_code_some by blast
  obtain k i n where w: "a_bufs a ! h = (k, i, n)" "b_parent (bs ! h) = fst (hs ! k)"
    "b_offset (bs ! h) = int (snd (hs ! k) + i)" "b_length (bs ! h) = n" "i + n \<le> length (a_arrays a ! k)"
    "snd (hs ! k) + length (a_arrays a ! k) \<le> length (slabs s ! fst (hs ! k))"
    using assms by (auto elim: sim_buf [of hs s bs a h])
  define start where "start = or_else start0 0"
  define fin where "fin = or_else end0 (int n)"
  have len: "a_len a h = n" using w by (simp add: a_len_def)
  show ?thesis
  proof (cases "fin \<le> start \<or> n = 0 \<or> start < 0 \<or> start \<ge> int n \<or> fin > int n \<or> to_int32 v \<noteq> v")
    case True
    then show ?thesis using assms w len
      by (intro agreesI [where hs = hs])
        (auto simp: buf_step_def gave_def buf_fill_def arrays_step_def a_fill_def v Let_def native_fill_def
          simp flip: start_def fin_def)
  next
    case False
    let ?vs = "replicate (nat (fin - start)) (Some v)"
    have "nat start + nat (fin - start) \<le> n" using False by linarith
    then have "nat start + length ?vs \<le> a_len a h" using len by simp
    from sim_poke [OF assms this] have
      "sim hs (poke_all (b_parent (bs ! h)) (start + b_offset (bs ! h)) ?vs s) bs
         (put h (nat start) (replicate (nat (fin - start)) (nat (v mod 256))) a)"
      using False by (simp add: to_byte_def add.commute)
    then show ?thesis using False assms w len
      by (intro agreesI [where hs = hs])
        (auto simp: buf_step_def gave_def buf_fill_def arrays_step_def a_fill_def v Let_def native_fill_def
          simp flip: start_def fin_def)
  qed
qed

lemma step_copy:
  assumes "sim hs s bs a" "h < length bs" "t < length bs"
  shows "agrees (buf_step rt (Copy h t tstart0 start0 end0) (s, bs))
    (\<lambda>ini. arrays_step rt ini (Copy h t tstart0 start0 end0) a)"
proof -
  obtain k i n where w: "a_bufs a ! h = (k, i, n)" "b_parent (bs ! h) = fst (hs ! k)"
    "b_offset (bs ! h) = int (snd (hs ! k) + i)" "b_length (bs ! h) = n" "i + n \<le> length (a_arrays a ! k)"
    "snd (hs ! k) + length (a_arrays a ! k) \<le> length (slabs s ! fst (hs ! k))"
    using assms by (auto elim: sim_buf [of hs s bs a h])
  obtain k' i' m where w': "a_bufs a ! t = (k', i', m)" "b_parent (bs ! t) = fst (hs ! k')"
    "b_offset (bs ! t) = int (snd (hs ! k') + i')" "b_length (bs ! t) = m" "i' + m \<le> length (a_arrays a ! k')"
    "snd (hs ! k') + length (a_arrays a ! k') \<le> length (slabs s ! fst (hs ! k'))"
    using assms by (auto elim: sim_buf [of hs s bs a t])
  define start where "start = or_else start0 0"
  define fin where "fin = or_else end0 (int n)"
  define tstart where "tstart = or_else tstart0 0"
  have len: "a_len a h = n" "a_len a t = m" using w w' by (simp_all add: a_len_def)
  let ?bad = "fin \<le> start \<or> m = 0 \<or> n = 0 \<or> tstart < 0 \<or> tstart \<ge> int m \<or> start < 0 \<or> start \<ge> int n \<or> fin > int n"
  note defs = buf_step_def gave_def buffer_copy_def arrays_step_def a_copy_def Let_def
  show ?thesis
  proof (cases ?bad)
    case True
    then show ?thesis using assms w w' len
      by (intro agreesI [where hs = hs]) (auto simp: defs simp flip: start_def fin_def tstart_def)
  next
    case False
    define c where "c = min (fin - start) (int m - tstart)"
    define e where "e = (if int m - tstart < fin - start then int m - tstart + start else fin)"
    have e: "e = start + c" by (auto simp: c_def e_def min_def)
    have c: "0 < c" "c \<le> int n - start" "c \<le> int m - tstart" using False by (auto simp: c_def)
    let ?off = "b_offset (bs ! h)" and ?toff = "b_offset (bs ! t)"
    let ?bytes = "segment (view a h) (nat start) (nat (start + c))"
    have "slab_bytes s (b_parent (bs ! h)) (nat ?off + nat start) (nat ?off + nat (start + c)) = ?bytes"
      using sim_part [OF assms(1,2), of "nat (start + c)"] c len by simp
    moreover have "nat ?off + nat start = nat (start + ?off)" "nat ?off + nat (start + c) = nat (start + ?off + c)"
      using w c False by (simp_all add: nat_add_distrib)
    ultimately have bytes: "slab_bytes s (b_parent (bs ! h)) (nat (start + ?off)) (nat (start + ?off + c)) = ?bytes" by simp
    have native: "native_copy (b_parent (bs ! h)) (b_parent (bs ! t)) (tstart + ?toff) (start + ?off) (e + ?off) s =
        (Inr c, poke_all (b_parent (bs ! t)) (tstart + ?toff) (map (\<lambda>b. Some (int b)) ?bytes) s)"
      using w w' c False bytes by (auto simp: e native_copy_def Let_def min_def add.assoc [symmetric])
    have vb: "bytes ?bytes" using bytes_view [OF assms(1,2)] by (auto simp: bytes_def segment_def dest: in_set_takeD in_set_dropD)
    have "nat (start + c) \<le> n" "nat tstart + (nat (start + c) - nat start) \<le> m" using c False by linarith+
    then have "nat tstart + length ?bytes \<le> a_len a t" using len length_view [OF assms(1,2)] by simp
    from sim_poke [OF assms(1,3), of "nat tstart" "map (\<lambda>b. Some (int b)) ?bytes"] this have
      "sim hs (poke_all (b_parent (bs ! t)) (tstart + ?toff) (map (\<lambda>b. Some (int b)) ?bytes) s) bs (put t (nat tstart) ?bytes a)"
      using False bytes_back [OF vb] by (simp add: add.commute)
    moreover have "buffer_copy (bs ! h) (bs ! t) tstart0 start0 end0 s =
        native_copy (b_parent (bs ! h)) (b_parent (bs ! t)) (tstart + ?toff) (start + ?off) (e + ?off) s"
      using False w w' by (cases "int m - tstart < fin - start")
        (simp_all add: buffer_copy_def Let_def e_def flip: start_def fin_def tstart_def)
    ultimately show ?thesis using False assms w w' len native
      by (intro agreesI [where hs = hs])
        (simp_all add: buf_step_def gave_def arrays_step_def a_copy_def Let_def c_def [symmetric] flip: start_def fin_def tstart_def)
  qed
qed

section \<open>Texts\<close>

lemma hex_loop_values:
  "hex_loop n i p offset string s =
     (let vs = map (\<lambda>i. parse_int (Some 16) (take 2 (drop (i * 2) string))) [i..<i + n];
          good = takeWhile (\<lambda>v. v \<noteq> None) vs
      in (good = vs, poke_all p (offset + int i) good s))"
proof (induction n arbitrary: i s)
  case (Suc n)
  define vs where "vs = map (\<lambda>i. parse_int (Some 16) (take 2 (drop (i * 2) string))) [Suc i..<Suc i + n]"
  have IH: "hex_loop n (Suc i) p offset string s' =
      (takeWhile (\<lambda>v. v \<noteq> None) vs = vs, poke_all p (offset + int (Suc i)) (takeWhile (\<lambda>v. v \<noteq> None) vs) s')" for s'
    using Suc.IH [of "Suc i" s'] by (simp add: vs_def Let_def del: upt_Suc not_None_eq)
  have "map (\<lambda>i. parse_int (Some 16) (take 2 (drop (i * 2) string))) [i..<i + Suc n] =
      parse_int (Some 16) (take 2 (drop (i * 2) string)) # vs"
    by (simp add: vs_def upt_conv_Cons del: upt_Suc)
  then show ?case using IH by (auto simp: Let_def add.commute add.left_commute simp del: upt_Suc split: option.split)
qed simp

lemma length_hex_values [simp]: "length (hex_values string m) = m"
  by (simp add: hex_values_def)

lemma sim_hex:
  assumes sim: "sim hs s bs a" "h < length bs" and room: "st + room \<le> a_len a h" "room = 0 \<Longrightarrow> length string \<le> 1"
    and t: "written_text rt Hex string room = (r, ys)"
  shows "\<exists>s'. hexWrite (b_parent (bs ! h)) string (b_offset (bs ! h) + int st) (Some (int room)) s = (r, s') \<and>
    sim hs s' bs (put h st ys a) \<and> length ys \<le> room \<and> (\<forall>m. r = Inr m \<longrightarrow> m = int (length ys))"
proof (cases "odd (length string)")
  case True
  then show ?thesis using t sim_poke [OF sim, of st "[]"] room by (auto simp: written_text_def hexWrite_def Let_def)
next
  case False
  let ?vs = "hex_values string (min room (length string div 2))"
  let ?good = "takeWhile (\<lambda>v. v \<noteq> None) ?vs"
  let ?s = "poke_all (b_parent (bs ! h)) (b_offset (bs ! h) + int st) ?good s"
  obtain k i n where w: "a_bufs a ! h = (k, i, n)" "b_parent (bs ! h) = fst (hs ! k)"
    "b_offset (bs ! h) = int (snd (hs ! k) + i)" "b_length (bs ! h) = n" "i + n \<le> length (a_arrays a ! k)"
    "snd (hs ! k) + length (a_arrays a ! k) \<le> length (slabs s ! fst (hs ! k))"
    using sim by (auto elim: sim_buf [of hs s bs a h])
  have len: "a_len a h = n" using w by (simp add: a_len_def)
  have g: "length ?good \<le> min room (length string div 2)"
    using length_takeWhile_le [of "\<lambda>v. v \<noteq> None" ?vs] by simp
  have "string = []" if "room = 0" using room(2) [OF that] False by (cases string) auto
  then have "hexWrite (b_parent (bs ! h)) string (b_offset (bs ! h) + int st) (Some (int room)) s =
      (if ?good = ?vs then Inr (int (min room (length string div 2))) else Inl (Throw (S ''Invalid hex string'')), ?s)"
    using False w room len
    by (cases "room = 0") (auto simp: hexWrite_def hex_loop_values hex_values_def Let_def min_def)
  moreover have "r = (if ?good = ?vs then Inr (int (min room (length string div 2))) else Inl (Throw (S ''Invalid hex string'')))"
    "ys = map to_byte ?good"
    using t False by (auto simp: written_text_def Let_def split: if_splits)
  moreover have "sim hs ?s bs (put h st (map to_byte ?good) a)" using g room by (intro sim_poke [OF sim]) linarith
  moreover have "length ?good = min room (length string div 2)" if "?good = ?vs" using that by (metis length_hex_values)
  ultimately show ?thesis using g by auto
qed

lemma sim_native:
  assumes sim: "sim hs s bs a" "h < length bs" and room: "st + room \<le> a_len a h" "room = 0 \<Longrightarrow> c = Base64 \<or> string = []"
    and ok: "codec_ok rt" and t: "written_text rt (Native c) string room = (r, ys)"
  shows "\<exists>s'. native_write rt c (b_parent (bs ! h)) string (b_offset (bs ! h) + int st) (Some (int room)) s = (r, s') \<and>
    sim hs s' bs (put h st ys a) \<and> length ys \<le> room \<and> (\<forall>m. r = Inr m \<longrightarrow> m = int (length ys))"
proof -
  obtain k i n where w: "a_bufs a ! h = (k, i, n)" "b_parent (bs ! h) = fst (hs ! k)"
    "b_offset (bs ! h) = int (snd (hs ! k) + i)" "b_length (bs ! h) = n" "i + n \<le> length (a_arrays a ! k)" "n < 2 ^ 31"
    "snd (hs ! k) + length (a_arrays a ! k) \<le> length (slabs s ! fst (hs ! k))"
    using sim by (auto elim: sim_buf [of hs s bs a h])
  have len: "a_len a h = n" using w by (simp add: a_len_def)
  then have "room < 2 ^ 31" using w room by linarith
  then have l: "take_bit 32 (num_int32 (Some (int room))) = int room"
    by (simp add: to_int32_small take_bit_int_eq_self)
  show ?thesis
  proof (cases "string = [] \<or> room = 0")
    case True
    then show ?thesis using t room l sim_poke [OF sim, of st "[]"]
      by (auto simp: written_text_def native_write_def Let_def simp del: num_int32.simps)
  next
    case False
    let ?bs = "encode (codecs rt c) string room"
    have le: "length ?bs \<le> room" using ok by (simp add: codec_ok_def)
    then have "sim hs (poke_all (b_parent (bs ! h)) (b_offset (bs ! h) + int st) (map (\<lambda>b. Some (int b)) ?bs) s) bs
        (put h st (map to_byte (map (\<lambda>b. Some (int b)) ?bs)) a)"
      using room by (intro sim_poke [OF sim]) simp
    moreover have "map to_byte (map (\<lambda>b. Some (int b)) ?bs) = map (\<lambda>b. b mod 256) ?bs"
      by (simp add: to_byte_def nat_mod_distrib)
    ultimately have "sim hs (poke_all (b_parent (bs ! h)) (b_offset (bs ! h) + int st) (map (\<lambda>b. Some (int b)) ?bs) s) bs
        (put h st (map (\<lambda>b. b mod 256) ?bs) a)" by (simp only:)
    then show ?thesis using False t l w len room le
      by (auto simp: written_text_def native_write_def Let_def min_def simp del: num_int32.simps)
  qed
qed

definition write_in :: "runtime \<Rightarrow> encoding \<Rightarrow> nat \<Rightarrow> jstring \<Rightarrow> int \<Rightarrow> jnum \<Rightarrow> blocks \<Rightarrow> int res \<times> blocks" where
  "write_in rt e p string offset lim s =
     (case e of Hex \<Rightarrow> hexWrite p string offset lim s | Native c \<Rightarrow> native_write rt c p string offset lim s
      | Unknown \<Rightarrow> (unknown_encoding, s))"

definition room_ok :: "encoding \<Rightarrow> jstring \<Rightarrow> nat \<Rightarrow> bool" where
  "room_ok e string room \<longleftrightarrow>
     (room = 0 \<longrightarrow> (case e of Hex \<Rightarrow> length string \<le> 1 | Native c \<Rightarrow> c = Base64 \<or> string = [] | Unknown \<Rightarrow> True))"

lemma sim_text:
  assumes sim: "sim hs s bs a" "h < length bs" and room: "st + room \<le> a_len a h" "room_ok e string room"
    and ok: "codec_ok rt" and t: "written_text rt e string room = (r, ys)"
  shows "\<exists>s'. write_in rt e (b_parent (bs ! h)) string (b_offset (bs ! h) + int st) (Some (int room)) s = (r, s') \<and>
    sim hs s' bs (put h st ys a) \<and> length ys \<le> room \<and> (\<forall>m. r = Inr m \<longrightarrow> m = int (length ys))"
proof (cases e)
  case Hex
  then show ?thesis using sim_hex [OF sim room(1), of string rt r ys] room t by (simp add: write_in_def room_ok_def)
next
  case (Native c)
  then show ?thesis using sim_native [OF sim room(1), of c string rt r ys] room t ok by (simp add: write_in_def room_ok_def)
next
  case Unknown
  then show ?thesis using t sim_poke [OF sim, of st "[]"] room by (auto simp: write_in_def written_text_def unknown_encoding_def)
qed

lemma arg_num_simps [simp]: "arg_num (Num n) = Some n" "arg_num Undef = None" "arg_num (Enc e) = None"
  by (simp_all add: arg_num_def)

lemma buf_write_in:
  assumes "0 \<le> write_start a1 a2 a3" "write_start a1 a2 a3 \<le> int (b_length b)"
    and "case fst (snd (write_args a1 a2 a3)) of Undef \<Rightarrow> True | Num l \<Rightarrow> l \<ge> 0 | Enc e \<Rightarrow> e = []"
  shows "buf_write rt b string a1 a2 a3 s =
    write_in rt (encoding_of (encoding_name (snd (snd (write_args a1 a2 a3))))) (b_parent b) string
      (b_offset b + int (nat (write_start a1 a2 a3))) (Some (int (write_room (b_length b) a1 a2 a3))) s"
proof -
  obtain o' l' e' where wa: "write_args a1 a2 a3 = (o', l', e')" by (cases "write_args a1 a2 a3") auto
  show ?thesis using assms
    by (cases l'; cases "arg_num o'"; cases "encoding_of (encoding_name e')")
      (auto simp: buf_write_def write_in_def write_start_def wa write_room_def falsy_arg_def Let_def min_def)
qed

lemma write_room_le: "0 \<le> write_start a1 a2 a3 \<Longrightarrow> write_start a1 a2 a3 \<le> int n \<Longrightarrow>
  nat (write_start a1 a2 a3) + write_room n a1 a2 a3 \<le> n"
  by (auto simp: write_room_def Let_def split: warg.split)

lemma step_write:
  assumes sim: "sim hs s bs a" and safe: "buf_safe rt (map b_length bs) (Write h string a1 a2 a3)" and ok: "codec_ok rt"
  shows "agrees (buf_step rt (Write h string a1 a2 a3) (s, bs)) (\<lambda>ini. arrays_step rt ini (Write h string a1 a2 a3) a)"
proof -
  let ?st = "write_start a1 a2 a3" and ?room = "write_room (a_len a h) a1 a2 a3"
  let ?e = "encoding_of (encoding_name (snd (snd (write_args a1 a2 a3))))"
  have h: "h < length bs" using safe by (simp add: buf_safe_def)
  note len = sim_length [OF sim h]
  have st: "0 \<le> ?st" "?st < int (a_len a h)"
    and l: "case fst (snd (write_args a1 a2 a3)) of Undef \<Rightarrow> True | Num l \<Rightarrow> l \<ge> 0 | Enc e \<Rightarrow> e = []"
    using safe h len by (simp_all add: buf_safe_def)
  have "0 < ?room" using st l by (auto simp: write_room_def Let_def split: warg.splits)
  then have ro: "room_ok ?e string ?room" by (simp add: room_ok_def)
  obtain r ys where t: "written_text rt ?e string ?room = (r, ys)" by fastforce
  from sim_text [OF sim h _ ro ok t, of "nat ?st"] write_room_le st obtain s'
    where s': "write_in rt ?e (b_parent (bs ! h)) string (b_offset (bs ! h) + int (nat ?st)) (Some (int ?room)) s = (r, s')"
      "sim hs s' bs (put h (nat ?st) ys a)" by fastforce
  moreover have "buf_write rt (bs ! h) string a1 a2 a3 s = (r, s')"
    using buf_write_in [OF st(1), of "bs ! h" rt string s] st l s' len by simp
  ultimately show ?thesis using t
    by (intro agreesI [where hs = hs]) (auto simp: buf_step_def gave_def arrays_step_def Let_def split: sum.splits)
qed

lemma sim_shrink:
  assumes "sim hs s (bs @ [b]) \<lparr>a_arrays = xs, a_bufs = ws @ [(k, i, n)]\<rparr>" "m \<le> n"
  shows "sim hs s (bs @ [b\<lparr>b_length := m\<rparr>]) \<lparr>a_arrays = xs, a_bufs = ws @ [(k, i, m)]\<rparr>"
proof -
  let ?a = "\<lparr>a_arrays = xs, a_bufs = ws @ [(k, i, n)]\<rparr>" and ?a' = "\<lparr>a_arrays = xs, a_bufs = ws @ [(k, i, m)]\<rparr>"
  have l: "list_all2 (win hs ?a) bs ws" "win hs ?a b (k, i, n)"
    using assms(1) by (auto simp: sim_def list_all2_append2 list_all2_Cons2)
  then have "list_all2 (win hs ?a') bs ws" by (auto simp: win_def elim!: list_all2_mono)
  moreover have "win hs ?a' (b\<lparr>b_length := m\<rparr>) (k, i, m)" using l(2) assms(2) by (simp add: win_def)
  ultimately show ?thesis using assms(1) by (auto simp: sim_def pool_ok_def list_all2_appendI split: option.split)
qed

lemma new_text_room:
  assumes "case e of Num l \<Rightarrow> l \<ge> 0 | _ \<Rightarrow> True" and ok: "codec_ok rt"
  shows "room_ok (encoding_of (encoding_name (snd (snd (write_args (Num 0) e Undef))))) string
           (write_room (byte_length rt string e) (Num 0) e Undef)"
proof -
  let ?n = "byte_length rt string e"
  let ?c = "encoding_of (encoding_name (snd (snd (write_args (Num 0) e Undef))))"
  have c: "byteLength (codecs rt c) string = 0 \<Longrightarrow> c = Base64 \<or> string = []" for c using ok unfolding codec_ok_def by fastforce
  have "?n = 0" if "write_room ?n (Num 0) e Undef = 0"
    using that assms(1) by (auto simp: write_room_def write_args_def write_start_def isFinite_def Let_def split: warg.splits if_splits)
  moreover have u: "encoding_of (S ''utf8'') = Native Utf8" "encoding_of [] = Unknown"
    by (simp_all add: encoding_of_def S_def)
  have "case ?c of Hex \<Rightarrow> ?n = length string div 2 | Native c \<Rightarrow> ?n = byteLength (codecs rt c) string | Unknown \<Rightarrow> True"
  proof (cases e)
    case (Enc t)
    then show ?thesis
      by (cases "t = []") (auto simp: u byte_length_def write_args_def isFinite_def encoding_name_def falsy_arg_def
        toLowerCase_def split: encoding.split)
  qed (auto simp: u byte_length_def write_args_def isFinite_def encoding_name_def falsy_arg_def)
  ultimately show ?thesis using c unfolding room_ok_def by (auto split: encoding.splits)
qed

lemma step_new_text:
  assumes sim: "sim hs s bs a" and safe: "buf_safe rt (map b_length bs) (New_text string e)" and ok: "codec_ok rt"
  shows "agrees (buf_step rt (New_text string e) (s, bs)) (\<lambda>ini. arrays_step rt ini (New_text string e) a)"
proof -
  let ?n = "byte_length rt string e" and ?w = "write_args (Num 0) e Undef"
  let ?room = "write_room ?n (Num 0) e Undef" and ?c = "encoding_of (encoding_name (snd (snd ?w)))"
  have l: "case e of Num l \<Rightarrow> l \<ge> 0 | _ \<Rightarrow> True" and n: "?n < 2 ^ 31" using safe by (simp_all add: buf_safe_def)
  have st: "write_start (Num 0) e Undef = 0"
    and lim: "case fst (snd ?w) of Undef \<Rightarrow> True | Num l \<Rightarrow> l \<ge> 0 | Enc e \<Rightarrow> e = []"
    using l by (simp_all add: write_start_def write_args_def isFinite_def split: warg.splits)
  obtain b s1 where b: "alloc rt ?n s = (b, s1)" by fastforce
  obtain h0 ini where sim1: "sim (hs @ [h0]) s1 (bs @ [b]) (snd (new_array (map ini [0..<?n]) ?n a))" and bl: "b_length b = ?n"
    using sim_alloc [OF sim n b] by blast
  let ?a = "snd (new_array (map ini [0..<?n]) ?n a)"
  obtain r ys where t: "written_text rt ?c string ?room = (r, ys)" by fastforce
  have "0 + ?room \<le> a_len ?a (length bs)"
    using write_room_le [of "Num 0" e Undef ?n] st by (simp add: new_array_simps [OF sim])
  from sim_text [OF sim1 _ this new_text_room [OF l ok] ok t] obtain s2
    where w: "write_in rt ?c (b_parent b) string (b_offset b + int 0) (Some (int ?room)) s1 = (r, s2)"
      and sim2: "sim (hs @ [h0]) s2 (bs @ [b]) (put (length bs) 0 ys ?a)"
      and ys: "length ys \<le> ?room" "\<forall>m. r = Inr m \<longrightarrow> m = int (length ys)" by auto
  have le: "length ys \<le> ?n" using ys(1) write_room_le [of "Num 0" e Undef ?n] st by simp
  have bw: "buf_write rt b string (Num 0) e Undef s1 = (r, s2)"
    using buf_write_in [of "Num 0" e Undef b rt string s1] st lim w bl by simp
  have sim3: "sim (hs @ [h0]) s2 (bs @ [b])
      \<lparr>a_arrays = a_arrays a @ [overwrite (map ini [0..<?n]) 0 ys], a_bufs = a_bufs a @ [(length (a_arrays a), 0, ?n)]\<rparr>"
    using sim2 unfolding new_array_simps [OF sim] by (simp add: new_array_def)
  show ?thesis
  proof (cases r)
    case (Inl err)
    have "sim hs s2 bs a" by (rule sim_forget [OF sim3 sim])
    then show ?thesis using Inl bw b t
      by (intro agreesI [where hs = hs and ini = ini])
        (simp_all add: buf_step_def made_def new_buffer_def arrays_step_def a_made_text_def Let_def)
  next
    case (Inr m)
    then have "sim (hs @ [h0]) s2 (bs @ [b\<lparr>b_length := nat m\<rparr>])
        (snd (new_array (overwrite (map ini [0..<?n]) 0 ys) (length ys) a))"
      using sim_shrink [OF sim3 le] ys(2) by (simp add: new_array_def)
    then show ?thesis using Inr bw b t ys(2)
      by (intro agreesI [where hs = "hs @ [h0]" and ini = ini])
        (simp_all add: buf_step_def made_def new_buffer_def arrays_step_def a_made_text_def new_array_def Let_def)
  qed
qed

lemma clamp_le: "clamp v n \<le> n"
  by (simp add: clamp_def) linarith

lemma step_toString:
  assumes sim: "sim hs s bs a" and safe: "buf_safe rt (map b_length bs) (ToString h e start end)"
  shows "agrees (buf_step rt (ToString h e start end) (s, bs)) (\<lambda>ini. arrays_step rt ini (ToString h e start end) a)"
proof -
  have h: "h < length bs" using safe by (simp add: buf_safe_def)
  obtain k i n where w: "a_bufs a ! h = (k, i, n)" "b_parent (bs ! h) = fst (hs ! k)"
    "b_offset (bs ! h) = int (snd (hs ! k) + i)" "b_length (bs ! h) = n" "i + n \<le> length (a_arrays a ! k)"
    "snd (hs ! k) + length (a_arrays a ! k) \<le> length (slabs s ! fst (hs ! k))"
    using sim h by (auto elim: sim_buf [of hs s bs a h])
  have len: "a_len a h = n" using w by (simp add: a_len_def)
  define x where "x = (case start of None \<Rightarrow> 0 | Some v \<Rightarrow> clamp v n)"
  define y where "y = (case end of None \<Rightarrow> n | Some v \<Rightarrow> clamp v n)"
  have le: "x \<le> n" "y \<le> n" by (auto simp: x_def y_def clamp_le split: option.split)
  let ?p = "fst (hs ! k)" and ?off = "snd (hs ! k) + i"
  have segment: "slab_bytes s ?p (?off + x) (?off + y) = segment (view a h) x y"
    using sim_part [OF sim h, of y x] le w len by (simp add: nat_int_add)
  have i: "(case start of None \<Rightarrow> 0 | Some v \<Rightarrow> if v < 0 then 0 else if v > int n then int n else v) = int x"
    by (auto simp: x_def clamp_def split: option.split)
  have j: "(case end of None \<Rightarrow> int n | Some v \<Rightarrow> if v > int n then int n else if v < 0 then 0 else v) = int y"
    by (auto simp: y_def clamp_def split: option.split)
  have "buf_toString rt (bs ! h) e start end s = bytes_text rt (encoding_of (encoding_name e)) (view a h) x y"
  proof (cases "encoding_of (encoding_name e)")
    case Hex
    then have "0 < n \<and> (case end of None \<Rightarrow> True | Some v \<Rightarrow> v > 0)" using safe h w by (simp add: buf_safe_def)
    then have "0 < y" by (auto simp: y_def clamp_def split: option.splits)
    then have "hexSlice s ?p (int (?off + x)) (int (?off + y)) = concat (map toHex (segment (view a h) x y))"
      using w le segment by (simp add: hexSlice_def Let_def del: of_nat_add)
    then show ?thesis using Hex w by (simp add: buf_toString_def i j Let_def bytes_text_def ac_simps)
  next
    case (Native c)
    have "native_slice rt c s ?p (int (?off + x)) (int (?off + y)) = bytes_text rt (Native c) (view a h) x y"
      using w le segment by (simp add: native_slice_def bytes_text_def del: of_nat_add)
    then show ?thesis using Native w by (simp add: buf_toString_def i j Let_def ac_simps)
  next
    case Unknown
    then show ?thesis by (simp add: buf_toString_def bytes_text_def unknown_encoding_def Let_def)
  qed
  then show ?thesis using sim len
    by (intro agreesI [where hs = hs])
      (auto simp: buf_step_def gave_def arrays_step_def Let_def x_def [symmetric] y_def [symmetric] split: sum.split)
qed

section \<open>Concatenation\<close>

lemma overwrite_append:
  "i + length (ys @ zs) \<le> length xs \<Longrightarrow> overwrite (overwrite xs i ys) (i + length ys) zs = overwrite xs i (ys @ zs)"
  by (rule nth_equalityI) (auto simp: nth_overwrite nth_append)

lemma all_buffers_bufs: "all_buffers rt (map (\<lambda>h. Buf (bs ! h)) hl) s = (Inr (map ((!) bs) hl), s)"
  by (induction hl) simp_all

text \<open>Copying to the array of a new buffer, which the windows of the other buffers do not see.\<close>

lemma view_new:
  assumes "sim hs s bs a" "h < length bs"
  shows "view (snd (new_array xs n a)) h = view a h \<and> a_len (snd (new_array xs n a)) h = a_len a h"
proof -
  obtain k i m where "a_bufs a ! h = (k, i, m)" "k < length hs" using assms by (auto elim: sim_buf [of hs s bs a h])
  moreover have "length hs = length (a_arrays a)" using assms(1) by (simp add: sim_def)
  ultimately show ?thesis using a_bufs_length [OF assms(1)] assms(2) by (simp add: view_def a_len_def new_array_def nth_append)
qed

lemma sim_copy_buffers:
  assumes orig: "sim hs0 s0 bs a" and "\<forall>h \<in> set hl. h < length bs"
    and "sim hs s (bs @ [b]) (snd (new_array xs n a))" "length xs = n" "index + sum_list (map (a_len a) hl) \<le> n"
  shows "\<exists>hs' s'. copy_buffers (map ((!) bs) hl) b (int index) s = (Inr (), s') \<and>
    sim hs' s' (bs @ [b]) (snd (new_array (overwrite xs index (concat (map (view a) hl))) n a))"
  using assms(2-)
proof (induction hl arbitrary: index hs s xs)
  case (Cons h hl)
  let ?t = "length bs" and ?a = "snd (new_array xs n a)"
  have h: "h < length bs" "h < length (bs @ [b])" "?t < length (bs @ [b])" using Cons.prems by simp_all
  have v: "view ?a h = view a h" "a_len ?a h = a_len a h" using view_new [OF orig h(1)] by simp_all
  have t: "a_len ?a ?t = n" by (simp add: new_array_simps [OF orig])
  have lv: "length (view a h) = a_len a h" using length_view [OF orig h(1)] .
  have bl: "b_length (bs ! h) = a_len a h" using sim_length [OF orig h(1)] .
  have fit: "index + a_len a h + sum_list (map (a_len a) hl) \<le> n" using Cons.prems by simp
  let ?xs = "overwrite xs index (view a h)"
  have put: "put ?t index (view a h) ?a = snd (new_array ?xs n a)"
    using a_bufs_length [OF orig] by (simp add: put_def new_array_def nth_append)
  have spec: "arrays_step rt ini (Copy h ?t (Some (int index)) (Some 0) (Some (int (a_len a h)))) ?a =
      (Done (int (a_len a h)), snd (new_array ?xs n a))" for rt ini
  proof (cases "a_len a h = 0")
    case True
    then show ?thesis using lv by (simp add: arrays_step_def a_copy_def or_else_def v Let_def)
  next
    case False
    then have "min (int (a_len a h)) (int n - int index) = int (a_len a h)" "index < n" using fit by auto
    then show ?thesis using False put lv
      by (auto simp: arrays_step_def a_copy_def or_else_def v t Let_def segment_def)
  qed
  obtain r s1 where r: "buffer_copy (bs ! h) b (Some (int index)) (Some 0) (Some (int (a_len a h))) s = (r, s1)" by fastforce
  from step_copy [OF Cons.prems(2) h(2,3), of undefined "Some (int index)" "Some 0" "Some (int (a_len a h))"] obtain hs1
    where "r \<noteq> Inl e" and sim1: "sim hs1 s1 (bs @ [b]) (snd (new_array ?xs n a))" for e
    using h(1) r spec unfolding agrees_def
    by (cases r) (auto simp: buf_step_def gave_def nth_append Let_def)
  then obtain m where m: "r = Inr m" by (cases r) auto
  have "length ?xs = n" using Cons.prems(3) fit lv by simp
  from Cons.IH [OF _ sim1 this, of "index + a_len a h"] Cons.prems(1) fit obtain hs' s'
    where c: "copy_buffers (map ((!) bs) hl) b (int (index + a_len a h)) s1 = (Inr (), s')"
      and sim2: "sim hs' s' (bs @ [b]) (snd (new_array (overwrite ?xs (index + a_len a h) (concat (map (view a) hl))) n a))" by auto
  have lc: "length (concat (map (view a) hl)) = sum_list (map (a_len a) hl)"
    using Cons.prems(1) by (simp add: length_concat comp_def length_view [OF orig] cong: map_cong)
  have "overwrite ?xs (index + a_len a h) (concat (map (view a) hl)) = overwrite xs index (view a h @ concat (map (view a) hl))"
    using overwrite_append [of index "view a h" "concat (map (view a) hl)" xs] Cons.prems(3) fit lv lc by simp
  then show ?case using c sim2 r m bl by auto
qed auto

lemma step_concat:
  assumes sim: "sim hs s bs a" and safe: "buf_safe rt (map b_length bs) (Concat hl)"
  shows "agrees (buf_step rt (Concat hl) (s, bs)) (\<lambda>ini. arrays_step rt ini (Concat hl) a)"
proof -
  have h: "\<forall>h \<in> set hl. h < length bs" using safe by (simp add: buf_safe_def)
  have e: "map ((!) (map b_length bs)) hl = map (a_len a) hl" "map b_length (map ((!) bs) hl) = map (a_len a) hl"
    using h by (simp_all add: sim_length [OF sim] cong: map_cong)
  have n: "sum_list (map (a_len a) hl) < 2 ^ 31" using safe unfolding buf_safe_def by (simp only: Let_def e buf_op.case)
  then have c: "coerce (Some (int (sum_list (map b_length (map ((!) bs) hl))))) = sum_list (map (a_len a) hl)"
    unfolding e by (rule coerce_small)
  let ?n = "sum_list (map (a_len a) hl)" and ?ys = "concat (map (view a) hl)"
  obtain b s1 where b: "alloc rt ?n s = (b, s1)" by fastforce
  obtain h0 ini where sim1: "sim (hs @ [h0]) s1 (bs @ [b]) (snd (new_array (map ini [0..<?n]) ?n a))" and bl: "b_length b = ?n"
    using sim_alloc [OF sim n b] by blast
  obtain hs' s2 where s2: "copy_buffers (map ((!) bs) hl) b 0 s1 = (Inr (), s2)"
      "sim hs' s2 (bs @ [b]) (snd (new_array (overwrite (map ini [0..<?n]) 0 ?ys) ?n a))"
    using sim_copy_buffers [OF sim h sim1, of 0] by auto
  have "length ?ys = ?n" using h by (simp add: length_concat comp_def length_view [OF sim] cong: map_cong)
  then have "sim hs' s2 (bs @ [b]) (snd (new_array ?ys ?n a))" using s2(2) by (simp add: overwrite_all)
  then show ?thesis using s2(1) b c bl
    by (intro agreesI [where hs = hs'])
      (simp_all add: buf_step_def made_def buf_concat_def all_buffers_bufs arrays_step_def new_array_def Let_def)
qed

section \<open>Runs\<close>

theorem step_agrees:
  assumes "sim hs s bs a" "buf_safe rt (map b_length bs) x" "codec_ok rt"
  shows "agrees (buf_step rt x (s, bs)) (\<lambda>ini. arrays_step rt ini x a)"
  using assms
  by (cases x)
    (simp_all add: step_new_count step_new_array step_new_copy step_new_text step_slice step_get step_set step_fill
      step_copy step_write step_toString step_concat buf_safe_def [of _ _ "New_copy _"] buf_safe_def [of _ _ "Slice _ _ _"]
      buf_safe_def [of _ _ "Get _ _"] buf_safe_def [of _ _ "Set _ _ _"] buf_safe_def [of _ _ "Fill _ _ _ _"]
      buf_safe_def [of _ _ "Copy _ _ _ _ _"])

lemma run_agrees:
  "sim hs s bs a \<Longrightarrow> safe_run rt xs (s, bs) \<Longrightarrow> codec_ok rt \<Longrightarrow>
   \<exists>inis hs'. fst (buf_run rt xs (s, bs)) = fst (arrays_run rt inis xs a) \<and>
     sim hs' (fst (snd (buf_run rt xs (s, bs)))) (snd (snd (buf_run rt xs (s, bs)))) (snd (arrays_run rt inis xs a))"
proof (induction xs arbitrary: hs s bs a)
  case (Cons x xs)
  obtain out s1 bs1 where x: "buf_step rt x (s, bs) = (out, s1, bs1)" by (cases "buf_step rt x (s, bs)") auto
  have "agrees (out, s1, bs1) (\<lambda>ini. arrays_step rt ini x a)"
    using step_agrees [OF Cons.prems(1), of rt x] Cons.prems(2,3) x by simp
  then obtain ini hs1 a1 where a: "arrays_step rt ini x a = (out, a1)" and sim1: "sim hs1 s1 bs1 a1"
    unfolding agrees_def by (metis fst_conv snd_conv prod.collapse)
  from Cons.IH [OF sim1] Cons.prems(2,3) x obtain inis hs'
    where "fst (buf_run rt xs (s1, bs1)) = fst (arrays_run rt inis xs a1)"
      "sim hs' (fst (snd (buf_run rt xs (s1, bs1)))) (snd (snd (buf_run rt xs (s1, bs1)))) (snd (arrays_run rt inis xs a1))" by auto
  then show ?case using a x by (intro exI [of _ "ini # inis"] exI [of _ hs']) (simp add: split_beta)
qed (auto intro: exI [of _ "[]"])

text \<open>
  C37: However buffers are made from the pool, sliced, read, filled, copied, written with texts and concatenated,
  every operation gives what it gives when each buffer that is made has an array of its own and a slice is a window
  of the array of its buffer; and in the end every buffer shows the bytes of its window.  So what is written
  through one buffer is seen through its slices and through nothing else.
\<close>

theorem buffers_are_windows:
  assumes "codec_ok rt" and "safe_run rt xs (blocks_init, [])" and "buf_run rt xs (blocks_init, []) = (outs, s, bs)"
  shows "\<exists>inis a. arrays_run rt inis xs a_init = (outs, a) \<and>
    (\<forall>h < length bs. window s (bs ! h) = map (\<lambda>b. Some (int b)) (view a h))"
proof -
  have "sim [] blocks_init [] a_init" by (simp add: sim_def blocks_init_def a_init_def pool_ok_def)
  from run_agrees [OF this assms(2,1)] obtain inis hs
    where "outs = fst (arrays_run rt inis xs a_init)" and sim: "sim hs s bs (snd (arrays_run rt inis xs a_init))"
    using assms(3) by auto
  then show ?thesis using sim_window [OF sim]
    by (intro exI [of _ inis] exI [of _ "snd (arrays_run rt inis xs a_init)"]) simp
qed

definition plain :: runtime where
  "plain = \<lparr>codecs = \<lambda>_. \<lparr>byteLength = length, encode = \<lambda>string n. take n string, decode = id\<rparr>, fresh = \<lambda>_ _. 0\<rparr>"

lemma plain_ok: "codec_ok plain"
  by (simp add: codec_ok_def plain_def)

lemma plain_small: "\<not> poolSize < 3" "\<not> poolSize < Suc (Suc (Suc 0))"
  by (simp_all add: poolSize_def)

theorem buffers_are_windows_witness:
  "\<exists>inis a. arrays_run plain inis [New_array [Some 1, Some 2, Some 3], Slice 0 1 None, Set 1 0 (Some 9)] a_init =
     (fst (buf_run plain [New_array [Some 1, Some 2, Some 3], Slice 0 1 None, Set 1 0 (Some 9)] (blocks_init, [])), a)"
proof -
  let ?xs = "[New_array [Some 1, Some 2, Some 3], Slice 0 1 None, Set 1 0 (Some 9)]"
  have c: "coerce (Some 3) = 3" "coerce (Some 2) = 2" by (simp_all add: coerce_def to_int32_small)
  obtain b s1 where b: "alloc plain 3 blocks_init = (b, s1)" by fastforce
  then have "b_length b = 3" by (auto simp: alloc_def plain_small split: prod.splits)
  then have "safe_run plain ?xs (blocks_init, [])"
    by (simp add: buf_safe_def buf_step_def made_def new_buffer_def fill_new_def c b buf_slice_def)
  moreover obtain outs s bs where r: "buf_run plain ?xs (blocks_init, []) = (outs, s, bs)" by (rule prod_cases3)
  ultimately show ?thesis using buffers_are_windows [OF plain_ok _ r] by (auto simp only: r fst_conv)
qed

end
