(* ===== verification/BufferTexts.thy ===== *)
theory BufferTexts
  imports BufferViews
begin

text \<open>
  Hexadecimal texts of buffers, and what happens in the cases that \<open>BufferViews\<close> leaves out, where an operation
  looks at the place in the block and so reaches bytes of other buffers.
\<close>

section \<open>Hexadecimal texts\<close>

lemma hex_two_digits: "d < 16 \<Longrightarrow> e < 16 \<Longrightarrow> parse_int (Some 16) [digit_char d, digit_char e] = Some (int (d * 16 + e))"
proof -
  assume d: "d < 16" "e < 16"
  have dig: "is_digit 16 (digit_char x)" if "x < 16" for x using that by (simp add: is_digit_def digit_value_char)
  have "\<not> is_digit 16 120" "\<not> is_digit 16 88" by (simp_all add: is_digit_def digit_value_def)
  then have "strip_0x ([digit_char d, digit_char e] @ []) = [digit_char d, digit_char e] @ []"
    using dig [OF d(2)] by (auto simp: strip_0x_def)
  from parse_int_digits [OF _ _ _ impI [OF this], of 16] dig d
  have "parse_int (Some 16) [digit_char d, digit_char e] = Some (int (digits_value 16 [digit_char d, digit_char e]))" by simp
  then show ?thesis using d by (simp add: digits_value_def digit_value_char)
qed

lemma toHex_digits: "b < 256 \<Longrightarrow> toHex b = [digit_char (b div 16), digit_char (b mod 16)]"
proof -
  assume b: "b < 256"
  have z: "digit_char 0 = 48" by (simp add: digit_char_def)
  have one: "digits_of 16 x = [digit_char x]" if "x < 16" for x using that by (simp add: digits_of.simps)
  show ?thesis
  proof (cases "b < 16")
    case False
    then have "digits_of 16 b = digits_of 16 (b div 16) @ [digit_char (b mod 16)]" by (subst digits_of.simps) simp
    then show ?thesis using False b one [of "b div 16"] by (simp add: toHex_def)
  qed (simp add: toHex_def one z)
qed

lemma toHex_two: "b < 256 \<Longrightarrow> length (toHex b) = 2 \<and> parse_int (Some 16) (toHex b) = Some (int b)"
  using hex_two_digits [of "b div 16" "b mod 16"] by (simp add: toHex_digits div_mult_mod_eq)

lemma hex_values_text:
  "bytes bs \<Longrightarrow> hex_values (concat (map toHex bs)) (length bs) = map (\<lambda>b. Some (int b)) bs"
proof (induction bs)
  case (Cons b bs)
  have b: "length (toHex b) = 2" "parse_int (Some 16) (toHex b) = Some (int b)" using toHex_two [of b] Cons.prems by simp_all
  have "[0..<length (b # bs)] = 0 # map Suc [0..<length bs]" by (simp add: upt_conv_Cons map_Suc_upt del: upt_Suc)
  then show ?case using Cons b by (simp add: hex_values_def comp_def del: upt_Suc)
qed (simp add: hex_values_def)

lemma length_hex_text: "bytes bs \<Longrightarrow> length (concat (map toHex bs)) = 2 * length bs"
  by (induction bs) (simp_all add: toHex_two)

text \<open>
  The hexadecimal text of a segment of a block, written anywhere where it fits, puts the bytes of the segment there.
\<close>

theorem hex_text_roundtrip:
  assumes "i < j" and "j \<le> length (slabs s ! p)" and "bytes (slabs s ! p)"
    and "q < length (slabs s)" and "k + (j - i) \<le> length (slabs s ! q)"
  shows "hexWrite q (hexSlice s p (int i) (int j)) (int k) (Some (int (j - i))) s =
    (Inr (int (j - i)), s\<lparr>slabs := (slabs s)[q := overwrite (slabs s ! q) k (segment (slabs s ! p) i j)]\<rparr>)"
proof -
  let ?bs = "segment (slabs s ! p) i j" and ?t = "hexSlice s p (int i) (int j)"
  have bs: "bytes ?bs" "length ?bs = j - i"
    using assms by (auto simp: bytes_def segment_def dest: in_set_takeD in_set_dropD)
  have t: "?t = concat (map toHex ?bs)" using assms by (simp add: hexSlice_def slab_bytes_part)
  then have len: "length ?t = 2 * (j - i)" using length_hex_text [OF bs(1)] bs(2) by simp
  let ?vs = "map (\<lambda>b. Some (int b)) ?bs"
  have vs: "map (\<lambda>i. parse_int (Some 16) (take 2 (drop (i * 2) ?t))) [0..<j - i] = ?vs"
    using hex_values_text [OF bs(1)] bs(2) t by (simp add: hex_values_def)
  have good: "takeWhile (\<lambda>v. v \<noteq> None) ?vs = ?vs" by (simp add: takeWhile_eq_all_conv)
  have loop: "hex_loop (j - i) 0 q (int k) ?t s = (True, poke_all q (int k) ?vs s)"
    using hex_loop_values [of "j - i" 0 q "int k" ?t s] vs good by (simp add: Let_def del: not_None_eq)
  moreover have "poke_all q (int k) ?vs s = write_slab q k ?bs s"
    using poke_all_write [of q s k ?vs] assms bs bytes_back [OF bs(1)] by simp
  ultimately show ?thesis using assms len
    by (simp add: hexWrite_def Let_def min_def write_slab_def nat_diff_distrib)
qed

theorem hex_text_roundtrip_witness:
  "hexWrite 1 (hexSlice \<lparr>slabs = [[1, 171, 0], [7, 7, 7, 7]], pool = None, pool_used = 0\<rparr> 0 1 3) 2 (Some 2)
       \<lparr>slabs = [[1, 171, 0], [7, 7, 7, 7]], pool = None, pool_used = 0\<rparr> =
     (Inr 2, \<lparr>slabs = [[1, 171, 0], [7, 7, 171, 0]], pool = None, pool_used = 0\<rparr>)"
  using hex_text_roundtrip [of 1 3 "\<lparr>slabs = [[1, 171, 0], [7, 7, 7, 7]], pool = None, pool_used = 0\<rparr>" 0 1 2]
  by (simp add: overwrite_def segment_def numeral_2_eq_2 numeral_3_eq_3)

section \<open>The cases left out\<close>

text \<open>A slice with a negative start begins before its buffer: here the byte before it is read.\<close>

lemma negative_slice:
  assumes "0 < b_offset b" "b_length b < 2 ^ 31 - 1"
  shows "\<exists>b'. buf_slice b (- 1) None = Inr b' \<and> buf_get b' 0 s = Inr (peek s (b_parent b) (b_offset b - 1))"
  using assms by (simp add: buf_slice_def buf_get_def coerce_def to_int32_small)

lemma hex_name: "encoding_of (encoding_name (Enc (S ''hex''))) = Hex"
  by (simp add: encoding_name_def falsy_arg_def encoding_of_def toLowerCase_def lower1_def S_def)

text \<open>The text of no bytes at the start of a block is the text of the whole block.\<close>

lemma empty_hex_shows_block:
  "b_offset b = 0 \<Longrightarrow> buf_toString rt b (Enc (S ''hex'')) (Some 0) (Some 0) s = Inr (concat (map toHex (slabs s ! b_parent b)))"
  by (simp add: buf_toString_def hex_name hexSlice_def slab_bytes_def)

text \<open>A write of digits at the end of a buffer goes to the bytes behind it.\<close>

lemma hex_write_past_end:
  assumes "0 \<le> b_offset b" "b_offset b + int (b_length b) < int (length (slabs s ! b_parent b))"
  shows "buf_write rt b [102, 102] (Num (int (b_length b))) (Enc (S ''hex'')) Undef s =
    (Inr 1, poke (b_parent b) (b_offset b + int (b_length b)) (Some 255) s)"
proof -
  let ?off = "b_offset b + int (b_length b)"
  have ff: "parse_int (Some 16) [102, 102] = Some 255" using hex_two_digits [of 15 15] by (simp add: digit_char_def)
  have "min (int (length (slabs s ! b_parent b)) - ?off) 1 = 1" using assms by simp
  then have "hexWrite (b_parent b) [102, 102] ?off (Some 0) s = (Inr 1, poke (b_parent b) ?off (Some 255) s)"
    by (simp add: hexWrite_def Let_def ff)
  then show ?thesis by (simp add: buf_write_def write_args_def isFinite_def hex_name falsy_arg_def Let_def)
qed

text \<open>A negative length counts as a large one: all of the text is written that fits into the block.\<close>

lemma negative_length_write:
  assumes "string \<noteq> []" "0 \<le> b_offset b" "b_offset b < int (length (slabs s ! b_parent b))"
    "length (slabs s ! b_parent b) < 2 ^ 31"
  shows "snd (buf_write rt b string (Num 0) (Num (- 1)) Undef s) =
    poke_all (b_parent b) (b_offset b)
      (map (\<lambda>c. Some (int c)) (encode (codecs rt Utf8) string (nat (int (length (slabs s ! b_parent b)) - b_offset b)))) s"
proof -
  have "take_bit 32 (num_int32 (Some (- 1))) = 2 ^ 32 - 1" by code_simp
  then show ?thesis using assms
    by (simp add: buf_write_def write_args_def isFinite_def encoding_name_def falsy_arg_def encoding_of_def S_def
      native_write_def Let_def arg_num_def min_def del: num_int32.simps)
qed

text \<open>Digits are read with \<open>parseInt\<close>, which takes what follows a digit for the end of the number.\<close>

lemma invalid_digit_accepted: "written_text rt Hex (S ''1g'') 1 = (Inr 1, [1])"
proof -
  have "parse_int (Some 16) ([49] @ [103]) = Some (int (digits_value 16 [49]))"
    by (rule parse_int_digits) (simp_all add: is_digit_def digit_value_def strip_0x_def)
  then show ?thesis by (simp add: written_text_def S_def hex_values_def digits_value_def digit_value_def to_byte_def)
qed

end
