(* ===== verification/Punycode.thy ===== *)
theory Punycode
  imports JsString
begin

text \<open>
  International names of hosts (\<open>src/lib/punycode.js\<close>): strings as lists of code points and back, the encoding of
  such a list by basic characters, and its decoding.  The code counts in numbers below 2 to the power of 31 and throws an error
  before it would exceed them.  A digit that is read from a character that is no digit can come out negative; what
  the code does then is not modelled, and is the result \<open>None\<close>.
\<close>

section \<open>Code points\<close>

definition surrogate :: "nat \<Rightarrow> bool" where
  "surrogate v \<longleftrightarrow> v AND 0xF800 = 0xD800"

definition illegal_sequence :: "'a res" where
  "illegal_sequence = Inl (Throw (S ''UCS-2(decode): illegal sequence''))"

fun ucs2decode :: "jstring \<Rightarrow> nat list res" where
  "ucs2decode [] = Inr []"
| "ucs2decode (v # s) =
     (if surrogate v then
        (case s of
           [] \<Rightarrow> illegal_sequence
         | extra # s' \<Rightarrow>
             if v AND 0xFC00 \<noteq> 0xD800 \<or> extra AND 0xFC00 \<noteq> 0xDC00 then illegal_sequence
             else map_sum id ((#) (push_bit 10 (v AND 0x3FF) + (extra AND 0x3FF) + 0x10000)) (ucs2decode s'))
      else map_sum id ((#) v) (ucs2decode s))"

fun ucs2encode :: "nat list \<Rightarrow> jstring res" where
  "ucs2encode [] = Inr []"
| "ucs2encode (v # vs) =
     (case ucs2encode vs of
        Inl e \<Rightarrow> Inl e
      | Inr s \<Rightarrow>
          if surrogate v then Inl (Throw (S ''UCS-2(encode): illegal value''))
          else if v > 0xFFFF
          then Inr (from_char_code (Some (int ((drop_bit 10 (v - 0x10000) AND 0x3FF) OR 0xD800))) #
                    from_char_code (Some (int (0xDC00 OR ((v - 0x10000) AND 0x3FF)))) # s)
          else Inr (from_char_code (Some (int v)) # s))"

section \<open>Digits\<close>

definition maxInt :: nat where "maxInt = 2147483647"

text \<open>\<open>basicToDigit\<close>, where characters before those of a range count down from its first digit.\<close>

definition basicToDigit :: "nat \<Rightarrow> int" where
  "basicToDigit c =
     (if int c - 48 < 10 then int c - 22
      else if int c - 65 < 26 then int c - 65
      else if int c - 97 < 26 then int c - 97 else 36)"

definition digitToBasic :: "nat \<Rightarrow> nat" where
  "digitToBasic d = d + 22 + 75 * (if d < 26 then 1 else 0)"

fun adapt_loop :: "nat \<Rightarrow> nat \<Rightarrow> nat" where
  "adapt_loop k delta = (if delta > 455 then adapt_loop (k + 36) (delta div 35) else k + 36 * delta div (delta + 38))"

declare adapt_loop.simps [simp del]

definition adapt :: "nat \<Rightarrow> nat \<Rightarrow> bool \<Rightarrow> nat" where
  "adapt delta numPoints firstTime =
     (let delta = (if firstTime then delta div 700 else delta div 2) in adapt_loop 0 (delta + delta div numPoints))"

definition threshold :: "nat \<Rightarrow> nat \<Rightarrow> nat" where
  "threshold k bias = (if k \<le> bias then 1 else if k \<ge> bias + 26 then 26 else k - bias)"

definition overflow :: "'a res" where
  "overflow = Inl (Throw (S ''Overflow: input needs wider integers to process.''))"

section \<open>Decoding\<close>

text \<open>The inner loop reads a number of variable length and adds it to \<open>i\<close>.\<close>

fun take_delta :: "jstring \<Rightarrow> nat \<Rightarrow> nat \<Rightarrow> nat \<Rightarrow> nat \<Rightarrow> (nat \<times> jstring) res option" where
  "take_delta [] i w k bias = Some (Inl (Throw (S ''Invalid input'')))"
| "take_delta (c # s) i w k bias =
     (let digit = basicToDigit c in
      if digit < 0 then None
      else if digit \<ge> 36 \<or> nat digit > (maxInt - i) div w then Some overflow
      else let i' = i + nat digit * w; t = threshold k bias in
        if nat digit < t then Some (Inr (i', s))
        else if w > maxInt div (36 - t) then Some overflow
        else take_delta s i' (w * (36 - t)) (k + 36) bias)"

lemma take_delta_shorter: "take_delta s i w k bias = Some (Inr (i', s')) \<Longrightarrow> length s' < length s"
  by (induction s i w k bias rule: take_delta.induct) (fastforce simp: Let_def overflow_def split: if_splits)+

definition splice_in :: "nat \<Rightarrow> 'a \<Rightarrow> 'a list \<Rightarrow> 'a list" where
  "splice_in i x xs = take i xs @ x # drop i xs"

function dec_main :: "jstring \<Rightarrow> nat list \<Rightarrow> nat \<Rightarrow> nat \<Rightarrow> nat \<Rightarrow> nat list res option" where
  "dec_main s output i n bias =
     (if s = [] then Some (Inr output)
      else (case take_delta s i 1 36 bias of
              None \<Rightarrow> None
            | Some (Inl e) \<Rightarrow> Some (Inl e)
            | Some (Inr (i', s')) \<Rightarrow>
                (let out = length output + 1; bias' = adapt (i' - i) out (i = 0) in
                 if i' div out > maxInt - n then Some overflow
                 else dec_main s' (splice_in (i' mod out) (n + i' div out) output) (i' mod out + 1) (n + i' div out) bias')))"
  by pat_completeness auto
termination
  by (relation "measure (\<lambda>(s, _). length s)") (auto dest: take_delta_shorter)

declare dec_main.simps [simp del]

definition lastIndexOf :: "nat \<Rightarrow> jstring \<Rightarrow> nat option" where
  "lastIndexOf d s = (if d \<in> set s then Some (length s - 1 - length (takeWhile (\<lambda>c. c \<noteq> d) (rev s))) else None)"

definition puny_decode :: "jstring \<Rightarrow> jstring res option" where
  "puny_decode input =
     (let basic = (case lastIndexOf 45 input of None \<Rightarrow> 0 | Some b \<Rightarrow> b) in
      if \<exists>c \<in> set (take basic input). c \<ge> 0x80
      then Some (Inl (Throw (S ''Illegal input >= 0x80 (not a basic code point)'')))
      else case dec_main (drop (if basic > 0 then basic + 1 else 0) input) (take basic input) 0 128 72 of
             None \<Rightarrow> None
           | Some (Inl e) \<Rightarrow> Some (Inl e)
           | Some (Inr output) \<Rightarrow> Some (ucs2encode output))"

section \<open>Encoding\<close>

function emit_delta :: "nat \<Rightarrow> nat \<Rightarrow> nat \<Rightarrow> nat list" where
  "emit_delta q k bias =
     (let t = threshold k bias in
      if q < t then [q] else (t + (q - t) mod (36 - t)) # emit_delta ((q - t) div (36 - t)) (k + 36) bias)"
  by pat_completeness auto

lemma threshold_bounds: "1 \<le> threshold k bias" "threshold k bias \<le> 26"
  by (auto simp: threshold_def)

termination emit_delta
proof (relation "measure (\<lambda>(q, _). q)")
  fix q k bias t
  assume "t = threshold k bias" "\<not> q < t"
  then have "0 < q" "1 \<le> t" "t \<le> q" using threshold_bounds(1) [of k bias] by auto
  then have "(q - t) div (36 - t) < q" by (meson diff_less div_le_dividend le_less_trans less_le_trans zero_less_one)
  then show "(((q - t) div (36 - t), k + 36, bias), q, k, bias) \<in> measure (\<lambda>(q, _). q)" by simp
qed simp

declare emit_delta.simps [simp del]

text \<open>
  One pass over the code points, for those equal to \<open>n\<close>.  \<open>h1\<close> is \<open>handledCPCountPlusOne\<close>, which is not
  counted up in the pass.
\<close>

fun enc_pass :: "nat \<Rightarrow> nat \<Rightarrow> nat \<Rightarrow> nat list \<Rightarrow> nat \<Rightarrow> nat \<Rightarrow> nat \<Rightarrow> (jstring \<times> nat \<times> nat \<times> nat) res" where
  "enc_pass n basic h1 [] delta h bias = Inr ([], delta, h, bias)"
| "enc_pass n basic h1 (c # cs) delta h bias =
     (let delta' = (if c < n then delta + 1 else delta) in
      if c < n \<and> delta' > maxInt then overflow
      else if c = n then
        (case enc_pass n basic h1 cs 0 (h + 1) (adapt delta' h1 (h = basic)) of
           Inl e \<Rightarrow> Inl e
         | Inr (chars, r) \<Rightarrow> Inr (map digitToBasic (emit_delta delta' 36 bias) @ chars, r))
      else enc_pass n basic h1 cs delta' h bias)"

definition next_point :: "nat \<Rightarrow> nat list \<Rightarrow> nat" where
  "next_point n cps = foldl (\<lambda>m c. if c \<ge> n \<and> c < m then c else m) maxInt cps"

text \<open>The main loop, with fuel for its passes.\<close>

fun enc_main :: "nat \<Rightarrow> nat list \<Rightarrow> nat \<Rightarrow> nat \<Rightarrow> nat \<Rightarrow> nat \<Rightarrow> nat \<Rightarrow> jstring res option" where
  "enc_main 0 cps basic n delta h bias = (if h < length cps then None else Some (Inr []))"
| "enc_main (Suc fuel) cps basic n delta h bias =
     (if h < length cps then
        (let m = next_point n cps in
         if int m - int n > (int maxInt - int delta) div int (h + 1) then Some overflow
         else case enc_pass m basic (h + 1) cps (delta + (m - n) * (h + 1)) h bias of
                Inl e \<Rightarrow> Some (Inl e)
              | Inr (chars, delta', h', bias') \<Rightarrow>
                  map_option (map_sum id ((@) chars)) (enc_main fuel cps basic (m + 1) (delta' + 1) h' bias'))
      else Some (Inr []))"

definition puny_encode :: "jstring \<Rightarrow> jstring res option" where
  "puny_encode input =
     (case ucs2decode input of
        Inl e \<Rightarrow> Some (Inl e)
      | Inr cps \<Rightarrow>
          (let basic = filter (\<lambda>c. c < 0x80) cps
           in map_option (map_sum id (\<lambda>chars. basic @ (if basic = [] then [] else [45]) @ chars))
                (enc_main (length cps) cps (length basic) 128 0 (length basic) 72)))"

section \<open>Domains\<close>

text \<open>The domain is split at its dots, and the parts are mapped from the last to the first.\<close>

definition nonASCII :: "jstring \<Rightarrow> bool" where
  "nonASCII s \<longleftrightarrow> (\<exists>c \<in> set s. c < 32 \<or> 126 < c)"

definition xn :: jstring where "xn = [120, 110, 45, 45]"

fun map_parts :: "(jstring \<Rightarrow> jstring res option) \<Rightarrow> jstring list \<Rightarrow> jstring list res option" where
  "map_parts f [] = Some (Inr [])"
| "map_parts f (p # ps) =
     (case map_parts f ps of
        Some (Inr qs) \<Rightarrow> map_option (map_sum id (\<lambda>q. q # qs)) (f p)
      | r \<Rightarrow> r)"

definition mapDomain :: "(jstring \<Rightarrow> jstring res option) \<Rightarrow> jstring \<Rightarrow> jstring res option" where
  "mapDomain f domain = map_option (map_sum id (join [46])) (map_parts f (split_on 46 domain))"

definition toASCII :: "jstring \<Rightarrow> jstring res option" where
  "toASCII domain = mapDomain (\<lambda>s. if nonASCII s then map_option (map_sum id ((@) xn)) (puny_encode s) else Some (Inr s)) domain"

definition toUnicode :: "jstring \<Rightarrow> jstring res option" where
  "toUnicode domain = mapDomain (\<lambda>s. if take 4 s = xn then puny_decode (toLowerCase (drop 4 s)) else Some (Inr s)) domain"

section \<open>Numbers of variable length\<close>

lemma digit_back: "d < 36 \<Longrightarrow> basicToDigit (digitToBasic d) = int d"
  by (auto simp: basicToDigit_def digitToBasic_def)

lemma digitToBasic_bounds: "d < 36 \<Longrightarrow> 48 \<le> digitToBasic d \<and> digitToBasic d < 123 \<and> (digitToBasic d < 58 \<or> 97 \<le> digitToBasic d)"
  by (auto simp: digitToBasic_def)

lemma emit_digits: "d \<in> set (emit_delta q k bias) \<Longrightarrow> d < 36"
proof (induction q k bias rule: emit_delta.induct)
  case (1 q k bias)
  let ?t = "threshold k bias"
  have t: "1 \<le> ?t" "?t \<le> 26" by (rule threshold_bounds)+
  have "?t + (q - ?t) mod (36 - ?t) < 36"
    using t mod_less_divisor [of "36 - ?t" "q - ?t"] by linarith
  then show ?case using 1 t by (subst (asm) emit_delta.simps) (auto simp: Let_def split: if_splits)
qed

lemma emit_ne: "emit_delta q k bias \<noteq> []"
  by (subst emit_delta.simps) (simp add: Let_def)

text \<open>
  A number below 35 to the power of 6 is read back: as long as the threshold is 1 the weight is a power of 35, and
  the multiplication of the weight cannot exceed its bound before the number does.
\<close>

lemma weight_bound:
  assumes "q \<ge> threshold k bias" "q * w < 35 ^ 6" "k < bias + 26 \<Longrightarrow> \<exists>j. w = 35 ^ j"
  shows "w * (36 - threshold k bias) \<le> maxInt"
proof (cases "k < bias + 26")
  case True
  then obtain j where w: "w = 35 ^ j" using assms(3) by blast
  have "1 \<le> q" using assms(1) threshold_bounds(1) [of k bias] by linarith
  then have "w < 35 ^ 6" using assms(2) by (metis One_nat_def le_less_trans mult.commute mult_le_mono2 nat_mult_1_right)
  then have "35 ^ j < (35 :: nat) ^ 6" by (simp only: w)
  then have "j < 6" by (rule power_less_imp_less_exp [rotated]) simp
  then have "w * 35 \<le> 35 ^ 6" unfolding w using power_increasing [of "Suc j" 6 "35 :: nat"] by simp
  moreover have "w * (36 - threshold k bias) \<le> w * 35" using threshold_bounds(1) [of k bias] by (intro mult_left_mono) simp_all
  ultimately have "w * (36 - threshold k bias) \<le> 35 ^ 6" by (rule order_trans [rotated])
  then show ?thesis by (rule order_trans) (simp add: maxInt_def)
next
  case False
  then have t: "threshold k bias = 26" by (simp add: threshold_def)
  have "26 * w \<le> q * w" using assms(1) t by (intro mult_right_mono) simp_all
  moreover have "q * w < 1838265625" using assms(2) by simp
  ultimately have "w * 10 \<le> 2147483647" by linarith
  then show ?thesis using t by (simp add: maxInt_def)
qed

lemma take_emitted:
  assumes "q * w < 35 ^ 6" "i + q * w \<le> maxInt" "k < bias + 26 \<Longrightarrow> \<exists>j. w = 35 ^ j" "0 < w"
  shows "take_delta (map digitToBasic (emit_delta q k bias) @ rest) i w k bias = Some (Inr (i + q * w, rest))"
  using assms
proof (induction q k bias arbitrary: i w rule: emit_delta.induct)
  case (1 q k bias)
  let ?t = "threshold k bias"
  have t: "1 \<le> ?t" "?t \<le> 26" by (rule threshold_bounds)+
  show ?case
  proof (cases "q < ?t")
    case True
    then have "q \<le> (maxInt - i) div w" using "1.prems" by (simp add: less_eq_div_iff_mult_less_eq)
    then show ?thesis using True t by (subst emit_delta.simps) (simp add: digit_back Let_def)
  next
    case False
    let ?b = "36 - ?t"
    define d where "d = ?t + (q - ?t) mod ?b"
    define q' where "q' = (q - ?t) div ?b"
    have b: "0 < ?b" using t by simp
    have "(q - ?t) mod ?b + (q - ?t) div ?b * ?b = q - ?t" by (rule mod_div_mult_eq)
    then have q: "q = d + q' * ?b" unfolding d_def q'_def using False by linarith
    have d: "d < 36" "?t \<le> d" using mod_less_divisor [OF b, of "q - ?t"] t unfolding d_def by linarith+
    have qw: "q * w = d * w + q' * (w * ?b)" unfolding q by (simp add: algebra_simps)
    then have dw: "d * w \<le> maxInt - i" "d * w \<le> q * w" using "1.prems"(2) by simp_all
    then have "d \<le> (maxInt - i) div w" using "1.prems"(4) by (simp add: less_eq_div_iff_mult_less_eq)
    moreover have "w \<le> maxInt div ?b"
      using weight_bound [of k bias q w] "1.prems" False b by (simp add: less_eq_div_iff_mult_less_eq)
    moreover have "take_delta (map digitToBasic (emit_delta q' (k + 36) bias) @ rest) (i + d * w) (w * ?b) (k + 36) bias =
        Some (Inr (i + d * w + q' * (w * ?b), rest))"
    proof (unfold q'_def, rule "1.IH" [OF refl False])
      show "(q - ?t) div ?b * (w * ?b) < 35 ^ 6" "i + d * w + (q - ?t) div ?b * (w * ?b) \<le> maxInt"
        using "1.prems"(1,2) qw by (simp_all add: q'_def)
      show "0 < w * ?b" using "1.prems"(4) b by simp
      assume "k + 36 < bias + 26"
      then have "?t = 1" "k < bias + 26" by (auto simp: threshold_def)
      then obtain j where "w * ?b = 35 ^ Suc j" using "1.prems"(3) by auto
      then show "\<exists>j. w * ?b = 35 ^ j" by blast
    qed
    moreover have "emit_delta q k bias = d # emit_delta q' (k + 36) bias"
      using False by (subst emit_delta.simps) (simp add: Let_def d_def q'_def)
    ultimately show ?thesis using d qw by (simp add: digit_back Let_def)
  qed
qed

section \<open>One pass\<close>

text \<open>The list of the decoder: the points up to \<open>m\<close> of what has been passed, and those below \<open>m\<close> of what is to come.\<close>

abbreviation pts_le :: "nat \<Rightarrow> nat list \<Rightarrow> nat list" where "pts_le m \<equiv> filter (\<lambda>c. c \<le> m)"
abbreviation pts_lt :: "nat \<Rightarrow> nat list \<Rightarrow> nat list" where "pts_lt m \<equiv> filter (\<lambda>c. c < m)"

lemma dec_step:
  assumes "delta < 35 ^ 6" "i + delta \<le> maxInt" "i + delta = (m - n) * (length out + 1) + p" "p \<le> length out" "n \<le> m" "m \<le> maxInt"
  shows "dec_main (map digitToBasic (emit_delta delta 36 bias) @ rest) out i n bias =
    dec_main rest (splice_in p m out) (p + 1) m (adapt delta (length out + 1) (i = 0))"
proof -
  let ?s = "map digitToBasic (emit_delta delta 36 bias) @ rest"
  have "take_delta ?s i 1 36 bias = Some (Inr (i + delta, rest))"
    using take_emitted [of delta 1 i 36 bias rest] assms(1,2) exI [of "\<lambda>j. (1 :: nat) = 35 ^ j" 0] by simp
  moreover have "(i + delta) mod (length out + 1) = p" "(i + delta) div (length out + 1) = m - n"
    unfolding assms(3) using assms(4) by (simp_all only: mod_mult_self3 div_mult_self3) simp_all
  moreover have "\<not> m - n > maxInt - n" using assms(6) by linarith
  ultimately show ?thesis using assms(5) by (subst dec_main.simps) (simp add: emit_ne Let_def)
qed

lemma adapt_stale:
  assumes "h1 = h \<or> (delta < h1 \<and> h1 \<le> h \<and> \<not> first)"
  shows "adapt delta h1 first = adapt delta h first"
  using assms by (auto simp: adapt_def Let_def)

lemma splice_pass:
  "splice_in (length (pts_le m pre)) m (pts_le m pre @ pts_lt m (m # cs)) = pts_le m (pre @ [m]) @ pts_lt m cs"
  by (simp add: splice_in_def)

lemma enc_pass_decoded:
  assumes "\<forall>c \<in> set (pre @ cs). c \<le> 0x10FFFF" "length (pre @ cs) \<le> 1600" "m \<le> 0x10FFFF"
    and "h = length (pts_le m pre) + length (pts_lt m cs)"
    and "i + delta = (m - n) * (h + 1) + length (pts_le m pre)" "n \<le> m" "basic \<le> h" "i = 0 \<longleftrightarrow> h = basic"
    and "(h1 = h + 1 \<and> length (pts_le m pre) = length (pts_lt m pre)) \<or> (delta \<le> length (pts_lt m pre) \<and> h1 = length (pts_lt m (pre @ cs)) + 1 \<and> h1 \<le> h \<and> h \<noteq> basic)"
  shows "\<exists>chars delta' h' bias' i' n'. enc_pass m basic h1 cs delta h bias = Inr (chars, delta', h', bias') \<and>
    (\<forall>rest. dec_main (chars @ rest) (pts_le m pre @ pts_lt m cs) i n bias = dec_main rest (pts_le m (pre @ cs)) i' n' bias') \<and>
    h' = length (pts_le m (pre @ cs)) \<and> i' + delta' = (m - n') * (h' + 1) + h' \<and> n' \<le> m \<and> (i' = 0 \<longleftrightarrow> h' = basic) \<and>
    basic \<le> h' \<and> (\<forall>c \<in> set chars. 48 \<le> c \<and> c < 123 \<and> (c < 58 \<or> 97 \<le> c))"
  using assms
proof (induction cs arbitrary: pre delta h bias i n)
  case (Cons c cs)
  let ?p = "length (pts_le m pre)"
  have "?p \<le> length pre" "length (pts_lt m (c # cs)) \<le> length (c # cs)" by (rule length_filter_le)+
  then have "h + 1 \<le> 1601" "?p \<le> 1600" using Cons.prems(2,4) unfolding length_append by linarith+
  moreover have "(m - n) * (h + 1) \<le> 0x10FFFF * 1601" using calculation Cons.prems(3) by (intro mult_mono) simp_all
  ultimately have d: "i + delta + 1 < 35 ^ 6" using Cons.prems(5) by simp
  then have mx: "i + delta + 1 \<le> maxInt" by (simp add: maxInt_def)
  have pre: "\<forall>c \<in> set ((pre @ [c]) @ cs). c \<le> 0x10FFFF" "length ((pre @ [c]) @ cs) \<le> 1600" using Cons.prems(1,2) by simp_all
  consider "c < m" | "c = m" | "c > m" by linarith
  then show ?case
  proof cases
    case 1
    have eq: "enc_pass m basic h1 (c # cs) delta h bias = enc_pass m basic h1 cs (delta + 1) h bias"
      "pts_le m pre @ pts_lt m (c # cs) = pts_le m (pre @ [c]) @ pts_lt m cs" "pre @ c # cs = (pre @ [c]) @ cs"
      using 1 mx by (simp_all add: Let_def)
    show ?thesis unfolding eq
    proof (rule Cons.IH [OF pre Cons.prems(3)])
      show "h = length (pts_le m (pre @ [c])) + length (pts_lt m cs)" using Cons.prems(4) 1 by simp
      show "i + (delta + 1) = (m - n) * (h + 1) + length (pts_le m (pre @ [c]))" using Cons.prems(5) 1 by simp
      show "n \<le> m" "basic \<le> h" "i = 0 \<longleftrightarrow> h = basic" by fact+
      show "(h1 = h + 1 \<and> length (pts_le m (pre @ [c])) = length (pts_lt m (pre @ [c]))) \<or>
          ((delta + 1) \<le> length (pts_lt m (pre @ [c])) \<and> h1 = length (pts_lt m ((pre @ [c]) @ cs)) + 1 \<and> h1 \<le> h \<and> h \<noteq> basic)"
        using Cons.prems(9) 1 by (elim disjE) simp_all
    qed
  next
    case 3
    have eq: "enc_pass m basic h1 (c # cs) delta h bias = enc_pass m basic h1 cs delta h bias"
      "pts_le m pre @ pts_lt m (c # cs) = pts_le m (pre @ [c]) @ pts_lt m cs" "pre @ c # cs = (pre @ [c]) @ cs"
      using 3 by (simp_all add: Let_def)
    show ?thesis unfolding eq
    proof (rule Cons.IH [OF pre Cons.prems(3)])
      show "h = length (pts_le m (pre @ [c])) + length (pts_lt m cs)" using Cons.prems(4) 3 by simp
      show "i + delta = (m - n) * (h + 1) + length (pts_le m (pre @ [c]))" using Cons.prems(5) 3 by simp
      show "n \<le> m" "basic \<le> h" "i = 0 \<longleftrightarrow> h = basic" by fact+
      show "(h1 = h + 1 \<and> length (pts_le m (pre @ [c])) = length (pts_lt m (pre @ [c]))) \<or>
          (delta \<le> length (pts_lt m (pre @ [c])) \<and> h1 = length (pts_lt m ((pre @ [c]) @ cs)) + 1 \<and> h1 \<le> h \<and> h \<noteq> basic)"
        using Cons.prems(9) 3 by (elim disjE) simp_all
    qed
  next
    case 2
    let ?bias = "adapt delta h1 (h = basic)"
    have out: "length (pts_le m pre @ pts_lt m (c # cs)) = h" using Cons.prems(4) 2 by simp
    have stale: "?bias = adapt delta (h + 1) (i = 0)"
    proof -
      have "length (pts_lt m pre) \<le> length (pts_lt m (pre @ c # cs))" by simp
      then have "h1 = h + 1 \<or> (delta < h1 \<and> h1 \<le> h + 1 \<and> \<not> h = basic)" using Cons.prems(9) by (elim disjE) simp_all
      from adapt_stale [OF this] show ?thesis unfolding Cons.prems(8) .
    qed
    have dec: "dec_main (map digitToBasic (emit_delta delta 36 bias) @ rest) (pts_le m pre @ pts_lt m (c # cs)) i n bias =
        dec_main rest (pts_le m (pre @ [m]) @ pts_lt m cs) (?p + 1) m ?bias" for rest
    proof -
      have "dec_main (map digitToBasic (emit_delta delta 36 bias) @ rest) (pts_le m pre @ pts_lt m (c # cs)) i n bias =
          dec_main rest (splice_in ?p m (pts_le m pre @ pts_lt m (c # cs))) (?p + 1) m (adapt delta (h + 1) (i = 0))"
      proof (rule dec_step [where out = "pts_le m pre @ pts_lt m (c # cs)" and p = ?p, unfolded out])
        show "delta < 35 ^ 6" "i + delta \<le> maxInt" using d mx by simp_all
        show "m \<le> maxInt" using Cons.prems(3) by (simp add: maxInt_def)
        show "?p \<le> h" using Cons.prems(4) by simp
      qed (fact Cons.prems(5) Cons.prems(6))+
      then show ?thesis using splice_pass [of m pre cs] 2 stale by simp
    qed
    have "\<exists>chars delta' h' bias' i' n'. enc_pass m basic h1 cs 0 (h + 1) ?bias = Inr (chars, delta', h', bias') \<and>
        (\<forall>rest. dec_main (chars @ rest) (pts_le m (pre @ [c]) @ pts_lt m cs) (?p + 1) m ?bias =
          dec_main rest (pts_le m ((pre @ [c]) @ cs)) i' n' bias') \<and>
        h' = length (pts_le m ((pre @ [c]) @ cs)) \<and> i' + delta' = (m - n') * (h' + 1) + h' \<and> n' \<le> m \<and> (i' = 0 \<longleftrightarrow> h' = basic) \<and>
        basic \<le> h' \<and> (\<forall>c \<in> set chars. 48 \<le> c \<and> c < 123 \<and> (c < 58 \<or> 97 \<le> c))"
    proof (rule Cons.IH [OF pre Cons.prems(3)])
      show "(h1 = h + 1 + 1 \<and> length (pts_le m (pre @ [c])) = length (pts_lt m (pre @ [c]))) \<or>
          (0 \<le> length (pts_lt m (pre @ [c])) \<and> h1 = length (pts_lt m ((pre @ [c]) @ cs)) + 1 \<and> h1 \<le> h + 1 \<and> h + 1 \<noteq> basic)"
        using Cons.prems(4,7,9) 2 by auto
      show "h + 1 = length (pts_le m (pre @ [c])) + length (pts_lt m cs)" using Cons.prems(4) 2 by simp
      show "?p + 1 + 0 = (m - m) * (h + 1 + 1) + length (pts_le m (pre @ [c]))" using 2 by simp
      show "m \<le> m" "basic \<le> h + 1" "?p + 1 = 0 \<longleftrightarrow> h + 1 = basic" using Cons.prems(7) by simp_all
    qed
    then obtain chars delta' h' bias' i' n' where IH: "enc_pass m basic h1 cs 0 (h + 1) ?bias = Inr (chars, delta', h', bias')"
        "\<And>rest. dec_main (chars @ rest) (pts_le m (pre @ [c]) @ pts_lt m cs) (?p + 1) m ?bias =
          dec_main rest (pts_le m ((pre @ [c]) @ cs)) i' n' bias'"
        "h' = length (pts_le m ((pre @ [c]) @ cs))" "i' + delta' = (m - n') * (h' + 1) + h'" "n' \<le> m" "i' = 0 \<longleftrightarrow> h' = basic"
        "basic \<le> h'" "\<forall>c \<in> set chars. 48 \<le> c \<and> c < 123 \<and> (c < 58 \<or> 97 \<le> c)" by blast
    have digits: "\<forall>c \<in> set (map digitToBasic (emit_delta delta 36 bias)). 48 \<le> c \<and> c < 123 \<and> (c < 58 \<or> 97 \<le> c)"
      using emit_digits digitToBasic_bounds by fastforce
    let ?em = "map digitToBasic (emit_delta delta 36 bias)"
    have app: "pre @ c # cs = (pre @ [c]) @ cs" by simp
    show ?thesis
    proof (intro exI conjI allI)
      show "enc_pass m basic h1 (c # cs) delta h bias = Inr (?em @ chars, delta', h', bias')" using IH(1) 2 by (simp add: Let_def)
      fix rest
      show "dec_main ((?em @ chars) @ rest) (pts_le m pre @ pts_lt m (c # cs)) i n bias =
          dec_main rest (pts_le m (pre @ c # cs)) i' n' bias'"
        unfolding app append_assoc [of ?em] dec using IH(2) [of rest] 2 by simp
      show "h' = length (pts_le m (pre @ c # cs))" unfolding app by (rule IH(3))
      show "i' + delta' = (m - n') * (h' + 1) + h'" by (rule IH(4))
      show "\<forall>c \<in> set (?em @ chars). 48 \<le> c \<and> c < 123 \<and> (c < 58 \<or> 97 \<le> c)" using digits IH(8) unfolding set_append by blast
    qed (rule IH)+
  qed
next
  case Nil
  then show ?case by (intro exI conjI allI) auto
qed

section \<open>All passes\<close>

lemma next_point_fold:
  "foldl (\<lambda>m c. if c \<ge> n \<and> c < m then c else m) m0 cps = r \<Longrightarrow>
   r \<le> m0 \<and> (r = m0 \<or> (r \<in> set cps \<and> n \<le> r)) \<and> (\<forall>c \<in> set cps. n \<le> c \<longrightarrow> r \<le> c)" for n m0 r :: nat
proof (induction cps arbitrary: m0)
  case (Cons c cps)
  show ?case
  proof (cases "n \<le> c \<and> c < m0")
    case True
    then have "foldl (\<lambda>m c. if c \<ge> n \<and> c < m then c else m) c cps = r" using Cons.prems by simp
    from Cons.IH [OF this] True show ?thesis by auto
  next
    case False
    then have "foldl (\<lambda>m c. if c \<ge> n \<and> c < m then c else m) m0 cps = r" using Cons.prems by auto
    from Cons.IH [OF this] False show ?thesis by auto
  qed
qed auto

lemma next_point_least:
  assumes "\<forall>c \<in> set cps. c < maxInt" "\<exists>c \<in> set cps. n \<le> c"
  shows "next_point n cps \<in> set cps" "n \<le> next_point n cps" "\<forall>c \<in> set cps. n \<le> c \<longrightarrow> next_point n cps \<le> c"
proof -
  note r = next_point_fold [OF next_point_def [of n cps, symmetric]]
  obtain c where c: "c \<in> set cps" "n \<le> c" using assms(2) by blast
  then have "next_point n cps \<le> c" "c < maxInt" using r assms(1) by blast+
  then have "next_point n cps \<noteq> maxInt" by linarith
  then show "next_point n cps \<in> set cps" "n \<le> next_point n cps" "\<forall>c \<in> set cps. n \<le> c \<longrightarrow> next_point n cps \<le> c"
    using r by blast+
qed

lemma enc_main_decoded:
  assumes "\<forall>c \<in> set cps. c \<le> 0x10FFFF" "length cps \<le> 1600"
    and "h = length (pts_lt N cps)" "i + delta = (N - n) * (h + 1)" "n \<le> N" "basic \<le> h" "i = 0 \<longleftrightarrow> h = basic"
    and "length cps \<le> h + fuel"
  shows "\<exists>chars. enc_main fuel cps basic N delta h bias = Some (Inr chars) \<and>
    dec_main chars (pts_lt N cps) i n bias = Some (Inr cps) \<and> (\<forall>c \<in> set chars. 48 \<le> c \<and> c < 123 \<and> (c < 58 \<or> 97 \<le> c))"
  using assms(3-)
proof (induction fuel arbitrary: N delta h i n bias)
  case 0
  then have "pts_lt N cps = cps" using length_filter_le [of "\<lambda>c. c < N" cps]
    by (metis (no_types, lifting) add_0_right filter_True le_antisym length_filter_less not_less)
  then show ?case using 0 by (simp add: dec_main.simps [of "[]"])
next
  case (Suc fuel)
  show ?case
  proof (cases "h < length cps")
    case False
    then have "pts_lt N cps = cps" using Suc.prems(1) length_filter_less [of _ cps "\<lambda>c. c < N"] by (metis filter_True)
    then show ?thesis using False by (simp add: dec_main.simps [of "[]"])
  next
    case True
    let ?m = "next_point N cps"
    have "\<exists>c \<in> set cps. N \<le> c" using True Suc.prems(1) by (metis filter_True not_le order.irrefl)
    note m = next_point_least [OF _ this]
    have "\<forall>c \<in> set cps. c < maxInt" using assms(1) by (auto simp: maxInt_def)
    note m = m [OF this]
    have mle: "?m \<le> 0x10FFFF" using m(1) assms(1) by blast
    have lt: "pts_lt ?m cps = pts_lt N cps" using m(2,3) by (intro filter_cong) auto
    have split: "(?m - n) * (h + 1) = (?m - N) * (h + 1) + (N - n) * (h + 1)"
      using m(2) Suc.prems(3) by (simp flip: add_mult_distrib)
    have "(?m - n) * (h + 1) \<le> 0x10FFFF * 1601" using mle True assms(2) by (intro mult_mono) simp_all
    then have "(?m - N) * (h + 1) \<le> maxInt - delta" unfolding maxInt_def using split Suc.prems(2) by linarith
    moreover have "(?m - N) * (h + 1) + delta \<le> 1783691711" "delta \<le> (N - n) * (h + 1)"
      using split Suc.prems(2) \<open>(?m - n) * (h + 1) \<le> 0x10FFFF * 1601\<close> by linarith+
    ultimately have "?m - N \<le> (maxInt - delta) div (h + 1)" "delta \<le> maxInt"
      by (simp_all add: less_eq_div_iff_mult_less_eq maxInt_def)
    then have fits: "\<not> int ?m - int N > (int maxInt - int delta) div int (h + 1)"
      using m(2) by (simp flip: of_nat_diff of_nat_Suc add: zdiv_int [symmetric] not_less)
    have "\<exists>chars delta' h' bias' i' n'.
        enc_pass ?m basic (h + 1) cps (delta + (?m - N) * (h + 1)) h bias = Inr (chars, delta', h', bias') \<and>
        (\<forall>rest. dec_main (chars @ rest) (pts_le ?m [] @ pts_lt ?m cps) i n bias = dec_main rest (pts_le ?m ([] @ cps)) i' n' bias') \<and>
        h' = length (pts_le ?m ([] @ cps)) \<and> i' + delta' = (?m - n') * (h' + 1) + h' \<and> n' \<le> ?m \<and> (i' = 0 \<longleftrightarrow> h' = basic) \<and>
        basic \<le> h' \<and> (\<forall>c \<in> set chars. 48 \<le> c \<and> c < 123 \<and> (c < 58 \<or> 97 \<le> c))"
    proof (rule enc_pass_decoded)
      show "h = length (pts_le ?m []) + length (pts_lt ?m cps)" using Suc.prems(1) lt by simp
      show "i + (delta + (?m - N) * (h + 1)) = (?m - n) * (h + 1) + length (pts_le ?m [])"
        using split Suc.prems(2) by simp
      show "n \<le> ?m" using m(2) Suc.prems(3) by simp
    qed (use assms(1,2) mle Suc.prems(4,5) in simp_all)
    then obtain chars delta' h' bias' i' n' where
        e: "enc_pass ?m basic (h + 1) cps (delta + (?m - N) * (h + 1)) h bias = Inr (chars, delta', h', bias')"
      and d: "\<And>rest. dec_main (chars @ rest) (pts_lt N cps) i n bias = dec_main rest (pts_lt (?m + 1) cps) i' n' bias'"
      and h': "h' = length (pts_lt (?m + 1) cps)" "i' + delta' = (?m - n') * (h' + 1) + h'" "n' \<le> ?m"
        "i' = 0 \<longleftrightarrow> h' = basic" "basic \<le> h'" "\<forall>c \<in> set chars. 48 \<le> c \<and> c < 123 \<and> (c < 58 \<or> 97 \<le> c)"
      using lt by (auto simp: less_Suc_eq_le)
    have more: "h < h'"
    proof -
      have "pts_lt N cps = pts_lt ?m (pts_lt (?m + 1) cps)" unfolding lt [symmetric] by (simp add: conj_commute cong: conj_cong)
      moreover have "?m \<in> set (pts_lt (?m + 1) cps)" using m(1) by simp
      ultimately show ?thesis using Suc.prems(1) h'(1) length_filter_less [of ?m "pts_lt (?m + 1) cps" "\<lambda>c. c < ?m"] by simp
    qed
    obtain chars' where IH: "enc_main fuel cps basic (?m + 1) (delta' + 1) h' bias' = Some (Inr chars')"
      "dec_main chars' (pts_lt (?m + 1) cps) i' n' bias' = Some (Inr cps)"
      "\<forall>c \<in> set chars'. 48 \<le> c \<and> c < 123 \<and> (c < 58 \<or> 97 \<le> c)"
    proof -
      have "i' + (delta' + 1) = (?m + 1 - n') * (h' + 1)" using h'(2,3) by (simp add: Suc_diff_le)
      moreover have "length cps \<le> h' + fuel" using Suc.prems(6) more by linarith
      ultimately show thesis using Suc.IH [of h' "?m + 1" i' "delta' + 1" n' bias'] h' that by auto
    qed
    have "enc_main (Suc fuel) cps basic N delta h bias = Some (Inr (chars @ chars'))"
      using True fits e IH(1) by (simp add: Let_def not_less)
    then show ?thesis using d [of chars'] IH h'(6) by auto
  qed
qed

section \<open>Surrogates\<close>

lemma and_block: "v AND push_bit k (mask m) = push_bit k (take_bit m (drop_bit k v))" for v :: nat
  by (rule bit_eqI) (auto simp: bit_simps)

lemma and_masks:
  "v AND 0x3FF = v mod 1024" "v AND 0xFC00 = 1024 * (v div 1024 mod 64)" "v AND 0xF800 = 2048 * (v div 2048 mod 32)" for v :: nat
proof -
  show "v AND 0x3FF = v mod 1024"
    using take_bit_eq_mask [of 10 v] by (simp add: mask_eq_exp_minus_1 take_bit_eq_mod)
  show "v AND 0xFC00 = 1024 * (v div 1024 mod 64)"
    using and_block [of v 10 6] by (simp add: mask_eq_exp_minus_1 push_bit_eq_mult take_bit_eq_mod drop_bit_eq_div mult.commute)
  show "v AND 0xF800 = 2048 * (v div 2048 mod 32)"
    using and_block [of v 11 5] by (simp add: mask_eq_exp_minus_1 push_bit_eq_mult take_bit_eq_mod drop_bit_eq_div mult.commute)
qed

lemma or_block: "x < 2 ^ k \<Longrightarrow> x OR push_bit k y = x + push_bit k y" for x y :: nat
proof -
  assume "x < 2 ^ k"
  then have "take_bit k x = x" by (simp add: take_bit_nat_eq_self)
  then have low: "\<not> (k \<le> n \<and> bit x n)" for n by (metis bit_take_bit_iff not_le)
  have "x AND push_bit k y = 0"
    by (rule bit_eqI) (use low in \<open>auto simp: bit_and_iff bit_push_bit_iff\<close>)
  then show ?thesis by (simp add: disjunctive_add_eq_or)
qed

lemma surrogate_div: "surrogate v \<longleftrightarrow> v div 2048 mod 32 = 27"
  by (simp add: surrogate_def and_masks)

lemma ucs2_back:
  assumes "ucs2decode s = Inr cps" "\<forall>c \<in> set s. c < 65536" "\<forall>c \<in> set cps. \<not> surrogate c"
  shows "ucs2encode cps = Inr s \<and> (\<forall>c \<in> set cps. c \<le> 0x10FFFF) \<and> (\<forall>c \<in> set cps. c < 128 \<longrightarrow> c \<in> set s)"
  using assms
proof (induction s arbitrary: cps rule: ucs2decode.induct)
  case (2 v s)
  show ?case
  proof (cases "surrogate v")
    case False
    with "2.prems"(1) obtain vs where vs: "ucs2decode s = Inr vs" "cps = v # vs"
      by (auto simp: map_sum_def split: sum.splits)
    have "ucs2encode vs = Inr s \<and> (\<forall>c \<in> set vs. c \<le> 0x10FFFF) \<and> (\<forall>c \<in> set vs. c < 128 \<longrightarrow> c \<in> set s)"
      using "2.IH"(2) [OF False vs(1)] "2.prems" vs by simp
    then show ?thesis using vs False "2.prems"(2) by (simp add: from_char_code_def)
  next
    case True
    then obtain e s' where s: "s = e # s'" using "2.prems"(1) by (cases s) (auto simp: illegal_sequence_def)
    have ok: "v AND 0xFC00 = 0xD800" "e AND 0xFC00 = 0xDC00"
      using True "2.prems"(1) s by (auto simp: illegal_sequence_def split: if_splits)
    let ?p = "push_bit 10 (v AND 0x3FF) + (e AND 0x3FF) + 0x10000"
    from True "2.prems"(1) s ok obtain vs where vs: "ucs2decode s' = Inr vs" "cps = ?p # vs"
      by (auto simp: map_sum_def split: sum.splits)
    have IH: "ucs2encode vs = Inr s' \<and> (\<forall>c \<in> set vs. c \<le> 0x10FFFF) \<and> (\<forall>c \<in> set vs. c < 128 \<longrightarrow> c \<in> set s')"
      using "2.IH"(1) [OF True s _ vs(1)] ok "2.prems" vs s by simp
    have lt: "v < 65536" "e < 65536" using "2.prems"(2) s by simp_all
    then have "v div 1024 = 54" "e div 1024 = 55" using ok by (simp_all add: and_masks)
    then have ve: "v = v mod 1024 + 54 * 1024" "e = e mod 1024 + 55 * 1024"
      using mod_div_mult_eq [of v 1024] mod_div_mult_eq [of e 1024] by simp_all
    let ?a = "v mod 1024" and ?b = "e mod 1024"
    have p: "?p = ?a * 1024 + ?b + 0x10000" by (simp add: and_masks push_bit_eq_mult)
    have ab: "?a < 1024" "?b < 1024" by simp_all
    have d: "(?a * 1024 + ?b) div 1024 = ?a" "(?a * 1024 + ?b) mod 1024 = ?b" using ab by simp_all
    have "(drop_bit 10 (?p - 0x10000) AND 0x3FF) OR 0xD800 = v"
      using or_block [of ?a 10 54] ve(1) d ab unfolding p by (simp add: drop_bit_eq_div and_masks push_bit_eq_mult)
    moreover have "0xDC00 OR ((?p - 0x10000) AND 0x3FF) = e"
      using or_block [of ?b 10 55] ve(2) d ab unfolding p by (simp add: and_masks push_bit_eq_mult or.commute)
    moreover have "?p > 0xFFFF" "?p \<le> 0x10FFFF" using ab unfolding p by linarith+
    moreover have "\<not> surrogate ?p" using "2.prems"(3) vs by simp
    ultimately show ?thesis using IH vs s lt by (simp add: from_char_code_def)
  qed
qed auto

section \<open>Texts and domains\<close>

lemma lastIndexOf_app: "d \<notin> set ys \<Longrightarrow> lastIndexOf d (xs @ d # ys) = Some (length xs)"
proof -
  assume "d \<notin> set ys"
  then have "takeWhile (\<lambda>c. c \<noteq> d) (rev (xs @ d # ys)) = rev ys" by (auto simp: takeWhile_append)
  then show ?thesis by (simp add: lastIndexOf_def)
qed

lemma puny_roundtrip:
  assumes "ucs2decode s = Inr cps" "\<forall>c \<in> set s. c < 65536" "length cps \<le> 1600" "\<forall>c \<in> set cps. \<not> surrogate c"
  shows "\<exists>chars. puny_encode s = Some (Inr (filter (\<lambda>c. c < 128) cps @ (if filter (\<lambda>c. c < 128) cps = [] then [] else [45]) @ chars)) \<and>
    puny_decode (filter (\<lambda>c. c < 128) cps @ (if filter (\<lambda>c. c < 128) cps = [] then [] else [45]) @ chars) = Some (Inr s) \<and>
    (\<forall>c \<in> set chars. 48 \<le> c \<and> c < 123 \<and> (c < 58 \<or> 97 \<le> c))"
proof -
  note u = ucs2_back [OF assms(1,2,4)]
  let ?b = "filter (\<lambda>c. c < 128) cps"
  obtain chars where e: "enc_main (length cps) cps (length ?b) 128 0 (length ?b) 72 = Some (Inr chars)"
    and d: "dec_main chars ?b 0 128 72 = Some (Inr cps)" and c: "\<forall>c \<in> set chars. 48 \<le> c \<and> c < 123 \<and> (c < 58 \<or> 97 \<le> c)"
    using enc_main_decoded [of cps "length ?b" 128 0 0 128 "length ?b" "length cps" 72] u assms(3) by auto
  have no: "45 \<notin> set chars" using c by auto
  let ?t = "?b @ (if ?b = [] then [] else [45]) @ chars"
  have "puny_encode s = Some (Inr ?t)" using assms(1) e by (simp add: puny_encode_def Let_def)
  moreover have "puny_decode ?t = Some (Inr s)"
  proof (cases "?b = []")
    case True
    then show ?thesis using d u no by (simp add: puny_decode_def lastIndexOf_def Let_def)
  next
    case False
    then have t: "?t = ?b @ 45 # chars" by simp
    have "\<not> (\<exists>c \<in> set ?b. 128 \<le> c)" by auto
    then show ?thesis unfolding t using False d u by (simp add: puny_decode_def lastIndexOf_app [OF no] Let_def)
  qed
  ultimately show ?thesis using c by blast
qed

text \<open>
  A part of a name that comes back: one without code points that the code takes for surrogates and without capital
  letters if it is encoded, and one that does not look encoded otherwise.
\<close>

definition good_label :: "jstring \<Rightarrow> bool" where
  "good_label p \<longleftrightarrow>
     (if nonASCII p
      then (case ucs2decode p of
              Inl _ \<Rightarrow> False
            | Inr cps \<Rightarrow> length cps \<le> 1600 \<and> (\<forall>c \<in> set cps. \<not> surrogate c \<and> \<not> (65 \<le> c \<and> c \<le> 90)))
      else take 4 p \<noteq> xn)"

lemma lower_id: "(\<And>c. c \<in> set t \<Longrightarrow> \<not> (65 \<le> c \<and> c \<le> 90)) \<Longrightarrow> toLowerCase t = t"
  unfolding toLowerCase_def by (rule map_idI) (auto simp: lower1_def)

lemma part_roundtrip:
  assumes "good_label p" "\<forall>c \<in> set p. c < 65536" "46 \<notin> set p"
  shows "\<exists>q. (if nonASCII p then map_option (map_sum id ((@) xn)) (puny_encode p) else Some (Inr p)) = Some (Inr q) \<and>
    (if take 4 q = xn then puny_decode (toLowerCase (drop 4 q)) else Some (Inr q)) = Some (Inr p) \<and> 46 \<notin> set q \<and> (\<forall>c \<in> set q. c < 128)"
proof (cases "nonASCII p")
  case False
  then show ?thesis using assms by (auto simp: good_label_def nonASCII_def not_less)
next
  case True
  then obtain cps where cps: "ucs2decode p = Inr cps" "length cps \<le> 1600" "\<forall>c \<in> set cps. \<not> surrogate c"
      "\<forall>c \<in> set cps. \<not> (65 \<le> c \<and> c \<le> 90)"
    using assms(1) by (auto simp: good_label_def split: sum.splits)
  let ?b = "filter (\<lambda>c. c < 128) cps"
  obtain chars where r: "puny_encode p = Some (Inr (?b @ (if ?b = [] then [] else [45]) @ chars))"
    "puny_decode (?b @ (if ?b = [] then [] else [45]) @ chars) = Some (Inr p)"
    "\<forall>c \<in> set chars. 48 \<le> c \<and> c < 123 \<and> (c < 58 \<or> 97 \<le> c)"
    using puny_roundtrip [OF cps(1) assms(2) cps(2,3)] by blast
  let ?t = "?b @ (if ?b = [] then [] else [45]) @ chars"
  have chars: "c < 128 \<and> c \<noteq> 46 \<and> \<not> (65 \<le> c \<and> c \<le> 90)" if "c \<in> set chars" for c using r(3) that by fastforce
  have basic: "c < 128 \<and> c \<noteq> 46 \<and> \<not> (65 \<le> c \<and> c \<le> 90)" if "c \<in> set ?b" for c
    using ucs2_back [OF cps(1) assms(2) cps(3)] cps(4) assms(3) that by auto
  have "\<forall>c \<in> set (if ?b = [] then [] else [45 :: nat]). c < 128 \<and> c \<noteq> 46 \<and> \<not> (65 \<le> c \<and> c \<le> 90)" by simp
  then have ok: "\<forall>c \<in> set ?t. c < 128 \<and> c \<noteq> 46 \<and> \<not> (65 \<le> c \<and> c \<le> 90)"
    unfolding set_append ball_Un using chars basic by blast
  then have low: "toLowerCase ?t = ?t" by (intro lower_id) blast
  show ?thesis
  proof (intro exI conjI)
    show "(if nonASCII p then map_option (map_sum id ((@) xn)) (puny_encode p) else Some (Inr p)) = Some (Inr (xn @ ?t))"
      unfolding r(1) using True by simp
    have "take 4 (xn @ ?t) = xn" "drop 4 (xn @ ?t) = ?t" by (simp_all add: xn_def)
    then show "(if take 4 (xn @ ?t) = xn then puny_decode (toLowerCase (drop 4 (xn @ ?t))) else Some (Inr (xn @ ?t))) = Some (Inr p)"
      by (simp only: refl if_True low r(2))
    have "46 \<notin> set xn" "\<forall>c \<in> set xn. c < 128" by (simp_all add: xn_def)
    then show "46 \<notin> set (xn @ ?t)" "\<forall>c \<in> set (xn @ ?t). c < 128"
      using ok unfolding set_append [of xn] ball_Un [of _ "set xn"] Un_iff by blast+
  qed
qed

lemma set_split_on: "p \<in> set (split_on d s) \<Longrightarrow> set p \<subseteq> set s"
proof (induction s arbitrary: p)
  case (Cons c s)
  obtain q qs where s: "split_on d s = q # qs" by (cases "split_on d s") simp_all
  then have "set q \<subseteq> set s" "\<forall>r \<in> set qs. set r \<subseteq> set s" using Cons.IH by simp_all
  then show ?case using Cons.prems s by (auto split: if_splits)
qed simp

lemma map_parts_roundtrip:
  assumes "\<And>p. p \<in> set ps \<Longrightarrow> \<exists>q. f p = Some (Inr q) \<and> g q = Some (Inr p) \<and> P q"
  shows "\<exists>qs. map_parts f ps = Some (Inr qs) \<and> map_parts g qs = Some (Inr ps) \<and> (\<forall>q \<in> set qs. P q) \<and> length qs = length ps"
  using assms
proof (induction ps)
  case (Cons p ps)
  then obtain q where q: "f p = Some (Inr q)" "g q = Some (Inr p)" "P q" by force
  from Cons obtain qs where "map_parts f ps = Some (Inr qs)" "map_parts g qs = Some (Inr ps)" "\<forall>q \<in> set qs. P q"
    "length qs = length ps" by force
  then show ?case using q by (intro exI [of _ "q # qs"]) simp
qed simp

text \<open>
  C38: A name of a host whose parts are good is made a name of ASCII characters by \<open>toASCII\<close>, without an error,
  and \<open>toUnicode\<close> makes it the same name again.
\<close>

theorem domain_roundtrip:
  assumes "\<forall>p \<in> set (split_on 46 domain). good_label p" and "\<forall>c \<in> set domain. c < 65536"
  shows "\<exists>name. toASCII domain = Some (Inr name) \<and> (\<forall>c \<in> set name. c < 128) \<and> toUnicode name = Some (Inr domain)"
proof -
  let ?ps = "split_on 46 domain"
  let ?f = "\<lambda>s. if nonASCII s then map_option (map_sum id ((@) xn)) (puny_encode s) else Some (Inr s)"
  let ?g = "\<lambda>s. if take 4 s = xn then puny_decode (toLowerCase (drop 4 s)) else Some (Inr s)"
  have chars: "set p \<subseteq> set domain" if "p \<in> set ?ps" for p
    using that by (rule set_split_on)
  have "\<exists>q. ?f p = Some (Inr q) \<and> ?g q = Some (Inr p) \<and> (46 \<notin> set q \<and> (\<forall>c \<in> set q. c < 128))" if "p \<in> set ?ps" for p
    using part_roundtrip [of p] assms that chars [OF that] split_on_no_sep [OF that] by blast
  from map_parts_roundtrip [of ?ps, OF this] obtain qs where qs: "map_parts ?f ?ps = Some (Inr qs)"
    "map_parts ?g qs = Some (Inr ?ps)" "\<forall>q \<in> set qs. 46 \<notin> set q \<and> (\<forall>c \<in> set q. c < 128)" "length qs = length ?ps" by blast
  have "qs \<noteq> []" using qs(4) by auto
  then have "split_on 46 (join [46] qs) = qs" using qs(3) by (intro split_on_join) auto
  moreover have "set (join [46] qs) \<subseteq> insert 46 (\<Union> (set ` set qs))" by (induction "[46 :: nat]" qs rule: join.induct) auto
  ultimately show ?thesis using qs join_split_on [of 46 domain]
    by (intro exI [of _ "join [46] qs"]) (auto simp: toASCII_def toUnicode_def mapDomain_def)
qed

theorem domain_roundtrip_witness:
  "\<exists>name. toASCII [98, 252, 46, 100, 101] = Some (Inr name) \<and> (\<forall>c \<in> set name. c < 128) \<and>
     toUnicode name = Some (Inr [98, 252, 46, 100, 101])"
  using domain_roundtrip [of "[98, 252, 46, 100, 101]"]
  by (simp add: good_label_def nonASCII_def surrogate_div xn_def)

text \<open>Code points above \<open>0xFFFF\<close> can be taken for surrogates, and characters that are no digits for digits.\<close>

lemma point_rejected: "ucs2decode [0xD836, 0xDC00] = Inr [0x1D800] \<and> ucs2encode [0x1D800] = Inl (Throw (S ''UCS-2(encode): illegal value''))"
  by (simp add: surrogate_div and_masks push_bit_eq_mult)

lemma wrong_digits: "basicToDigit 46 = 24 \<and> basicToDigit 58 = - 7 \<and> basicToDigit 96 = - 1"
  by (simp add: basicToDigit_def)

end
