(* ===== verification/Base64Codec.thy ===== *)
theory Base64Codec
  imports BufferTexts Punycode
begin

text \<open>
  The encoding base64 of buffers, as the runtime has it (\<open>src/src/node_buffer.cc\<close>): \<open>base64Slice\<close>,
  \<open>base64Write\<close> and the length it announces for a text.  The texts are of ASCII characters.
\<close>

definition base64_char :: "nat \<Rightarrow> nat" where
  "base64_char v =
     (if v < 26 then 65 + v else if v < 52 then 97 + (v - 26) else if v < 62 then 48 + (v - 52) else if v = 62 then 43 else 47)"

text \<open>The table \<open>unbase64_table\<close>, with the characters of both alphabets; \<open>None\<close> for its negative entries.\<close>

definition unbase64 :: "nat \<Rightarrow> nat option" where
  "unbase64 c =
     (if 65 \<le> c \<and> c \<le> 90 then Some (c - 65) else if 97 \<le> c \<and> c \<le> 122 then Some (c - 97 + 26)
      else if 48 \<le> c \<and> c \<le> 57 then Some (c - 48 + 52)
      else if c = 43 \<or> c = 45 then Some 62 else if c = 47 \<or> c = 95 then Some 63 else None)"

section \<open>Encoding and decoding\<close>

fun base64Slice :: "nat list \<Rightarrow> jstring" where
  "base64Slice [] = []"
| "base64Slice [a] = [base64_char (drop_bit 2 a), base64_char (push_bit 4 (a AND 3)), 61, 61]"
| "base64Slice [a, b] =
     [base64_char (drop_bit 2 a), base64_char (push_bit 4 (a AND 3) OR drop_bit 4 b), base64_char (push_bit 2 (b AND 0x0F)), 61]"
| "base64Slice (a # b # c # s) =
     [base64_char (drop_bit 2 a), base64_char (push_bit 4 (a AND 3) OR drop_bit 4 b),
      base64_char (push_bit 2 (b AND 0x0F) OR drop_bit 6 c), base64_char (c AND 0x3F)] @ base64Slice s"

text \<open>The next character that stands for six bits, if there is one, and what comes after it.\<close>

definition next_sextet :: "jstring \<Rightarrow> (nat \<times> jstring) option" where
  "next_sextet s =
     (case dropWhile (\<lambda>c. unbase64 c = None) s of
        [] \<Rightarrow> None
      | c # s' \<Rightarrow> Some (the (unbase64 c), s'))"

lemma next_sextet_shorter: "next_sextet s = Some (v, s') \<Longrightarrow> length s' < length s"
  by (auto simp: next_sextet_def split: list.splits dest!: arg_cong [where f = length])
    (metis Suc_le_lessD length_dropWhile_le)

function base64Write :: "jstring \<Rightarrow> nat \<Rightarrow> nat list" where
  "base64Write s room =
     (if room = 0 then []
      else case next_sextet s of
        None \<Rightarrow> []
      | Some (a, s1) \<Rightarrow>
      (case next_sextet s1 of
        None \<Rightarrow> []
      | Some (b, s2) \<Rightarrow>
          (push_bit 2 a OR drop_bit 4 (b AND 0x30)) mod 256 #
      (if room = 1 then []
       else case next_sextet s2 of
        None \<Rightarrow> []
      | Some (c, s3) \<Rightarrow>
          (push_bit 4 (b AND 0x0F) OR drop_bit 2 (c AND 0x3C)) mod 256 #
      (if room = 2 then []
       else case next_sextet s3 of
        None \<Rightarrow> []
      | Some (d, s4) \<Rightarrow> (push_bit 6 (c AND 0x03) OR (d AND 0x3F)) mod 256 # base64Write s4 (room - 3)))))"
  by pat_completeness auto
termination
  by (relation "measure (\<lambda>(s, room). length s)") (auto dest!: next_sextet_shorter)

declare base64Write.simps [simp del]

definition base64_decoded_size :: "jstring \<Rightarrow> nat" where
  "base64_decoded_size s =
     (let n = length s; remainder = n mod 4; size = n div 4 * 3;
          size = (if remainder = 0 then size
                  else if size = 0 \<and> remainder = 1 then 0 else size + 1 + (if remainder = 3 then 1 else 0))
      in if size > 0
         then size - (if s ! (n - 1) = 61 then 1 else 0) - (if s ! (n - 2) = 61 then 1 else 0)
         else size)"

definition base64 :: codec where
  "base64 = \<lparr>byteLength = base64_decoded_size, encode = \<lambda>s n. base64Write s (min (length s) n), decode = base64Slice\<rparr>"

section \<open>The round trip\<close>

lemma unbase64_char: "v < 64 \<Longrightarrow> unbase64 (base64_char v) = Some v"
  by (auto simp: unbase64_def base64_char_def)

lemma next_char: "v < 64 \<Longrightarrow> next_sextet (base64_char v # s) = Some (v, s)"
  by (simp add: next_sextet_def unbase64_char)

lemma next_pad: "next_sextet [61] = None" "next_sextet [61, 61] = None"
  by (simp_all add: next_sextet_def unbase64_def)

text \<open>Three bytes and the four numbers of six bits they make.\<close>

lemma and_low: "x AND 3 = x mod 4" "x AND 0x0F = x mod 16" "x AND 0x3F = x mod 64" for x :: nat
  using take_bit_eq_mask [of 2 x] take_bit_eq_mask [of 4 x] take_bit_eq_mask [of 6 x]
  by (simp_all add: mask_eq_exp_minus_1 take_bit_eq_mod)

lemma and_high: "x AND 0x30 = x div 16 mod 4 * 16" "x AND 0x3C = x div 4 mod 16 * 4" for x :: nat
  using and_block [of x 4 2] and_block [of x 2 4]
  by (simp_all add: mask_eq_exp_minus_1 push_bit_eq_mult take_bit_eq_mod drop_bit_eq_div)

lemma or_push: "x < 2 ^ k \<Longrightarrow> push_bit k y OR x = y * 2 ^ k + x" for x y :: nat
  using or_block [of x k y] by (simp add: or.commute push_bit_eq_mult add.commute)

lemma sextets:
  fixes a b c :: nat
  shows "drop_bit 2 a = a div 4" "push_bit 4 (a AND 3) = a mod 4 * 16" "b < 256 \<Longrightarrow> a mod 4 * 16 OR drop_bit 4 b = a mod 4 * 16 + b div 16"
    "push_bit 2 (b AND 0x0F) = b mod 16 * 4" "c < 256 \<Longrightarrow> b mod 16 * 4 OR drop_bit 6 c = b mod 16 * 4 + c div 64"
  using or_push [of "b div 16" 4 "a mod 4"] or_push [of "c div 64" 2 "b mod 16"]
  by (simp_all only: and_low drop_bit_eq_div push_bit_eq_mult div_less_iff_less_mult) simp_all

lemma sextet_bounds:
  fixes a b c :: nat
  shows "a < 256 \<Longrightarrow> a div 4 < 64" "a mod 4 * 16 < 64" "b < 256 \<Longrightarrow> a mod 4 * 16 + b div 16 < 64"
    "b mod 16 * 4 < 64" "c < 256 \<Longrightarrow> b mod 16 * 4 + c div 64 < 64" "c mod 64 < 64"
proof -
  show "a mod 4 * 16 + b div 16 < 64" if "b < 256"
    using that mod_less_divisor [of 4 a] div_less_iff_less_mult [of 16 b 16] by linarith
  show "b mod 16 * 4 + c div 64 < 64" if "c < 256"
    using that mod_less_divisor [of 16 b] div_less_iff_less_mult [of 64 c 4] by linarith
  show "a mod 4 * 16 < 64"
    using mod_less_divisor [of 4 a] by linarith
  show "b mod 16 * 4 < 64"
    using mod_less_divisor [of 16 b] by linarith
qed simp_all

lemma base64Slice_digits:
  "bytes [a] \<Longrightarrow> base64Slice [a] = [base64_char (a div 4), base64_char (a mod 4 * 16), 61, 61]"
  "bytes [a, b] \<Longrightarrow> base64Slice [a, b] =
     [base64_char (a div 4), base64_char (a mod 4 * 16 + b div 16), base64_char (b mod 16 * 4), 61]"
  "bytes (a # b # c # s) \<Longrightarrow> base64Slice (a # b # c # s) =
     [base64_char (a div 4), base64_char (a mod 4 * 16 + b div 16), base64_char (b mod 16 * 4 + c div 64), base64_char (c mod 64)]
     @ base64Slice s"
  by (simp_all only: base64Slice.simps sextets and_low(3) bytes_simps)

declare base64Slice.simps(2-4) [simp del]

lemma bytes_of_sextets:
  "(push_bit 2 s OR drop_bit 4 (t AND 0x30)) mod 256 = (s * 4 + t div 16 mod 4) mod 256"
  "(push_bit 4 (t AND 0x0F) OR drop_bit 2 (u AND 0x3C)) mod 256 = (t mod 16 * 16 + u div 4 mod 16) mod 256"
  "(push_bit 6 (u AND 0x03) OR (v AND 0x3F)) mod 256 = (u mod 4 * 64 + v mod 64) mod 256" for s t u v :: nat
  using or_push [of "t div 16 mod 4" 2 s] or_push [of "u div 4 mod 16" 4 "t mod 16"] or_push [of "v mod 64" 6 "u mod 4"]
  by (simp_all add: and_low and_high drop_bit_eq_div)

lemmas base64Write_group = base64Write.simps [of "_ # _", unfolded bytes_of_sextets]

lemma base64Write_Slice:
  "bytes bs \<Longrightarrow> length bs \<le> room \<Longrightarrow> base64Write (base64Slice bs) room = bs"
proof (induction bs arbitrary: room rule: base64Slice.induct)
  case 1
  then show ?case by (simp add: base64Write.simps [of "[]"] next_sextet_def)
next
  case (2 a)
  then have "room \<noteq> 0" "a < 256" by auto
  then show ?case
    by (simp add: base64Write_group base64Slice_digits next_char sextet_bounds next_pad)
next
  case (3 a b)
  then have "room \<noteq> 0" "room \<noteq> 1" "a < 256" "b < 256" by auto
  then show ?case
    by (simp add: base64Write_group base64Slice_digits next_char sextet_bounds next_pad)
next
  case (4 a b c s)
  then have "room \<noteq> 0" "room \<noteq> 1" "room \<noteq> 2" "a < 256" "b < 256" "c < 256" "bytes s" "base64Write (base64Slice s) (room - 3) = s" by auto
  then show ?case
    by (simp add: base64Write_group base64Slice_digits next_char sextet_bounds)
qed

lemma length_base64Slice: "length (base64Slice bs) = (length bs + 2) div 3 * 4"
proof (induction bs rule: base64Slice.induct)
  case (4 a b c s)
  have "(length (a # b # c # s) + 2) div 3 = Suc ((length s + 2) div 3)" using div_add_self2 [of 3 "length s + 2"] by simp
  then show ?case using 4 by (simp add: base64Slice.simps)
qed (simp_all add: base64Slice.simps)

lemma base64_char_not_pad: "base64_char v \<noteq> 61"
  by (auto simp: base64_char_def)

lemma decoded_size_group:
  assumes "t \<noteq> []" and "length t mod 4 = 0"
  shows "base64_decoded_size ([w, x, y, z] @ t) = 3 + base64_decoded_size t"
proof -
  from assms obtain k where t: "length t = 4 * k" "0 < k" by (metis mod_0_imp_dvd dvdE length_greater_0_conv nat_0_less_mult_iff)
  have "([w, x, y, z] @ t) ! (length ([w, x, y, z] @ t) - i) = t ! (length t - i)" if "i \<in> {1, 2}" for i
    using that t by (auto simp only: nth_append) (auto simp: numeral_eq_Suc)
  from this [of 1] this [of 2] show ?thesis using t by (simp add: base64_decoded_size_def Let_def numeral_2_eq_2)
qed

lemma decoded_size_Slice: "base64_decoded_size (base64Slice bs) = length bs"
proof (induction bs rule: base64Slice.induct)
  case (4 a b c s)
  show ?case
  proof (cases "base64Slice s = []")
    case True
    then have "s = []" using length_base64Slice [of s] by (cases s) (simp_all add: div_eq_0_iff)
    then show ?thesis by (simp add: base64_decoded_size_def Let_def base64Slice.simps base64_char_not_pad)
  next
    case False
    then show ?thesis using 4 decoded_size_group [of "base64Slice s"] length_base64Slice [of s] by (simp add: base64Slice.simps)
  qed
qed (simp_all add: base64_decoded_size_def Let_def base64Slice.simps base64_char_not_pad)

text \<open>A buffer made from the text of another one has its length and its bytes.\<close>

theorem base64_roundtrip:
  assumes "bytes bs"
  defines "t \<equiv> decode base64 bs"
  shows "byteLength base64 t = length bs" and "encode base64 t (byteLength base64 t) = bs"
proof -
  show "byteLength base64 t = length bs" by (simp add: t_def base64_def decoded_size_Slice)
  moreover have "length bs \<le> length (base64Slice bs)" unfolding length_base64Slice by linarith
  ultimately show "encode base64 t (byteLength base64 t) = bs"
    using base64Write_Slice [OF assms(1)] by (simp add: t_def base64_def)
qed

text \<open>A padding character inside a text does not end it: the test for one comes after it is skipped.\<close>

lemma padding_skipped: "map (\<lambda>s. base64Write s 6) [S ''YQ=='', S ''YQ==YQ==''] = [[97], [97, 6, 16]]"
  by (simp add: base64Write.simps [of "_ # _"] base64Write.simps [of "[]"] next_sextet_def unbase64_def S_def drop_bit_eq_div push_bit_eq_mult)

end
