(* ===== verification/Url.thy ===== *)
theory Url
  imports QueryString PathNames Punycode
begin

text \<open>
  The library \<open>url.js\<close>, with which the server takes the address of a request apart: \<open>parse\<close>, \<open>format\<close>
  and \<open>resolve\<close>.  A parsed address is a record whose fields are \<open>None\<close> where the property of the object is
  missing or undefined.  A \<open>URIError\<close> is thrown as its message.  Host names are lowered as far as ASCII goes.
  The bytes an escape stands for are read as text by the parameter of \<open>querystring\<close>.
\<close>

definition res_bind :: "'a res option \<Rightarrow> ('a \<Rightarrow> 'b res option) \<Rightarrow> 'b res option" where
  "res_bind x f = (case x of None \<Rightarrow> None | Some (Inl e) \<Rightarrow> Some (Inl e) | Some (Inr v) \<Rightarrow> f v)"

lemma res_bind_simps [simp]:
  "res_bind None f = None" "res_bind (Some (Inl e)) f = Some (Inl e)" "res_bind (Some (Inr v)) f = f v"
  by (simp_all add: res_bind_def)

definition uri :: "'a option \<Rightarrow> 'a res option" where
  "uri x = Some (case x of None \<Rightarrow> Inl (Throw (S ''URI malformed'')) | Some v \<Rightarrow> Inr v)"

lemma uri_Some [simp]: "uri (Some v) = Some (Inr v)" by (simp add: uri_def)

datatype uquery = QText jstring | QPairs qdict

record url =
  u_protocol :: "jstring option"
  u_slashes :: bool
  u_auth :: "jstring option"
  u_host :: "jstring option"
  u_port :: "jstring option"
  u_hostname :: "jstring option"
  u_hash :: "jstring option"
  u_search :: "jstring option"
  u_query :: "uquery option"
  u_pathname :: "jstring option"
  u_path :: "jstring option"
  u_href :: "jstring option"

definition no_url :: url where
  "no_url = \<lparr>u_protocol = None, u_slashes = False, u_auth = None, u_host = None, u_port = None, u_hostname = None,
     u_hash = None, u_search = None, u_query = None, u_pathname = None, u_path = None, u_href = None\<rparr>"

datatype url_arg = UText jstring | UObj url

text \<open>\<open>x || ''\<close>; a text is true in a condition when it is there and not empty.\<close>

definition or_empty :: "jstring option \<Rightarrow> jstring" where
  "or_empty x = (case x of None \<Rightarrow> [] | Some s \<Rightarrow> s)"

lemma or_empty_simps [simp]: "or_empty None = []" "or_empty (Some s) = s"
  by (simp_all add: or_empty_def)

section \<open>Characters and protocols\<close>

definition delims :: "nat list" where "delims = [60, 62, 34, 96, 32, 13, 10, 9]"
definition unwise :: "nat list" where "unwise = [123, 125, 124, 92, 94, 126, 96] @ delims"
definition autoEscape :: "nat list" where "autoEscape = [39]"
definition nonHostChars :: "nat list" where "nonHostChars = [37, 47, 63, 59, 35] @ unwise @ autoEscape"
definition nonAuthChars :: "nat list" where "nonAuthChars = [47, 64, 63, 35] @ delims"

definition hostlessProtocol :: "jstring option \<Rightarrow> bool" where
  "hostlessProtocol p \<longleftrightarrow> p \<in> Some ` {S ''javascript'', S ''javascript:''}"

definition unsafeProtocol :: "jstring option \<Rightarrow> bool" where
  "unsafeProtocol p \<longleftrightarrow> p \<in> Some ` {S ''javascript'', S ''javascript:''}"

definition slashedProtocol :: "jstring option \<Rightarrow> bool" where
  "slashedProtocol p \<longleftrightarrow> p \<in> Some ` {S ''http'', S ''https'', S ''ftp'', S ''gopher'', S ''file'',
     S ''http:'', S ''https:'', S ''ftp:'', S ''gopher:'', S ''file:''}"

definition letter_digit :: "nat \<Rightarrow> bool" where
  "letter_digit c \<longleftrightarrow> 48 \<le> c \<and> c \<le> 57 \<or> 65 \<le> c \<and> c \<le> 90 \<or> 97 \<le> c \<and> c \<le> 122"

definition host_char :: "nat \<Rightarrow> bool" where
  "host_char c \<longleftrightarrow> letter_digit c \<or> c = 95 \<or> c = 45"

text \<open>\<open>protocolPattern\<close> and the pattern of \<open>//user@server\<close>.\<close>

definition match_protocol :: "jstring \<Rightarrow> jstring option" where
  "match_protocol s =
     (let p = takeWhile (\<lambda>c. letter_digit c \<or> c \<in> {46, 43, 45}) s
      in if p \<noteq> [] \<and> take 1 (drop (length p) s) = [58] then Some (p @ [58]) else None)"

definition match_user :: "jstring \<Rightarrow> bool" where
  "match_user s \<longleftrightarrow>
     (let r = drop 2 s; u = takeWhile (\<lambda>c. c \<notin> {64, 47}) r; v = drop (length u) r
      in take 2 s = [47, 47] \<and> u \<noteq> [] \<and> 2 \<le> length v \<and> v ! 0 = 64 \<and> v ! 1 \<notin> {64, 47})"

text \<open>\<open>hostnamePartPattern\<close> and \<open>hostnamePartStart\<close>; in the latter the dot does not match the end of a line.\<close>

definition host_part :: "jstring \<Rightarrow> bool" where
  "host_part p \<longleftrightarrow> p \<noteq> [] \<and> letter_digit (hd p) \<and> list_all host_char (tl p) \<and> length p \<le> 63"

definition host_part_start :: "jstring \<Rightarrow> (jstring \<times> jstring) option" where
  "host_part_start p =
     (if p = [] \<or> \<not> letter_digit (hd p) then None
      else let a = hd p # take 62 (takeWhile host_char (tl p)); b = drop (length a) p
           in if \<exists>c \<in> set b. c \<in> {10, 13, 0x2028, 0x2029} then None else Some (a, b))"

section \<open>The host\<close>

definition match_port :: "jstring \<Rightarrow> jstring \<times> jstring option" where
  "match_port host =
     (let ds = takeWhile (\<lambda>c. 48 \<le> c \<and> c \<le> 57) (rev host); r = drop (length ds) (rev host)
      in if ds \<noteq> [] \<and> take 1 r = [58] then (rev (drop 1 r), Some (rev ds)) else (host, None))"

definition take_auth :: "jstring \<Rightarrow> (jstring option \<times> jstring) res option" where
  "take_auth rest =
     (case index_of [64] rest of
        None \<Rightarrow> Some (Inr (None, rest))
      | Some atSign \<Rightarrow>
          let auth = take atSign rest
          in if \<exists>c \<in> set auth. c \<in> set nonAuthChars then Some (Inr (None, rest))
             else res_bind (uri (decodeURIComponent auth)) (\<lambda>a. Some (Inr (Some a, drop (Suc atSign) rest))))"

text \<open>The parts before the first one that is no part of a name, and what goes to the path instead; \<open>None\<close> if all are.\<close>

fun cut_parts :: "jstring list \<Rightarrow> jstring list \<Rightarrow> (jstring list \<times> jstring list) option" where
  "cut_parts validParts [] = None"
| "cut_parts validParts (part # notHost) =
     (if part = [] \<or> host_part part \<or> host_part (map (\<lambda>c. if c > 127 then 120 else c) part)
      then cut_parts (validParts @ [part]) notHost
      else Some (case host_part_start part of
                   None \<Rightarrow> (validParts, notHost)
                 | Some (a, b) \<Rightarrow> (validParts @ [a], b # notHost)))"

definition validate :: "jstring \<Rightarrow> jstring \<Rightarrow> jstring \<times> jstring" where
  "validate hostname rest =
     (case cut_parts [] (split_on 46 hostname) of
        None \<Rightarrow> (hostname, rest)
      | Some (validParts, notHost) \<Rightarrow>
          (join [46] validParts, if notHost \<noteq> [] then 47 # join [46] notHost @ rest else rest))"

fun idna :: "jstring list \<Rightarrow> jstring list res option" where
  "idna [] = Some (Inr [])"
| "idna (s # ss) =
     res_bind (if list_all host_char s then Some (Inr s) else map_option (map_sum id ((@) xn)) (puny_encode s))
       (\<lambda>q. res_bind (idna ss) (\<lambda>qs. Some (Inr (q # qs))))"

definition parse_host :: "url \<Rightarrow> jstring \<Rightarrow> (url \<times> jstring) res option" where
  "parse_host out rest0 =
     res_bind (take_auth rest0) (\<lambda>(auth, rest1).
       let host = takeWhile (\<lambda>c. c \<notin> set nonHostChars) rest1; rest2 = drop (length host) rest1;
           (hostname0, port) = match_port host;
           ipv6 = (hostname0 \<noteq> [] \<and> hd hostname0 = 91 \<and> last hostname0 = 93);
           (hostname1, rest3) = (if length hostname0 > 255 then ([], rest2) else if \<not> ipv6 then validate hostname0 rest2
                                 else (hostname0, rest2));
           hostname2 = toLowerCase hostname1
       in res_bind (if ipv6 then Some (Inr hostname2) else res_bind (idna (split_on 46 hostname2)) (\<lambda>qs. Some (Inr (join [46] qs))))
            (\<lambda>hostname3.
              let out1 = out\<lparr>u_auth := auth, u_port := port,
                             u_host := Some (hostname3 @ (case port of None \<Rightarrow> [] | Some p \<Rightarrow> 58 # p)), u_hostname := Some hostname3\<rparr>
              in Some (Inr (if ipv6
                            then (out1\<lparr>u_hostname := Some (take (length hostname3 - 2) (drop 1 hostname3))\<rparr>,
                                  if take 1 rest3 \<noteq> [47] then 47 # rest3 else rest3)
                            else (out1, rest3)))))"

section \<open>Writing an address\<close>

text \<open>\<open>auth.replace(/%3A/i, ':')\<close>: the first place only.\<close>

fun plain_colon :: "jstring \<Rightarrow> jstring" where
  "plain_colon [] = []"
| "plain_colon (c # s) = (if toUpperCase (take 3 (c # s)) = [37, 51, 65] then 58 # drop 2 s else c # plain_colon s)"

definition prefixed :: "nat \<Rightarrow> jstring \<Rightarrow> jstring" where
  "prefixed c s = (if s \<noteq> [] \<and> hd s \<noteq> c then c # s else s)"

definition qval_of :: "qres \<Rightarrow> qval" where
  "qval_of r = (case r of RStr s \<Rightarrow> One (PStr s) | RArr ss \<Rightarrow> Many (map PStr ss))"

definition query_text :: "uquery option \<Rightarrow> jstring res option" where
  "query_text q =
     (case q of
        Some (QPairs kvs) \<Rightarrow>
          if kvs = [] then Some (Inr []) else uri (qs_stringify (Obj (map (\<lambda>(k, r). (k, qval_of r)) kvs)) [] [] [])
      | _ \<Rightarrow> Some (Inr []))"

definition add_path :: "url \<Rightarrow> url" where
  "add_path u = u\<lparr>u_path := Some (or_empty (u_pathname u) @ or_empty (u_search u))\<rparr>"

definition urlFormat_obj :: "url \<Rightarrow> jstring res option" where
  "urlFormat_obj obj =
     res_bind (if or_empty (u_auth obj) = [] then Some (Inr [])
               else res_bind (uri (encodeURIComponent (or_empty (u_auth obj)))) (\<lambda>a. Some (Inr (plain_colon a @ [64])))) (\<lambda>auth.
     res_bind (query_text (u_query obj)) (\<lambda>query.
       let protocol = or_empty (u_protocol obj); pathname = or_empty (u_pathname obj); hash = or_empty (u_hash obj);
           host = (case u_host obj of
                     Some h \<Rightarrow> Some (auth @ h)
                   | None \<Rightarrow>
                       (case u_hostname obj of
                          Some h \<Rightarrow> Some (auth @ (if 58 \<notin> set h then h else [91] @ h @ [93]) @
                            (if or_empty (u_port obj) \<noteq> [] then 58 # or_empty (u_port obj) else []))
                        | None \<Rightarrow> None));
           search = (if or_empty (u_search obj) \<noteq> [] then or_empty (u_search obj) else if query \<noteq> [] then 63 # query else []);
           protocol = (if protocol \<noteq> [] \<and> last protocol \<noteq> 58 then protocol @ [58] else protocol);
           slashes = (u_slashes obj \<or> (protocol = [] \<or> slashedProtocol (Some protocol)) \<and> host \<noteq> None)
       in Some (Inr (protocol @ (if slashes then [47, 47] else []) @ or_empty host @
                 (if slashes then prefixed 47 pathname else pathname) @ prefixed 63 search @ prefixed 35 hash))))"

definition with_href :: "url \<Rightarrow> url res option" where
  "with_href u = res_bind (urlFormat_obj u) (\<lambda>href. Some (Inr (u\<lparr>u_href := Some href\<rparr>)))"

section \<open>Reading an address\<close>

text \<open>What comes after the host; \<open>proto\<close> is the protocol as it was written, in lower case it is in \<open>out\<close>.\<close>

definition cut_off :: "nat \<Rightarrow> jstring \<Rightarrow> jstring \<times> jstring" where
  "cut_off c rest = (case index_of [c] rest of None \<Rightarrow> (rest, []) | Some i \<Rightarrow> (take i rest, drop i rest))"

definition chop :: "url \<Rightarrow> jstring \<Rightarrow> jstring" where
  "chop out rest =
     (if unsafeProtocol (u_protocol out) then rest
      else takeWhile (\<lambda>c. c \<notin> set delims) (concat (map (\<lambda>c. if c = 39 then [37, 50, 55] else [c]) rest)))"

definition put_search :: "(nat list \<Rightarrow> jstring) \<Rightarrow> bool \<Rightarrow> jstring \<Rightarrow> url \<Rightarrow> url" where
  "put_search to_text parseQueryString search out =
     (if search \<noteq> []
      then out\<lparr>u_search := Some search,
               u_query := Some (if parseQueryString then QPairs (qs_parse to_text (tl search) [] [] None) else QText (tl search))\<rparr>
      else if parseQueryString then out\<lparr>u_search := Some [], u_query := Some (QPairs [])\<rparr> else out)"

definition put_pathname :: "jstring option \<Rightarrow> jstring \<Rightarrow> url \<Rightarrow> url" where
  "put_pathname proto rest out =
     (let out1 = (if rest \<noteq> [] then out\<lparr>u_pathname := Some rest\<rparr> else out);
          out2 = (if slashedProtocol proto \<and> or_empty (u_hostname out1) \<noteq> [] \<and> or_empty (u_pathname out1) = []
                  then out1\<lparr>u_pathname := Some [47]\<rparr> else out1)
      in if or_empty (u_pathname out2) \<noteq> [] \<or> or_empty (u_search out2) \<noteq> [] then add_path out2 else out2)"

definition parse_rest :: "(nat list \<Rightarrow> jstring) \<Rightarrow> bool \<Rightarrow> jstring option \<Rightarrow> url \<Rightarrow> jstring \<Rightarrow> url" where
  "parse_rest to_text parseQueryString proto out rest0 =
     (let (rest1, hash) = cut_off 35 (chop out rest0);
          out1 = (if hash \<noteq> [] then out\<lparr>u_hash := Some hash\<rparr> else out);
          (rest2, search) = cut_off 63 rest1
      in put_pathname proto rest2 (put_search to_text parseQueryString search out1))"

definition parse_address :: "(nat list \<Rightarrow> jstring) \<Rightarrow> bool \<Rightarrow> bool \<Rightarrow> jstring \<Rightarrow> url res option" where
  "parse_address to_text parseQueryString slashesDenoteHost text =
     (let rest0 = dropWhile (\<lambda>c. c \<in> set delims) text;
          proto = match_protocol rest0;
          out0 = no_url\<lparr>u_protocol := map_option toLowerCase proto\<rparr>;
          rest1 = (case proto of None \<Rightarrow> rest0 | Some p \<Rightarrow> drop (length p) rest0);
          slashes = ((slashesDenoteHost \<or> proto \<noteq> None \<or> match_user rest1) \<and> take 2 rest1 = [47, 47]);
          cut = (slashes \<and> \<not> hostlessProtocol proto);
          rest2 = (if cut then drop 2 rest1 else rest1);
          out1 = out0\<lparr>u_slashes := cut\<rparr>
      in res_bind (if \<not> hostlessProtocol proto \<and> (slashes \<or> proto \<noteq> None \<and> \<not> slashedProtocol proto)
                   then parse_host out1 rest2 else Some (Inr (out1, rest2)))
           (\<lambda>(out2, rest3). with_href (parse_rest to_text parseQueryString proto out2 rest3)))"

definition urlParse :: "(nat list \<Rightarrow> jstring) \<Rightarrow> url_arg \<Rightarrow> bool \<Rightarrow> bool \<Rightarrow> url res option" where
  "urlParse to_text url parseQueryString slashesDenoteHost =
     (case url of
        UText text \<Rightarrow> parse_address to_text parseQueryString slashesDenoteHost text
      | UObj u \<Rightarrow> if or_empty (u_href u) \<noteq> [] then Some (Inr u) else Some (Inl TypeError))"

definition urlFormat :: "(nat list \<Rightarrow> jstring) \<Rightarrow> url_arg \<Rightarrow> jstring res option" where
  "urlFormat to_text obj =
     (case obj of
        UText text \<Rightarrow> res_bind (urlParse to_text obj False False) urlFormat_obj
      | UObj u \<Rightarrow> urlFormat_obj u)"

section \<open>Resolving an address against another one\<close>

definition path_if :: "url \<Rightarrow> url" where
  "path_if u = (if u_pathname u \<noteq> None \<or> u_search u \<noteq> None then add_path u else u)"

text \<open>A first part of the path that is the host, with the user it may begin with.\<close>

definition host_first :: "jstring option \<Rightarrow> url \<Rightarrow> url" where
  "host_first h u =
     (let parts = split_on 64 (or_empty h)
      in if 2 \<le> length parts \<and> hd parts \<noteq> []
         then u\<lparr>u_auth := Some (hd parts), u_host := Some (parts ! 1), u_hostname := Some (parts ! 1)\<rparr>
         else u\<lparr>u_host := h, u_hostname := h\<rparr>)"

text \<open>A relative address with a protocol of its own.\<close>

definition resolve_protocol :: "url \<Rightarrow> url \<Rightarrow> url" where
  "resolve_protocol source relative0 =
     (let rel =
            (if or_empty (u_host relative0) = [] \<and> \<not> hostlessProtocol (u_protocol relative0)
             then let parts = dropWhile (\<lambda>p. p = []) (split_on 47 (or_empty (u_pathname relative0)));
                      host = (if parts = [] then [] else hd parts);
                      relPath1 = tl parts;
                      relPath2 = (if relPath1 = [] \<or> hd relPath1 \<noteq> [] then [] # relPath1 else relPath1);
                      relPath3 = (if length relPath2 < 2 then [] # relPath2 else relPath2)
                  in relative0\<lparr>u_host := Some host, u_hostname := Some (or_empty (u_hostname relative0)),
                               u_pathname := Some (join [47] relPath3)\<rparr>
             else relative0)
      in (path_if (source\<lparr>u_protocol := u_protocol rel, u_pathname := u_pathname rel, u_search := u_search rel,
              u_query := u_query rel, u_host := Some (or_empty (u_host rel)), u_auth := u_auth rel,
              u_hostname := (if or_empty (u_hostname rel) \<noteq> [] then u_hostname rel else u_host rel),
              u_port := u_port rel\<rparr>))\<lparr>u_slashes := u_slashes source \<or> u_slashes rel\<rparr>)"

definition path_parts :: "url \<Rightarrow> jstring list" where
  "path_parts u = (if or_empty (u_pathname u) = [] then [] else split_on 47 (or_empty (u_pathname u)))"

definition starts_abs :: "url \<Rightarrow> bool" where
  "starts_abs u \<longleftrightarrow> take 1 (or_empty (u_pathname u)) = [47]"

text \<open>The host as a part of the path, for protocols without slashes.\<close>

definition host_to_path :: "url \<Rightarrow> jstring list \<Rightarrow> jstring list" where
  "host_to_path u parts =
     (if or_empty (u_host u) = [] then parts
      else if parts \<noteq> [] \<and> hd parts = [] then or_empty (u_host u) # tl parts else or_empty (u_host u) # parts)"

definition no_host :: "url \<Rightarrow> url" where
  "no_host u = u\<lparr>u_hostname := None, u_port := None, u_host := None\<rparr>"

definition or_undefined :: "'a option \<Rightarrow> 'a option \<Rightarrow> 'a option" where
  "or_undefined x y = (if x \<noteq> None then x else y)"

text \<open>From the removal of the dots on, with the parts of the merged path.\<close>

definition resolve_dots :: "bool \<Rightarrow> bool \<Rightarrow> bool \<Rightarrow> url \<Rightarrow> url \<Rightarrow> jstring list \<Rightarrow> url" where
  "resolve_dots psychotic mustEndAbs removeAllDots source rel srcPath0 =
     (let hasTrailingSlash =
            ((or_empty (u_host source) \<noteq> [] \<or> or_empty (u_host rel) \<noteq> []) \<and> (last srcPath0 = dot \<or> last srcPath0 = dots)
             \<or> last srcPath0 = []);
          (r, up) = normalize_back (rev srcPath0) 0;
          srcPath1 = (if \<not> mustEndAbs \<and> \<not> removeAllDots then replicate up dots else []) @ rev r;
          srcPath2 = (if mustEndAbs \<and> (srcPath1 = [] \<or> hd srcPath1 \<noteq> [] \<and> hd (hd srcPath1) \<noteq> 47) then [] # srcPath1 else srcPath1);
          joined = join [47] srcPath2;
          srcPath3 = (if hasTrailingSlash \<and> (joined = [] \<or> last joined \<noteq> 47) then srcPath2 @ [[]] else srcPath2);
          isAbsolute = (srcPath3 \<noteq> [] \<and> (hd srcPath3 = [] \<or> hd (hd srcPath3) = 47));
          shifted = (psychotic \<and> \<not> isAbsolute \<and> srcPath3 \<noteq> []);
          source1 = (if psychotic then host_first (Some (if shifted then hd srcPath3 else [])) source else source);
          srcPath4 = (if shifted then tl srcPath3 else srcPath3);
          mustEndAbs1 = (mustEndAbs \<or> or_empty (u_host source1) \<noteq> [] \<and> srcPath4 \<noteq> []);
          srcPath5 = (if mustEndAbs1 \<and> \<not> isAbsolute then [] # srcPath4 else srcPath4)
      in (add_path (source1\<lparr>u_pathname := Some (join [47] srcPath5)\<rparr>))
           \<lparr>u_auth := (if or_empty (u_auth rel) \<noteq> [] then u_auth rel else u_auth source1),
            u_slashes := u_slashes source1 \<or> u_slashes rel\<rparr>)"

definition resolve_path :: "url \<Rightarrow> url \<Rightarrow> url" where
  "resolve_path source0 relative0 =
     (let isRelAbs = (u_host relative0 \<noteq> None \<or> starts_abs relative0);
          mustEndAbs0 = (isRelAbs \<or> starts_abs source0 \<or> or_empty (u_host source0) \<noteq> [] \<and> or_empty (u_pathname relative0) \<noteq> []);
          psychotic = (u_protocol source0 \<noteq> None \<and> \<not> slashedProtocol (u_protocol source0));
          srcPath0 = (if psychotic then host_to_path source0 (path_parts source0) else path_parts source0);
          source = (if psychotic then no_host source0 else source0);
          relToo = (psychotic \<and> u_protocol relative0 \<noteq> None);
          relPath = (if relToo then host_to_path relative0 (path_parts relative0) else path_parts relative0);
          rel = (if relToo then no_host relative0 else relative0);
          mustEndAbs = (mustEndAbs0 \<and> (\<not> psychotic \<or> relPath \<noteq> [] \<and> hd relPath = [] \<or> srcPath0 \<noteq> [] \<and> hd srcPath0 = []));
          searched = source\<lparr>u_search := u_search rel, u_query := u_query rel\<rparr>
      in if \<not> isRelAbs \<and> relPath = [] \<and> u_search rel \<noteq> None
         then path_if ((if psychotic then host_first (if srcPath0 = [] then None else Some (hd srcPath0)) source else source)
                \<lparr>u_search := u_search rel, u_query := u_query rel\<rparr>)
         else
           let source1 = (if isRelAbs
                          then searched\<lparr>u_host := or_undefined (u_host rel) (u_host source),
                                        u_hostname := or_undefined (u_hostname rel) (u_hostname source)\<rparr>
                          else if relPath \<noteq> [] then searched else source);
               srcPath = (if isRelAbs then relPath else if relPath \<noteq> [] then butlast srcPath0 @ relPath else srcPath0)
           in if srcPath = []
              then source1\<lparr>u_pathname := None,
                           u_path := (if or_empty (u_search source1) = [] then
                                        Some (47 # (case u_search source1 of None \<Rightarrow> S ''undefined'' | Some s \<Rightarrow> s))
                                      else None)\<rparr>
              else resolve_dots psychotic mustEndAbs mustEndAbs0 source1 rel srcPath)"

definition resolve_urls :: "url \<Rightarrow> url \<Rightarrow> url res option" where
  "resolve_urls source0 rel =
     (let source = source0\<lparr>u_hash := u_hash rel\<rparr>
      in if or_empty (u_href rel) = [] then with_href source
         else if u_slashes rel \<and> u_protocol rel = None
         then let r = rel\<lparr>u_protocol := u_protocol source\<rparr>
              in with_href (if slashedProtocol (u_protocol r) \<and> or_empty (u_hostname r) \<noteq> [] \<and> or_empty (u_pathname r) = []
                            then r\<lparr>u_pathname := Some [47], u_path := Some [47]\<rparr> else r)
         else if u_protocol rel \<noteq> None \<and> u_protocol rel \<noteq> u_protocol source
         then with_href (if \<not> slashedProtocol (u_protocol rel) then rel else resolve_protocol source rel)
         else with_href (resolve_path source rel))"

definition urlResolveObject :: "(nat list \<Rightarrow> jstring) \<Rightarrow> url_arg \<Rightarrow> url_arg \<Rightarrow> url_arg res option" where
  "urlResolveObject to_text source rel =
     (if source = UText [] then Some (Inr rel)
      else res_bind (urlFormat to_text source) (\<lambda>s. res_bind (urlParse to_text (UText s) False True) (\<lambda>source1.
           res_bind (urlFormat to_text rel) (\<lambda>r. res_bind (urlParse to_text (UText r) False True) (\<lambda>relative1.
           map_option (map_sum id UObj) (resolve_urls source1 relative1))))))"

definition urlResolve :: "(nat list \<Rightarrow> jstring) \<Rightarrow> url_arg \<Rightarrow> url_arg \<Rightarrow> jstring res option" where
  "urlResolve to_text source rel = res_bind (urlResolveObject to_text source rel) (urlFormat to_text)"

end
