(* ===== verification/UrlResolve.thy ===== *)
theory UrlResolve
  imports Url
begin

text \<open>
  Addresses as they are written on the web, \<open>protocol://host:port/path?search#hash\<close>: \<open>parse\<close> finds the parts they
  were made of, and \<open>resolve\<close> is a walk along the parts of the path.
\<close>

section \<open>The parts of an address\<close>

definition good_host :: "jstring \<Rightarrow> bool" where
  "good_host h \<longleftrightarrow> length h \<le> 255 \<and> list_all host_part (split_on 46 h) \<and> (\<forall>c \<in> set h. \<not> (65 \<le> c \<and> c \<le> 90))"

definition good_port :: "jstring option \<Rightarrow> bool" where
  "good_port p \<longleftrightarrow> (\<forall>ds. p = Some ds \<longrightarrow> ds \<noteq> [] \<and> (\<forall>c \<in> set ds. 48 \<le> c \<and> c \<le> 57))"

definition host_text :: "jstring \<Rightarrow> jstring option \<Rightarrow> jstring" where
  "host_text h port = h @ (case port of None \<Rightarrow> [] | Some p \<Rightarrow> 58 # p)"

definition clean :: "jstring \<Rightarrow> bool" where
  "clean s \<longleftrightarrow> (\<forall>c \<in> set s. c \<notin> set delims \<and> c \<noteq> 39)"

definition good_tail :: "jstring \<Rightarrow> jstring \<Rightarrow> jstring \<Rightarrow> bool" where
  "good_tail path search hash \<longleftrightarrow>
     clean path \<and> clean search \<and> clean hash \<and> 35 \<notin> set path \<and> 63 \<notin> set path \<and> 35 \<notin> set search \<and>
     (search \<noteq> [] \<longrightarrow> hd search = 63) \<and> (hash \<noteq> [] \<longrightarrow> hd hash = 35)"

definition some_text :: "jstring \<Rightarrow> jstring option" where
  "some_text s = (if s = [] then None else Some s)"

lemma some_text_simps [simp]: "or_empty (some_text s) = s" "some_text s = None \<longleftrightarrow> s = []" "some_text [] = None" "s \<noteq> [] \<Longrightarrow> some_text s = Some s"
  by (simp_all add: some_text_def)

definition with_tail :: "jstring \<Rightarrow> jstring \<Rightarrow> jstring \<Rightarrow> url \<Rightarrow> url" where
  "with_tail path search hash u =
     u\<lparr>u_pathname := some_text path, u_search := some_text search, u_hash := some_text hash,
       u_query := (if search = [] then None else Some (QText (tl search))), u_path := some_text (path @ search)\<rparr>"

definition site :: "jstring \<Rightarrow> jstring \<Rightarrow> jstring option \<Rightarrow> url" where
  "site p h port = no_url\<lparr>u_protocol := Some p, u_slashes := True, u_host := Some (host_text h port), u_port := port, u_hostname := Some h\<rparr>"

definition site_text :: "jstring \<Rightarrow> jstring \<Rightarrow> jstring option \<Rightarrow> jstring" where
  "site_text p h port = p @ [47, 47] @ host_text h port"

definition site_protocol :: "jstring \<Rightarrow> bool" where
  "site_protocol p \<longleftrightarrow> p \<in> {S ''http:'', S ''https:'', S ''ftp:'', S ''gopher:'', S ''file:''}"

section \<open>Reading them\<close>

lemma index_of_none: "c \<notin> set s \<Longrightarrow> index_of [c] s = None"
  by (induction s) (simp_all add: starts_with_def)

lemma no_escape: "39 \<notin> set s \<Longrightarrow> concat (map (\<lambda>c. if c = 39 then [37, 50, 55] else [c]) s) = s"
  by (induction s) auto

lemma clean_simps: "clean (a @ b) \<longleftrightarrow> clean a \<and> clean b" "clean []" "clean (c # s) \<longleftrightarrow> c \<notin> set delims \<and> c \<noteq> 39 \<and> clean s"
  by (auto simp: clean_def)

lemma clean_kept: "clean s \<Longrightarrow> chop out s = s"
proof -
  assume c: "clean s"
  then have "39 \<notin> set s" by (auto simp: clean_def)
  then show ?thesis using c by (simp add: chop_def no_escape takeWhile_eq_all_conv clean_def)
qed

lemma clean_dropWhile: "clean s \<Longrightarrow> dropWhile (\<lambda>c. c \<in> set delims) s = s"
  by (cases s) (auto simp: clean_simps)

lemma cut_off_at: "c \<notin> set a \<Longrightarrow> (b \<noteq> [] \<longrightarrow> hd b = c) \<Longrightarrow> cut_off c (a @ b) = (a, b)"
  using index_of_first [of c a "tl b"] by (cases b) (auto simp: cut_off_def index_of_none)

lemma parse_rest_parts:
  assumes "good_tail path search hash" and "path \<noteq> [] \<or> or_empty (u_hostname out) = []"
    and "u_hash out = None" "u_search out = None" "u_query out = None" "u_pathname out = None" "u_path out = None"
  shows "parse_rest to_text False proto out (path @ search @ hash) = with_tail path search hash out"
proof -
  note t = assms(1) [unfolded good_tail_def]
  have c: "chop out (path @ search @ hash) = path @ search @ hash" using t by (intro clean_kept) (simp add: clean_simps)
  have "cut_off 35 ((path @ search) @ hash) = (path @ search, hash)" "cut_off 63 (path @ search) = (path, search)"
    using t by (intro cut_off_at; simp)+
  then have "parse_rest to_text False proto out (path @ search @ hash) =
      put_pathname proto path (put_search to_text False search (if hash \<noteq> [] then out\<lparr>u_hash := Some hash\<rparr> else out))"
    using c by (simp add: parse_rest_def del: append_assoc flip: append_assoc)
  then show ?thesis
    using assms(2-)
    by (cases out; cases "path = []"; cases "search = []"; cases "hash = []")
      (simp_all add: put_search_def put_pathname_def with_tail_def add_path_def some_text_def)
qed

section \<open>Writing them\<close>

lemma site_protocolD:
  assumes "site_protocol p"
  shows "p \<noteq> []" "last p = 58" "slashedProtocol (Some p)" "\<not> hostlessProtocol (Some p)" "toLowerCase p = p"
    "match_protocol (p @ s) = Some p" "dropWhile (\<lambda>c. c \<in> set delims) (p @ s) = p @ s"
  using assms
  by (auto simp: site_protocol_def slashedProtocol_def hostlessProtocol_def toLowerCase_def lower1_def match_protocol_def
      letter_digit_def delims_def S_def)

lemma prefixed_same: "(s \<noteq> [] \<longrightarrow> hd s = c) \<Longrightarrow> prefixed c s = s"
  by (auto simp: prefixed_def)

lemma query_text_tail: "query_text (if search = [] then None else Some (QText q)) = Some (Inr [])"
  by (simp add: query_text_def)

lemma format_site:
  assumes "site_protocol p" "good_tail path search hash" "path \<noteq> [] \<longrightarrow> hd path = 47"
  shows "urlFormat_obj (with_tail path search hash (site p h port)) = Some (Inr (site_text p h port @ path @ search @ hash))"
  using assms(2,3) site_protocolD(1-3) [OF assms(1)]
  by (simp add: urlFormat_obj_def with_tail_def site_def no_url_def query_text_tail prefixed_same good_tail_def site_text_def Let_def
      del: append_assoc)

lemma format_relative:
  assumes "good_tail path search hash"
  shows "urlFormat_obj (with_tail path search hash no_url) = Some (Inr (path @ search @ hash))"
  using assms
  by (simp add: urlFormat_obj_def with_tail_def no_url_def query_text_tail prefixed_same good_tail_def Let_def)

section \<open>Reading the host\<close>

lemma host_part_chars: "host_part p \<Longrightarrow> c \<in> set p \<Longrightarrow> host_char c"
  by (cases p) (auto simp: host_part_def host_char_def list_all_iff)

lemma good_host_chars:
  assumes "good_host h" "c \<in> set h"
  shows "host_char c \<or> c = 46"
proof -
  have "c \<in> set (join [46] (split_on 46 h))" using assms(2) by (simp add: join_split_on)
  moreover have "c \<in> set (join [d] ps) \<Longrightarrow> c = d \<or> (\<exists>p \<in> set ps. c \<in> set p)" for d ps
    by (induction "[d]" ps rule: join.induct) auto
  ultimately consider "c = 46" | p where "p \<in> set (split_on 46 h)" "c \<in> set p" by blast
  then show ?thesis using assms(1) host_part_chars by cases (auto simp: good_host_def list_all_iff)
qed

lemma host_text_chars:
  assumes "good_host h" "good_port port" "c \<in> set (host_text h port)"
  shows "c \<notin> set nonHostChars" "c \<noteq> 64" "c \<noteq> 91" "c \<noteq> 39"
proof -
  have "host_char c \<or> c = 46 \<or> c = 58"
    using assms good_host_chars [OF assms(1), of c]
    by (auto simp: host_text_def good_port_def host_char_def letter_digit_def split: option.splits)
  then show "c \<notin> set nonHostChars" "c \<noteq> 64" "c \<noteq> 91" "c \<noteq> 39"
    by (auto simp: host_char_def letter_digit_def nonHostChars_def unwise_def autoEscape_def delims_def)
qed

lemma match_port_text:
  assumes "good_host h" "good_port port"
  shows "match_port (host_text h port) = (h, port)"
proof (cases port)
  case (Some ds)
  then have "takeWhile (\<lambda>c. 48 \<le> c \<and> c \<le> 57) (rev ds @ 58 # rev h) = rev ds"
    using assms(2) by (subst takeWhile_append2) (auto simp: good_port_def)
  then show ?thesis using assms(2) Some by (simp add: match_port_def host_text_def good_port_def)
next
  case None
  have "58 \<notin> set (drop n (rev h))" for n
    using good_host_chars [OF assms(1), of 58] by (auto simp: host_char_def letter_digit_def dest: in_set_dropD)
  then have "take 1 (drop n (rev h)) \<noteq> [58]" for n by (metis in_set_takeD list.set_intros(1))
  then show ?thesis using None by (simp add: match_port_def host_text_def Let_def)
qed

lemma cut_parts_good: "list_all host_part ps \<Longrightarrow> cut_parts vs ps = None"
  by (induction ps arbitrary: vs) simp_all

lemma idna_good: "list_all host_part ps \<Longrightarrow> idna ps = Some (Inr ps)"
  by (induction ps) (auto simp: list_all_iff dest: host_part_chars)

lemma index_of_after: "c \<notin> set a \<Longrightarrow> index_of [c] (a @ b) = Some i \<Longrightarrow> \<exists>j. i = length a + j \<and> index_of [c] b = Some j"
  by (induction a arbitrary: i) (auto simp: starts_with_def)

lemma parse_host_site:
  assumes "good_host h" "good_port port"
  shows "parse_host (no_url\<lparr>u_protocol := Some p, u_slashes := True\<rparr>) (host_text h port @ 47 # t) =
    Some (Inr (site p h port, 47 # t))"
proof -
  note c = host_text_chars [OF assms]
  have "take_auth (host_text h port @ 47 # t) = Some (Inr (None, host_text h port @ 47 # t))"
  proof (cases "index_of [64] (host_text h port @ 47 # t)")
    case (Some i)
    then obtain j where "i = length (host_text h port) + Suc j"
      using index_of_after [of 64 "host_text h port" "47 # t" i] c(2) by (fastforce simp: starts_with_def)
    then have "47 \<in> set (take i (host_text h port @ 47 # t))" by simp
    then show ?thesis using Some by (auto simp: take_auth_def nonAuthChars_def)
  qed (simp add: take_auth_def)
  moreover have "takeWhile (\<lambda>c. c \<notin> set nonHostChars) (host_text h port @ 47 # t) = host_text h port"
    using c by (subst takeWhile_append2) (auto simp: nonHostChars_def)
  moreover have "h \<noteq> [] \<Longrightarrow> hd h \<noteq> 91" using c(3) hd_in_set by (fastforce simp: host_text_def)
  moreover have "length h \<le> 255" "validate h (47 # t) = (h, 47 # t)" "toLowerCase h = h" "idna (split_on 46 h) = Some (Inr (split_on 46 h))"
    using assms(1) by (auto simp: good_host_def validate_def cut_parts_good idna_good intro: lower_id)
  ultimately show ?thesis
    using match_port_text [OF assms]
    by (cases "h = []") (simp_all add: parse_host_def Let_def join_split_on site_def no_url_def host_text_def)
qed

section \<open>Reading an address\<close>

lemma with_href_site:
  "site_protocol p \<Longrightarrow> good_tail path search hash \<Longrightarrow> (path \<noteq> [] \<longrightarrow> hd path = 47) \<Longrightarrow>
   with_href (with_tail path search hash (site p h port)) =
     Some (Inr ((with_tail path search hash (site p h port))\<lparr>u_href := Some (site_text p h port @ path @ search @ hash)\<rparr>))"
  by (simp add: with_href_def format_site)

lemma parse_site_text:
  assumes "site_protocol p" "good_host h" "good_port port" "good_tail (47 # path) search hash"
  shows "parse_address to_text False den (site_text p h port @ (47 # path) @ search @ hash) =
    Some (Inr ((with_tail (47 # path) search hash (site p h port))\<lparr>u_href := Some (site_text p h port @ (47 # path) @ search @ hash)\<rparr>))"
proof -
  note p = site_protocolD [OF assms(1)]
  let ?t = "host_text h port @ (47 # path) @ search @ hash"
  have written: "site_text p h port @ (47 # path) @ search @ hash = p @ [47, 47] @ ?t" by (simp add: site_text_def)
  have "parse_host (no_url\<lparr>u_protocol := Some p, u_slashes := True\<rparr>) ?t = Some (Inr (site p h port, (47 # path) @ search @ hash))"
    using parse_host_site [OF assms(2,3)] by simp
  moreover have "parse_rest to_text False (Some p) (site p h port) ((47 # path) @ search @ hash) = with_tail (47 # path) search hash (site p h port)"
    by (rule parse_rest_parts [OF assms(4)]) (simp_all add: site_def no_url_def)
  ultimately show ?thesis
    using with_href_site [OF assms(1,4)] p unfolding written
    by (simp add: parse_address_def no_url_def site_text_def)
qed

definition relative_path :: "jstring \<Rightarrow> bool" where
  "relative_path path \<longleftrightarrow> 58 \<notin> set path \<and> take 2 path \<noteq> [47, 47]"

lemma match_protocolD:
  assumes "match_protocol s = Some q"
  shows "\<exists>p r. s = p @ 58 # r \<and> (\<forall>c \<in> set p. letter_digit c \<or> c \<in> {46, 43, 45})"
proof (intro exI conjI)
  let ?p = "takeWhile (\<lambda>c. letter_digit c \<or> c \<in> {46, 43, 45}) s"
  have "take 1 (drop (length ?p) s) = [58]" using assms by (auto simp: match_protocol_def Let_def split: if_splits)
  then have "dropWhile (\<lambda>c. letter_digit c \<or> c \<in> {46, 43, 45}) s = 58 # tl (dropWhile (\<lambda>c. letter_digit c \<or> c \<in> {46, 43, 45}) s)"
    unfolding dropWhile_eq_drop by (cases "drop (length ?p) s") simp_all
  then show "s = ?p @ 58 # tl (dropWhile (\<lambda>c. letter_digit c \<or> c \<in> {46, 43, 45}) s)" by (metis takeWhile_dropWhile_id)
qed (auto dest: set_takeWhileD)

lemma match_protocol_None:
  assumes "good_tail path search hash" "58 \<notin> set path"
  shows "match_protocol (path @ search @ hash) = None"
proof (rule ccontr)
  assume "match_protocol (path @ search @ hash) \<noteq> None"
  then obtain p r where e: "path @ (search @ hash) = p @ 58 # r" and "\<forall>c \<in> set p. letter_digit c \<or> c \<in> {46, 43, 45}"
    using match_protocolD by blast
  then have proto: "\<forall>c \<in> set p. c \<noteq> 63 \<and> c \<noteq> 35" by (auto simp: letter_digit_def)
  define b where "b = search @ hash"
  have t: "hd b = 63 \<or> hd b = 35" if "b \<noteq> []"
    using that assms(1) by (cases search) (auto simp: good_tail_def b_def)
  from e have "(\<exists>us. path = p @ us \<and> us @ b = 58 # r) \<or> (\<exists>us. p = path @ us \<and> us @ 58 # r = b)"
    unfolding b_def [symmetric] by (simp only: append_eq_append_conv2) blast
  then show False
  proof (elim disjE exE conjE)
    fix us assume us: "path = p @ us" "us @ b = 58 # r"
    show False using us t assms(2) by (cases us) auto
  next
    fix us assume us: "p = path @ us" "us @ 58 # r = b"
    show False using us t proto by (cases us) auto
  qed
qed

lemma parse_relative_text:
  assumes "good_tail path search hash" "relative_path path"
  shows "parse_address to_text False den (path @ search @ hash) =
    Some (Inr ((with_tail path search hash no_url)\<lparr>u_href := Some (path @ search @ hash)\<rparr>))"
proof -
  note t = assms(1) [unfolded good_tail_def]
  have "match_protocol (path @ search @ hash) = None"
    using assms by (intro match_protocol_None) (simp_all add: relative_path_def)
  moreover have "take 2 (path @ search @ hash) \<noteq> [47, 47]"
    using t assms(2) by (cases path; cases "tl path"; cases search; cases hash; cases "tl search") (auto simp: relative_path_def numeral_2_eq_2)
  moreover have "dropWhile (\<lambda>c. c \<in> set delims) (path @ search @ hash) = path @ search @ hash"
    using t by (intro clean_dropWhile) (simp add: clean_simps)
  moreover have "parse_rest to_text False None no_url (path @ search @ hash) = with_tail path search hash no_url"
    by (rule parse_rest_parts [OF assms(1)]) (simp_all add: no_url_def)
  ultimately show ?thesis
    using format_relative [OF assms(1)]
    by (simp add: parse_address_def match_user_def with_href_def no_url_def)
qed

section \<open>The path of a resolved address\<close>

text \<open>
  A path is given by its parts after the first slash; only the last part may be empty.  The path that is meant is
  where a walk along the parts ends, with a slash at the end when the last part names no file.
\<close>

definition good_parts :: "jstring list \<Rightarrow> bool" where
  "good_parts ps \<longleftrightarrow> ps \<noteq> [] \<and> list_all good_part (butlast ps) \<and> slash \<notin> set (last ps)"

definition path_text :: "jstring list \<Rightarrow> jstring" where
  "path_text ps = slash # join [slash] ps"

definition settle :: "jstring list \<Rightarrow> jstring list" where
  "settle ps =
     (let names = rev (fst (walk_from ([], 0) (filter (\<lambda>p. p \<noteq> []) ps)))
      in if last ps \<in> {[], dot, dots} then names @ [[]] else names)"

lemma root_walk:
  "list_all good_part qs \<Longrightarrow> walk_from ([], 0) qs = (names, k) \<Longrightarrow>
   walk_from ([[]], 0) qs = (if k = 0 then (names @ [[]], 0) else (names, k - 1))"
proof (induction qs arbitrary: names k rule: rev_induct)
  case (snoc q qs)
  obtain ns j where w: "walk_from ([], 0) qs = (ns, j)" by fastforce
  show ?case using snoc.prems snoc.IH [OF _ w] w by (cases ns; cases j) (auto split: if_splits)
qed simp

lemma split_path: "good_parts ps \<Longrightarrow> split_on slash (path_text ps) = [] # ps"
proof -
  assume g: "good_parts ps"
  then have "\<forall>p \<in> set ps. slash \<notin> set p"
    by (cases ps rule: rev_cases) (auto simp: good_parts_def good_part_def list_all_iff)
  then show ?thesis using g split_on_join [of ps slash] by (simp add: path_text_def good_parts_def)
qed

lemma join_abs: "ps \<noteq> [] \<Longrightarrow> join [slash] ([] # ps) = path_text ps"
  by (cases ps) (simp_all add: path_text_def)

lemma join_snoc: "ps \<noteq> [] \<Longrightarrow> join [d] (ps @ [[]]) = join [d] ps @ [d]"
  by (induction "[d]" ps rule: join.induct) auto

lemma join_root: "join [slash] ([] # ps) = (if ps = [] then [] else path_text ps)"
  by (cases ps) (simp_all add: path_text_def)

text \<open>What is left by the loop over the dots, with the empty part of the first slash, and what is made of it.\<close>

lemma dots_left:
  assumes "good_parts ps" and "walk_from ([], 0) (filter (\<lambda>p. p \<noteq> []) ps) = (names, k)"
  shows "\<exists>up. normalize_back (rev ([] # ps)) 0 =
    ((if last ps = [] then [[]] else []) @ names @ (if k = 0 then [[]] else []), up)"
proof -
  obtain qs q where ps: "ps = qs @ [q]" "list_all good_part qs" "slash \<notin> set q"
    using assms(1) by (cases ps rule: rev_cases) (auto simp: good_parts_def)
  then have f: "filter (\<lambda>p. p \<noteq> []) qs = qs" by (auto simp: filter_id_conv list_all_iff)
  have root: "walk_from ([], 0) ([] # rs) = walk_from ([[]], 0) rs" for rs by simp
  show ?thesis
  proof (cases "q = []")
    case True
    then have "walk_from ([], 0) ([] # ps) = ([] # (if k = 0 then names @ [[]] else names), k - 1)"
      using root_walk [OF ps(2), of names k] assms(2) unfolding root by (simp add: ps f)
    from normalize_back_walk [OF this, of 0] show ?thesis using True ps by auto
  next
    case False
    then have "list_all good_part ps" using ps by (simp add: good_part_def)
    then have "walk_from ([], 0) ([] # ps) = (if k = 0 then names @ [[]] else names, k - 1)"
      using root_walk [of ps names k] assms(2) False unfolding root by (simp add: ps f)
    from normalize_back_walk [OF this, of 0] show ?thesis using False ps by auto
  qed
qed

lemma walked_names:
  assumes "good_parts ps" and "walk_from ([], 0) (filter (\<lambda>p. p \<noteq> []) ps) = (names, k)"
  shows "list_all plain_part names" and "last ps \<notin> {[], dot, dots} \<Longrightarrow> names \<noteq> []"
proof -
  obtain qs q where ps: "ps = qs @ [q]" "list_all good_part qs" "slash \<notin> set q"
    using assms(1) by (cases ps rule: rev_cases) (auto simp: good_parts_def)
  have "list_all good_part (filter (\<lambda>p. p \<noteq> []) ps)" using ps by (auto simp: list_all_iff good_part_def)
  then show "list_all plain_part names" using walk_plain [of "filter (\<lambda>p. p \<noteq> []) ps" "([], 0)"] assms(2) by simp
  show "names \<noteq> []" if "last ps \<notin> {[], dot, dots}"
    using that assms(2) ps by (cases "walk_from ([], 0) (filter (\<lambda>p. p \<noteq> []) qs)") (auto simp: ps)
qed

lemma dots_settle:
  assumes g: "good_parts ps" and host: "or_empty (u_host source) \<noteq> []"
  shows "resolve_dots False True True source rel ([] # ps) =
    (add_path (source\<lparr>u_pathname := Some (path_text (settle ps))\<rparr>))
      \<lparr>u_auth := (if or_empty (u_auth rel) \<noteq> [] then u_auth rel else u_auth source), u_slashes := u_slashes source \<or> u_slashes rel\<rparr>"
proof -
  obtain names k where w: "walk_from ([], 0) (filter (\<lambda>p. p \<noteq> []) ps) = (names, k)" by fastforce
  then obtain up where n: "normalize_back (rev ([] # ps)) 0 =
      ((if last ps = [] then [[]] else []) @ names @ (if k = 0 then [[]] else []), up)" using dots_left [OF g] by blast
  note plain = walked_names [OF g w]
  have good: "list_all good_part (rev names)" using plain(1) by (auto simp: list_all_iff plain_good)
  have last: "last ([] # ps) = last ps" using g by (simp add: good_parts_def)
  have settle: "settle ps = (if last ps \<in> {[], dot, dots} then rev names @ [[]] else rev names)"
    by (simp add: settle_def w)
  have ends: "path_text (rev names) \<noteq> []" "last (path_text (rev names)) \<noteq> 47" "last names \<noteq> []" "hd (last names) \<noteq> 47"
    if ne: "names \<noteq> []"
  proof -
    have l: "good_part (last names)" using ne good by (auto simp: list_all_iff)
    then show "last names \<noteq> []" "hd (last names) \<noteq> 47" by (cases "last names"; auto simp: good_part_def)+
    show "path_text (rev names) \<noteq> []" "last (path_text (rev names)) \<noteq> 47"
      using ne join_ends [OF good] by (simp_all add: path_text_def)
  qed
  have snoc: "path_text (rev names @ [[]]) \<noteq> []" "last (path_text (rev names @ [[]])) = 47"
    using join_snoc [of "rev names" 47] by (cases "names = []"; simp add: path_text_def)+
  show ?thesis
    unfolding resolve_dots_def n last settle Let_def
    using host plain(2) ends snoc
    by (cases "names = []"; cases "last ps = []"; cases "k = 0")
      (auto simp: join_root path_text_def hd_append hd_rev)
qed

section \<open>Resolving\<close>

text \<open>What decides how an address is written.\<close>

definition shows_site :: "url \<Rightarrow> jstring \<Rightarrow> jstring \<Rightarrow> jstring option \<Rightarrow> jstring \<Rightarrow> jstring \<Rightarrow> jstring \<Rightarrow> bool" where
  "shows_site u p h port path search hash \<longleftrightarrow>
     u_protocol u = Some p \<and> u_slashes u \<and> u_auth u = None \<and> u_host u = Some (host_text h port) \<and> u_pathname u = Some path \<and>
     u_search u = some_text search \<and> u_hash u = some_text hash \<and> (\<forall>kvs. u_query u \<noteq> Some (QPairs kvs))"

lemma format_shown:
  assumes "site_protocol p" "shows_site u p h port path search hash"
    and "hd path = 47" "search \<noteq> [] \<longrightarrow> hd search = 63" "hash \<noteq> [] \<longrightarrow> hd hash = 35"
  shows "urlFormat_obj u = Some (Inr (site_text p h port @ path @ search @ hash))"
proof -
  have "query_text (u_query u) = Some (Inr [])"
    using assms(2) by (auto simp: query_text_def shows_site_def split: option.splits uquery.splits)
  then show ?thesis
    using assms(2-) site_protocolD(1-3) [OF assms(1)]
    by (simp add: urlFormat_obj_def shows_site_def prefixed_same site_text_def Let_def del: append_assoc)
qed

lemma format_href: "urlFormat_obj (u\<lparr>u_href := x\<rparr>) = urlFormat_obj u"
  by (cases u) (simp only: urlFormat_obj_def url.select_convs url.update_convs)

definition relative_text :: "bool \<Rightarrow> jstring list \<Rightarrow> jstring" where
  "relative_text ab rs = (if rs = [] then [] else if ab then path_text rs else join [slash] rs)"

definition good_relative :: "bool \<Rightarrow> jstring list \<Rightarrow> bool" where
  "good_relative ab rs \<longleftrightarrow>
     (if rs = [] then \<not> ab else good_parts rs \<and> (rs = [[]] \<longrightarrow> ab)) \<and> (\<forall>r \<in> set rs. 58 \<notin> set r)"

definition resolved_parts :: "jstring list \<Rightarrow> bool \<Rightarrow> jstring list \<Rightarrow> jstring \<Rightarrow> jstring \<Rightarrow> jstring list" where
  "resolved_parts bs ab rs search hash =
     (if rs = [] then if search = [] \<and> hash \<noteq> [] then settle bs else bs
      else settle (if ab then rs else butlast bs @ rs))"

lemma set_join: "c \<in> set (join [d] ps) \<Longrightarrow> c = d \<or> (\<exists>p \<in> set ps. c \<in> set p)"
  by (induction "[d]" ps rule: join.induct) auto

lemma good_parts_cases:
  assumes "good_parts rs" "rs \<noteq> [[]]"
  shows "join [slash] rs \<noteq> []" "hd (join [slash] rs) \<noteq> slash" "split_on slash (join [slash] rs) = rs"
proof -
  obtain r rs' where rs: "rs = r # rs'" using assms(1) by (cases rs) (auto simp: good_parts_def)
  then have r: "r \<noteq> []" "slash \<notin> set r" using assms by (auto simp: good_parts_def good_part_def split: if_splits)
  then have "hd r \<noteq> slash" by (cases r) auto
  with r show "join [slash] rs \<noteq> []" "hd (join [slash] rs) \<noteq> slash" by (cases rs'; simp add: rs)+
  have "\<forall>p \<in> set rs. slash \<notin> set p"
    using assms(1) by (cases rs rule: rev_cases) (auto simp: good_parts_def good_part_def list_all_iff)
  then show "split_on slash (join [slash] rs) = rs" using assms(1) split_on_join by (simp add: good_parts_def)
qed

lemma relative_text_path:
  assumes "good_relative ab rs"
  shows "relative_path (relative_text ab rs)" "relative_text ab rs = [] \<longleftrightarrow> rs = []"
    "take 1 (relative_text ab rs) = [47] \<longleftrightarrow> ab" "rs \<noteq> [] \<Longrightarrow> split_on slash (relative_text ab rs) = (if ab then [] # rs else rs)"
proof -
  have "58 \<notin> set (join [slash] rs)" using assms set_join [of 58 slash rs] by (auto simp: good_relative_def)
  moreover have "join [slash] rs = [] \<or> hd (join [slash] rs) \<noteq> slash" "rs \<noteq> [] \<Longrightarrow> rs \<noteq> [[]] \<Longrightarrow> join [slash] rs \<noteq> []"
    using assms good_parts_cases [of rs] by (cases "rs = []"; cases "rs = [[]]"; auto simp: good_relative_def)+
  ultimately show "relative_path (relative_text ab rs)" "relative_text ab rs = [] \<longleftrightarrow> rs = []" "take 1 (relative_text ab rs) = [47] \<longleftrightarrow> ab"
    using assms
    by (cases "join [slash] rs"; auto simp: relative_path_def relative_text_def path_text_def good_relative_def split: if_splits)+
  show "split_on slash (relative_text ab rs) = (if ab then [] # rs else rs)" if "rs \<noteq> []"
    using that assms split_path [of rs] good_parts_cases(3) [of rs] by (auto simp: relative_text_def good_relative_def)
qed

lemma resolve_site:
  assumes site: "good_parts bs" "good_tail (path_text bs) s1 h1" "site_protocol p" "good_host h"
    and rel: "good_relative ab rs" "good_tail (relative_text ab rs) s2 h2"
    and some: "relative_text ab rs @ s2 @ h2 \<noteq> []"
    and M: "M = (with_tail (path_text bs) s1 h1 (site p h port))\<lparr>u_href := m, u_hash := some_text h2\<rparr>"
    and R: "R = (with_tail (relative_text ab rs) s2 h2 no_url)\<lparr>u_href := r\<rparr>"
  shows "shows_site (resolve_path M R) p h port (path_text (resolved_parts bs ab rs s2 h2)) (if rs = [] \<and> s2 = [] then s1 else s2) h2"
proof -
  note p = site_protocolD [OF site(3)] and t = relative_text_path [OF rel(1)]
  have host: "host_text h port \<noteq> []" using site(4) by (cases h) (auto simp: host_text_def good_host_def host_part_def)
  have src: "path_parts M = [] # bs" "starts_abs M"
    using split_path [OF site(1)] by (simp_all add: M with_tail_def path_parts_def starts_abs_def path_text_def)
  have r: "starts_abs R = ab" "path_parts R = (if rs = [] then [] else if ab then [] # rs else rs)"
    using t by (simp_all add: R with_tail_def path_parts_def starts_abs_def)
  have f: "u_host R = None" "u_protocol R = None" "u_search R = some_text s2" "u_hostname R = None" "u_auth R = None" "\<not> u_slashes R"
      "u_query R = (if s2 = [] then None else Some (QText (tl s2)))"
      "u_protocol M = Some p" "u_host M = Some (host_text h port)" "u_slashes M" "u_auth M = None" "u_hash M = some_text h2"
      "u_search M = some_text s1" "u_pathname M = Some (path_text bs)" "u_query M = (if s1 = [] then None else Some (QText (tl s1)))"
    by (simp_all add: R M with_tail_def no_url_def site_def some_text_def path_text_def)
  note d = dots_settle [of _ _ R] and e = resolve_path_def [of M R, unfolded Let_def, simplified r src f p, simplified]
  consider "rs = []" "\<not> ab" "s2 \<noteq> []" | "rs = []" "\<not> ab" "s2 = []" | "rs \<noteq> []" ab | "rs \<noteq> []" "\<not> ab"
    using rel(1) by (auto simp: good_relative_def)
  then show ?thesis
  proof cases
    case 1
    then show ?thesis
      by (simp add: e f r src shows_site_def path_if_def add_path_def resolved_parts_def)
  next
    case 2
    then have "h2 \<noteq> []" using some t(2) by simp
    then show ?thesis using 2 d [OF site(1), of M] host
      by (simp add: e f r src shows_site_def add_path_def resolved_parts_def)
  next
    case 3
    then have "good_parts rs" using rel(1) by (auto simp: good_relative_def)
    from d [OF this] 3 host show ?thesis
      by (simp add: e f r src shows_site_def add_path_def resolved_parts_def or_undefined_def)
  next
    case 4
    then have "good_parts (butlast bs @ rs)" using rel(1) site(1)
      by (auto simp: good_relative_def good_parts_def list_all_iff butlast_append)
    from d [OF this] 4 host site(1) show ?thesis
      by (simp add: e f r src shows_site_def add_path_def resolved_parts_def good_parts_def)
  qed
qed

lemma format_text:
  assumes "site_protocol p" "good_host h" "good_port port" "good_tail (47 # path) search hash"
  shows "urlFormat to_text (UText (site_text p h port @ (47 # path) @ search @ hash)) = Some (Inr (site_text p h port @ (47 # path) @ search @ hash))"
  using parse_site_text [OF assms] format_site [OF assms(1,4)]
  by (simp add: urlFormat_def urlParse_def format_href)

lemma format_relative_text:
  assumes "good_tail path search hash" "relative_path path"
  shows "urlFormat to_text (UText (path @ search @ hash)) = Some (Inr (path @ search @ hash))"
  using parse_relative_text [OF assms] format_relative [OF assms(1)]
  by (simp add: urlFormat_def urlParse_def format_href)

text \<open>
  C39: An address relative to \<open>protocol://host:port/path?search#hash\<close> resolves to the address on the same host whose
  path is where the walk along the parts ends.
\<close>

theorem resolve_is_walk:
  assumes "site_protocol p" "good_host h" "good_port port" "good_parts bs" "good_tail (path_text bs) s1 h1"
    and "good_relative ab rs" "good_tail (relative_text ab rs) s2 h2"
  shows "urlResolve to_text (UText (site_text p h port @ path_text bs @ s1 @ h1)) (UText (relative_text ab rs @ s2 @ h2)) =
    Some (Inr (site_text p h port @ path_text (resolved_parts bs ab rs s2 h2) @ (if rs = [] \<and> s2 = [] then s1 else s2) @ h2))"
proof -
  let ?src = "site_text p h port @ path_text bs @ s1 @ h1" and ?rel = "relative_text ab rs @ s2 @ h2"
  let ?S = "(with_tail (path_text bs) s1 h1 (site p h port))\<lparr>u_href := Some ?src\<rparr>"
  let ?M = "?S\<lparr>u_hash := some_text h2\<rparr>" and ?R = "(with_tail (relative_text ab rs) s2 h2 no_url)\<lparr>u_href := Some ?rel\<rparr>"
  have b: "good_tail (47 # join [slash] bs) s1 h1" using assms(5) by (simp add: path_text_def)
  note t = relative_text_path [OF assms(6)]
  have steps: "urlFormat to_text (UText ?src) = Some (Inr ?src)" "urlParse to_text (UText ?src) False True = Some (Inr ?S)"
    "urlFormat to_text (UText ?rel) = Some (Inr ?rel)" "urlParse to_text (UText ?rel) False True = Some (Inr ?R)"
    using format_text [OF assms(1-3) b] parse_site_text [OF assms(1-3) b] format_relative_text [OF assms(7) t(1)]
      parse_relative_text [OF assms(7) t(1)]
    by (simp_all add: path_text_def urlParse_def)
  let ?u = "if ?rel = [] then ?M else resolve_path ?M ?R"
  have shown: "shows_site ?u p h port (path_text (resolved_parts bs ab rs s2 h2)) (if rs = [] \<and> s2 = [] then s1 else s2) h2"
  proof (cases "?rel = []")
    case True
    then show ?thesis using t(2)
      by (simp add: shows_site_def resolved_parts_def with_tail_def site_def no_url_def path_text_def)
  next
    case False
    show ?thesis unfolding if_not_P [OF False]
      by (rule resolve_site [OF assms(4,5,1,2,6,7) False]) simp_all
  qed
  let ?out = "site_text p h port @ path_text (resolved_parts bs ab rs s2 h2) @ (if rs = [] \<and> s2 = [] then s1 else s2) @ h2"
  have o: "urlFormat_obj ?u = Some (Inr ?out)"
    using assms(5,7) by (intro format_shown [OF assms(1) shown]) (simp_all add: good_tail_def path_text_def)
  then have u: "with_href ?u = Some (Inr (?u\<lparr>u_href := Some ?out\<rparr>))" by (simp only: with_href_def res_bind_simps)
  have r: "u_href ?R = Some ?rel" "u_slashes ?R = False" "u_protocol ?R = None" "u_hash ?R = some_text h2"
    by (simp_all add: with_tail_def no_url_def)
  have "resolve_urls ?S ?R = with_href ?u"
    by (simp only: resolve_urls_def r Let_def or_empty_simps simp_thms if_False split: if_split) blast
  moreover have "?src \<noteq> []" by (simp add: site_text_def)
  ultimately have "urlResolveObject to_text (UText ?src) (UText ?rel) = Some (Inr (UObj (?u\<lparr>u_href := Some ?out\<rparr>)))"
    by (simp only: urlResolveObject_def steps res_bind_simps u url_arg.inject if_False option.map map_sum.simps)
  then show ?thesis using o by (simp only: urlResolve_def urlFormat_def format_href res_bind_simps url_arg.case)
qed

theorem resolve_is_walk_witness:
  "urlResolve id (UText (S ''http://host:8080/a/b?x'')) (UText (S ''../c/.#y'')) = Some (Inr (S ''http://host:8080/c/#y''))"
proof -
  have h: "S ''host'' = [104, 111, 115, 116]" by (simp add: S_def)
  show ?thesis
    using resolve_is_walk [of "S ''http:''" "S ''host''" "Some (S ''8080'')" "[S ''a'', S ''b'']" "S ''?x''" "[]" False "[dots, S ''c'', dot]" "[]" "S ''#y''" id]
    by (simp add: site_protocol_def good_host_def h host_part_def letter_digit_def host_char_def good_port_def S_def good_parts_def
        good_part_def good_tail_def clean_def delims_def path_text_def good_relative_def relative_text_def site_text_def
        host_text_def resolved_parts_def settle_def)
qed

section \<open>Where addresses are not what they seem\<close>

text \<open>
  An address with a host of its own, resolved against one with the same protocol, gets the user of the other one, whose
  password so goes to a host it is not meant for; the field of the port is that of the other one too.
\<close>

lemma auth_follows_host:
  assumes "slashedProtocol (u_protocol s)" "u_host r = Some h" "or_empty (u_auth r) = []" "starts_abs r"
  shows "u_host (resolve_path s r) = Some h \<and> u_auth (resolve_path s r) = u_auth s \<and> u_port (resolve_path s r) = u_port s"
proof -
  have "path_parts r \<noteq> []" using assms(4) by (auto simp: starts_abs_def path_parts_def)
  then show ?thesis
    using assms by (simp add: resolve_path_def resolve_dots_def add_path_def or_undefined_def Let_def split: prod.split)
qed

text \<open>Without a path and a search the path for a request is made of a search that is undefined.\<close>

lemma undefined_path: "u_path (resolve_path no_url no_url) = Some (S ''/undefined'')"
  by (simp add: resolve_path_def no_url_def starts_abs_def path_parts_def S_def)

text \<open>A part of a host name that begins with another character is left out of the address if it is the last one.\<close>

lemma part_dropped: "validate (S ''a.-b'') rest = (S ''a'', rest)"
  by (simp add: validate_def host_part_def host_part_start_def letter_digit_def host_char_def S_def)

text \<open>The protocol is looked up as it was written: in capitals it has a host, where in small letters it has none.\<close>

lemma capitals_have_host:
  "hostlessProtocol (match_protocol (S ''javascript:x''))" "\<not> hostlessProtocol (match_protocol (S ''JAVASCRIPT:x''))"
  "map_option toLowerCase (match_protocol (S ''JAVASCRIPT:x'')) = match_protocol (S ''javascript:x'')"
  by (simp_all add: hostlessProtocol_def match_protocol_def letter_digit_def toLowerCase_def lower1_def S_def)

end
