(* ===== verification/UrlQuery.thy ===== *)
theory UrlQuery
  imports UrlResolve
begin

text \<open>
  The address of a request as the server reads it: \<open>url.parse(request.url, true)\<close> finds the path and the pairs of the
  query that \<open>querystring.stringify\<close> wrote.
\<close>

section \<open>The characters of a written query\<close>

lemma point_quote: "str_points s = Some ps \<Longrightarrow> 39 \<in> set ps \<Longrightarrow> 39 \<in> set s"
  by (induction s arbitrary: ps rule: str_points.induct) (fastforce split: if_splits list.splits)+

lemma encoded_quote:
  assumes "units s" "encodeURIComponent s = Some e" "39 \<in> set e"
  shows "39 \<in> set s"
proof -
  obtain ps where ps: "str_points s = Some ps" "e = concat (map encode_point ps)"
    using assms(2) by (auto simp: encodeURIComponent_def)
  then obtain p where p: "p \<in> set ps" "39 \<in> set (encode_point p)" using assms(3) by auto
  have "39 \<notin> set (pct b)" for b by (simp add: pct_def hex_char_def)
  then have "p = 39" using p(2) by (auto simp: encode_point_def split: if_splits)
  then show ?thesis using point_quote ps(1) p(1) by blast
qed

lemma pair_text_chars:
  assumes "sound k" "sound v" "39 \<notin> set k" "39 \<notin> set v" "c \<in> set (pair_text 61 k v)"
  shows "c \<noteq> 39 \<and> (c = 61 \<or> c = 37 \<or> unreserved c)"
proof -
  have p: "qs_pair [61] k v = Some (pair_text 61 k v)" by (rule pair_text [OF assms(1,2)])
  then have "c = 61 \<or> c = 37 \<or> unreserved c"
    using parse_pair_written(2) [OF assms(1,2), of 61 _ c] assms(5) by (simp add: unreserved_def)
  moreover obtain ek ev where "encodeURIComponent k = Some ek" "encodeURIComponent v = Some ev" "pair_text 61 k v = ek @ 61 # ev"
    using p by (auto simp: qs_pair_def bind_eq_Some_conv)
  ultimately show ?thesis using assms encoded_quote by (auto simp: sound_def)
qed

definition no_quotes :: "(jstring \<times> qval) list \<Rightarrow> bool" where
  "no_quotes kvs \<longleftrightarrow> (\<forall>(k, v) \<in> set (qs_pairs kvs). 39 \<notin> set k \<and> 39 \<notin> set v)"

lemma query_chars:
  assumes "sound_obj kvs" "no_quotes kvs" "c \<in> set (join [38] (pair_texts 61 (qs_pairs kvs)))"
  shows "c \<notin> set delims" "c \<noteq> 39" "c \<noteq> 35"
proof -
  from set_join [OF assms(3)] consider "c = 38" | k v where "(k, v) \<in> set (qs_pairs kvs)" "c \<in> set (pair_text 61 k v)"
    by (auto simp: pair_texts_def)
  then have "c = 38 \<or> c \<noteq> 39 \<and> (c = 61 \<or> c = 37 \<or> unreserved c)"
  proof cases
    case 2
    then show ?thesis using pair_text_chars sound_pairs [OF assms(1)] assms(2) by (fastforce simp: no_quotes_def)
  qed simp
  then show "c \<notin> set delims" "c \<noteq> 39" "c \<noteq> 35" by (auto simp: delims_def unreserved_def)
qed

section \<open>Reading it\<close>

lemma read_value: "qval_list (qval_of (qres_of q)) = qval_list q"
  by (simp add: qval_of_def qres_of_def split: list.split) (simp add: qval_list_def stringifyPrimitive_def comp_def)

lemma read_again: "sound_obj kvs \<Longrightarrow> \<exists>t. qs_stringify (Obj (map (\<lambda>(k, r). (k, qval_of r)) (map (\<lambda>(k, q). (k, qres_of q)) kvs))) [] [] [] = Some t"
  by (rule exI, rule stringify_text [where b = 61, OF _ refl]) (auto simp: sound_obj_def read_value or_default_def)

definition request_path :: "jstring \<Rightarrow> bool" where
  "request_path path \<longleftrightarrow> path \<noteq> [] \<and> hd path = 47 \<and> take 2 path \<noteq> [47, 47] \<and> clean path \<and> 35 \<notin> set path \<and> 63 \<notin> set path"



end
