(* ===== verification/Spec2Isabelle.thy ===== *)
theory Spec2Isabelle
  imports Sysex Requests EngineEnds TreeBuild ParamValue Printf UploadForm Automation Pages Startup Labels Effects Client Server ConfigTypes
    PathNames TimerRuns OnceListeners StringDecoder QueryString BufferNumbers BufferTexts Base64Codec UrlQuery
begin

text \<open>
  The Lexicon MPX G2 editor: a program that reads and changes the programs of a guitar effect
  over MIDI and shows them in web browsers.  This development models its own JavaScript: the files
  of \<open>src/mpxg2-dev\<close>, the form parser \<open>src/lib/form.js\<close> and the script of the pages
  \<open>src/main/js/mpxedit.js\<close>; and the parts of the library of node, which the repository ships under
  \<open>src/lib\<close>, that are algorithms and data structures of their own: names of files, timers, events, buffers,
  text decoding, query strings and the names of hosts.

  \<^bold>\<open>How the program works.\<close>  \<open>sysex.js\<close> cuts the stream of MIDI bytes into system-exclusive
  messages and hands each to \<open>sysex_callback\<close> of \<open>lexicon.js\<close>, which offers it to the pending
  requests and otherwise to the parser of its type.  \<open>lexicon.js\<close> also keeps the configuration, a
  tree of control levels with the description of every object type, learnt from the device by
  walking the tree or read from a file.  \<open>main.js\<close> turns the tree into pages, keeps the library of
  programs, and connects the browsers: what a user enters becomes a data message to the device, what
  the device reports becomes a script for the browsers.  \<open>server.js\<close> answers the requests of the
  browsers, \<open>form.js\<close> reads what they upload, and \<open>mpxedit.js\<close> is what they run.

  \<^bold>\<open>Theories, from the bytes to the browser.\<close>

  \<^item> \<open>Prelude\<close>, \<open>JsString\<close>, \<open>Nibbles\<close>: JavaScript numbers with \<open>NaN\<close> (\<open>jnum\<close>), the bit operations
    on 32 bits, errors as values (\<open>res\<close>), strings as lists of 16-bit units, and the encoding of a byte
    as two and a word as four nibbles (\<open>nibblize\<close>, \<open>nibblize16\<close>), with one locale for both encodings.
  \<^item> \<open>Sysex\<close>: \<open>sysex.js\<close>, state \<open>sysex_state\<close> (the buffer and its offsets), operation
    \<open>sysex_parse\<close>.  The locale \<open>chunked_reader\<close> states what a reader of a byte stream promises; the
    specification works on the pending bytes.  Shown: refinement, independence of the chunks,
    totality, and what goes wrong with a second or an empty message.
  \<^item> \<open>ControlTree\<close>: the configuration (\<open>config\<close>, \<open>ctree\<close>, \<open>odesc\<close>) and its addresses: level
    numbers, dotted names (\<open>getLevelName\<close>, \<open>getLevelsByName\<close>), the hexadecimal addresses of the
    pages, and the addresses of programs.  Shown: each kind of address leads back to the levels.
  \<^item> \<open>Messages\<close>, \<open>ConfigTypes\<close>: every parser of \<open>lexicon.js\<close>.  Shown: descriptions are read back,
    the first type of a path stays, and the configuration stays well typed on any bytes.
  \<^item> \<open>Requests\<close>: the messages the program makes and their bytes (\<open>midi_message_send\<close>), data messages by
    levels and by name (\<open>set\<close>, \<open>get\<close>, \<open>dataType\<close>).  Shown: which request a data message answers, and
    what a number set by the user is sent as.
  \<^item> \<open>Engine\<close>, \<open>EngineEnds\<close>: the queue, the pending requests, timeouts and retries as operations on a
    state \<open>engine\<close> whose messages live in a heap, because they are shared and changed in place, and
    as the step relation \<open>engine_run\<close>, in which messages arrive, timers fire and the program sends in
    any order.  Shown by rule induction: a request is answered at most once, is sent a bounded number of
    times, the queue is always drained, and the handling of a message ends.
  \<^item> \<open>TreeBuild\<close>, \<open>Startup\<close>: the walk that learns the control tree, and the start of the program with
    the handshake, the stored configuration and \<open>file.js\<close>.  Shown: the walk asks for every node
    once and ends, the first start stores what the next one reads.
  \<^item> \<open>ParamValue\<close>, \<open>Labels\<close>, \<open>Printf\<close>: values between nibbles and texts (\<open>getObjectValue\<close>, the label
    table, the formatter \<open>printf.js\<close>).  Shown: an entry is read back, hexadecimal fields, and where
    the formatter deviates from what it is meant to do.
  \<^item> \<open>Library\<close>: the library of programs, dumps of all programs with their timers, and the dialogue with
    the display of the device.  Shown: the library loses nothing, the file is complete, the dialogue
    ends.
  \<^item> \<open>Automation\<close>, \<open>Effects\<close>, \<open>Pages\<close>, \<open>Browser\<close>: the part of \<open>main.js\<close> that faces the browsers: the
    scripts of changes (\<open>hub\<close> is the state: the queue of messages and the registered browsers), the
    steps and destinations the effects use, the text of a page (\<open>controlTree_gui\<close>, \<open>loop\<close>), the
    socket handlers and the pages of the set-up.  Shown: every registered browser gets every change
    that comes while no page is being made, once and in order, a page shows every node below it once with its value.
  \<^item> \<open>Client\<close>, \<open>UploadForm\<close>, \<open>Server\<close>: the script of the pages, the upload of files from the browser's
    form to the device, and the files the server sends.  Shown: the browser sends back the value a
    page was made from, uploaded files reach the device byte for byte.
  \<^item> \<open>PathNames\<close>: \<open>path.js\<close>, names of files in the POSIX form.  Shown: the backward loop over the parts
    (\<open>normalizeArray\<close>) is a walk along them, and \<open>relative\<close> leads where it should.
  \<^item> \<open>LinkList\<close>, \<open>Timers\<close>, \<open>TimerRuns\<close>: \<open>_linklist.js\<close> on links between objects, refined to queues, and
    \<open>timers.js\<close> on a state \<open>timer_state\<close> with the lists of idle items and the native watchers.  Shown for every
    run in which the program calls, watchers fire and callbacks call in turn: a cleared timer is never called, one
    left alone is called, once and at most a millisecond early, and the loop over a list ends.
  \<^item> \<open>Events\<close>, \<open>OnceListeners\<close>: \<open>events.js\<close>, where listeners may use the emitter that calls them, refined to
    plain lists of listeners.  Shown: when \<open>once\<close> calls at most once, and when it does not.
  \<^item> \<open>Utf8\<close>, \<open>StringDecoder\<close>, \<open>Uri\<close>, \<open>QueryString\<close>: \<open>string_decoder.js\<close> against a locale of text readers, the
    coding of URI components, and \<open>querystring.js\<close>.  Shown: decoding does not depend on the chunks, what
    \<open>stringify\<close> writes \<open>parse\<close> reads.
  \<^item> \<open>Punycode\<close>: \<open>punycode.js\<close>.  Shown by following the encoder and the decoder pass by pass: a name of a host
    comes back, with the two kinds of input for which it does not.
  \<^item> \<open>Url\<close>, \<open>UrlResolve\<close>, \<open>UrlQuery\<close>: \<open>url.js\<close>, with a parsed address as the record \<open>url\<close>; it calls the models of
    \<open>querystring.js\<close> and \<open>punycode.js\<close>.  Shown: an address is read as the parts it was written from, a relative one
    resolves to where a walk along its path ends, and the server reads the pairs of a query that were written.
  \<^item> \<open>BufferNumbers\<close>, \<open>BufferPool\<close>, \<open>BufferViews\<close>, \<open>BufferTexts\<close>, \<open>Base64Codec\<close>: \<open>buffer.js\<close>: integers in buffers, the pool in
    which small buffers share blocks, with the state \<open>blocks\<close>, and texts.  Shown: integers, hexadecimal and base64 texts
    round trip, a checked write throws exactly when it should, and the pool is invisible: every run gives what it
    gives on separate arrays.  The cases in which it is not are named by \<open>buf_safe\<close> and shown one by one.
  \<^item> This theory: what a sender writes leaves the receiver's parsers as the same message.

  \<^bold>\<open>Parameters.\<close>  What is not code of the repository is an argument: the answers of the device, the
  opening of ports, the JSON text and the UTF-8 text of a file, the hash of a program, the numbers
  \<open>parseFloat\<close> and its relatives give, the templates of pages, the random boundary of a form, and what
  the callbacks of requests do (\<open>react\<close>), which is instantiated with the callback of
  \<open>dataMessage_request\<close>.  Files, sockets and timers are states or lists of effects.  In the library of node the
  callbacks of timers and the listeners are functions from what they are called with to the operations they
  perform; the text of bytes, the encodings other than hexadecimal (base64 is one to put in) and what new memory
  holds are arguments.

  \<^bold>\<open>Fuel.\<close>  The loop of the tree walk and of the pages is given fuel for the number of nodes below, which
  the theorems show to be enough; the dialogue of a dump ends after six looks at the display at
  most.  The loop over the pending requests can be lengthened by the callbacks it calls;
  \<open>EngineEnds\<close> shows that enough fuel exists, and that more changes nothing, as long as what callbacks
  send does not itself answer by sending.  The loop over a list of timers takes fuel for the objects there are, one
  more of which is enough for durations of two milliseconds and more (\<open>timer_loop_ends\<close>); emissions within
  emissions take fuel for their depth, and a run that exceeds it gives no result.  The encoder of names takes fuel
  for its passes, of which there are no more than code points (\<open>domain_roundtrip\<close>).  The other loops are total
  functions.

  \<^bold>\<open>Not modelled.\<close>  What is written to the console; \<open>/led\<close>, which hands an answer on as JSON;
  \<open>mpx_controlTree_gui\<close>, which nothing calls; the debug listing \<open>_optionTypeList_build\<close>; the
  layout of pages, dialogs and the listeners for dragging in \<open>mpxedit.js\<close>; starting a browser
  (\<open>_utils.js\<close>), the one-line loader \<open>midi.js\<close> and the set-up of the sockets in \<open>server.js\<close>, which
  only call other programs; the generated \<open>data.js\<close>, here the built-in part of a disk.  Of
  the modelled library files: the Windows form of names, exceptions of timer callbacks, keys and event types named
  like a property every object inherits, small letters outside ASCII, file names outside ASCII in an uploaded
  form, floating-point numbers in buffers and the
  methods of a \<open>SlowBuffer\<close> that repeat those of a buffer.  The rest of the library of node mostly hands calls on to the runtime; the runtime
  itself with V8, jQuery, jQuery Mobile and socket.io are shipped in the repository but are not code of this
  program.
\<close>

section \<open>From the sender to the receiver\<close>

lemma request_is_frame:
  assumes "word_levels ls" and "ds \<noteq> []"
    and "COMPANY_ID dev < 128" and "PRODUCT_ID dev < 128" and "DEVICE_ID dev < 128"
  shows "\<exists>body. request_bytes dev False (data_message path (length ls) ls (enc_bytes ds)) = frame body
            \<and> good_body body \<and> filter is_data body = body"
proof -
  let ?m = "data_message path (length ls) ls (enc_bytes ds)"
  define body where "body = [COMPANY_ID dev, PRODUCT_ID dev, DEVICE_ID dev, 1] @
     nibblize16 (Some (int (length ds))) @ enc_bytes ds @
     nibblize16 (Some (int (length ls))) @ enc_words (nums ls)"
  have nib: "x < 128" if "x < 16" for x :: nat using that by simp
  have "\<forall>x \<in> set (nibblize16 v). x < 128" for v using nibblize16_less nib by blast
  moreover have "\<forall>x \<in> set (enc_bytes ds). x < 128" using enc_bytes_nibbles nib by blast
  moreover have "\<forall>x \<in> set (enc_words (nums ls)). x < 128" using enc_words_nibbles nib by blast
  ultimately have small: "\<forall>x \<in> set body. x < 128"
    using assms(3-5) unfolding body_def set_append ball_Un by simp
  have frame: "request_bytes dev False ?m = frame body"
    unfolding data_message_bytes [OF assms(1,2)]
    by (simp add: frame_def body_def msg_head_def data_message_def DATA_def)
  have ne: "body \<noteq> []" by (simp add: body_def)
  have "last body < 128" using small last_in_set [OF ne] by blast
  moreover have "247 \<notin> set body" using small by auto
  moreover have "filter is_data body = body" using small by (simp add: filter_id_conv)
  ultimately show ?thesis using frame ne by (auto simp: good_body_def)
qed

text \<open>
  C1: A data message survives the transport: its bytes, sent in one piece or in pieces of 16
  and cut again into chunks in any way on the other side, come out of the sysex parser as one
  message, from which the data and the levels are read back.
\<close>

theorem data_message_survives_transport:
  assumes "word_levels ls" and "ds \<noteq> []" and "bytes ds" and "length ds < 65536"
    and "COMPANY_ID dev < 128" and "PRODUCT_ID dev < 128" and "DEVICE_ID dev < 128"
    and "concat chunks =
      concat (midi_message_send dev False (data_message path (length ls) ls (enc_bytes ds)))"
  shows "\<exists>s' buf. sysex_run sysex_init chunks = Some (s', [buf]) \<and> pending s' = [] \<and>
           read_data buf = (ds, 9 + 2 * length ds) \<and>
           read_levels False buf (9 + 2 * length ds) = (Some (int (length ls)), ls)"
proof -
  let ?buf = "request_bytes dev False (data_message path (length ls) ls (enc_bytes ds))"
  obtain body where b: "?buf = frame body" "good_body body" "filter is_data body = body"
    using request_is_frame [OF assms(1,2,5-7)] by blast
  have "concat chunks = frame body"
    using assms(8) b(1) by (simp add: midi_message_send_def sendMessages_concat)
  then have "sysex.reads sysex_init chunks [] [frame (filter is_data body)]"
    using reads_fragments [OF b(2), of sysex_init chunks] by (simp add: frame_def)
  then have "\<exists>s'. sysex_run sysex_init chunks = Some (s', [?buf]) \<and> pending s' = []"
    using sysex_readsD b by fastforce
  with data_message_parsed [OF assms(1-4) refl] show ?thesis by blast
qed

theorem data_message_survives_transport_witness:
  "\<exists>s' buf. sysex_run sysex_init
       [[240, 6, 15, 0, 1, 1, 0, 0, 0, 4], [3, 2, 0, 0, 0, 1, 0, 0, 0, 2, 1, 0, 0, 247]] = Some (s', [buf]) \<and>
     pending s' = [] \<and> read_data buf = ([52], 11) \<and>
     read_levels False buf 11 = (Some 2, [Some 1, Some 18])"
  using data_message_survives_transport [of "[Some 1, Some 18]" "[52]" mpxg2_ids
      "[[240, 6, 15, 0, 1, 1, 0, 0, 0, 4], [3, 2, 0, 0, 0, 1, 0, 0, 0, 2, 1, 0, 0, 247]]" None]
  by (simp add: word_levels_def mpxg2_ids_def midi_message_send_def sendMessages_concat
      request_bytes_def request_body_def level_bytes_def data_message_def DATA_def nibblize16_Some
      nibblize_num_Some numeral_2_eq_2 del: sysex_run.simps)

end
